(* ===== verification/Prelude.thy ===== *)
theory Prelude
  imports Main "HOL-Library.Word" "HOL-Library.Signed_Division"
begin

text \<open>
  The vocabulary every component of the Contur 2 kernel simulator shares.

  \<^item> the integer types of \<^verbatim>\<open>core/types.h\<close> as words of their C++ width;
    \<^verbatim>\<open>std::size_t\<close> counts and indices of in-memory containers are \<open>nat\<close>;
  \<^item> \<open>error_code\<close> and \<open>'a result\<close> of \<^verbatim>\<open>core/error.h\<close>;
  \<^item> signed \<open>int32_t\<close> arithmetic: exact where the C++ expression is defined, and the
    unspecified value \<open>undefined\<close> where the C++ standard leaves the expression undefined
    (overflow, shift count out of range), so that no theorem says anything about it;
  \<^item> the algorithms of the C++ standard library the sources call
    (\<^verbatim>\<open>std::min_element\<close>, \<^verbatim>\<open>std::max_element\<close>, \<^verbatim>\<open>std::remove_if\<close>,
    iteration over unordered containers);
  \<^item> generic list, map and word lemmas, and the collections of facts the component
    proofs use.
\<close>

unbundle bit_operations_syntax

named_theorems results \<open>simplification rules for results\<close>
named_theorems inv_pres \<open>preservation of component invariants by the operations\<close>

section \<open>Types of core/types.h\<close>

type_synonym process_id = "32 word"
type_synonym memory_address = "32 word"
type_synonym tick = "64 word"
type_synonym register_value = "32 word"
type_synonym device_id = "16 word"
type_synonym subscription_id = "64 word"
type_synonym resource_id = "32 word"
type_synonym inode_id = "32 word"
type_synonym frame_id = "32 word"
type_synonym byte = "8 word"

datatype inode_type = File | Directory

definition INVALID_PID :: process_id where "INVALID_PID = 0"
definition NULL_ADDRESS :: memory_address where "NULL_ADDRESS = 0xFFFFFFFF"
definition INVALID_FRAME :: frame_id where "INVALID_FRAME = 0xFFFFFFFF"
definition INVALID_INODE_ID :: inode_id where "INVALID_INODE_ID = 0"
definition REGISTER_COUNT :: nat where "REGISTER_COUNT = 16"
definition DEFAULT_TIME_SLICE :: nat where "DEFAULT_TIME_SLICE = 4"
definition MAX_PROCESSES :: nat where "MAX_PROCESSES = 1024"

section \<open>Error codes and results of core/error.h\<close>

datatype error_code =
    OkCode
  | OutOfMemory
  | InvalidPid
  | InvalidAddress
  | DivisionByZero
  | InvalidInstruction
  | SegmentationFault
  | DeviceError
  | ProcessNotFound
  | PermissionDenied
  | Timeout
  | DeadlockDetected
  | InvalidState
  | InvalidArgument
  | ResourceBusy
  | NotFound
  | AlreadyExists
  | BufferFull
  | BufferEmpty
  | EndOfFile
  | NotImplemented

fun errorCodeToString :: "error_code \<Rightarrow> string" where
  "errorCodeToString OkCode = ''Ok''"
| "errorCodeToString OutOfMemory = ''OutOfMemory''"
| "errorCodeToString InvalidPid = ''InvalidPid''"
| "errorCodeToString InvalidAddress = ''InvalidAddress''"
| "errorCodeToString DivisionByZero = ''DivisionByZero''"
| "errorCodeToString InvalidInstruction = ''InvalidInstruction''"
| "errorCodeToString SegmentationFault = ''SegmentationFault''"
| "errorCodeToString DeviceError = ''DeviceError''"
| "errorCodeToString ProcessNotFound = ''ProcessNotFound''"
| "errorCodeToString PermissionDenied = ''PermissionDenied''"
| "errorCodeToString Timeout = ''Timeout''"
| "errorCodeToString DeadlockDetected = ''DeadlockDetected''"
| "errorCodeToString InvalidState = ''InvalidState''"
| "errorCodeToString InvalidArgument = ''InvalidArgument''"
| "errorCodeToString ResourceBusy = ''ResourceBusy''"
| "errorCodeToString NotFound = ''NotFound''"
| "errorCodeToString AlreadyExists = ''AlreadyExists''"
| "errorCodeToString BufferFull = ''BufferFull''"
| "errorCodeToString BufferEmpty = ''BufferEmpty''"
| "errorCodeToString EndOfFile = ''EndOfFile''"
| "errorCodeToString NotImplemented = ''NotImplemented''"

text \<open>
  \<^verbatim>\<open>Result<T>\<close> holds a value or an error code; \<^verbatim>\<open>Result<void>\<close> is \<open>unit result\<close>.
\<close>

datatype 'a result = Ok 'a | Error error_code

fun isOk :: "'a result \<Rightarrow> bool" where
  "isOk (Ok _) = True"
| "isOk (Error _) = False"

fun isError :: "'a result \<Rightarrow> bool" where
  "isError (Ok _) = False"
| "isError (Error _) = True"

fun valueOr :: "'a result \<Rightarrow> 'a \<Rightarrow> 'a" where
  "valueOr (Ok v) d = v"
| "valueOr (Error _) d = d"

text \<open>The error code of a \<^verbatim>\<open>Result<void>\<close>: \<open>OkCode\<close> on success.\<close>

fun void_errorCode :: "unit result \<Rightarrow> error_code" where
  "void_errorCode (Ok _) = OkCode"
| "void_errorCode (Error e) = e"

section \<open>Signed 32-bit arithmetic\<close>

definition in_int32 :: "int \<Rightarrow> bool" where
  "in_int32 k \<longleftrightarrow> - (2 ^ 31) \<le> k \<and> k < 2 ^ 31"

definition int32 :: "int \<Rightarrow> register_value" where
  "int32 k = (if in_int32 k then word_of_int k else undefined)"

definition s_add :: "register_value \<Rightarrow> register_value \<Rightarrow> register_value" where
  "s_add a b = int32 (sint a + sint b)"

definition s_sub :: "register_value \<Rightarrow> register_value \<Rightarrow> register_value" where
  "s_sub a b = int32 (sint a - sint b)"

definition s_mul :: "register_value \<Rightarrow> register_value \<Rightarrow> register_value" where
  "s_mul a b = int32 (sint a * sint b)"

text \<open>C++ division truncates towards zero; \<^verbatim>\<open>INT_MIN / -1\<close> overflows.\<close>

definition s_div :: "register_value \<Rightarrow> register_value \<Rightarrow> register_value" where
  "s_div a b = int32 (sint a sdiv sint b)"

text \<open>
  C++20 shifts: the count is the value of the right operand, undefined unless
  \<open>0 \<le> count < 32\<close>; the left shift is modulo \<open>2 ^ 32\<close>, the right shift arithmetic.
\<close>

definition s_shl :: "register_value \<Rightarrow> register_value \<Rightarrow> register_value" where
  "s_shl a b = (if 0 \<le> sint b \<and> sint b < 32 then push_bit (nat (sint b)) a else undefined)"

definition s_shr :: "register_value \<Rightarrow> register_value \<Rightarrow> register_value" where
  "s_shr a b = (if 0 \<le> sint b \<and> sint b < 32 then signed_drop_bit (nat (sint b)) a else undefined)"

section \<open>Algorithms of the C++ standard library\<close>

text \<open>
  \<^verbatim>\<open>std::min_element\<close> with a comparator keeps the best element so far and replaces it
  when a later element compares less: the first of the smallest elements.
  \<^verbatim>\<open>std::max_element\<close> replaces it when it compares less than a later element.
\<close>

fun min_element_from :: "('a \<Rightarrow> 'a \<Rightarrow> bool) \<Rightarrow> 'a \<Rightarrow> 'a list \<Rightarrow> 'a" where
  "min_element_from lt best [] = best"
| "min_element_from lt best (x # xs) =
     min_element_from lt (if lt x best then x else best) xs"

fun min_element :: "('a \<Rightarrow> 'a \<Rightarrow> bool) \<Rightarrow> 'a list \<Rightarrow> 'a option" where
  "min_element lt [] = None"
| "min_element lt (x # xs) = Some (min_element_from lt x xs)"

fun max_element :: "('a \<Rightarrow> 'a \<Rightarrow> bool) \<Rightarrow> 'a list \<Rightarrow> 'a option" where
  "max_element lt [] = None"
| "max_element lt (x # xs) = Some (min_element_from (\<lambda>a b. lt b a) x xs)"

text \<open>
  Iteration over \<^verbatim>\<open>std::unordered_set\<close> and \<^verbatim>\<open>std::unordered_map\<close> visits every key once
  in an order the standard leaves open. Operations whose result depends on it take the
  order as an argument \<open>iter\<close>; \<open>iter_ok\<close> is what the standard guarantees.
\<close>

definition iter_ok :: "('a set \<Rightarrow> 'a list) \<Rightarrow> bool" where
  "iter_ok iter \<longleftrightarrow> (\<forall>S. finite S \<longrightarrow> set (iter S) = S \<and> distinct (iter S))"

section \<open>Lemmas\<close>

subsection \<open>Results\<close>

lemma isError_isOk [results]: "isError r \<longleftrightarrow> \<not> isOk r"
  by (cases r) auto

lemma isOk_ex: "isOk r \<longleftrightarrow> (\<exists>v. r = Ok v)"
  by (cases r) auto

lemma errorCodeToString_inj: "errorCodeToString a = errorCodeToString b \<Longrightarrow> a = b"
  by (cases a; cases b) simp_all

subsection \<open>Signed arithmetic\<close>

lemma sint_in_int32: "in_int32 (sint (a :: register_value))"
  using sint_greater_eq [of a] sint_less [of a] by (simp add: in_int32_def)

lemma sint_int32 [simp]: "in_int32 k \<Longrightarrow> sint (int32 k) = k"
  by (simp add: int32_def in_int32_def sint_sbintrunc' signed_take_bit_int_eq_self)

lemma sint_s_add: "in_int32 (sint a + sint b) \<Longrightarrow> sint (s_add a b) = sint a + sint b"
  by (simp add: s_add_def)

lemma sint_s_sub: "in_int32 (sint a - sint b) \<Longrightarrow> sint (s_sub a b) = sint a - sint b"
  by (simp add: s_sub_def)

lemma sint_s_mul: "in_int32 (sint a * sint b) \<Longrightarrow> sint (s_mul a b) = sint a * sint b"
  by (simp add: s_mul_def)

lemma sint_s_div: "in_int32 (sint a sdiv sint b) \<Longrightarrow> sint (s_div a b) = sint a sdiv sint b"
  by (simp add: s_div_def)

text \<open>Where the signed expression is defined it is the wrapped machine result.\<close>

lemma s_add_word: "in_int32 (sint a + sint b) \<Longrightarrow> s_add a b = a + b"
  by (simp add: s_add_def int32_def)

lemma s_add_s_sub_inverse:
  assumes "in_int32 (sint a - sint b)"
  shows "s_add (s_sub a b) b = a"
  using assms sint_in_int32 [of a] by (simp add: s_add_def s_sub_def) (simp add: int32_def)

subsection \<open>Smallest and largest elements\<close>

lemma min_element_from_mem: "min_element_from lt b xs \<in> insert b (set xs)"
  by (induction xs arbitrary: b) (auto split: if_splits)

lemma min_element_mem: "min_element lt xs = Some m \<Longrightarrow> m \<in> set xs"
  using min_element_from_mem by (cases xs) fastforce+

lemma min_element_None [simp]: "min_element lt xs = None \<longleftrightarrow> xs = []"
  by (cases xs) auto

lemma max_element_None [simp]: "max_element lt xs = None \<longleftrightarrow> xs = []"
  by (cases xs) auto

text \<open>A comparator is usable with the standard algorithms when it is a strict weak order.\<close>

locale strict_weak_order =
  fixes lt :: "'a \<Rightarrow> 'a \<Rightarrow> bool"
  assumes irrefl: "\<not> lt a a"
    and neg_trans: "\<lbrakk>\<not> lt a b; \<not> lt b c\<rbrakk> \<Longrightarrow> \<not> lt a c"
    and asym: "lt a b \<Longrightarrow> \<not> lt b a"
begin

lemma from_minimal:
  "\<forall>y \<in> insert b (set xs). \<not> lt y (min_element_from lt b xs)"
proof (induction xs arbitrary: b)
  case Nil
  then show ?case by (simp add: irrefl)
next
  case (Cons x xs)
  let ?b = "if lt x b then x else b"
  have m: "\<forall>y \<in> insert ?b (set xs). \<not> lt y (min_element_from lt ?b xs)"
    by (rule Cons.IH)
  have "\<not> lt x ?b" "\<not> lt b ?b"
    using irrefl asym by auto
  then have "\<not> lt x (min_element_from lt ?b xs)" "\<not> lt b (min_element_from lt ?b xs)"
    using m neg_trans by (meson insertI1)+
  with m show ?case by simp
qed

lemma minimal:
  "min_element lt xs = Some m \<Longrightarrow> y \<in> set xs \<Longrightarrow> \<not> lt y m"
  using from_minimal by (cases xs) auto

end

text \<open>
  A comparator that compares a key in a linear order, with ties broken by a second one.
  Every scheduling comparator of the program is of this shape.
\<close>

lemma strict_weak_order_key:
  fixes key :: "'a \<Rightarrow> 'k::linorder"
  shows "strict_weak_order (\<lambda>a b. key a < key b)"
  by unfold_locales auto

lemma strict_weak_order_flip:
  assumes "strict_weak_order lt"
  shows "strict_weak_order (\<lambda>a b. lt b a)"
  using assms unfolding strict_weak_order_def by blast

subsection \<open>Iteration order\<close>

lemma iter_ok_set: "iter_ok iter \<Longrightarrow> finite S \<Longrightarrow> set (iter S) = S"
  by (simp add: iter_ok_def)

lemma iter_ok_nonempty: "iter_ok iter \<Longrightarrow> finite S \<Longrightarrow> S \<noteq> {} \<Longrightarrow> iter S \<noteq> []"
  using iter_ok_set by fastforce

lemma iter_ok_hd: "iter_ok iter \<Longrightarrow> finite S \<Longrightarrow> S \<noteq> {} \<Longrightarrow> hd (iter S) \<in> S"
  using iter_ok_nonempty iter_ok_set hd_in_set by metis

lemma iter_ok_sorted: "iter_ok (sorted_list_of_set :: 'a::linorder set \<Rightarrow> 'a list)"
  by (simp add: iter_ok_def)

subsection \<open>Lists\<close>

lemma filter_neq_notin [simp]: "x \<notin> set (filter (\<lambda>y. y \<noteq> x) xs)"
  by simp

lemma filter_neq_id: "x \<notin> set xs \<Longrightarrow> filter (\<lambda>y. y \<noteq> x) xs = xs"
  by (simp add: filter_id_conv) blast

lemma distinct_snoc [simp]: "distinct (xs @ [x]) \<longleftrightarrow> distinct xs \<and> x \<notin> set xs"
  by auto

end
