(* ===== verification/Cycle_Search.thy ===== *)
theory Cycle_Search
  imports Prelude "HOL-Library.AList"
begin

text \<open>
  The depth-first searches of \<^verbatim>\<open>sync/deadlock_detector.cpp\<close>, which the detector has once for its
  wait-for graph and once for its lock-order graph: a search that stops at the first node found on
  the recursion stack, and one that collects the nodes of the stack from the repeated node on.

  A graph is a hash map from nodes to hash sets of successors. It is modelled by an association list
  of lists, in the order in which the containers happen to iterate; every statement is about all
  such lists and so about every order.
\<close>

section \<open>Graphs\<close>

type_synonym 'a graph = "('a \<times> 'a list) list"

definition successors :: "('a \<times> 'b list) list \<Rightarrow> 'a \<Rightarrow> 'b list" where
  "successors g n = (case map_of g n of None \<Rightarrow> [] | Some vs \<Rightarrow> vs)"

definition nodes_of :: "'a graph \<Rightarrow> 'a set" where
  "nodes_of g = fst ` set g \<union> (\<Union>e \<in> set g. set (snd e))"

definition edges :: "'a graph \<Rightarrow> ('a \<times> 'a) set" where
  "edges g = {(a, b). b \<in> set (successors g a)}"

definition set_insert :: "'a \<Rightarrow> 'a list \<Rightarrow> 'a list" where
  "set_insert x xs = (if x \<in> set xs then xs else xs @ [x])"

definition insert_edge :: "'a \<Rightarrow> 'b \<Rightarrow> ('a \<times> 'b list) list \<Rightarrow> ('a \<times> 'b list) list" where
  "insert_edge a b g = AList.update a (set_insert b (successors g a)) g"

lemma finite_nodes [simp]: "finite (nodes_of g)"
  by (simp add: nodes_of_def)

lemma successors_outside: "n \<notin> nodes_of g \<Longrightarrow> successors g n = []"
  by (force simp: successors_def nodes_of_def split: option.splits dest: map_of_SomeD)

lemma set_set_insert [simp]: "set (set_insert x xs) = insert x (set xs)"
  by (auto simp: set_insert_def)

lemma edges_insert [simp]: "edges (insert_edge a b g) = insert (a, b) (edges g)"
  by (auto simp: edges_def insert_edge_def successors_def update_conv' split: if_splits)

lemma edges_delete: "edges (AList.delete a g) = {(x, y) \<in> edges g. x \<noteq> a}"
  by (auto simp: edges_def successors_def delete_conv' split: if_splits)

lemma edges_Nil [simp]: "edges [] = {}"
  by (simp add: edges_def successors_def)

section \<open>The searches\<close>

text \<open>
  The loop over the successors of a node, with the call of the recursive lambda inlined: it returns whether
  a node on the stack was met, and the visited nodes. On a negative answer the stack is as it was.
\<close>

function (sequential) cycle_dfs :: "'a graph \<Rightarrow> 'a list \<Rightarrow> 'a set \<Rightarrow> 'a set \<Rightarrow> bool \<times> 'a set" where
  "cycle_dfs g [] visited onStack = (False, visited)"
| "cycle_dfs g (n # ns) visited onStack =
     (if n \<in> onStack then (True, visited)
      else if n \<in> visited then cycle_dfs g ns visited onStack
      else case cycle_dfs g (successors g n) (insert n visited) (insert n onStack) of
             (found, visited') \<Rightarrow> if found then (True, visited') else cycle_dfs g ns visited' onStack)"
  by pat_completeness auto

text \<open>
  The collecting search: the visited nodes and the nodes found on cycles.
\<close>

function (sequential) collect_dfs :: "'a graph \<Rightarrow> 'a list \<Rightarrow> 'a list \<Rightarrow> 'a set \<Rightarrow> 'a set \<Rightarrow> 'a set \<times> 'a set" where
  "collect_dfs g [] stack visited cycle = (visited, cycle)"
| "collect_dfs g (n # ns) stack visited cycle =
     (if n \<in> set stack then collect_dfs g ns stack visited (cycle \<union> set (dropWhile (\<lambda>x. x \<noteq> n) stack))
      else if n \<in> visited then collect_dfs g ns stack visited cycle
      else case collect_dfs g (successors g n) (stack @ [n]) (insert n visited) cycle of
             (visited', cycle') \<Rightarrow> collect_dfs g ns stack visited' cycle')"
  by pat_completeness auto

lemma unvisited_less:
  assumes "n \<notin> visited"
  shows "card (nodes_of g - insert n visited) < card (nodes_of g - visited)
      \<or> card (nodes_of g - insert n visited) = card (nodes_of g - visited) \<and> successors g n = []"
proof (cases "n \<in> nodes_of g")
  case True
  then show ?thesis using assms by (intro disjI1 psubset_card_mono) auto
next
  case False
  then have "nodes_of g - insert n visited = nodes_of g - visited" by blast
  then show ?thesis using False by (simp add: successors_outside)
qed

lemma unvisited_le: "visited \<subseteq> visited' \<Longrightarrow> card (nodes_of g - visited') \<le> card (nodes_of g - visited)"
  by (intro card_mono) auto

lemma cycle_dfs_visited_dom:
  "cycle_dfs_dom (g, ns, visited, onStack) \<Longrightarrow> visited \<subseteq> snd (cycle_dfs g ns visited onStack)"
proof (induction g ns visited onStack rule: cycle_dfs.pinduct)
  case (2 g n ns visited onStack)
  then show ?case by (auto simp: cycle_dfs.psimps split: prod.splits) blast+
qed (simp add: cycle_dfs.psimps)

termination cycle_dfs
proof (relation "inv_image (less_than <*lex*> less_than) (\<lambda>(g, ns, visited, onStack). (card (nodes_of g - visited), length ns))",
    goal_cases)
  case (3 g n ns visited onStack)
  then show ?case using unvisited_less [of n visited g] by auto
next
  case (4 g n ns visited onStack found y)
  then have "visited \<subseteq> y" using cycle_dfs_visited_dom [OF 4(5)] by (metis insert_subset snd_conv)
  then show ?case using unvisited_le [of visited y g] by auto
qed auto

lemma collect_dfs_visited_dom:
  "collect_dfs_dom (g, ns, stack, visited, cycle) \<Longrightarrow> visited \<subseteq> fst (collect_dfs g ns stack visited cycle)"
proof (induction g ns stack visited cycle rule: collect_dfs.pinduct)
  case (2 g n ns stack visited cycle)
  then show ?case by (auto simp: collect_dfs.psimps split: prod.splits) blast+
qed (simp add: collect_dfs.psimps)

termination collect_dfs
proof (relation "inv_image (less_than <*lex*> less_than) (\<lambda>(g, ns, stack, visited, cycle). (card (nodes_of g - visited), length ns))",
    goal_cases)
  case (4 g n ns stack visited cycle)
  then show ?case using unvisited_less [of n visited g] by auto
next
  case (5 g n ns stack visited cycle v c)
  then have "visited \<subseteq> v" using collect_dfs_visited_dom [OF 5(4)] by (metis insert_subset fst_conv)
  then show ?case using unvisited_le [of visited v g] by auto
qed auto


section \<open>The search finds a cycle exactly when there is one\<close>

text \<open>Nodes whose whole future has been explored without meeting a cycle.\<close>

definition settled :: "'a graph \<Rightarrow> 'a set \<Rightarrow> bool" where
  "settled g F \<longleftrightarrow> edges g `` F \<subseteq> F \<and> (\<forall>x \<in> F. (x, x) \<notin> (edges g)\<^sup>+)"

lemma closed_rtrancl: "(x, y) \<in> r\<^sup>* \<Longrightarrow> r `` F \<subseteq> F \<Longrightarrow> x \<in> F \<Longrightarrow> y \<in> F"
  by (induction rule: rtrancl_induct) auto

lemma settled_insert:
  assumes "settled g F" "set (successors g n) \<subseteq> F" "n \<notin> F"
  shows "settled g (insert n F)"
proof -
  have c: "edges g `` F \<subseteq> F" and e: "edges g `` {n} \<subseteq> F" using assms by (auto simp: settled_def edges_def)
  have "(n, n) \<notin> (edges g)\<^sup>+"
  proof
    assume "(n, n) \<in> (edges g)\<^sup>+"
    then obtain m where "(n, m) \<in> edges g" "(m, n) \<in> (edges g)\<^sup>*" by (meson tranclD)
    then show False using closed_rtrancl [OF _ c] e assms(3) by blast
  qed
  then show ?thesis using assms(1) c e by (auto simp: settled_def)
qed

lemma cycle_dfs_False:
  assumes "cycle_dfs g ns visited onStack = (False, v)" "onStack \<subseteq> visited" "settled g (visited - onStack)"
  shows "settled g (v - onStack) \<and> visited \<subseteq> v \<and> set ns \<subseteq> v - onStack"
  using assms
proof (induction g ns visited onStack arbitrary: v rule: cycle_dfs.induct)
  case (2 g n ns visited onStack)
  have ns: "n \<notin> onStack" using "2.prems"(1) by (auto split: if_splits)
  show ?case
  proof (cases "n \<in> visited")
    case True
    then show ?thesis using "2.IH"(1) [OF ns True] "2.prems" ns by auto
  next
    case False
    obtain v1 where v1: "cycle_dfs g (successors g n) (insert n visited) (insert n onStack) = (False, v1)"
      "cycle_dfs g ns v1 onStack = (False, v)"
      using "2.prems"(1) ns False by (auto split: prod.splits if_splits)
    have "insert n visited - insert n onStack = visited - onStack" using False by blast
    then have s1: "settled g (v1 - insert n onStack)" "insert n visited \<subseteq> v1" "set (successors g n) \<subseteq> v1 - insert n onStack"
      using "2.IH"(2) [OF ns False v1(1)] "2.prems"(2,3) by auto
    have "v1 - onStack = insert n (v1 - insert n onStack)" using s1(2) ns by blast
    then have "settled g (v1 - onStack)" using settled_insert [OF s1(1,3)] by simp
    then show ?thesis
      using "2.IH"(3) [OF ns False v1(1) [symmetric] _ v1(2)] s1(2) "2.prems"(2) ns by auto
  qed
qed simp

lemma cycle_dfs_True:
  assumes "cycle_dfs g ns visited onStack = (True, v)" "\<forall>s \<in> onStack. \<forall>n \<in> set ns. (s, n) \<in> (edges g)\<^sup>+"
  shows "\<exists>x. (x, x) \<in> (edges g)\<^sup>+"
  using assms
proof (induction g ns visited onStack arbitrary: v rule: cycle_dfs.induct)
  case (2 g n ns visited onStack)
  show ?case
  proof (cases "n \<in> onStack")
    case True
    then show ?thesis using "2.prems"(2) by auto
  next
    case ns: False
    show ?thesis
    proof (cases "n \<in> visited")
      case True
      then show ?thesis using "2.IH"(1) [OF ns True] "2.prems" ns by auto
    next
      case False
      obtain f v1 where v1: "cycle_dfs g (successors g n) (insert n visited) (insert n onStack) = (f, v1)" by fastforce
      have p: "\<forall>s \<in> insert n onStack. \<forall>m \<in> set (successors g n). (s, m) \<in> (edges g)\<^sup>+"
      proof (intro ballI)
        fix s m
        assume s: "s \<in> insert n onStack" "m \<in> set (successors g n)"
        then have e: "(n, m) \<in> edges g" by (simp add: edges_def)
        show "(s, m) \<in> (edges g)\<^sup>+"
        proof (cases "s = n")
          case True
          then show ?thesis using e by auto
        next
          case False
          then have "(s, n) \<in> (edges g)\<^sup>+" using s(1) "2.prems"(2) by auto
          then show ?thesis using e by (rule trancl_into_trancl)
        qed
      qed
      show ?thesis
      proof (cases f)
        case True
        then show ?thesis using "2.IH"(2) [OF ns False _ p] v1 by auto
      next
        case nf: False
        then have "cycle_dfs g ns v1 onStack = (True, v)" using "2.prems"(1) ns False v1 by simp
        then show ?thesis using "2.IH"(3) [OF ns False v1 [symmetric] nf] "2.prems"(2) by auto
      qed
    qed
  qed
qed simp

definition has_cycle :: "'a graph \<Rightarrow> bool" where
  "has_cycle g = fst (cycle_dfs g (map fst g) {} {})"

lemma edge_key: "(a, b) \<in> edges g \<Longrightarrow> a \<in> fst ` set g"
  by (cases "map_of g a") (auto simp: edges_def successors_def dest!: map_of_SomeD intro!: image_eqI)

lemma has_cycle_iff: "has_cycle g \<longleftrightarrow> \<not> acyclic (edges g)"
proof
  assume "has_cycle g"
  then obtain v where "cycle_dfs g (map fst g) {} {} = (True, v)" by (metis has_cycle_def prod.collapse)
  from cycle_dfs_True [OF this] show "\<not> acyclic (edges g)" by (auto simp: acyclic_def)
next
  assume c: "\<not> acyclic (edges g)"
  show "has_cycle g"
  proof (rule ccontr)
    assume "\<not> has_cycle g"
    then obtain v where "cycle_dfs g (map fst g) {} {} = (False, v)" by (metis has_cycle_def prod.collapse)
    from cycle_dfs_False [OF this] have s: "settled g v" "fst ` set g \<subseteq> v" by (auto simp: settled_def)
    obtain x where x: "(x, x) \<in> (edges g)\<^sup>+" using c by (auto simp: acyclic_def)
    then obtain y where "(x, y) \<in> edges g" by (meson tranclD)
    then have "x \<in> v" using edge_key s(2) by fast
    then show False using s(1) x by (auto simp: settled_def)
  qed
qed


section \<open>The nodes the collecting search returns\<close>

lemma dropWhile_reaches:
  assumes "sorted_wrt (\<lambda>a b. (a, b) \<in> r\<^sup>+) stack" "n \<in> set stack" "x \<in> set (dropWhile (\<lambda>y. y \<noteq> n) stack)"
  shows "(n, x) \<in> r\<^sup>*"
  using assms
proof (induction stack)
  case (Cons a stack)
  then show ?case by (cases "a = n") (auto dest: trancl_into_rtrancl)
qed simp

lemma collect_sound:
  assumes "collect_dfs g ns stack visited cycle = (v, c)" "sorted_wrt (\<lambda>a b. (a, b) \<in> (edges g)\<^sup>+) stack"
    "\<forall>s \<in> set stack. \<forall>n \<in> set ns. (s, n) \<in> (edges g)\<^sup>+"
  shows "cycle \<subseteq> c \<and> c \<subseteq> cycle \<union> {x. (x, x) \<in> (edges g)\<^sup>+}"
  using assms
proof (induction g ns stack visited cycle arbitrary: v c rule: collect_dfs.induct)
  case (2 g n ns stack visited cycle)
  consider (again) "n \<in> set stack" | (seen) "n \<notin> set stack" "n \<in> visited" | (new) "n \<notin> set stack" "n \<notin> visited" by blast
  then show ?case
  proof cases
    case again
    have "(x, x) \<in> (edges g)\<^sup>+" if x: "x \<in> set (dropWhile (\<lambda>y. y \<noteq> n) stack)" for x
    proof -
      have "(x, n) \<in> (edges g)\<^sup>+" using "2.prems"(3) set_dropWhileD [OF x] by auto
      then show ?thesis using dropWhile_reaches [OF "2.prems"(2) again x] by (rule trancl_rtrancl_trancl)
    qed
    then show ?thesis using "2.IH"(1) [OF again] "2.prems" again by auto
  next
    case seen
    then show ?thesis using "2.IH"(2) [OF seen] "2.prems" by auto
  next
    case new
    obtain v1 c1 where c1: "collect_dfs g (successors g n) (stack @ [n]) (insert n visited) cycle = (v1, c1)" by fastforce
    have e: "(n, m) \<in> edges g" if "m \<in> set (successors g n)" for m using that by (simp add: edges_def)
    have "(s, m) \<in> (edges g)\<^sup>+" if "s \<in> set stack" "m \<in> set (successors g n)" for s m
      using "2.prems"(3) that e by (meson list.set_intros(1) trancl_into_trancl)
    then have "cycle \<subseteq> c1 \<and> c1 \<subseteq> cycle \<union> {x. (x, x) \<in> (edges g)\<^sup>+}"
      using "2.IH"(3) [OF new c1] "2.prems"(2,3) r_into_trancl [OF e] by (simp add: sorted_wrt_append)
    moreover have "c1 \<subseteq> c \<and> c \<subseteq> c1 \<union> {x. (x, x) \<in> (edges g)\<^sup>+}"
      using "2.IH"(4) [OF new c1 [symmetric]] "2.prems" new c1 by auto
    ultimately show ?thesis by blast
  qed
qed simp

lemma collect_mono: "cycle \<subseteq> snd (collect_dfs g ns stack visited cycle)"
proof (induction g ns stack visited cycle rule: collect_dfs.induct)
  case (2 g n ns stack visited cycle)
  then show ?case by (auto split: prod.splits) blast+
qed simp

lemma collect_empty:
  "collect_dfs g ns stack visited {} = (v, {}) \<Longrightarrow> cycle_dfs g ns visited (set stack) = (False, v)"
proof (induction g ns stack visited "{} :: 'a set" arbitrary: v rule: collect_dfs.induct)
  case (2 g n ns stack visited)
  have nb: "n \<notin> set stack"
  proof
    assume n: "n \<in> set stack"
    then have "set (dropWhile (\<lambda>x. x \<noteq> n) stack) \<noteq> {}" by (simp add: dropWhile_eq_Nil_conv)
    then show False
      using "2.prems" n collect_mono [of "set (dropWhile (\<lambda>x. x \<noteq> n) stack)" g ns stack visited] by auto
  qed
  show ?case
  proof (cases "n \<in> visited")
    case True
    then show ?thesis using "2.hyps"(2) [OF nb True] "2.prems" nb by simp
  next
    case False
    obtain v1 c1 where c1: "collect_dfs g (successors g n) (stack @ [n]) (insert n visited) {} = (v1, c1)" by fastforce
    then have r: "collect_dfs g ns stack v1 c1 = (v, {})" using "2.prems" nb False by simp
    then have e: "c1 = {}" using collect_mono [of c1 g ns stack v1] by auto
    show ?thesis
      using "2.hyps"(3) [OF nb False c1 [unfolded e]] "2.hyps"(4) [OF nb False c1 [unfolded e, symmetric] r [unfolded e]] nb False by simp
  qed
qed simp

definition cycle_nodes :: "'a graph \<Rightarrow> 'a set" where
  "cycle_nodes g = snd (collect_dfs g (map fst g) [] {} {})"

lemma cycle_nodes_sound: "x \<in> cycle_nodes g \<Longrightarrow> (x, x) \<in> (edges g)\<^sup>+"
  using collect_sound [of g "map fst g" "[]" "{}" "{}", OF prod.collapse [symmetric]] by (auto simp: cycle_nodes_def)

lemma cycle_nodes_empty: "cycle_nodes g = {} \<longleftrightarrow> acyclic (edges g)"
proof
  assume "cycle_nodes g = {}"
  then obtain v where "collect_dfs g (map fst g) [] {} {} = (v, {})" by (metis cycle_nodes_def prod.collapse)
  then have "\<not> has_cycle g" using collect_empty by (fastforce simp: has_cycle_def)
  then show "acyclic (edges g)" by (simp add: has_cycle_iff)
next
  assume "acyclic (edges g)"
  then show "cycle_nodes g = {}" using cycle_nodes_sound [of _ g] by (auto simp: acyclic_def)
qed

end
