(* ===== verification/Deadlock.thy ===== *)
theory Deadlock
  imports Cycle_Search "HOL-Library.Product_Lexorder"
begin

text \<open>
  The deadlock detector: \<^verbatim>\<open>sync/deadlock_detector.cpp\<close>. It keeps who owns which resource, a wait-for
  graph between (process, host thread) pairs and a lock-order graph between internal locks, and has
  the safety check of Banker's algorithm. Each public method holds the detector's lock and is one
  step of the model.
\<close>

section \<open>State\<close>

type_synonym thread_token = "64 word"

type_synonym wait_node = "process_id \<times> thread_token"

record deadlock_detector =
  resourceOwners :: "(resource_id \<times> wait_node list) list"
  waitFor :: "wait_node graph"
  heldInternalLocks :: "(thread_token \<times> resource_id list) list"
  lockOrderGraph :: "resource_id graph"

definition DeadlockDetector_new :: deadlock_detector where
  "DeadlockDetector_new = \<lparr>resourceOwners = [], waitFor = [], heldInternalLocks = [], lockOrderGraph = []\<rparr>"

section \<open>Tracking\<close>

definition clearOutgoing :: "deadlock_detector \<Rightarrow> wait_node \<Rightarrow> deadlock_detector" where
  "clearOutgoing d node = d\<lparr>waitFor := AList.delete node (waitFor d)\<rparr>"

definition onAcquire_thread :: "deadlock_detector \<Rightarrow> process_id \<Rightarrow> resource_id \<Rightarrow> thread_token \<Rightarrow> deadlock_detector" where
  "onAcquire_thread d pid resource token =
     (if pid = INVALID_PID then d
      else clearOutgoing (d\<lparr>resourceOwners := insert_edge resource (pid, token) (resourceOwners d)\<rparr>) (pid, token))"

definition DeadlockDetector_onAcquire :: "deadlock_detector \<Rightarrow> process_id \<Rightarrow> resource_id \<Rightarrow> deadlock_detector" where
  "DeadlockDetector_onAcquire d pid resource = onAcquire_thread d pid resource 0"

definition onRelease_thread :: "deadlock_detector \<Rightarrow> process_id \<Rightarrow> resource_id \<Rightarrow> thread_token \<Rightarrow> deadlock_detector" where
  "onRelease_thread d pid resource token =
     (case map_of (resourceOwners d) resource of
        None \<Rightarrow> d
      | Some owners \<Rightarrow>
          let owners' = removeAll (pid, token) owners in
          if owners' = [] then d\<lparr>resourceOwners := AList.delete resource (resourceOwners d)\<rparr>
          else d\<lparr>resourceOwners := AList.update resource owners' (resourceOwners d)\<rparr>)"

definition DeadlockDetector_onRelease :: "deadlock_detector \<Rightarrow> process_id \<Rightarrow> resource_id \<Rightarrow> deadlock_detector" where
  "DeadlockDetector_onRelease d pid resource = onRelease_thread d pid resource 0"

definition onWait_thread :: "deadlock_detector \<Rightarrow> process_id \<Rightarrow> resource_id \<Rightarrow> thread_token \<Rightarrow> deadlock_detector" where
  "onWait_thread d pid resource token =
     (if pid = INVALID_PID then d
      else
        let d1 = clearOutgoing d (pid, token) in
        (case map_of (resourceOwners d1) resource of
           None \<Rightarrow> d1
         | Some owners \<Rightarrow>
             d1\<lparr>waitFor := fold (\<lambda>owner g. if owner = (pid, token) then g else insert_edge (pid, token) owner g)
                              owners (waitFor d1)\<rparr>))"

definition DeadlockDetector_onWait :: "deadlock_detector \<Rightarrow> process_id \<Rightarrow> resource_id \<Rightarrow> deadlock_detector" where
  "DeadlockDetector_onWait d pid resource = onWait_thread d pid resource 0"

definition DeadlockDetector_onInternalLockAcquire :: "deadlock_detector \<Rightarrow> thread_token \<Rightarrow> resource_id \<Rightarrow> deadlock_detector" where
  "DeadlockDetector_onInternalLockAcquire d token lockId =
     (let held = successors (heldInternalLocks d) token in
      d\<lparr>lockOrderGraph := fold (\<lambda>h g. if h = lockId then g else insert_edge h lockId g) held (lockOrderGraph d),
        heldInternalLocks := AList.update token (held @ [lockId]) (heldInternalLocks d)\<rparr>)"

definition DeadlockDetector_onInternalLockRelease :: "deadlock_detector \<Rightarrow> thread_token \<Rightarrow> resource_id \<Rightarrow> deadlock_detector" where
  "DeadlockDetector_onInternalLockRelease d token lockId =
     (case map_of (heldInternalLocks d) token of
        None \<Rightarrow> d
      | Some held \<Rightarrow>
          let held' = remove1 lockId held in
          if held' = [] then d\<lparr>heldInternalLocks := AList.delete token (heldInternalLocks d)\<rparr>
          else d\<lparr>heldInternalLocks := AList.update token held' (heldInternalLocks d)\<rparr>)"

section \<open>Queries\<close>

definition hasWaitForCycle :: "deadlock_detector \<Rightarrow> bool" where
  "hasWaitForCycle d = has_cycle (waitFor d)"

definition waitForCycleNodes :: "deadlock_detector \<Rightarrow> wait_node list" where
  "waitForCycleNodes d = sorted_list_of_set (cycle_nodes (waitFor d))"

definition hasLockOrderCycle :: "deadlock_detector \<Rightarrow> bool" where
  "hasLockOrderCycle d = has_cycle (lockOrderGraph d)"

definition lockOrderCycleNodes :: "deadlock_detector \<Rightarrow> resource_id list" where
  "lockOrderCycleNodes d = sorted_list_of_set (cycle_nodes (lockOrderGraph d))"

definition DeadlockDetector_hasDeadlock :: "deadlock_detector \<Rightarrow> bool" where
  "DeadlockDetector_hasDeadlock d \<longleftrightarrow> hasWaitForCycle d \<or> hasLockOrderCycle d"

definition DeadlockDetector_getDeadlockedProcesses :: "deadlock_detector \<Rightarrow> process_id list" where
  "DeadlockDetector_getDeadlockedProcesses d = sorted_list_of_set (set (map fst (waitForCycleNodes d)))"

definition DeadlockDetector_hasInternalLockOrderCycle :: "deadlock_detector \<Rightarrow> bool" where
  "DeadlockDetector_hasInternalLockOrderCycle d = hasLockOrderCycle d"

definition DeadlockDetector_getInternalLockOrderCycle :: "deadlock_detector \<Rightarrow> resource_id list" where
  "DeadlockDetector_getInternalLockOrderCycle d = lockOrderCycleNodes d"

section \<open>Banker's safety check\<close>

record resource_allocation =
  ra_pid :: process_id
  ra_resources :: "32 word list"

record banker =
  bk_work :: "32 word list"
  bk_finished :: "bool list"
  bk_finishCount :: nat
  bk_progressed :: bool

definition can_finish :: "32 word list \<Rightarrow> 32 word list \<Rightarrow> 32 word list \<Rightarrow> bool" where
  "can_finish work cur mx \<longleftrightarrow> (\<forall>r \<in> set [0..<length work]. mx ! r - cur ! r \<le> work ! r)"

definition banker_step ::
  "resource_allocation list \<Rightarrow> resource_allocation list \<Rightarrow> nat \<Rightarrow> banker \<Rightarrow> banker" where
  "banker_step current maximum i st =
     (if bk_finished st ! i then st
      else if can_finish (bk_work st) (ra_resources (current ! i)) (ra_resources (maximum ! i))
      then st\<lparr>bk_work := map2 (+) (bk_work st) (ra_resources (current ! i)),
              bk_finished := (bk_finished st)[i := True],
              bk_finishCount := bk_finishCount st + 1, bk_progressed := True\<rparr>
      else st)"

definition banker_pass :: "resource_allocation list \<Rightarrow> resource_allocation list \<Rightarrow> banker \<Rightarrow> banker" where
  "banker_pass current maximum st =
     fold (banker_step current maximum) [0..<length (bk_finished st)] (st\<lparr>bk_progressed := False\<rparr>)"

definition unfinished :: "banker \<Rightarrow> nat" where
  "unfinished st = length (filter Not (bk_finished st))"

lemma unfinished_update:
  assumes "i < length fs" "\<not> fs ! i"
  shows "length (filter Not (fs[i := True])) < length (filter Not fs)"
  using assms
proof (induction fs arbitrary: i)
  case (Cons f fs)
  then show ?case by (cases i) auto
qed simp

lemma banker_step_decreases:
  assumes "i < length (bk_finished st)"
  shows "length (bk_finished (banker_step current maximum i st)) = length (bk_finished st)"
    "banker_step current maximum i st = st
     \<or> bk_progressed (banker_step current maximum i st) \<and> unfinished (banker_step current maximum i st) < unfinished st"
  using assms unfinished_update [OF assms] by (auto simp: banker_step_def unfinished_def)

lemma banker_steps_decrease:
  assumes "\<forall>i \<in> set is. i < length (bk_finished st)"
  shows "length (bk_finished (fold (banker_step current maximum) is st)) = length (bk_finished st)
     \<and> (fold (banker_step current maximum) is st = st
        \<or> unfinished (fold (banker_step current maximum) is st) < unfinished st)"
  using assms
proof (induction "is" arbitrary: st)
  case (Cons i "is")
  let ?st = "banker_step current maximum i st"
  have i: "i < length (bk_finished st)" using Cons.prems by simp
  note s = banker_step_decreases [OF i, of current maximum]
  from Cons.IH [of ?st] Cons.prems s(1) have
    "length (bk_finished (fold (banker_step current maximum) is ?st)) = length (bk_finished ?st)"
    "fold (banker_step current maximum) is ?st = ?st
     \<or> unfinished (fold (banker_step current maximum) is ?st) < unfinished ?st" by auto
  then show ?case using s by auto
qed simp

lemma banker_pass_decreases: "bk_progressed (banker_pass current maximum st) \<Longrightarrow> unfinished (banker_pass current maximum st) < unfinished st"
  using banker_steps_decrease [of "[0..<length (bk_finished st)]" "st\<lparr>bk_progressed := False\<rparr>" current maximum]
  by (auto simp: banker_pass_def unfinished_def)

function banker_loop :: "resource_allocation list \<Rightarrow> resource_allocation list \<Rightarrow> banker \<Rightarrow> banker" where
  "banker_loop current maximum st =
     (let st' = banker_pass current maximum st in
      if bk_progressed st' then banker_loop current maximum st' else st')"
  by pat_completeness auto

termination banker_loop
  by (relation "measure (\<lambda>(current, maximum, st). unfinished st)") (auto simp: banker_pass_decreases)

declare banker_loop.simps [simp del]

definition rows_valid :: "resource_allocation list \<Rightarrow> resource_allocation list \<Rightarrow> nat \<Rightarrow> bool" where
  "rows_valid current maximum resourceCount \<longleftrightarrow>
     (\<forall>i \<in> set [0..<length current].
        ra_pid (current ! i) \<noteq> INVALID_PID \<and> ra_pid (maximum ! i) \<noteq> INVALID_PID
        \<and> ra_pid (current ! i) = ra_pid (maximum ! i)
        \<and> length (ra_resources (current ! i)) = resourceCount \<and> length (ra_resources (maximum ! i)) = resourceCount)
     \<and> distinct (map ra_pid current)
     \<and> (\<forall>i \<in> set [0..<length current]. \<forall>r \<in> set [0..<resourceCount].
          ra_resources (current ! i) ! r \<le> ra_resources (maximum ! i) ! r)"

definition DeadlockDetector_isSafeState ::
  "resource_allocation list \<Rightarrow> resource_allocation list \<Rightarrow> 32 word list \<Rightarrow> bool" where
  "DeadlockDetector_isSafeState current maximum available =
     (if length current \<noteq> length maximum then False
      else if current = [] then True
      else if length available = 0 then True
      else if \<not> rows_valid current maximum (length available) then False
      else bk_finishCount (banker_loop current maximum
             \<lparr>bk_work = available, bk_finished = replicate (length current) False, bk_finishCount = 0, bk_progressed = False\<rparr>)
           = length current)"


section \<open>Edges\<close>

lemma edges_fold_insert:
  "edges (fold (\<lambda>b g. if b = x then g else insert_edge a b g) bs g) = edges g \<union> {a} \<times> (set bs - {x})"
  by (induction bs arbitrary: g) auto

lemma edges_fold_into:
  "edges (fold (\<lambda>h g. if h = b then g else insert_edge h b g) hs g) = edges g \<union> (set hs - {b}) \<times> {b}"
  by (induction hs arbitrary: g) auto

definition owners :: "deadlock_detector \<Rightarrow> resource_id \<Rightarrow> wait_node set" where
  "owners d r = set (successors (resourceOwners d) r)"

definition waits :: "deadlock_detector \<Rightarrow> (wait_node \<times> wait_node) set" where
  "waits d = edges (waitFor d)"

lemma finite_cycle_nodes [simp]: "finite (cycle_nodes g)"
proof (rule finite_subset)
  show "cycle_nodes g \<subseteq> fst ` set g"
  proof
    fix x
    assume "x \<in> cycle_nodes g"
    then have "(x, x) \<in> (edges g)\<^sup>+" by (rule cycle_nodes_sound)
    then obtain y where "(x, y) \<in> edges g" by (meson tranclD)
    then show "x \<in> fst ` set g" by (rule edge_key)
  qed
qed simp

lemma removeAll_Nil: "removeAll x xs = [] \<longleftrightarrow> set xs \<subseteq> {x}"
  by (induction xs) auto

section \<open>Properties\<close>

text \<open>
  C12: Deadlock detection is exact on the tracked graphs. A deadlock is reported exactly when the wait-for graph or the
  lock-order graph has a cycle, for every iteration order of the hash containers; the list of deadlocked
  processes is empty exactly when the wait-for graph has no cycle, and every process in
  it is on a cycle of waits.
\<close>

theorem deadlock_iff_cycle:
  "(DeadlockDetector_hasDeadlock d \<longleftrightarrow> \<not> acyclic (waits d) \<or> \<not> acyclic (edges (lockOrderGraph d)))
   \<and> (DeadlockDetector_getDeadlockedProcesses d = [] \<longleftrightarrow> acyclic (waits d))
   \<and> (\<forall>pid \<in> set (DeadlockDetector_getDeadlockedProcesses d). \<exists>token. ((pid, token), (pid, token)) \<in> (waits d)\<^sup>+)"
proof -
  have s: "set (DeadlockDetector_getDeadlockedProcesses d) = fst ` cycle_nodes (waitFor d)"
    by (simp add: DeadlockDetector_getDeadlockedProcesses_def waitForCycleNodes_def)
  then have "DeadlockDetector_getDeadlockedProcesses d = [] \<longleftrightarrow> acyclic (waits d)"
    using cycle_nodes_empty [of "waitFor d"] by (metis image_is_empty set_empty waits_def)
  moreover have "\<exists>token. ((pid, token), (pid, token)) \<in> (waits d)\<^sup>+"
    if "pid \<in> set (DeadlockDetector_getDeadlockedProcesses d)" for pid
    using that cycle_nodes_sound unfolding s waits_def by fastforce
  ultimately show ?thesis
    by (simp add: DeadlockDetector_hasDeadlock_def hasWaitForCycle_def hasLockOrderCycle_def has_cycle_iff waits_def)
qed

text \<open>Two processes that each hold what the other waits for.\<close>

definition deadlock_demo :: deadlock_detector where
  "deadlock_demo =
     (let d1 = DeadlockDetector_onAcquire DeadlockDetector_new 1 10;
          d2 = DeadlockDetector_onAcquire d1 2 20;
          d3 = DeadlockDetector_onWait d2 1 20
      in DeadlockDetector_onWait d3 2 10)"

theorem deadlock_iff_cycle_witness:
  "DeadlockDetector_getDeadlockedProcesses deadlock_demo = [1, 2]
   \<and> (\<exists>token. ((1, token), (1, token)) \<in> (waits deadlock_demo)\<^sup>+)"
proof -
  have "DeadlockDetector_getDeadlockedProcesses deadlock_demo = [1, 2]" by code_simp
  then show ?thesis using deadlock_iff_cycle [of deadlock_demo] by simp
qed

text \<open>
  What the detector tracks. Acquiring a resource adds the caller to its owners and ends the
  caller's wait; waiting replaces the caller's outgoing edges by edges to the present owners of the
  resource other than itself; releasing removes the caller from the owners and changes no edge.
\<close>

theorem wait_for_tracking:
  assumes "pid \<noteq> INVALID_PID"
  shows "owners (onAcquire_thread d pid r t) q = (if q = r then insert (pid, t) (owners d r) else owners d q)
    \<and> waits (onAcquire_thread d pid r t) = {(a, b) \<in> waits d. a \<noteq> (pid, t)}
    \<and> owners (onWait_thread d pid r t) = owners d
    \<and> waits (onWait_thread d pid r t) = {(a, b) \<in> waits d. a \<noteq> (pid, t)} \<union> {(pid, t)} \<times> (owners d r - {(pid, t)})
    \<and> owners (onRelease_thread d pid r t) q = (if q = r then owners d r - {(pid, t)} else owners d q)
    \<and> waits (onRelease_thread d pid r t) = waits d"
proof -
  have "owners (onWait_thread d pid r t) = owners d"
    using assms by (auto simp: onWait_thread_def clearOutgoing_def owners_def fun_eq_iff Let_def split: option.splits)
  moreover have "waits (onWait_thread d pid r t) = {(a, b) \<in> waits d. a \<noteq> (pid, t)} \<union> {(pid, t)} \<times> (owners d r - {(pid, t)})"
    using assms
    by (auto simp: onWait_thread_def clearOutgoing_def waits_def owners_def successors_def edges_fold_insert edges_delete
        Let_def split: option.splits)
  moreover have "owners (onAcquire_thread d pid r t) q = (if q = r then insert (pid, t) (owners d r) else owners d q)"
    using assms by (auto simp: onAcquire_thread_def clearOutgoing_def owners_def insert_edge_def successors_def update_conv')
  moreover have "owners (onRelease_thread d pid r t) q = (if q = r then owners d r - {(pid, t)} else owners d q)"
    by (auto simp: onRelease_thread_def owners_def successors_def Let_def update_conv' delete_conv' removeAll_Nil
        split: option.splits if_splits)
  ultimately show ?thesis
    using assms by (simp add: onAcquire_thread_def onRelease_thread_def clearOutgoing_def waits_def edges_delete Let_def
        split: option.splits)
qed

theorem wait_for_tracking_witness:
  "waits (onWait_thread deadlock_demo 1 10 0) = {(a, b) \<in> waits deadlock_demo. a \<noteq> (1, 0)}"
proof -
  have "owners deadlock_demo 10 = {(1, 0)}" by code_simp
  then show ?thesis using wait_for_tracking [of 1 deadlock_demo 10 0] by (simp add: INVALID_PID_def)
qed


text \<open>Process 1 waits for a resource that 2 and 3 own, 2 waits for 1, and 3 waits for 2.\<close>

definition missed_demo :: deadlock_detector where
  "missed_demo =
     (let d1 = DeadlockDetector_onAcquire DeadlockDetector_new 1 20;
          d2 = DeadlockDetector_onAcquire d1 2 10;
          d3 = DeadlockDetector_onAcquire d2 3 10;
          d4 = DeadlockDetector_onAcquire d3 2 30;
          d5 = DeadlockDetector_onWait d4 1 10;
          d6 = DeadlockDetector_onWait d5 2 20
      in DeadlockDetector_onWait d6 3 30)"

text \<open>
  The list of deadlocked processes can be incomplete. Process 3 is on a cycle of waits,
  but the search reaches it only after the node it waits for was visited, and does not report it.
\<close>

theorem deadlocked_process_missed:
  "DeadlockDetector_getDeadlockedProcesses missed_demo = [1, 2] \<and> ((3, 0), (3, 0)) \<in> (waits missed_demo)\<^sup>+"
proof -
  have "(2, 0) \<in> set (successors (waitFor missed_demo) (3, 0))" "(1, 0) \<in> set (successors (waitFor missed_demo) (2, 0))"
    "(3, 0) \<in> set (successors (waitFor missed_demo) (1, 0))" by code_simp+
  then have "((3, 0), (2, 0)) \<in> waits missed_demo" "((2, 0), (1, 0)) \<in> waits missed_demo" "((1, 0), (3, 0)) \<in> waits missed_demo"
    by (simp_all add: waits_def edges_def)
  then have "((3, 0), (3, 0)) \<in> (waits missed_demo)\<^sup>+" by (meson r_into_trancl trancl_into_trancl)
  moreover have "DeadlockDetector_getDeadlockedProcesses missed_demo = [1, 2]" by code_simp
  ultimately show ?thesis by blast
qed

text \<open>Process 2 waits for resource 10, which its owner then releases before waiting for process 2.\<close>

definition stale_demo :: deadlock_detector where
  "stale_demo =
     (let d1 = DeadlockDetector_onAcquire DeadlockDetector_new 2 20;
          d2 = DeadlockDetector_onAcquire d1 1 10;
          d3 = DeadlockDetector_onWait d2 2 10;
          d4 = DeadlockDetector_onRelease d3 1 10
      in DeadlockDetector_onWait d4 1 20)"

text \<open>
  A release leaves the waits for it in place. Resource 10 has been released and nobody owns
  it, so process 2 can go on; the edge of its earlier wait still closes a cycle and a
  deadlock is reported.
\<close>

theorem stale_wait_reported:
  "DeadlockDetector_hasDeadlock stale_demo \<and> owners stale_demo 10 = {}
   \<and> DeadlockDetector_getDeadlockedProcesses stale_demo = [1, 2]"
  by code_simp

section \<open>Lock order\<close>

datatype lock_op = LockAcquire thread_token resource_id | LockRelease thread_token resource_id

fun lock_exec :: "lock_op \<Rightarrow> deadlock_detector \<Rightarrow> deadlock_detector" where
  "lock_exec (LockAcquire t l) d = DeadlockDetector_onInternalLockAcquire d t l"
| "lock_exec (LockRelease t l) d = DeadlockDetector_onInternalLockRelease d t l"

text \<open>A discipline: a thread takes a lock only if it is above all other locks it holds.\<close>

fun ranked :: "(resource_id \<Rightarrow> nat) \<Rightarrow> lock_op list \<Rightarrow> deadlock_detector \<Rightarrow> bool" where
  "ranked rank [] d = True"
| "ranked rank (LockAcquire t l # ops) d =
     ((\<forall>h \<in> set (successors (heldInternalLocks d) t). h \<noteq> l \<longrightarrow> rank h < rank l)
      \<and> ranked rank ops (lock_exec (LockAcquire t l) d))"
| "ranked rank (LockRelease t l # ops) d = ranked rank ops (lock_exec (LockRelease t l) d)"

lemma ranked_acyclic: "(\<And>a b. (a, b) \<in> r \<Longrightarrow> f a < (f b :: nat)) \<Longrightarrow> acyclic r"
proof -
  assume m: "\<And>a b. (a, b) \<in> r \<Longrightarrow> f a < f b"
  have "(a, b) \<in> r\<^sup>+ \<Longrightarrow> f a < f b" for a b
    by (induction rule: trancl_induct) (auto dest: m intro: less_trans)
  then show "acyclic r" by (auto simp: acyclic_def)
qed

lemma release_lock_graph [simp]: "lockOrderGraph (DeadlockDetector_onInternalLockRelease d t l) = lockOrderGraph d"
  by (simp add: DeadlockDetector_onInternalLockRelease_def Let_def split: option.splits)

lemma acquire_lock_graph:
  "edges (lockOrderGraph (DeadlockDetector_onInternalLockAcquire d t l))
   = edges (lockOrderGraph d) \<union> (set (successors (heldInternalLocks d) t) - {l}) \<times> {l}"
  by (simp add: DeadlockDetector_onInternalLockAcquire_def Let_def edges_fold_into)

lemma ranked_edges:
  assumes "ranked rank ops d" "\<And>a b. (a, b) \<in> edges (lockOrderGraph d) \<Longrightarrow> rank a < rank b"
    "(a, b) \<in> edges (lockOrderGraph (fold lock_exec ops d))"
  shows "rank a < rank b"
  using assms
proof (induction rank ops d arbitrary: a b rule: ranked.induct)
  case (2 rank t l ops d)
  show ?case
  proof (rule "2.IH")
    show "ranked rank ops (lock_exec (LockAcquire t l) d)" using "2.prems"(1) by simp
    show "(a, b) \<in> edges (lockOrderGraph (fold lock_exec ops (lock_exec (LockAcquire t l) d)))" using "2.prems"(3) by simp
    show "rank x < rank y" if "(x, y) \<in> edges (lockOrderGraph (lock_exec (LockAcquire t l) d))" for x y
      using that "2.prems"(1,2) by (auto simp: acquire_lock_graph)
  qed
qed auto

text \<open>
  No false alarm for ordered locking. If every thread takes locks in the order of
  some ranking, the lock-order graph never has a cycle and none is reported, however the threads interleave
  and in whatever order they release.
\<close>

theorem ordered_locks_accepted:
  assumes "ranked rank ops DeadlockDetector_new"
  shows "\<not> DeadlockDetector_hasInternalLockOrderCycle (fold lock_exec ops DeadlockDetector_new)
    \<and> DeadlockDetector_getInternalLockOrderCycle (fold lock_exec ops DeadlockDetector_new) = []"
proof -
  have "acyclic (edges (lockOrderGraph (fold lock_exec ops DeadlockDetector_new)))"
  proof (rule ranked_acyclic)
    show "rank a < rank b" if "(a, b) \<in> edges (lockOrderGraph (fold lock_exec ops DeadlockDetector_new))" for a b
      by (rule ranked_edges [OF assms _ that]) (simp add: DeadlockDetector_new_def)
  qed
  then show ?thesis
    by (simp add: DeadlockDetector_hasInternalLockOrderCycle_def DeadlockDetector_getInternalLockOrderCycle_def
        hasLockOrderCycle_def lockOrderCycleNodes_def has_cycle_iff cycle_nodes_empty)
qed

theorem ordered_locks_accepted_witness:
  "\<not> DeadlockDetector_hasInternalLockOrderCycle
     (fold lock_exec [LockAcquire 1 5, LockAcquire 2 5, LockAcquire 1 7, LockRelease 1 5, LockAcquire 2 7] DeadlockDetector_new)"
proof -
  have "ranked unat [LockAcquire 1 5, LockAcquire 2 5, LockAcquire 1 7, LockRelease 1 5, LockAcquire 2 7] DeadlockDetector_new"
    by code_simp
  from ordered_locks_accepted [OF this] show ?thesis by blast
qed


section \<open>Safe states\<close>

text \<open>The textbook definition: the processes can finish in some order, over natural numbers.\<close>

definition alloc :: "resource_allocation list \<Rightarrow> nat \<Rightarrow> nat \<Rightarrow> nat" where
  "alloc rows i r = unat (ra_resources (rows ! i) ! r)"

fun completes :: "resource_allocation list \<Rightarrow> resource_allocation list \<Rightarrow> nat \<Rightarrow> (nat \<Rightarrow> nat) \<Rightarrow> nat list \<Rightarrow> bool" where
  "completes current maximum rc avail [] \<longleftrightarrow> True"
| "completes current maximum rc avail (i # is) \<longleftrightarrow>
     (\<forall>r < rc. alloc maximum i r - alloc current i r \<le> avail r)
     \<and> completes current maximum rc (\<lambda>r. avail r + alloc current i r) is"

definition safe_order :: "resource_allocation list \<Rightarrow> resource_allocation list \<Rightarrow> 32 word list \<Rightarrow> nat list \<Rightarrow> bool" where
  "safe_order current maximum available ord \<longleftrightarrow>
     distinct ord \<and> set ord = {..<length current}
     \<and> completes current maximum (length available) (\<lambda>r. unat (available ! r)) ord"

lemma completes_append:
  "completes current maximum rc avail (xs @ ys) \<longleftrightarrow>
     completes current maximum rc avail xs
     \<and> completes current maximum rc (\<lambda>r. avail r + (\<Sum>i\<leftarrow>xs. alloc current i r)) ys"
  by (induction xs arbitrary: avail) (simp_all add: add.assoc)

definition banker_inv ::
  "resource_allocation list \<Rightarrow> resource_allocation list \<Rightarrow> 32 word list \<Rightarrow> nat list \<Rightarrow> banker \<Rightarrow> bool" where
  "banker_inv current maximum available ord st \<longleftrightarrow>
     length (bk_work st) = length available \<and> length (bk_finished st) = length current
     \<and> distinct ord \<and> set ord = {i. i < length current \<and> bk_finished st ! i} \<and> bk_finishCount st = length ord
     \<and> (\<forall>r < length available. unat (bk_work st ! r) = unat (available ! r) + (\<Sum>i\<leftarrow>ord. alloc current i r))
     \<and> completes current maximum (length available) (\<lambda>r. unat (available ! r)) ord"

definition no_overflow :: "resource_allocation list \<Rightarrow> 32 word list \<Rightarrow> bool" where
  "no_overflow current available \<longleftrightarrow>
     (\<forall>r < length available. unat (available ! r) + (\<Sum>i < length current. alloc current i r) < 2 ^ 32)"

lemma can_finish_iff:
  assumes v: "rows_valid current maximum (length work)" and i: "i < length current"
  shows "can_finish work (ra_resources (current ! i)) (ra_resources (maximum ! i))
    \<longleftrightarrow> (\<forall>r < length work. alloc maximum i r - alloc current i r \<le> unat (work ! r))"
proof -
  have "ra_resources (current ! i) ! r \<le> ra_resources (maximum ! i) ! r" if "r < length work" for r
    using v i that by (auto simp: rows_valid_def)
  then have "unat (ra_resources (maximum ! i) ! r - ra_resources (current ! i) ! r) = alloc maximum i r - alloc current i r"
    if "r < length work" for r using that by (simp add: alloc_def unat_sub)
  then show ?thesis by (auto simp: can_finish_def word_le_nat_alt)
qed

lemma banker_step_inv:
  assumes v: "rows_valid current maximum (length available)" and ov: "no_overflow current available"
    and inv: "banker_inv current maximum available ord st" and i: "i < length current"
  shows "\<exists>ord'. banker_inv current maximum available ord' (banker_step current maximum i st)"
proof (cases "\<not> bk_finished st ! i \<and> can_finish (bk_work st) (ra_resources (current ! i)) (ra_resources (maximum ! i))")
  case False
  then have "banker_step current maximum i st = st" by (auto simp: banker_step_def)
  then show ?thesis using inv by auto
next
  case True
  note b = inv [unfolded banker_inv_def]
  have lw: "length (bk_work st) = length available" using b by simp
  have cf: "\<forall>r < length available. alloc maximum i r - alloc current i r \<le> unat (bk_work st ! r)"
    using can_finish_iff [of current maximum "bk_work st"] v i True lw by simp
  have ni: "i \<notin> set ord" using b True by auto
  have lc: "length (ra_resources (current ! i)) = length available" using v i by (auto simp: rows_valid_def)
  have sum: "unat (bk_work st ! r + ra_resources (current ! i) ! r)
      = unat (available ! r) + (\<Sum>j\<leftarrow>ord @ [i]. alloc current j r)" if r: "r < length available" for r
  proof -
    have "(\<Sum>j\<leftarrow>ord @ [i]. alloc current j r) = (\<Sum>j \<in> set (ord @ [i]). alloc current j r)"
      using b ni by (intro sum_list_distinct_conv_sum_set) auto
    also have "\<dots> \<le> (\<Sum>j < length current. alloc current j r)" using b i by (intro sum_mono2) auto
    finally have "unat (available ! r) + (\<Sum>j\<leftarrow>ord @ [i]. alloc current j r) < 2 ^ 32"
      using ov r by (auto simp: no_overflow_def intro: le_less_trans [OF add_left_mono])
    moreover have "unat (bk_work st ! r) = unat (available ! r) + (\<Sum>j\<leftarrow>ord. alloc current j r)" using b r by blast
    ultimately show ?thesis by (subst unat_add_lem [THEN iffD1]) (simp_all add: alloc_def)
  qed
  have "completes current maximum (length available) (\<lambda>r. unat (available ! r)) (ord @ [i])"
    using b cf by (simp add: completes_append)
  moreover have "set (ord @ [i]) = {j. j < length current \<and> (bk_finished st)[i := True] ! j}"
    using b i by (auto simp: nth_list_update)
  ultimately have "banker_inv current maximum available (ord @ [i]) (banker_step current maximum i st)"
    using b ni lc sum True by (simp add: banker_inv_def banker_step_def)
  then show ?thesis by blast
qed

lemma banker_steps_inv:
  assumes v: "rows_valid current maximum (length available)" and ov: "no_overflow current available"
    and inv: "banker_inv current maximum available ord st" and "is": "\<forall>i \<in> set is. i < length current"
  shows "\<exists>ord'. banker_inv current maximum available ord' (fold (banker_step current maximum) is st)"
  using inv "is"
proof (induction "is" arbitrary: st ord)
  case (Cons i "is")
  have "i < length current" using Cons.prems(2) by simp
  from banker_step_inv [OF v ov Cons.prems(1) this]
  obtain ord' where "banker_inv current maximum available ord' (banker_step current maximum i st)" by blast
  from Cons.IH [OF this] Cons.prems(2) show ?case by simp
qed auto

text \<open>A pass without progress has met no process that can finish.\<close>

lemma banker_steps_stuck:
  assumes "\<not> bk_progressed (fold (banker_step current maximum) is st)"
  shows "\<not> bk_progressed st \<and> fold (banker_step current maximum) is st = st
    \<and> (\<forall>i \<in> set is. bk_finished st ! i
        \<or> \<not> can_finish (bk_work st) (ra_resources (current ! i)) (ra_resources (maximum ! i)))"
  using assms
proof (induction "is" arbitrary: st)
  case (Cons i "is")
  from Cons.IH [of "banker_step current maximum i st"] Cons.prems
  show ?case by (auto simp: banker_step_def split: if_splits)
qed simp

lemma banker_loop_result:
  assumes v: "rows_valid current maximum (length available)" and ov: "no_overflow current available"
    and "banker_inv current maximum available ord st"
  shows "\<exists>ord'. banker_inv current maximum available ord' (banker_loop current maximum st)
    \<and> (\<forall>i < length current. bk_finished (banker_loop current maximum st) ! i
        \<or> \<not> can_finish (bk_work (banker_loop current maximum st)) (ra_resources (current ! i)) (ra_resources (maximum ! i)))"
  using assms
proof (induction current maximum st arbitrary: ord rule: banker_loop.induct)
  case (1 current maximum st)
  let ?s = "st\<lparr>bk_progressed := False\<rparr>"
  have i0: "banker_inv current maximum available ord ?s" using "1.prems"(3) by (simp add: banker_inv_def)
  have len: "length (bk_finished st) = length current" using "1.prems"(3) by (simp add: banker_inv_def)
  obtain ord1 where i1: "banker_inv current maximum available ord1 (banker_pass current maximum st)"
    using banker_steps_inv [OF "1.prems"(1,2) i0, of "[0..<length current]"] len by (auto simp: banker_pass_def)
  show ?case
  proof (cases "bk_progressed (banker_pass current maximum st)")
    case True
    then show ?thesis using "1.IH" [OF refl True "1.prems"(1,2) i1] by (simp add: banker_loop.simps [of _ _ st] Let_def)
  next
    case False
    then have "\<forall>i < length current. bk_finished (banker_pass current maximum st) ! i
        \<or> \<not> can_finish (bk_work (banker_pass current maximum st)) (ra_resources (current ! i)) (ra_resources (maximum ! i))"
      using banker_steps_stuck [of current maximum "[0..<length current]" ?s] len by (simp add: banker_pass_def)
    then show ?thesis using i1 False by (auto simp: banker_loop.simps [of _ _ st] Let_def)
  qed
qed


lemma stuck_complete:
  assumes v: "rows_valid current maximum (length available)" and inv: "banker_inv current maximum available ord st"
    and stuck: "\<forall>i < length current. bk_finished st ! i
        \<or> \<not> can_finish (bk_work st) (ra_resources (current ! i)) (ra_resources (maximum ! i))"
    and safe: "safe_order current maximum available ord0"
  shows "set ord = {..<length current}"
proof (rule ccontr)
  assume ne: "set ord \<noteq> {..<length current}"
  note b = inv [unfolded banker_inv_def] and s = safe [unfolded safe_order_def]
  have "\<exists>i \<in> set ord0. i \<notin> set ord" using b s ne by auto
  then obtain xs i ys where o: "ord0 = xs @ i # ys" "i \<notin> set ord" "set xs \<subseteq> set ord"
    using split_list_first_prop [of ord0 "\<lambda>i. i \<notin> set ord"] by auto
  have i: "i < length current" "\<not> bk_finished st ! i" using o s b by auto
  have "alloc maximum i r - alloc current i r \<le> unat (bk_work st ! r)" if r: "r < length available" for r
  proof -
    have "alloc maximum i r - alloc current i r \<le> unat (available ! r) + (\<Sum>j\<leftarrow>xs. alloc current j r)"
      using s o(1) r by (simp add: completes_append)
    also have "(\<Sum>j\<leftarrow>xs. alloc current j r) = (\<Sum>j \<in> set xs. alloc current j r)"
      using s o(1) by (intro sum_list_distinct_conv_sum_set) auto
    also have "\<dots> \<le> (\<Sum>j \<in> set ord. alloc current j r)" using o(3) by (intro sum_mono2) auto
    also have "\<dots> = (\<Sum>j\<leftarrow>ord. alloc current j r)" using b by (metis sum_list_distinct_conv_sum_set)
    finally show ?thesis using b r by simp
  qed
  then have "can_finish (bk_work st) (ra_resources (current ! i)) (ra_resources (maximum ! i))"
    using can_finish_iff [of current maximum "bk_work st"] v i(1) b by simp
  then show False using stuck i by blast
qed

text \<open>
  C13: Banker's check is exact. For well-formed rows whose totals fit in 32 bits, the check
  ends and answers yes exactly when there is an order in which all processes can finish, each
  getting its remaining need from what is available and what the earlier ones returned.
\<close>

theorem banker_safe_iff:
  assumes "length current = length maximum" "available \<noteq> []" "rows_valid current maximum (length available)"
    "no_overflow current available"
  shows "DeadlockDetector_isSafeState current maximum available \<longleftrightarrow> (\<exists>ord. safe_order current maximum available ord)"
proof (cases "current = []")
  case True
  then show ?thesis using assms(1) by (auto simp: DeadlockDetector_isSafeState_def safe_order_def intro!: exI [of _ "[]"])
next
  case ne: False
  let ?st = "\<lparr>bk_work = available, bk_finished = replicate (length current) False, bk_finishCount = 0, bk_progressed = False\<rparr>"
  let ?fin = "banker_loop current maximum ?st"
  have "banker_inv current maximum available [] ?st" by (auto simp: banker_inv_def)
  from banker_loop_result [OF assms(3,4) this]
  obtain ord where inv: "banker_inv current maximum available ord ?fin" and stuck: "\<forall>i < length current. bk_finished ?fin ! i
        \<or> \<not> can_finish (bk_work ?fin) (ra_resources (current ! i)) (ra_resources (maximum ! i))" by blast
  note b = inv [unfolded banker_inv_def]
  have ans: "DeadlockDetector_isSafeState current maximum available \<longleftrightarrow> length ord = length current"
    using assms ne b by (simp add: DeadlockDetector_isSafeState_def)
  also have "\<dots> \<longleftrightarrow> set ord = {..<length current}"
  proof
    assume l: "length ord = length current"
    have "card (set ord) = card {..<length current}" using b l distinct_card by fastforce
    moreover have "set ord \<subseteq> {..<length current}" using b by auto
    ultimately show "set ord = {..<length current}" by (intro card_subset_eq) auto
  next
    assume "set ord = {..<length current}"
    then show "length ord = length current" using b by (metis card_lessThan distinct_card)
  qed
  also have "\<dots> \<longleftrightarrow> (\<exists>ord. safe_order current maximum available ord)"
    using stuck_complete [OF assms(3) inv stuck] b by (auto simp: safe_order_def)
  finally show ?thesis .
qed

definition row :: "process_id \<Rightarrow> 32 word list \<Rightarrow> resource_allocation" where
  "row p rs = \<lparr>ra_pid = p, ra_resources = rs\<rparr>"

theorem banker_safe_iff_witness:
  "(\<exists>ord. safe_order [row 1 [1, 0], row 2 [0, 2]] [row 1 [1, 1], row 2 [1, 2]] [0, 1] ord)
   \<and> \<not> (\<exists>ord. safe_order [row 1 [1, 0], row 2 [0, 2]] [row 1 [1, 1], row 2 [1, 2]] [0, 0] ord)"
proof -
  let ?c = "[row 1 [1, 0], row 2 [0, 2]]" and ?m = "[row 1 [1, 1], row 2 [1, 2]]"
  have v: "rows_valid ?c ?m 2" by code_simp
  have n: "no_overflow ?c [0, 1]" "no_overflow ?c [0, 0]"
    by (simp_all add: no_overflow_def alloc_def row_def All_less_Suc lessThan_Suc)
  have "DeadlockDetector_isSafeState ?c ?m [0, 1]" "\<not> DeadlockDetector_isSafeState ?c ?m [0, 0]" by code_simp+
  then show ?thesis
    using banker_safe_iff [of ?c ?m "[0, 1]"] banker_safe_iff [of ?c ?m "[0, 0]"] v n by (simp add: numeral_2_eq_2)
qed

text \<open>
  Banker's check wraps around. With more than 32 bits of a resource in total the returned units
  overflow the counter: process 2 needs nothing, and process 1 one unit of the many available, so every order
  is safe, but after adding what process 2 returned the check finds no unit left and answers no.
\<close>

theorem banker_overflow:
  "\<not> DeadlockDetector_isSafeState [row 2 [1], row 1 [0]] [row 2 [1], row 1 [1]] [0xFFFFFFFF]
   \<and> safe_order [row 2 [1], row 1 [0]] [row 2 [1], row 1 [1]] [0xFFFFFFFF] [1, 0]
   \<and> safe_order [row 2 [1], row 1 [0]] [row 2 [1], row 1 [1]] [0xFFFFFFFF] [0, 1]"
proof -
  have "\<not> DeadlockDetector_isSafeState [row 2 [1], row 1 [0]] [row 2 [1], row 1 [1]] [0xFFFFFFFF]" by code_simp
  moreover have "{0, Suc 0} = {..<Suc (Suc 0)}" by auto
  ultimately show ?thesis by (auto simp: safe_order_def alloc_def row_def)
qed

end
