(* ===== verification/Ipc.thy ===== *)
theory Ipc
  imports Prelude
begin

text \<open>
  Interprocess communication: \<^verbatim>\<open>ipc/pipe.cpp\<close>, \<^verbatim>\<open>ipc/message_queue.cpp\<close>, \<^verbatim>\<open>ipc/shared_memory.cpp\<close> and
  \<^verbatim>\<open>ipc/ipc_manager.cpp\<close>. Each method locks its object and is one step. A read takes the caller's
  buffer and returns it filled; what is read replaces a prefix of it.
\<close>

section \<open>Pipes\<close>

record pipe =
  pipe_name :: string
  pipe_capacity :: nat
  pipe_open :: bool
  pipe_buffer :: "byte list"

definition Pipe_new :: "string \<Rightarrow> nat \<Rightarrow> pipe" where
  "Pipe_new name capacity = \<lparr>pipe_name = name, pipe_capacity = max 1 capacity, pipe_open = True, pipe_buffer = []\<rparr>"

definition Pipe_write :: "pipe \<Rightarrow> byte list \<Rightarrow> pipe \<times> nat result" where
  "Pipe_write p data =
     (if \<not> pipe_open p then (p, Error InvalidState)
      else if data = [] then (p, Ok 0)
      else
        let available = pipe_capacity p - length (pipe_buffer p) in
        if available = 0 then (p, Error BufferFull)
        else
          let toWrite = min available (length data)
          in (p\<lparr>pipe_buffer := pipe_buffer p @ take toWrite data\<rparr>, Ok toWrite))"

definition Pipe_read :: "pipe \<Rightarrow> byte list \<Rightarrow> (pipe \<times> byte list) \<times> nat result" where
  "Pipe_read p buffer =
     (if \<not> pipe_open p then ((p, buffer), Error InvalidState)
      else if buffer = [] then ((p, buffer), Ok 0)
      else if pipe_buffer p = [] then ((p, buffer), Error BufferEmpty)
      else
        let toRead = min (length buffer) (length (pipe_buffer p))
        in ((p\<lparr>pipe_buffer := drop toRead (pipe_buffer p)\<rparr>, take toRead (pipe_buffer p) @ drop toRead buffer), Ok toRead))"

definition Pipe_close :: "pipe \<Rightarrow> pipe" where
  "Pipe_close p = p\<lparr>pipe_open := False, pipe_buffer := []\<rparr>"

definition Pipe_isOpen :: "pipe \<Rightarrow> bool" where "Pipe_isOpen p = pipe_open p"

definition Pipe_capacity :: "pipe \<Rightarrow> nat" where "Pipe_capacity p = pipe_capacity p"

definition Pipe_size :: "pipe \<Rightarrow> nat" where "Pipe_size p = length (pipe_buffer p)"

section \<open>Message queues\<close>

record message =
  msg_type :: "32 word"
  msg_priority :: "32 word"
  msg_payload :: "byte list"

record message_queue =
  mq_name :: string
  mq_maxMessages :: nat
  mq_priorityMode :: bool
  mq_open :: bool
  mq_queue :: "message list"

definition MessageQueue_new :: "string \<Rightarrow> nat \<Rightarrow> bool \<Rightarrow> message_queue" where
  "MessageQueue_new name maxMessages priorityMode =
     \<lparr>mq_name = name, mq_maxMessages = max 1 maxMessages, mq_priorityMode = priorityMode, mq_open = True, mq_queue = []\<rparr>"

text \<open>Insertion before the first message of lower priority.\<close>

definition mq_insert :: "message \<Rightarrow> message list \<Rightarrow> message list" where
  "mq_insert m q =
     (let before = takeWhile (\<lambda>existing. \<not> msg_priority m > msg_priority existing) q
      in before @ m # drop (length before) q)"

definition MessageQueue_send :: "message_queue \<Rightarrow> message \<Rightarrow> message_queue \<times> unit result" where
  "MessageQueue_send mq m =
     (if \<not> mq_open mq then (mq, Error InvalidState)
      else if length (mq_queue mq) \<ge> mq_maxMessages mq then (mq, Error BufferFull)
      else (mq\<lparr>mq_queue := (if mq_priorityMode mq then mq_insert m (mq_queue mq) else mq_queue mq @ [m])\<rparr>, Ok ()))"

definition MessageQueue_receive :: "message_queue \<Rightarrow> message_queue \<times> message result" where
  "MessageQueue_receive mq =
     (if \<not> mq_open mq then (mq, Error InvalidState)
      else (case mq_queue mq of
              [] \<Rightarrow> (mq, Error BufferEmpty)
            | m # ms \<Rightarrow> (mq\<lparr>mq_queue := ms\<rparr>, Ok m)))"

definition MessageQueue_write :: "message_queue \<Rightarrow> byte list \<Rightarrow> message_queue \<times> nat result" where
  "MessageQueue_write mq data =
     (case MessageQueue_send mq \<lparr>msg_type = 0, msg_priority = 0, msg_payload = data\<rparr> of
        (mq', Error e) \<Rightarrow> (mq', Error e)
      | (mq', Ok _) \<Rightarrow> (mq', Ok (length data)))"

definition MessageQueue_read :: "message_queue \<Rightarrow> byte list \<Rightarrow> (message_queue \<times> byte list) \<times> nat result" where
  "MessageQueue_read mq buffer =
     (case MessageQueue_receive mq of
        (mq', Error e) \<Rightarrow> ((mq', buffer), Error e)
      | (mq', Ok m) \<Rightarrow>
          let toCopy = min (length buffer) (length (msg_payload m))
          in ((mq', take toCopy (msg_payload m) @ drop toCopy buffer), Ok toCopy))"

definition MessageQueue_close :: "message_queue \<Rightarrow> message_queue" where
  "MessageQueue_close mq = mq\<lparr>mq_open := False, mq_queue := []\<rparr>"

definition MessageQueue_isOpen :: "message_queue \<Rightarrow> bool" where "MessageQueue_isOpen mq = mq_open mq"

definition MessageQueue_size :: "message_queue \<Rightarrow> nat" where "MessageQueue_size mq = length (mq_queue mq)"

definition MessageQueue_maxMessages :: "message_queue \<Rightarrow> nat" where "MessageQueue_maxMessages mq = mq_maxMessages mq"

definition MessageQueue_isPriorityMode :: "message_queue \<Rightarrow> bool" where
  "MessageQueue_isPriorityMode mq = mq_priorityMode mq"

section \<open>Shared memory\<close>

record shared_memory =
  shm_name :: string
  shm_open :: bool
  shm_region :: "byte list"
  shm_attached :: "process_id set"

definition SharedMemory_new :: "string \<Rightarrow> nat \<Rightarrow> shared_memory" where
  "SharedMemory_new name bytes =
     \<lparr>shm_name = name, shm_open = True, shm_region = replicate (max 1 bytes) 0, shm_attached = {}\<rparr>"

definition SharedMemory_write :: "shared_memory \<Rightarrow> byte list \<Rightarrow> shared_memory \<times> nat result" where
  "SharedMemory_write s data =
     (if \<not> shm_open s then (s, Error InvalidState)
      else if data = [] then (s, Ok 0)
      else
        let toWrite = min (length data) (length (shm_region s))
        in (s\<lparr>shm_region := take toWrite data @ drop toWrite (shm_region s)\<rparr>, Ok toWrite))"

definition SharedMemory_read :: "shared_memory \<Rightarrow> byte list \<Rightarrow> (shared_memory \<times> byte list) \<times> nat result" where
  "SharedMemory_read s buffer =
     (if \<not> shm_open s then ((s, buffer), Error InvalidState)
      else if buffer = [] then ((s, buffer), Ok 0)
      else
        let toRead = min (length buffer) (length (shm_region s))
        in ((s, take toRead (shm_region s) @ drop toRead buffer), Ok toRead))"

definition SharedMemory_close :: "shared_memory \<Rightarrow> shared_memory" where
  "SharedMemory_close s = s\<lparr>shm_open := False, shm_region := replicate (length (shm_region s)) 0, shm_attached := {}\<rparr>"

definition SharedMemory_isOpen :: "shared_memory \<Rightarrow> bool" where "SharedMemory_isOpen s = shm_open s"

definition SharedMemory_attach :: "shared_memory \<Rightarrow> process_id \<Rightarrow> shared_memory \<times> unit result" where
  "SharedMemory_attach s pid =
     (if \<not> shm_open s then (s, Error InvalidState)
      else if pid = INVALID_PID then (s, Error InvalidPid)
      else (s\<lparr>shm_attached := insert pid (shm_attached s)\<rparr>, Ok ()))"

definition SharedMemory_detach :: "shared_memory \<Rightarrow> process_id \<Rightarrow> shared_memory \<times> unit result" where
  "SharedMemory_detach s pid =
     (if pid = INVALID_PID then (s, Error InvalidPid)
      else if pid \<notin> shm_attached s then (s, Error NotFound)
      else (s\<lparr>shm_attached := shm_attached s - {pid}\<rparr>, Ok ()))"

definition SharedMemory_isAttached :: "shared_memory \<Rightarrow> process_id \<Rightarrow> bool" where
  "SharedMemory_isAttached s pid \<longleftrightarrow> pid \<in> shm_attached s"

definition SharedMemory_attachedCount :: "shared_memory \<Rightarrow> nat" where
  "SharedMemory_attachedCount s = card (shm_attached s)"

definition SharedMemory_size :: "shared_memory \<Rightarrow> nat" where
  "SharedMemory_size s = length (shm_region s)"

section \<open>The channel interface and the manager\<close>

datatype ipc_channel = PipeChannel pipe | QueueChannel message_queue | SharedChannel shared_memory

fun channel_write :: "ipc_channel \<Rightarrow> byte list \<Rightarrow> ipc_channel \<times> nat result" where
  "channel_write (PipeChannel p) data = map_prod PipeChannel id (Pipe_write p data)"
| "channel_write (QueueChannel q) data = map_prod QueueChannel id (MessageQueue_write q data)"
| "channel_write (SharedChannel s) data = map_prod SharedChannel id (SharedMemory_write s data)"

fun channel_read :: "ipc_channel \<Rightarrow> byte list \<Rightarrow> (ipc_channel \<times> byte list) \<times> nat result" where
  "channel_read (PipeChannel p) buf = map_prod (map_prod PipeChannel id) id (Pipe_read p buf)"
| "channel_read (QueueChannel q) buf = map_prod (map_prod QueueChannel id) id (MessageQueue_read q buf)"
| "channel_read (SharedChannel s) buf = map_prod (map_prod SharedChannel id) id (SharedMemory_read s buf)"

fun channel_close :: "ipc_channel \<Rightarrow> ipc_channel" where
  "channel_close (PipeChannel p) = PipeChannel (Pipe_close p)"
| "channel_close (QueueChannel q) = QueueChannel (MessageQueue_close q)"
| "channel_close (SharedChannel s) = SharedChannel (SharedMemory_close s)"

fun channel_isOpen :: "ipc_channel \<Rightarrow> bool" where
  "channel_isOpen (PipeChannel p) = Pipe_isOpen p"
| "channel_isOpen (QueueChannel q) = MessageQueue_isOpen q"
| "channel_isOpen (SharedChannel s) = SharedMemory_isOpen s"

fun channel_name :: "ipc_channel \<Rightarrow> string" where
  "channel_name (PipeChannel p) = pipe_name p"
| "channel_name (QueueChannel q) = mq_name q"
| "channel_name (SharedChannel s) = shm_name s"

record ipc_manager =
  channels :: "string \<rightharpoonup> ipc_channel"

definition IpcManager_new :: ipc_manager where
  "IpcManager_new = \<lparr>channels = Map.empty\<rparr>"

definition IpcManager_createPipe :: "ipc_manager \<Rightarrow> string \<Rightarrow> nat \<Rightarrow> ipc_manager \<times> unit result" where
  "IpcManager_createPipe m name capacity =
     (if name = [] then (m, Error InvalidArgument)
      else if channels m name \<noteq> None then (m, Ok ())
      else (m\<lparr>channels := (channels m)(name \<mapsto> PipeChannel (Pipe_new name capacity))\<rparr>, Ok ()))"

definition IpcManager_createSharedMemory :: "ipc_manager \<Rightarrow> string \<Rightarrow> nat \<Rightarrow> ipc_manager \<times> unit result" where
  "IpcManager_createSharedMemory m name bytes =
     (if name = [] then (m, Error InvalidArgument)
      else if channels m name \<noteq> None then (m, Ok ())
      else (m\<lparr>channels := (channels m)(name \<mapsto> SharedChannel (SharedMemory_new name bytes))\<rparr>, Ok ()))"

definition IpcManager_createMessageQueue :: "ipc_manager \<Rightarrow> string \<Rightarrow> nat \<Rightarrow> bool \<Rightarrow> ipc_manager \<times> unit result" where
  "IpcManager_createMessageQueue m name maxMessages priorityMode =
     (if name = [] then (m, Error InvalidArgument)
      else if channels m name \<noteq> None then (m, Ok ())
      else (m\<lparr>channels := (channels m)(name \<mapsto> QueueChannel (MessageQueue_new name maxMessages priorityMode))\<rparr>, Ok ()))"

text \<open>The returned reference is the entry under that name; what is done through it changes the entry.\<close>

definition IpcManager_getChannel :: "ipc_manager \<Rightarrow> string \<Rightarrow> ipc_channel result" where
  "IpcManager_getChannel m name = (case channels m name of None \<Rightarrow> Error NotFound | Some c \<Rightarrow> Ok c)"

definition IpcManager_destroyChannel :: "ipc_manager \<Rightarrow> string \<Rightarrow> ipc_manager \<times> unit result" where
  "IpcManager_destroyChannel m name =
     (if channels m name = None then (m, Error NotFound)
      else (m\<lparr>channels := (channels m)(name := None)\<rparr>, Ok ()))"

definition IpcManager_exists :: "ipc_manager \<Rightarrow> string \<Rightarrow> bool" where
  "IpcManager_exists m name \<longleftrightarrow> channels m name \<noteq> None"

definition IpcManager_channelCount :: "ipc_manager \<Rightarrow> nat" where
  "IpcManager_channelCount m = card (dom (channels m))"


section \<open>The contract of a channel\<close>

text \<open>
  What every channel promises: writes and reads of a closed channel fail with \<^verbatim>\<open>InvalidState\<close> and change nothing,
  a channel is closed only by \<^verbatim>\<open>close\<close>, and no call moves more bytes than the caller offered or asked for.
\<close>

locale channel_interface =
  fixes isopen :: "'a \<Rightarrow> bool" and wr :: "'a \<Rightarrow> byte list \<Rightarrow> 'a \<times> nat result"
    and rd :: "'a \<Rightarrow> byte list \<Rightarrow> ('a \<times> byte list) \<times> nat result" and cl :: "'a \<Rightarrow> 'a"
  assumes closed_wr: "\<not> isopen c \<Longrightarrow> wr c data = (c, Error InvalidState)"
    and closed_rd: "\<not> isopen c \<Longrightarrow> rd c buf = ((c, buf), Error InvalidState)"
    and close_closed: "\<not> isopen (cl c)"
    and wr_open: "isopen (fst (wr c data)) = isopen c"
    and rd_open: "isopen (fst (fst (rd c buf))) = isopen c"
    and wr_bound: "snd (wr c data) = Ok n \<Longrightarrow> n \<le> length data"
    and rd_bound: "snd (rd c buf) = Ok n \<Longrightarrow> n \<le> length buf"
    and rd_length: "length (snd (fst (rd c buf))) = length buf"
begin

text \<open>A closed channel stays as it is whatever is written to or read from it.\<close>

lemma closed_run: "\<not> isopen c \<Longrightarrow>
  fold (\<lambda>oper c. case oper of Inl data \<Rightarrow> fst (wr c data) | Inr buf \<Rightarrow> fst (fst (rd c buf))) ops c = c"
  by (induction ops) (auto simp: closed_wr closed_rd split: sum.splits)

lemma open_run: "isopen c \<Longrightarrow>
  isopen (fold (\<lambda>oper c. case oper of Inl data \<Rightarrow> fst (wr c data) | Inr buf \<Rightarrow> fst (fst (rd c buf))) ops c)"
  by (induction ops arbitrary: c) (auto simp: wr_open rd_open split: sum.splits)

end

interpretation pipe_channel: channel_interface Pipe_isOpen Pipe_write Pipe_read Pipe_close
  by unfold_locales
    (auto simp: Pipe_isOpen_def Pipe_write_def Pipe_read_def Pipe_close_def Let_def min_def split: if_splits)

interpretation queue_channel: channel_interface MessageQueue_isOpen MessageQueue_write MessageQueue_read MessageQueue_close
  by unfold_locales
    (auto simp: MessageQueue_isOpen_def MessageQueue_write_def MessageQueue_read_def MessageQueue_close_def
      MessageQueue_send_def MessageQueue_receive_def Let_def split: if_splits list.splits)

interpretation shared_channel: channel_interface SharedMemory_isOpen SharedMemory_write SharedMemory_read SharedMemory_close
  by unfold_locales
    (auto simp: SharedMemory_isOpen_def SharedMemory_write_def SharedMemory_read_def SharedMemory_close_def Let_def split: if_splits)

interpretation ipc: channel_interface channel_isOpen channel_write channel_read channel_close
proof
  fix c :: ipc_channel and data buf :: "byte list" and n
  show "\<not> channel_isOpen c \<Longrightarrow> channel_write c data = (c, Error InvalidState)"
    by (cases c) (simp_all add: pipe_channel.closed_wr queue_channel.closed_wr shared_channel.closed_wr)
  show "\<not> channel_isOpen c \<Longrightarrow> channel_read c buf = ((c, buf), Error InvalidState)"
    by (cases c) (simp_all add: pipe_channel.closed_rd queue_channel.closed_rd shared_channel.closed_rd)
  show "\<not> channel_isOpen (channel_close c)"
    by (cases c) (simp_all add: pipe_channel.close_closed queue_channel.close_closed shared_channel.close_closed)
  show "channel_isOpen (fst (channel_write c data)) = channel_isOpen c"
    by (cases c) (simp_all add: pipe_channel.wr_open queue_channel.wr_open shared_channel.wr_open)
  show "channel_isOpen (fst (fst (channel_read c buf))) = channel_isOpen c"
    by (cases c) (simp_all add: pipe_channel.rd_open queue_channel.rd_open shared_channel.rd_open)
  show "snd (channel_write c data) = Ok n \<Longrightarrow> n \<le> length data"
    by (cases c) (simp_all add: pipe_channel.wr_bound queue_channel.wr_bound shared_channel.wr_bound)
  show "snd (channel_read c buf) = Ok n \<Longrightarrow> n \<le> length buf"
    by (cases c) (simp_all add: pipe_channel.rd_bound queue_channel.rd_bound shared_channel.rd_bound)
  show "length (snd (fst (channel_read c buf))) = length buf"
    by (cases c) (simp_all add: pipe_channel.rd_length queue_channel.rd_length shared_channel.rd_length)
qed

section \<open>Pipes carry a byte stream\<close>

datatype pipe_op = PipeWrite "byte list" | PipeRead "byte list"

text \<open>A run with the bytes accepted and the bytes delivered so far.\<close>

fun pipe_exec :: "pipe_op \<Rightarrow> pipe \<times> byte list \<times> byte list \<Rightarrow> pipe \<times> byte list \<times> byte list" where
  "pipe_exec (PipeWrite data) (p, accepted, delivered) =
     (case Pipe_write p data of
        (p', Ok n) \<Rightarrow> (p', accepted @ take n data, delivered)
      | (p', Error _) \<Rightarrow> (p', accepted, delivered))"
| "pipe_exec (PipeRead buf) (p, accepted, delivered) =
     (case Pipe_read p buf of
        ((p', buf'), Ok n) \<Rightarrow> (p', accepted, delivered @ take n buf')
      | ((p', buf'), Error _) \<Rightarrow> (p', accepted, delivered))"

definition pipe_history :: "pipe \<times> byte list \<times> byte list \<Rightarrow> bool" where
  "pipe_history s \<longleftrightarrow> (case s of (p, accepted, delivered) \<Rightarrow>
     accepted = delivered @ pipe_buffer p \<and> length (pipe_buffer p) \<le> pipe_capacity p)"

lemma pipe_exec_history: "pipe_history s \<Longrightarrow> pipe_history (pipe_exec oper s) \<and> pipe_capacity (fst (pipe_exec oper s)) = pipe_capacity (fst s)"
  by (cases s; cases oper) (auto simp: pipe_history_def Pipe_write_def Pipe_read_def Let_def min_def split: if_splits)

lemma pipe_run_history:
  "pipe_history s \<Longrightarrow> pipe_history (fold pipe_exec ops s) \<and> pipe_capacity (fst (fold pipe_exec ops s)) = pipe_capacity (fst s)"
  by (induction ops arbitrary: s) (simp_all add: pipe_exec_history)

text \<open>
  A pipe is a bounded byte stream. For every sequence of writes and reads of any sizes on a new pipe,
  partial and rejected ones included, the bytes accepted are the bytes delivered followed by
  the bytes still in the pipe: none is lost, duplicated or reordered, and the pipe never holds more than
  its capacity.
\<close>

theorem pipe_stream:
  assumes "fold pipe_exec ops (Pipe_new name capacity, [], []) = (p, accepted, delivered)"
  shows "accepted = delivered @ pipe_buffer p \<and> Pipe_size p \<le> Pipe_capacity p \<and> Pipe_capacity p = max 1 capacity"
proof -
  have "pipe_history (Pipe_new name capacity, [], [])" by (simp add: pipe_history_def Pipe_new_def)
  from pipe_run_history [OF this, of ops] assms show ?thesis
    by (simp add: pipe_history_def Pipe_size_def Pipe_capacity_def Pipe_new_def)
qed

theorem pipe_stream_witness:
  "\<exists>p. fold pipe_exec [PipeWrite [1, 2, 3], PipeRead [0, 0], PipeWrite [4, 5], PipeRead [0]] (Pipe_new ''p'' 3, [], [])
     = (p, [1, 2, 3, 4, 5], [1, 2, 3]) \<and> pipe_buffer p = [4, 5]"
proof -
  let ?r = "fold pipe_exec [PipeWrite [1, 2, 3], PipeRead [0, 0], PipeWrite [4, 5], PipeRead [0]] (Pipe_new ''p'' 3, [], [])"
  have h: "snd ?r = ([1, 2, 3, 4, 5], [1, 2, 3])" by code_simp
  obtain p where p: "?r = (p, [1, 2, 3, 4, 5], [1, 2, 3])" using h by (metis prod.collapse)
  from pipe_stream [OF p] p show ?thesis by simp
qed


section \<open>Message queues deliver by priority, in order within a priority\<close>

datatype mq_op = MqSend message | MqReceive

text \<open>A run with the messages accepted and the messages delivered so far.\<close>

fun mq_exec :: "mq_op \<Rightarrow> message_queue \<times> message list \<times> message list \<Rightarrow> message_queue \<times> message list \<times> message list" where
  "mq_exec (MqSend m) (mq, accepted, delivered) =
     (case MessageQueue_send mq m of
        (mq', Ok _) \<Rightarrow> (mq', accepted @ [m], delivered)
      | (mq', Error _) \<Rightarrow> (mq', accepted, delivered))"
| "mq_exec MqReceive (mq, accepted, delivered) =
     (case MessageQueue_receive mq of
        (mq', Ok m) \<Rightarrow> (mq', accepted, delivered @ [m])
      | (mq', Error _) \<Rightarrow> (mq', accepted, delivered))"

definition by_priority :: "message list \<Rightarrow> bool" where
  "by_priority q \<longleftrightarrow> sorted_wrt (\<lambda>a b. msg_priority b \<le> msg_priority a) q"

definition mq_history :: "message_queue \<times> message list \<times> message list \<Rightarrow> bool" where
  "mq_history s \<longleftrightarrow> (case s of (mq, accepted, delivered) \<Rightarrow>
     length (mq_queue mq) \<le> mq_maxMessages mq
     \<and> (if mq_priorityMode mq
        then by_priority (mq_queue mq)
          \<and> (\<forall>k. filter (\<lambda>m. msg_priority m = k) accepted
               = filter (\<lambda>m. msg_priority m = k) (delivered @ mq_queue mq))
        else accepted = delivered @ mq_queue mq))"

lemma mq_insert_split:
  obtains before after where "q = before @ after" "mq_insert m q = before @ m # after"
    "\<forall>x \<in> set before. msg_priority m \<le> msg_priority x" "after = [] \<or> msg_priority (hd after) < msg_priority m"
proof
  let ?P = "\<lambda>x. \<not> msg_priority m > msg_priority x"
  show "q = takeWhile ?P q @ dropWhile ?P q" by simp
  show "mq_insert m q = takeWhile ?P q @ m # dropWhile ?P q" by (simp add: mq_insert_def Let_def dropWhile_eq_drop)
  show "\<forall>x \<in> set (takeWhile ?P q). msg_priority m \<le> msg_priority x" by (auto dest: set_takeWhileD)
  show "dropWhile ?P q = [] \<or> msg_priority (hd (dropWhile ?P q)) < msg_priority m" using hd_dropWhile [of ?P q] by auto
qed

lemma mq_insert_view:
  assumes "by_priority q"
  shows "by_priority (mq_insert m q)" "length (mq_insert m q) = Suc (length q)"
    "filter (\<lambda>x. msg_priority x = k) (mq_insert m q) = filter (\<lambda>x. msg_priority x = k) (q @ [m])"
proof -
  obtain before after where s: "q = before @ after" "mq_insert m q = before @ m # after"
    "\<forall>x \<in> set before. msg_priority m \<le> msg_priority x" "after = [] \<or> msg_priority (hd after) < msg_priority m"
    by (rule mq_insert_split)
  have a: "msg_priority x < msg_priority m" if x: "x \<in> set after" for x
  proof (cases after)
    case (Cons y ys)
    then have "msg_priority x \<le> msg_priority y" using assms x s(1) by (auto simp: by_priority_def sorted_wrt_append)
    then show ?thesis using s(4) Cons by auto
  qed (use x in simp)
  show "by_priority (mq_insert m q)"
    using assms s a by (auto simp: by_priority_def sorted_wrt_append intro: less_imp_le order_trans)
  show "length (mq_insert m q) = Suc (length q)" using s by simp
  have "filter (\<lambda>x. msg_priority x = msg_priority m) after = []" using a by (force simp: filter_empty_conv)
  then show "filter (\<lambda>x. msg_priority x = k) (mq_insert m q) = filter (\<lambda>x. msg_priority x = k) (q @ [m])"
    using s by (cases "k = msg_priority m") auto
qed

lemma mq_exec_history:
  assumes "mq_history s"
  shows "mq_history (mq_exec oper s) \<and> mq_priorityMode (fst (mq_exec oper s)) = mq_priorityMode (fst s)
    \<and> mq_maxMessages (fst (mq_exec oper s)) = mq_maxMessages (fst s)"
proof -
  obtain mq accepted delivered where s: "s = (mq, accepted, delivered)" by (cases s)
  show ?thesis
  proof (cases oper)
    case (MqSend m)
    then show ?thesis using assms mq_insert_view [where q = "mq_queue mq" and m = m]
      by (auto simp: s mq_history_def MessageQueue_send_def split: if_splits)
  next
    case MqReceive
    then show ?thesis using assms
      by (auto simp: s mq_history_def MessageQueue_receive_def by_priority_def split: list.splits if_splits)
  qed
qed

lemma mq_run_history:
  "mq_history s \<Longrightarrow> mq_history (fold mq_exec ops s) \<and> mq_priorityMode (fst (fold mq_exec ops s)) = mq_priorityMode (fst s)
    \<and> mq_maxMessages (fst (fold mq_exec ops s)) = mq_maxMessages (fst s)"
  by (induction ops arbitrary: s) (simp_all add: mq_exec_history)

text \<open>
  C33: Message delivery. For every sequence of sends and receives on a new queue: in first-in-first-out mode the
  messages accepted are those delivered followed by those queued; in priority mode this holds among the messages of
  each priority, and the next message delivered has the highest priority of all that are queued. The queue never
  holds more than its maximum.
\<close>

theorem mq_delivery:
  assumes "fold mq_exec ops (MessageQueue_new name maximum prioritized, [], []) = (mq, accepted, delivered)"
  shows "MessageQueue_size mq \<le> max 1 maximum
    \<and> (if prioritized
       then (\<forall>k. filter (\<lambda>m. msg_priority m = k) accepted = filter (\<lambda>m. msg_priority m = k) (delivered @ mq_queue mq))
         \<and> (\<forall>m. snd (MessageQueue_receive mq) = Ok m \<longrightarrow> (\<forall>x \<in> set (mq_queue mq). msg_priority x \<le> msg_priority m))
       else accepted = delivered @ mq_queue mq)"
proof -
  have "mq_history (MessageQueue_new name maximum prioritized, [], [])"
    by (simp add: mq_history_def MessageQueue_new_def by_priority_def)
  from mq_run_history [OF this, of ops] assms
  have h: "mq_history (mq, accepted, delivered)" "mq_priorityMode mq = prioritized" "mq_maxMessages mq = max 1 maximum"
    by (simp_all add: MessageQueue_new_def)
  have "\<forall>x \<in> set (mq_queue mq). msg_priority x \<le> msg_priority m"
    if "by_priority (mq_queue mq)" "snd (MessageQueue_receive mq) = Ok m" for m
    using that by (auto simp: MessageQueue_receive_def by_priority_def split: if_splits list.splits)
  then show ?thesis using h by (auto simp: mq_history_def MessageQueue_size_def)
qed

definition msg :: "32 word \<Rightarrow> byte list \<Rightarrow> message" where
  "msg prio bytes = \<lparr>msg_type = 0, msg_priority = prio, msg_payload = bytes\<rparr>"

theorem mq_delivery_witness:
  "\<exists>mq. fold mq_exec [MqSend (msg 1 [1]), MqSend (msg 5 [2]), MqSend (msg 5 [3]), MqReceive] (MessageQueue_new ''q'' 4 True, [], [])
     = (mq, [msg 1 [1], msg 5 [2], msg 5 [3]], [msg 5 [2]])
   \<and> filter (\<lambda>m. msg_priority m = 5) (mq_queue mq) = [msg 5 [3]]"
proof -
  let ?r = "fold mq_exec [MqSend (msg 1 [1]), MqSend (msg 5 [2]), MqSend (msg 5 [3]), MqReceive] (MessageQueue_new ''q'' 4 True, [], [])"
  have h: "snd ?r = ([msg 1 [1], msg 5 [2], msg 5 [3]], [msg 5 [2]])" by code_simp
  then obtain mq where p: "?r = (mq, [msg 1 [1], msg 5 [2], msg 5 [3]], [msg 5 [2]])" by (metis prod.collapse)
  from mq_delivery [OF p] have "filter (\<lambda>m. msg_priority m = 5) [msg 1 [1], msg 5 [2], msg 5 [3]]
      = filter (\<lambda>m. msg_priority m = 5) ([msg 5 [2]] @ mq_queue mq)" by simp
  with p show ?thesis by (simp add: msg_def)
qed

section \<open>Shared memory and the manager\<close>

text \<open>
  Shared memory is read back. What a write to an open segment accepted is what the next read of that many
  bytes returns, the rest of the segment is unchanged, and after closing nothing of it can be read.
\<close>

theorem shared_memory_roundtrip:
  assumes "SharedMemory_isOpen s" "length data \<le> SharedMemory_size s" "length buf = length data"
  shows "SharedMemory_read (fst (SharedMemory_write s data)) buf = ((fst (SharedMemory_write s data), data), Ok (length data))
    \<and> snd (SharedMemory_write s data) = Ok (length data)
    \<and> drop (length data) (shm_region (fst (SharedMemory_write s data))) = drop (length data) (shm_region s)
    \<and> SharedMemory_read (SharedMemory_close s) buf = ((SharedMemory_close s, buf), Error InvalidState)"
  using assms
  by (auto simp: SharedMemory_isOpen_def SharedMemory_size_def SharedMemory_read_def SharedMemory_write_def
      SharedMemory_close_def Let_def min_def)

theorem shared_memory_roundtrip_witness:
  "snd (fst (SharedMemory_read (fst (SharedMemory_write (SharedMemory_new ''s'' 4) [7, 8])) [0, 0])) = [7, 8]"
proof -
  have "SharedMemory_isOpen (SharedMemory_new ''s'' 4)" "SharedMemory_size (SharedMemory_new ''s'' 4) = 4" by code_simp+
  then show ?thesis using shared_memory_roundtrip [of "SharedMemory_new ''s'' 4" "[7, 8]" "[0, 0]"] by simp
qed


text \<open>
  The three creating operations differ in the channel they build only. A manager is well formed when every channel
  is registered under its own name, which is not empty.
\<close>

definition create_with :: "ipc_channel \<Rightarrow> ipc_manager \<Rightarrow> ipc_manager \<times> unit result" where
  "create_with c m =
     (if channel_name c = [] then (m, Error InvalidArgument)
      else if channels m (channel_name c) \<noteq> None then (m, Ok ())
      else (m\<lparr>channels := (channels m)(channel_name c \<mapsto> c)\<rparr>, Ok ()))"

definition ipc_ok :: "ipc_manager \<Rightarrow> bool" where
  "ipc_ok m \<longleftrightarrow> channels m [] = None \<and> (\<forall>name c. channels m name = Some c \<longrightarrow> channel_name c = name)
     \<and> finite (dom (channels m))"

lemma create_is_create_with:
  "IpcManager_createPipe m name n = create_with (PipeChannel (Pipe_new name n)) m"
  "IpcManager_createSharedMemory m name n = create_with (SharedChannel (SharedMemory_new name n)) m"
  "IpcManager_createMessageQueue m name n b = create_with (QueueChannel (MessageQueue_new name n b)) m"
  by (simp_all add: create_with_def IpcManager_createPipe_def IpcManager_createSharedMemory_def
      IpcManager_createMessageQueue_def Pipe_new_def SharedMemory_new_def MessageQueue_new_def)

lemma create_with_view:
  assumes "ipc_ok m" "channel_name c = name" "name \<noteq> []"
  shows "snd (create_with c m) = Ok ()" "ipc_ok (fst (create_with c m))"
    "channels (fst (create_with c m)) = (channels m)(name \<mapsto> (case channels m name of None \<Rightarrow> c | Some old \<Rightarrow> old))"
  using assms by (auto simp: create_with_def ipc_ok_def split: option.splits)

text \<open>
  Channels by name. Creating a channel under a name that is not empty succeeds; a channel that already exists
  under that name is kept as it is, whatever its kind, no other channel changes, and every channel stays registered
  under its own name. Destroying removes exactly the channel of that name, and creating it again then gives a fresh
  open one.
\<close>

theorem ipc_create_destroy:
  assumes "ipc_ok m" "name \<noteq> []"
    and "IpcManager_createPipe m name n = (m1, r1)" "IpcManager_destroyChannel m1 name = (m2, r2)"
    and "IpcManager_createMessageQueue m2 name k prioritized = (m3, r3)"
  shows "r1 = Ok () \<and> r2 = Ok () \<and> r3 = Ok () \<and> ipc_ok m3
    \<and> channels m1 = (channels m)(name \<mapsto> (case channels m name of None \<Rightarrow> PipeChannel (Pipe_new name n) | Some c \<Rightarrow> c))
    \<and> channels m2 = (channels m)(name := None)
    \<and> IpcManager_getChannel m2 name = Error NotFound
    \<and> IpcManager_getChannel m3 name = Ok (QueueChannel (MessageQueue_new name k prioritized))
    \<and> IpcManager_channelCount m3 = IpcManager_channelCount m1"
proof -
  have name: "channel_name (PipeChannel (Pipe_new name n)) = name"
      "channel_name (QueueChannel (MessageQueue_new name k prioritized)) = name"
    by (simp_all add: Pipe_new_def MessageQueue_new_def)
  have 1: "r1 = Ok ()" "ipc_ok m1"
    "channels m1 = (channels m)(name \<mapsto> (case channels m name of None \<Rightarrow> PipeChannel (Pipe_new name n) | Some c \<Rightarrow> c))"
    using create_with_view [OF assms(1) name(1) assms(2)] assms(3) by (simp_all add: create_is_create_with)
  have 2: "r2 = Ok ()" "channels m2 = (channels m)(name := None)" using assms(4) 1
    by (auto simp: IpcManager_destroyChannel_def)
  then have "ipc_ok m2" using assms(1) by (auto simp: ipc_ok_def)
  from create_with_view [OF this name(2) assms(2)] assms(5) 2
  have 3: "r3 = Ok ()" "ipc_ok m3" "channels m3 = (channels m)(name \<mapsto> QueueChannel (MessageQueue_new name k prioritized))"
    by (simp_all add: create_is_create_with)
  then show ?thesis using 1 2 by (simp add: IpcManager_getChannel_def IpcManager_channelCount_def)
qed

theorem ipc_create_destroy_witness:
  "IpcManager_getChannel (fst (IpcManager_createMessageQueue (fst (IpcManager_destroyChannel
       (fst (IpcManager_createPipe IpcManager_new ''p'' 8)) ''p'')) ''p'' 4 True)) ''p''
     = Ok (QueueChannel (MessageQueue_new ''p'' 4 True))"
proof -
  have "ipc_ok IpcManager_new" by (simp add: ipc_ok_def IpcManager_new_def)
  from ipc_create_destroy [OF this _ prod.collapse [symmetric] prod.collapse [symmetric] prod.collapse [symmetric],
      of "''p''" 8 4 True]
  show ?thesis by simp
qed

end
