(* ===== verification/Core.thy ===== *)
theory Core
  imports Prelude
begin

text \<open>
  The simulation clock (\<^verbatim>\<open>core/clock.cpp\<close>) and the publish/subscribe dispatcher
  (\<^verbatim>\<open>core/event.h\<close>).
\<close>

section \<open>SimulationClock\<close>

record clock =
  currentTick :: tick

definition SimulationClock_new :: clock where
  "SimulationClock_new = \<lparr>currentTick = 0\<rparr>"

definition Clock_now :: "clock \<Rightarrow> tick" where
  "Clock_now c = currentTick c"

definition Clock_tick :: "clock \<Rightarrow> clock" where
  "Clock_tick c = c\<lparr>currentTick := currentTick c + 1\<rparr>"

definition Clock_reset :: "clock \<Rightarrow> clock" where
  "Clock_reset c = c\<lparr>currentTick := 0\<rparr>"

section \<open>Event\<close>

text \<open>
  Subscribers in registration order. A callback acts on the observer state \<open>'s\<close> it
  captures; \<open>emit\<close> runs the callbacks in order.
\<close>

record ('a, 's) event =
  subscribers :: "(subscription_id \<times> ('a \<Rightarrow> 's \<Rightarrow> 's)) list"
  nextId :: subscription_id

definition Event_new :: "('a, 's) event" where
  "Event_new = \<lparr>subscribers = [], nextId = 1\<rparr>"

definition Event_subscribe ::
  "('a, 's) event \<Rightarrow> ('a \<Rightarrow> 's \<Rightarrow> 's) \<Rightarrow> ('a, 's) event \<times> subscription_id" where
  "Event_subscribe e f =
     (let i = nextId e
      in (e\<lparr>nextId := nextId e + 1, subscribers := subscribers e @ [(i, f)]\<rparr>, i))"

fun erase_first :: "('x \<Rightarrow> bool) \<Rightarrow> 'x list \<Rightarrow> 'x list" where
  "erase_first p [] = []"
| "erase_first p (x # xs) = (if p x then xs else x # erase_first p xs)"

definition Event_unsubscribe :: "('a, 's) event \<Rightarrow> subscription_id \<Rightarrow> ('a, 's) event \<times> bool" where
  "Event_unsubscribe e i =
     (if \<exists>s \<in> set (subscribers e). fst s = i
      then (e\<lparr>subscribers := erase_first (\<lambda>s. fst s = i) (subscribers e)\<rparr>, True)
      else (e, False))"

definition Event_emit :: "('a, 's) event \<Rightarrow> 'a \<Rightarrow> 's \<Rightarrow> 's" where
  "Event_emit e args s = fold (\<lambda>sub. snd sub args) (subscribers e) s"

definition Event_subscriberCount :: "('a, 's) event \<Rightarrow> nat" where
  "Event_subscriberCount e = length (subscribers e)"

definition Event_clear :: "('a, 's) event \<Rightarrow> ('a, 's) event" where
  "Event_clear e = e\<lparr>subscribers := []\<rparr>"

section \<open>Lemmas\<close>

lemma now_tick: "Clock_now (Clock_tick c) = Clock_now c + 1"
  by (simp add: Clock_now_def Clock_tick_def)

lemma now_reset [simp]: "Clock_now (Clock_reset c) = 0"
  by (simp add: Clock_now_def Clock_reset_def)

lemma now_tick_pow: "Clock_now ((Clock_tick ^^ n) c) = Clock_now c + of_nat n"
  by (induction n) (simp_all add: now_tick algebra_simps)

lemma erase_first_snoc:
  "\<forall>x \<in> set xs. \<not> p x \<Longrightarrow> p y \<Longrightarrow> erase_first p (xs @ [y]) = xs"
  by (induction xs) auto

lemma set_erase_first: "set (erase_first p xs) \<subseteq> set xs"
  by (induction xs) auto

text \<open>
  Unsubscribing with the identifier a subscription returned removes exactly that subscription,
  as long as the identifier counter has not wrapped onto a live one.
\<close>

lemma subscribe_unsubscribe:
  assumes "nextId e \<notin> fst ` set (subscribers e)"
  shows "case Event_subscribe e f of (e', i) \<Rightarrow>
    subscribers (fst (Event_unsubscribe e' i)) = subscribers e \<and> snd (Event_unsubscribe e' i)"
proof -
  have "\<forall>s \<in> set (subscribers e). \<not> fst s = nextId e" using assms by force
  then show ?thesis
    by (auto simp: Event_subscribe_def Event_unsubscribe_def Let_def erase_first_snoc)
qed

lemma emit_subscribe:
  "Event_emit (fst (Event_subscribe e f)) args s = f args (Event_emit e args s)"
  by (simp add: Event_emit_def Event_subscribe_def Let_def)

section \<open>Decimal notation\<close>

text \<open>Decimal notation of \<^verbatim>\<open>std::to_string\<close>.\<close>

fun to_string :: "nat \<Rightarrow> string" where
  "to_string n = (if n < 10 then [char_of (48 + n)] else to_string (n div 10) @ [char_of (48 + n mod 10)])"

declare to_string.simps [simp del]

text \<open>The output of a signed integer by a stream.\<close>

definition int_text :: "int \<Rightarrow> string" where
  "int_text k = (if k < 0 then CHR ''-'' # to_string (nat (- k)) else to_string (nat k))"

end
