(* ===== verification/Arch.thy ===== *)
theory Arch
  imports Core
begin

text \<open>
  The simulated architecture: instructions and interrupts (\<^verbatim>\<open>arch/instruction.h\<close>,
  \<^verbatim>\<open>arch/interrupt.h\<close>, \<^verbatim>\<open>arch/isa.h\<close>), memory cells (\<^verbatim>\<open>arch/block.h\<close>) and the register
  bank (\<^verbatim>\<open>arch/register_file.h\<close>, \<^verbatim>\<open>arch/register_file.cpp\<close>).
\<close>

section \<open>Instructions\<close>

datatype instruction =
    Nop | Mov | Add | Sub | Mul | Div | And | Or | Xor | ShiftLeft | ShiftRight
  | Compare | JumpEqual | JumpNotEqual | JumpGreater | JumpLess | JumpGreaterEqual | JumpLessEqual
  | Push | Pop | Call | Return | ReadMemory | WriteMemory | Interrupt | Halt

definition INSTRUCTION_COUNT :: nat where "INSTRUCTION_COUNT = 25"

fun instructionName :: "instruction \<Rightarrow> string" where
  "instructionName Nop = ''NOP''"
| "instructionName Mov = ''MOV''"
| "instructionName Add = ''ADD''"
| "instructionName Sub = ''SUB''"
| "instructionName Mul = ''MUL''"
| "instructionName Div = ''DIV''"
| "instructionName And = ''AND''"
| "instructionName Or = ''OR''"
| "instructionName Xor = ''XOR''"
| "instructionName ShiftLeft = ''SHL''"
| "instructionName ShiftRight = ''SHR''"
| "instructionName Compare = ''CMP''"
| "instructionName JumpEqual = ''JE''"
| "instructionName JumpNotEqual = ''JNE''"
| "instructionName JumpGreater = ''JG''"
| "instructionName JumpLess = ''JL''"
| "instructionName JumpGreaterEqual = ''JGE''"
| "instructionName JumpLessEqual = ''JLE''"
| "instructionName Push = ''PUSH''"
| "instructionName Pop = ''POP''"
| "instructionName Call = ''CALL''"
| "instructionName Return = ''RET''"
| "instructionName ReadMemory = ''RMEM''"
| "instructionName WriteMemory = ''WMEM''"
| "instructionName Interrupt = ''INT''"
| "instructionName Halt = ''HALT''"

definition isArithmetic :: "instruction \<Rightarrow> bool" where
  "isArithmetic i \<longleftrightarrow> i = Add \<or> i = Sub \<or> i = Mul \<or> i = Div"

definition isLogic :: "instruction \<Rightarrow> bool" where
  "isLogic i \<longleftrightarrow> i = And \<or> i = Or \<or> i = Xor \<or> i = ShiftLeft \<or> i = ShiftRight"

definition isJump :: "instruction \<Rightarrow> bool" where
  "isJump i \<longleftrightarrow> i = JumpEqual \<or> i = JumpNotEqual \<or> i = JumpGreater \<or> i = JumpLess
     \<or> i = JumpGreaterEqual \<or> i = JumpLessEqual"

definition isStackOp :: "instruction \<Rightarrow> bool" where
  "isStackOp i \<longleftrightarrow> i = Push \<or> i = Pop \<or> i = Call \<or> i = Return"

definition isMemoryOp :: "instruction \<Rightarrow> bool" where
  "isMemoryOp i \<longleftrightarrow> i = ReadMemory \<or> i = WriteMemory"

definition isHalt :: "instruction \<Rightarrow> bool" where
  "isHalt i \<longleftrightarrow> i = Halt"

section \<open>Interrupts\<close>

text \<open>
  The enumeration has a fixed underlying type, so a cast of any 32-bit value is an
  enumeration value: \<open>IntUnknown\<close> holds the values without a name.
\<close>

datatype interrupt_code =
    IntOk | IntError | IntDivByZero | IntSystemCall | IntPageFault | IntExit
  | IntNetworkIO | IntTimer | IntDeviceIO | IntUnknown register_value

definition interrupt_of :: "register_value \<Rightarrow> interrupt_code" where
  "interrupt_of v =
     (if v = 0 then IntOk else if v = -1 then IntError else if v = 3 then IntDivByZero
      else if v = 11 then IntSystemCall else if v = 14 then IntPageFault
      else if v = 16 then IntExit else if v = 32 then IntNetworkIO
      else if v = 64 then IntTimer else if v = 254 then IntDeviceIO else IntUnknown v)"

fun interruptName :: "interrupt_code \<Rightarrow> string" where
  "interruptName IntOk = ''OK''"
| "interruptName IntError = ''ERROR''"
| "interruptName IntDivByZero = ''DIV_BY_ZERO''"
| "interruptName IntSystemCall = ''SYSCALL''"
| "interruptName IntPageFault = ''PAGE_FAULT''"
| "interruptName IntExit = ''EXIT''"
| "interruptName IntNetworkIO = ''NETWORK_IO''"
| "interruptName IntTimer = ''TIMER''"
| "interruptName IntDeviceIO = ''DEVICE_IO''"
| "interruptName (IntUnknown _) = ''UNKNOWN''"

section \<open>Memory cells\<close>

record block =
  b_code :: instruction
  b_reg :: "8 word"
  b_operand :: "32 word"
  b_state :: "32 word"

definition Block :: "instruction \<Rightarrow> 8 word \<Rightarrow> 32 word \<Rightarrow> 32 word \<Rightarrow> block" where
  "Block c r v s = \<lparr>b_code = c, b_reg = r, b_operand = v, b_state = s\<rparr>"

definition default_block :: block where
  "default_block = Block Nop 0 0 0"

section \<open>The register bank\<close>

text \<open>
  Sixteen registers; 14 is the program counter and 15 the stack pointer. An index outside
  the bank is undefined behaviour of \<^verbatim>\<open>std::array::operator[]\<close> (an assertion guards it in debug
  builds): reading yields an unspecified value, writing an unspecified bank.
\<close>

type_synonym register_file = "register_value list"

definition PROGRAM_COUNTER :: "8 word" where "PROGRAM_COUNTER = 14"
definition STACK_POINTER :: "8 word" where "STACK_POINTER = 15"

definition RegisterFile_new :: register_file where
  "RegisterFile_new = replicate REGISTER_COUNT 0"

definition RegisterFile_get :: "register_file \<Rightarrow> 8 word \<Rightarrow> register_value" where
  "RegisterFile_get rs i = (if unat i < REGISTER_COUNT then rs ! unat i else undefined)"

definition RegisterFile_set :: "register_file \<Rightarrow> 8 word \<Rightarrow> register_value \<Rightarrow> register_file" where
  "RegisterFile_set rs i v = (if unat i < REGISTER_COUNT then rs[unat i := v] else undefined)"

definition RegisterFile_pc :: "register_file \<Rightarrow> register_value" where
  "RegisterFile_pc rs = RegisterFile_get rs PROGRAM_COUNTER"

definition RegisterFile_setPc :: "register_file \<Rightarrow> register_value \<Rightarrow> register_file" where
  "RegisterFile_setPc rs v = RegisterFile_set rs PROGRAM_COUNTER v"

definition RegisterFile_sp :: "register_file \<Rightarrow> register_value" where
  "RegisterFile_sp rs = RegisterFile_get rs STACK_POINTER"

definition RegisterFile_setSp :: "register_file \<Rightarrow> register_value \<Rightarrow> register_file" where
  "RegisterFile_setSp rs v = RegisterFile_set rs STACK_POINTER v"

definition RegisterFile_reset :: "register_file \<Rightarrow> register_file" where
  "RegisterFile_reset rs = replicate REGISTER_COUNT 0"

definition RegisterFile_snapshot :: "register_file \<Rightarrow> register_value list" where
  "RegisterFile_snapshot rs = rs"

definition RegisterFile_restore :: "register_file \<Rightarrow> register_value list \<Rightarrow> register_file" where
  "RegisterFile_restore rs values = values"

text \<open>Names and the textual dump, four registers to a line; \<^verbatim>\<open>std::setw\<close> pads on the left.\<close>

definition registerName :: "8 word \<Rightarrow> string" where
  "registerName r =
     (if unat r < 14 then CHR ''R'' # to_string (unat r)
      else if r = PROGRAM_COUNTER then ''PC'' else if r = STACK_POINTER then ''SP'' else ''??'')"

definition setw :: "nat \<Rightarrow> string \<Rightarrow> string" where
  "setw n s = replicate (n - length s) CHR '' '' @ s"

definition RegisterFile_dump :: "register_file \<Rightarrow> string" where
  "RegisterFile_dump rs =
     concat (map (\<lambda>i. setw 3 (registerName (word_of_nat i)) @ '' = '' @ setw 10 (int_text (sint (rs ! i)))
         @ (if i mod 4 = 3 then [CHR 0x0A] else ''  |  ''))
       [0..<REGISTER_COUNT])"

definition wf_regs :: "register_file \<Rightarrow> bool" where
  "wf_regs rs \<longleftrightarrow> length rs = REGISTER_COUNT"

section \<open>Lemmas\<close>

lemma unat_PC [simp]: "unat PROGRAM_COUNTER = 14"
  by (simp add: PROGRAM_COUNTER_def)

lemma unat_SP [simp]: "unat STACK_POINTER = 15"
  by (simp add: STACK_POINTER_def)

lemma PC_neq_SP [simp]: "PROGRAM_COUNTER \<noteq> STACK_POINTER" "STACK_POINTER \<noteq> PROGRAM_COUNTER"
  by (simp_all add: PROGRAM_COUNTER_def STACK_POINTER_def)

lemma wf_regs_new [simp]: "wf_regs RegisterFile_new"
  by (simp add: wf_regs_def RegisterFile_new_def)

lemma wf_regs_set [simp]:
  "wf_regs rs \<Longrightarrow> unat i < REGISTER_COUNT \<Longrightarrow> wf_regs (RegisterFile_set rs i v)"
  by (simp add: wf_regs_def RegisterFile_set_def)

lemma wf_regs_setPc [simp]: "wf_regs rs \<Longrightarrow> wf_regs (RegisterFile_setPc rs v)"
  by (simp add: RegisterFile_setPc_def REGISTER_COUNT_def)

lemma wf_regs_setSp [simp]: "wf_regs rs \<Longrightarrow> wf_regs (RegisterFile_setSp rs v)"
  by (simp add: RegisterFile_setSp_def REGISTER_COUNT_def)

lemma get_set:
  assumes "wf_regs rs" "unat i < REGISTER_COUNT" "unat j < REGISTER_COUNT"
  shows "RegisterFile_get (RegisterFile_set rs i v) j
    = (if i = j then v else RegisterFile_get rs j)"
  using assms by (auto simp: RegisterFile_get_def RegisterFile_set_def wf_regs_def nth_list_update word_unat_eq_iff)

lemma pc_setPc [simp]: "wf_regs rs \<Longrightarrow> RegisterFile_pc (RegisterFile_setPc rs v) = v"
  by (simp add: RegisterFile_pc_def RegisterFile_setPc_def get_set REGISTER_COUNT_def)

lemma sp_setSp [simp]: "wf_regs rs \<Longrightarrow> RegisterFile_sp (RegisterFile_setSp rs v) = v"
  by (simp add: RegisterFile_sp_def RegisterFile_setSp_def get_set REGISTER_COUNT_def)

lemma sp_setPc [simp]: "wf_regs rs \<Longrightarrow> RegisterFile_sp (RegisterFile_setPc rs v) = RegisterFile_sp rs"
  by (simp add: RegisterFile_sp_def RegisterFile_setPc_def get_set REGISTER_COUNT_def)

lemma pc_setSp [simp]: "wf_regs rs \<Longrightarrow> RegisterFile_pc (RegisterFile_setSp rs v) = RegisterFile_pc rs"
  by (simp add: RegisterFile_pc_def RegisterFile_setSp_def get_set REGISTER_COUNT_def)

lemma get_setPc:
  "wf_regs rs \<Longrightarrow> unat i < REGISTER_COUNT \<Longrightarrow> i \<noteq> PROGRAM_COUNTER
   \<Longrightarrow> RegisterFile_get (RegisterFile_setPc rs v) i = RegisterFile_get rs i"
  by (simp add: RegisterFile_setPc_def get_set REGISTER_COUNT_def)

lemma get_setSp:
  "wf_regs rs \<Longrightarrow> unat i < REGISTER_COUNT \<Longrightarrow> i \<noteq> STACK_POINTER
   \<Longrightarrow> RegisterFile_get (RegisterFile_setSp rs v) i = RegisterFile_get rs i"
  by (simp add: RegisterFile_setSp_def get_set REGISTER_COUNT_def)

text \<open>
  A context switch saves a bank and restores it later: whatever ran in between on the same
  bank, the saved registers come back.
\<close>

lemma snapshot_restore: "RegisterFile_restore rs' (RegisterFile_snapshot rs) = rs"
  by (simp add: RegisterFile_restore_def RegisterFile_snapshot_def)

lemma Block_sel [simp]:
  "b_code (Block c r v s) = c" "b_reg (Block c r v s) = r"
  "b_operand (Block c r v s) = v" "b_state (Block c r v s) = s"
  by (simp_all add: Block_def)

end
