(* ===== verification/Physical_Memory.thy ===== *)
theory Physical_Memory
  imports Arch
begin

text \<open>
  Physical memory: \<^verbatim>\<open>memory/physical_memory.cpp\<close> behind the interface
  \<^verbatim>\<open>memory/i_memory.h\<close>. The locale \<open>imemory\<close> states what the clients of the interface
  (the CPU, the interpreter engine, the MMU) rely on; its interpretation discharges the
  laws for \<^verbatim>\<open>PhysicalMemory\<close>.
\<close>

section \<open>PhysicalMemory\<close>

record physical_memory =
  cells :: "block list"

definition PhysicalMemory_new :: "nat \<Rightarrow> physical_memory" where
  "PhysicalMemory_new cellCount = \<lparr>cells = replicate cellCount default_block\<rparr>"

definition PhysicalMemory_read :: "physical_memory \<Rightarrow> memory_address \<Rightarrow> block result" where
  "PhysicalMemory_read m a =
     (if unat a \<ge> length (cells m) then Error InvalidAddress else Ok (cells m ! unat a))"

definition PhysicalMemory_write ::
  "physical_memory \<Rightarrow> memory_address \<Rightarrow> block \<Rightarrow> physical_memory \<times> unit result" where
  "PhysicalMemory_write m a b =
     (if unat a \<ge> length (cells m) then (m, Error InvalidAddress)
      else (m\<lparr>cells := (cells m)[unat a := b]\<rparr>, Ok ()))"

definition PhysicalMemory_size :: "physical_memory \<Rightarrow> nat" where
  "PhysicalMemory_size m = length (cells m)"

definition PhysicalMemory_clear :: "physical_memory \<Rightarrow> physical_memory" where
  "PhysicalMemory_clear m = m\<lparr>cells := map (\<lambda>_. default_block) (cells m)\<rparr>"

text \<open>The bounds of the range operations are checked in \<^verbatim>\<open>std::size_t\<close>.\<close>

fun write_from :: "block list \<Rightarrow> nat \<Rightarrow> block list \<Rightarrow> block list" where
  "write_from cs i [] = cs"
| "write_from cs i (b # bs) = write_from (cs[i := b]) (Suc i) bs"

definition PhysicalMemory_writeRange ::
  "physical_memory \<Rightarrow> memory_address \<Rightarrow> block list \<Rightarrow> physical_memory \<times> unit result" where
  "PhysicalMemory_writeRange m start bs =
     (if unat start + length bs > length (cells m) then (m, Error InvalidAddress)
      else (m\<lparr>cells := write_from (cells m) (unat start) bs\<rparr>, Ok ()))"

definition PhysicalMemory_readRange ::
  "physical_memory \<Rightarrow> memory_address \<Rightarrow> nat \<Rightarrow> block list result" where
  "PhysicalMemory_readRange m start count =
     (if unat start + count > length (cells m) then Error InvalidAddress
      else Ok (take count (drop (unat start) (cells m))))"

definition PhysicalMemory_clearRange ::
  "physical_memory \<Rightarrow> memory_address \<Rightarrow> nat \<Rightarrow> physical_memory \<times> unit result" where
  "PhysicalMemory_clearRange m start count =
     (if unat start + count > length (cells m) then (m, Error InvalidAddress)
      else (m\<lparr>cells := write_from (cells m) (unat start) (replicate count default_block)\<rparr>, Ok ()))"

section \<open>The interface IMemory\<close>

locale imemory =
  fixes rd :: "'m \<Rightarrow> memory_address \<Rightarrow> block result"
    and wr :: "'m \<Rightarrow> memory_address \<Rightarrow> block \<Rightarrow> 'm \<times> unit result"
    and sz :: "'m \<Rightarrow> nat"
  assumes rd_ok: "unat a < sz m \<Longrightarrow> isOk (rd m a)"
    and rd_bad: "\<not> unat a < sz m \<Longrightarrow> rd m a = Error InvalidAddress"
    and wr_ok: "unat a < sz m \<Longrightarrow> snd (wr m a b) = Ok ()"
    and wr_bad: "\<not> unat a < sz m \<Longrightarrow> wr m a b = (m, Error InvalidAddress)"
    and rd_wr: "unat a < sz m \<Longrightarrow> rd (fst (wr m a b)) c = (if c = a then Ok b else rd m c)"
    and sz_wr: "sz (fst (wr m a b)) = sz m"
begin

text \<open>Consecutive writes from an address, stopping at the first error.\<close>

fun wr_seq :: "'m \<Rightarrow> memory_address \<Rightarrow> block list \<Rightarrow> 'm" where
  "wr_seq m a [] = m"
| "wr_seq m a (b # bs) = wr_seq (fst (wr m a b)) (a + 1) bs"

lemma rd_cases: "rd m a = Error InvalidAddress \<or> (\<exists>b. rd m a = Ok b)"
  using rd_ok [of a m] rd_bad [of a m] by (auto simp: isOk_ex)

lemma rd_Ok_iff: "isOk (rd m a) \<longleftrightarrow> unat a < sz m"
  using rd_ok [of a m] rd_bad [of a m] by (cases "unat a < sz m") auto

lemma wr_Ok_iff: "isOk (snd (wr m a b)) \<longleftrightarrow> unat a < sz m"
  using wr_ok [of a m] wr_bad [of a m] by (cases "unat a < sz m") auto

lemma sz_wr_seq: "sz (wr_seq m a bs) = sz m"
  by (induction bs arbitrary: m a) (simp_all add: sz_wr)

lemma rd_wr_other: "c \<noteq> a \<Longrightarrow> rd (fst (wr m a b)) c = rd m c"
  using rd_wr [of a m b c] wr_bad [of a m b] by (cases "unat a < sz m") auto

lemma rd_wr_same: "unat a < sz m \<Longrightarrow> rd (fst (wr m a b)) a = Ok b"
  by (simp add: rd_wr)

lemma rd_wr_seq:
  assumes "unat a + length bs \<le> sz m" "unat a + length bs < 2 ^ 32"
  shows "rd (wr_seq m a bs) c =
    (if unat a \<le> unat c \<and> unat c < unat a + length bs then Ok (bs ! (unat c - unat a)) else rd m c)"
  using assms
proof (induction bs arbitrary: m a)
  case Nil
  then show ?case by auto
next
  case (Cons b bs)
  let ?m = "fst (wr m a b)"
  have ua: "unat (a + 1) = Suc (unat a)"
    using Cons.prems(2) by (simp add: unat_word_ariths)
  have IH: "rd (wr_seq ?m (a + 1) bs) c = (if Suc (unat a) \<le> unat c \<and> unat c < Suc (unat a) + length bs
      then Ok (bs ! (unat c - Suc (unat a))) else rd ?m c)"
    using Cons.IH [of "a + 1" ?m] Cons.prems by (simp add: ua sz_wr)
  show ?case
  proof (cases "c = a")
    case True
    then show ?thesis using IH Cons.prems by (simp add: rd_wr_same)
  next
    case False
    then have "unat c \<noteq> unat a" by (simp add: word_unat_eq_iff)
    then show ?thesis using IH rd_wr_other [OF False, of m b]
      by (auto simp: nth_Cons' Suc_diff_Suc)
  qed
qed

end

section \<open>Lemmas on PhysicalMemory\<close>

interpretation pm: imemory PhysicalMemory_read PhysicalMemory_write PhysicalMemory_size
  by unfold_locales
    (auto simp: PhysicalMemory_read_def PhysicalMemory_write_def PhysicalMemory_size_def
      nth_list_update word_unat_eq_iff)

lemma length_write_from [simp]: "length (write_from cs i bs) = length cs"
  by (induction bs arbitrary: cs i) simp_all

lemma write_from_eq:
  "i + length bs \<le> length cs \<Longrightarrow> write_from cs i bs = take i cs @ bs @ drop (i + length bs) cs"
proof (induction bs arbitrary: cs i)
  case Nil
  then show ?case by simp
next
  case (Cons b bs)
  then have "write_from (cs[i := b]) (Suc i) bs
      = take (Suc i) (cs[i := b]) @ bs @ drop (Suc i + length bs) (cs[i := b])"
    by simp
  also have "take (Suc i) (cs[i := b]) = take i cs @ [b]"
    using Cons.prems by (simp add: take_Suc_conv_app_nth)
  finally show ?case by simp
qed

text \<open>
  Reading back a range that was written returns exactly the written blocks, and no cell
  outside the range changes.
\<close>

lemma readRange_writeRange:
  assumes "PhysicalMemory_writeRange m a bs = (m', Ok ())"
  shows "PhysicalMemory_readRange m' a (length bs) = Ok bs"
  using assms
  by (auto simp: PhysicalMemory_writeRange_def PhysicalMemory_readRange_def write_from_eq split: if_splits)

lemma writeRange_frame:
  assumes "PhysicalMemory_writeRange m a bs = (m', Ok ())" "i < unat a \<or> unat a + length bs \<le> i"
  shows "cells m' ! i = cells m ! i"
  using assms
  by (auto simp: PhysicalMemory_writeRange_def write_from_eq nth_append split: if_splits)

lemma size_writeRange: "PhysicalMemory_size (fst (PhysicalMemory_writeRange m a bs)) = PhysicalMemory_size m"
  by (simp add: PhysicalMemory_writeRange_def PhysicalMemory_size_def)

lemma size_clear: "PhysicalMemory_size (PhysicalMemory_clear m) = PhysicalMemory_size m"
  by (simp add: PhysicalMemory_clear_def PhysicalMemory_size_def)

lemma read_clear: "unat a < PhysicalMemory_size m
  \<Longrightarrow> PhysicalMemory_read (PhysicalMemory_clear m) a = Ok default_block"
  by (simp add: PhysicalMemory_clear_def PhysicalMemory_size_def PhysicalMemory_read_def)

lemma clearRange_zero:
  assumes "PhysicalMemory_clearRange m a n = (m', Ok ())"
  shows "PhysicalMemory_readRange m' a n = Ok (replicate n default_block)"
  using assms
  by (auto simp: PhysicalMemory_clearRange_def PhysicalMemory_readRange_def write_from_eq split: if_splits)

end
