(* ===== verification/Cpu.thy ===== *)
theory Cpu
  imports Physical_Memory
begin

text \<open>
  The arithmetic-logic unit (\<^verbatim>\<open>cpu/alu.cpp\<close>) and the fetch-decode-execute cycle of the
  CPU (\<^verbatim>\<open>cpu/cpu.cpp\<close>). The CPU keeps the comparison flags; the memory and the register
  bank it works on are references in the source and arguments and results here.
\<close>

section \<open>ALU\<close>

definition ZERO_FLAG :: register_value where "ZERO_FLAG = 1"
definition SIGN_FLAG :: register_value where "SIGN_FLAG = 2"

definition ALU_add :: "register_value \<Rightarrow> register_value \<Rightarrow> register_value result" where
  "ALU_add a b = Ok (s_add a b)"

definition ALU_sub :: "register_value \<Rightarrow> register_value \<Rightarrow> register_value result" where
  "ALU_sub a b = Ok (s_sub a b)"

definition ALU_mul :: "register_value \<Rightarrow> register_value \<Rightarrow> register_value result" where
  "ALU_mul a b = Ok (s_mul a b)"

definition ALU_div :: "register_value \<Rightarrow> register_value \<Rightarrow> register_value result" where
  "ALU_div a b = (if b = 0 then Error DivisionByZero else Ok (s_div a b))"

definition ALU_bitwiseAnd :: "register_value \<Rightarrow> register_value \<Rightarrow> register_value result" where
  "ALU_bitwiseAnd a b = Ok (a AND b)"

definition ALU_bitwiseOr :: "register_value \<Rightarrow> register_value \<Rightarrow> register_value result" where
  "ALU_bitwiseOr a b = Ok (a OR b)"

definition ALU_bitwiseXor :: "register_value \<Rightarrow> register_value \<Rightarrow> register_value result" where
  "ALU_bitwiseXor a b = Ok (a XOR b)"

definition ALU_shiftLeft :: "register_value \<Rightarrow> register_value \<Rightarrow> register_value result" where
  "ALU_shiftLeft a b = Ok (s_shl a b)"

definition ALU_shiftRight :: "register_value \<Rightarrow> register_value \<Rightarrow> register_value result" where
  "ALU_shiftRight a b = Ok (s_shr a b)"

definition ALU_compare :: "register_value \<Rightarrow> register_value \<Rightarrow> register_value" where
  "ALU_compare a b =
     (let flags = 0;
          flags = (if a = b then flags OR ZERO_FLAG else flags);
          flags = (if a <s b then flags OR SIGN_FLAG else flags)
      in flags)"

section \<open>CPU\<close>

record cpu =
  cpu_flags :: register_value

definition Cpu_new :: cpu where
  "Cpu_new = \<lparr>cpu_flags = 0\<rparr>"

definition Cpu_reset :: "cpu \<Rightarrow> cpu" where
  "Cpu_reset c = c\<lparr>cpu_flags := 0\<rparr>"

definition resolveOperand :: "block \<Rightarrow> register_file \<Rightarrow> register_value" where
  "resolveOperand b regs =
     (if b_state b = 1 then RegisterFile_get regs (ucast (b_operand b)) else b_operand b)"

definition executeAluOp ::
  "instruction \<Rightarrow> register_file \<Rightarrow> 8 word \<Rightarrow> register_value \<Rightarrow> register_file \<times> interrupt_code" where
  "executeAluOp code regs dstReg v =
     (let dstVal = RegisterFile_get regs dstReg;
          finish = (\<lambda>r. case r of
              Error e \<Rightarrow> (regs, if e = DivisionByZero then IntDivByZero else IntError)
            | Ok x \<Rightarrow> (RegisterFile_set regs dstReg x, IntOk))
      in (case code of
            Add \<Rightarrow> finish (ALU_add dstVal v)
          | Sub \<Rightarrow> finish (ALU_sub dstVal v)
          | Mul \<Rightarrow> finish (ALU_mul dstVal v)
          | Div \<Rightarrow> finish (ALU_div dstVal v)
          | And \<Rightarrow> finish (ALU_bitwiseAnd dstVal v)
          | Or \<Rightarrow> finish (ALU_bitwiseOr dstVal v)
          | Xor \<Rightarrow> finish (ALU_bitwiseXor dstVal v)
          | ShiftLeft \<Rightarrow> finish (ALU_shiftLeft dstVal v)
          | ShiftRight \<Rightarrow> finish (ALU_shiftRight dstVal v)
          | _ \<Rightarrow> (regs, IntError)))"

definition shouldJump :: "cpu \<Rightarrow> instruction \<Rightarrow> bool" where
  "shouldJump c code =
     (let zeroSet = (cpu_flags c AND ZERO_FLAG \<noteq> 0);
          signSet = (cpu_flags c AND SIGN_FLAG \<noteq> 0)
      in (case code of
            JumpEqual \<Rightarrow> zeroSet
          | JumpNotEqual \<Rightarrow> \<not> zeroSet
          | JumpGreater \<Rightarrow> \<not> zeroSet \<and> \<not> signSet
          | JumpLess \<Rightarrow> signSet
          | JumpGreaterEqual \<Rightarrow> \<not> signSet
          | JumpLessEqual \<Rightarrow> zeroSet \<or> signSet
          | _ \<Rightarrow> False))"

text \<open>
  One cycle: the result is the CPU, the memory, the register bank and the interrupt. The
  program counter advances before the instruction executes, also when it then fails.
\<close>

definition Cpu_step ::
  "cpu \<Rightarrow> physical_memory \<Rightarrow> register_file \<Rightarrow> cpu \<times> physical_memory \<times> register_file \<times> interrupt_code"
where
  "Cpu_step c m regs0 =
     (let pc = RegisterFile_pc regs0 in
      case PhysicalMemory_read m pc of
        Error _ \<Rightarrow> (c, m, regs0, IntError)
      | Ok b \<Rightarrow>
        (let regs = RegisterFile_setPc regs0 (s_add pc 1) in
         if b_code b = Nop then (c, m, regs, IntOk)
         else if b_code b = Mov then
           (c, m, RegisterFile_set regs (b_reg b) (resolveOperand b regs), IntOk)
         else if b_code b \<in> {Add, Sub, Mul, Div, And, Or, Xor, ShiftLeft, ShiftRight} then
           (case executeAluOp (b_code b) regs (b_reg b) (resolveOperand b regs) of
              (regs', i) \<Rightarrow> (c, m, regs', i))
         else if b_code b = Compare then
           (c\<lparr>cpu_flags := ALU_compare (RegisterFile_get regs (b_reg b)) (resolveOperand b regs)\<rparr>,
            m, regs, IntOk)
         else if isJump (b_code b) then
           (c, m, if shouldJump c (b_code b) then RegisterFile_setPc regs (b_operand b) else regs, IntOk)
         else if b_code b = Push then
           (let sp = s_sub (RegisterFile_sp regs) 1 in
            case PhysicalMemory_write m sp (Block Nop 0 (RegisterFile_get regs (b_reg b)) 0) of
              (m', Error _) \<Rightarrow> (c, m', regs, IntError)
            | (m', Ok _) \<Rightarrow> (c, m', RegisterFile_setSp regs sp, IntOk))
         else if b_code b = Pop then
           (let sp = RegisterFile_sp regs in
            case PhysicalMemory_read m sp of
              Error _ \<Rightarrow> (c, m, regs, IntError)
            | Ok v \<Rightarrow>
                (c, m, RegisterFile_setSp (RegisterFile_set regs (b_reg b) (b_operand v)) (s_add sp 1),
                 IntOk))
         else if b_code b = Call then
           (let sp = s_sub (RegisterFile_sp regs) 1 in
            case PhysicalMemory_write m sp (Block Nop 0 (RegisterFile_pc regs) 0) of
              (m', Error _) \<Rightarrow> (c, m', regs, IntError)
            | (m', Ok _) \<Rightarrow>
                (c, m', RegisterFile_setPc (RegisterFile_setSp regs sp) (b_operand b), IntOk))
         else if b_code b = Return then
           (let sp = RegisterFile_sp regs in
            case PhysicalMemory_read m sp of
              Error _ \<Rightarrow> (c, m, regs, IntError)
            | Ok v \<Rightarrow>
                (c, m, RegisterFile_setSp (RegisterFile_setPc regs (b_operand v)) (s_add sp 1), IntOk))
         else if b_code b = ReadMemory then
           (case PhysicalMemory_read m (resolveOperand b regs) of
              Error _ \<Rightarrow> (c, m, regs, IntError)
            | Ok v \<Rightarrow> (c, m, RegisterFile_set regs (b_reg b) (b_operand v), IntOk))
         else if b_code b = WriteMemory then
           (case PhysicalMemory_write m (b_operand b) (Block Nop 0 (RegisterFile_get regs (b_reg b)) 0) of
              (m', Error _) \<Rightarrow> (c, m', regs, IntError)
            | (m', Ok _) \<Rightarrow> (c, m', regs, IntOk))
         else if b_code b = Interrupt then (c, m, regs, interrupt_of (b_operand b))
         else (c, m, regs, IntExit)))"

section \<open>Lemmas\<close>

subsection \<open>The ALU computes integer arithmetic where it is defined\<close>

lemma ALU_div_trunc:
  assumes "b \<noteq> 0" "in_int32 (sint a sdiv sint b)"
  shows "\<exists>q. ALU_div a b = Ok q \<and> sint q = sint a sdiv sint b"
  using assms by (simp add: ALU_div_def sint_s_div)

lemma compare_flags:
  "ALU_compare a b = (if sint a = sint b then ZERO_FLAG else if sint a < sint b then SIGN_FLAG else 0)"
  by (auto simp: ALU_compare_def word_sless_alt ZERO_FLAG_def SIGN_FLAG_def signed_word_eqI)

lemma flag_bits [simp]:
  "ZERO_FLAG AND ZERO_FLAG \<noteq> 0" "SIGN_FLAG AND SIGN_FLAG \<noteq> 0"
  "ZERO_FLAG AND SIGN_FLAG = 0" "SIGN_FLAG AND ZERO_FLAG = 0" "ZERO_FLAG \<noteq> 0" "SIGN_FLAG \<noteq> 0"
  by (simp_all add: ZERO_FLAG_def SIGN_FLAG_def)

text \<open>A conditional jump after a comparison decides the signed order of the operands.\<close>

lemma shouldJump_compare:
  assumes "cpu_flags c = ALU_compare a b"
  shows "shouldJump c JumpEqual \<longleftrightarrow> sint a = sint b"
    and "shouldJump c JumpNotEqual \<longleftrightarrow> sint a \<noteq> sint b"
    and "shouldJump c JumpGreater \<longleftrightarrow> sint a > sint b"
    and "shouldJump c JumpLess \<longleftrightarrow> sint a < sint b"
    and "shouldJump c JumpGreaterEqual \<longleftrightarrow> sint a \<ge> sint b"
    and "shouldJump c JumpLessEqual \<longleftrightarrow> sint a \<le> sint b"
  using assms by (auto simp: shouldJump_def compare_flags)

subsection \<open>One step\<close>

definition step_cpu :: "cpu \<times> physical_memory \<times> register_file \<times> interrupt_code \<Rightarrow> cpu" where
  "step_cpu = fst"

abbreviation step_mem :: "cpu \<times> physical_memory \<times> register_file \<times> interrupt_code \<Rightarrow> physical_memory" where
  "step_mem r \<equiv> fst (snd r)"

abbreviation step_regs :: "cpu \<times> physical_memory \<times> register_file \<times> interrupt_code \<Rightarrow> register_file" where
  "step_regs r \<equiv> fst (snd (snd r))"

abbreviation step_int :: "cpu \<times> physical_memory \<times> register_file \<times> interrupt_code \<Rightarrow> interrupt_code" where
  "step_int r \<equiv> snd (snd (snd r))"

lemma wf_executeAluOp:
  "wf_regs regs \<Longrightarrow> unat r < REGISTER_COUNT \<Longrightarrow> wf_regs (fst (executeAluOp i regs r v))"
  by (cases i) (auto simp: executeAluOp_def Let_def split: result.splits)

lemma write_dest:
  assumes "PhysicalMemory_write m a b = (m', r)"
  shows "PhysicalMemory_size m' = PhysicalMemory_size m"
    and "c \<noteq> a \<Longrightarrow> PhysicalMemory_read m' c = PhysicalMemory_read m c"
  using pm.sz_wr [of m a b] pm.rd_wr_other [of c a m b] assms by simp_all

lemma write_in_range:
  "unat a < PhysicalMemory_size m
   \<Longrightarrow> PhysicalMemory_write m a b = (m\<lparr>cells := (cells m)[unat a := b]\<rparr>, Ok ())"
  by (simp add: PhysicalMemory_write_def PhysicalMemory_size_def)

lemma step_fetch_fault:
  "PhysicalMemory_read m (RegisterFile_pc regs) = Error e \<Longrightarrow> Cpu_step c m regs = (c, m, regs, IntError)"
  by (simp add: Cpu_step_def)

text \<open>The memory keeps its size, and a program with valid register numbers keeps the bank.\<close>

lemma step_mem_size: "PhysicalMemory_size (step_mem (Cpu_step c m regs)) = PhysicalMemory_size m"
proof (cases "PhysicalMemory_read m (RegisterFile_pc regs)")
  case (Ok b)
  then show ?thesis
    by (cases "b_code b")
      (auto simp: Cpu_step_def Let_def isJump_def write_dest split: result.splits prod.splits)
qed (simp add: step_fetch_fault)

lemma step_wf_regs:
  assumes "wf_regs regs"
    and "\<And>b. PhysicalMemory_read m (RegisterFile_pc regs) = Ok b \<Longrightarrow> unat (b_reg b) < REGISTER_COUNT"
  shows "wf_regs (step_regs (Cpu_step c m regs))"
proof (cases "PhysicalMemory_read m (RegisterFile_pc regs)")
  case (Ok b)
  then show ?thesis using assms
    by (cases "b_code b")
      (auto simp: Cpu_step_def Let_def isJump_def wf_executeAluOp split: result.splits prod.splits)
qed (simp add: step_fetch_fault assms)

text \<open>
  Only the stack pushes and \<^verbatim>\<open>WriteMemory\<close> change memory, and each changes at most the one
  cell it addresses.
\<close>

definition written_cell :: "physical_memory \<Rightarrow> register_file \<Rightarrow> memory_address option" where
  "written_cell m regs =
     (case PhysicalMemory_read m (RegisterFile_pc regs) of
        Error _ \<Rightarrow> None
      | Ok b \<Rightarrow>
          let regs' = RegisterFile_setPc regs (s_add (RegisterFile_pc regs) 1) in
          if b_code b = Push \<or> b_code b = Call then Some (s_sub (RegisterFile_sp regs') 1)
          else if b_code b = WriteMemory then Some (b_operand b) else None)"

lemma step_mem_frame:
  assumes "written_cell m regs \<noteq> Some a"
  shows "PhysicalMemory_read (step_mem (Cpu_step c m regs)) a = PhysicalMemory_read m a"
proof (cases "PhysicalMemory_read m (RegisterFile_pc regs)")
  case (Ok b)
  then show ?thesis using assms
    by (cases "b_code b")
      (auto simp: Cpu_step_def written_cell_def Let_def isJump_def write_dest split: result.splits prod.splits)
qed (simp add: step_fetch_fault)

subsection \<open>Steps of single instructions\<close>

lemma step_Compare:
  assumes "PhysicalMemory_read m (RegisterFile_pc regs) = Ok b" "b_code b = Compare"
  shows "Cpu_step c m regs =
    (let regs' = RegisterFile_setPc regs (s_add (RegisterFile_pc regs) 1) in
     (c\<lparr>cpu_flags := ALU_compare (RegisterFile_get regs' (b_reg b)) (resolveOperand b regs')\<rparr>, m, regs', IntOk))"
  using assms by (simp add: Cpu_step_def Let_def)

lemma step_Jump:
  assumes "PhysicalMemory_read m (RegisterFile_pc regs) = Ok b" "isJump (b_code b)"
  shows "Cpu_step c m regs =
    (let regs' = RegisterFile_setPc regs (s_add (RegisterFile_pc regs) 1) in
     (c, m, if shouldJump c (b_code b) then RegisterFile_setPc regs' (b_operand b) else regs', IntOk))"
  using assms by (cases "b_code b") (simp_all add: Cpu_step_def Let_def isJump_def)

lemma step_Push:
  assumes "PhysicalMemory_read m (RegisterFile_pc regs) = Ok b" "b_code b = Push" "wf_regs regs"
    and "sp = s_sub (RegisterFile_sp regs) 1" "unat sp < PhysicalMemory_size m"
  shows "Cpu_step c m regs =
    (let regs' = RegisterFile_setPc regs (s_add (RegisterFile_pc regs) 1) in
     (c, fst (PhysicalMemory_write m sp (Block Nop 0 (RegisterFile_get regs' (b_reg b)) 0)),
      RegisterFile_setSp regs' sp, IntOk))"
  using assms by (simp add: Cpu_step_def Let_def isJump_def write_in_range)

lemma step_Pop:
  assumes "PhysicalMemory_read m (RegisterFile_pc regs) = Ok b" "b_code b = Pop" "wf_regs regs"
    and "PhysicalMemory_read m (RegisterFile_sp regs) = Ok v"
  shows "Cpu_step c m regs =
    (let regs' = RegisterFile_setPc regs (s_add (RegisterFile_pc regs) 1) in
     (c, m, RegisterFile_setSp (RegisterFile_set regs' (b_reg b) (b_operand v)) (s_add (RegisterFile_sp regs) 1),
      IntOk))"
  using assms by (simp add: Cpu_step_def Let_def isJump_def)

lemma step_Call:
  assumes "PhysicalMemory_read m (RegisterFile_pc regs) = Ok b" "b_code b = Call" "wf_regs regs"
    and "sp = s_sub (RegisterFile_sp regs) 1" "unat sp < PhysicalMemory_size m"
  shows "Cpu_step c m regs =
    (c, fst (PhysicalMemory_write m sp (Block Nop 0 (s_add (RegisterFile_pc regs) 1) 0)),
     RegisterFile_setPc (RegisterFile_setSp (RegisterFile_setPc regs (s_add (RegisterFile_pc regs) 1)) sp)
       (b_operand b), IntOk)"
  using assms by (simp add: Cpu_step_def Let_def isJump_def write_in_range)

lemma step_Return:
  assumes "PhysicalMemory_read m (RegisterFile_pc regs) = Ok b" "b_code b = Return" "wf_regs regs"
    and "PhysicalMemory_read m (RegisterFile_sp regs) = Ok v"
  shows "Cpu_step c m regs =
    (let regs' = RegisterFile_setPc regs (s_add (RegisterFile_pc regs) 1) in
     (c, m, RegisterFile_setSp (RegisterFile_setPc regs' (b_operand v)) (s_add (RegisterFile_sp regs) 1), IntOk))"
  using assms by (simp add: Cpu_step_def Let_def isJump_def)

lemma step_ReadMemory:
  assumes "PhysicalMemory_read m (RegisterFile_pc regs) = Ok b" "b_code b = ReadMemory"
  shows "Cpu_step c m regs =
    (let regs' = RegisterFile_setPc regs (s_add (RegisterFile_pc regs) 1) in
     case PhysicalMemory_read m (resolveOperand b regs') of
       Error _ \<Rightarrow> (c, m, regs', IntError)
     | Ok v \<Rightarrow> (c, m, RegisterFile_set regs' (b_reg b) (b_operand v), IntOk))"
  using assms by (simp add: Cpu_step_def Let_def isJump_def)

lemma step_WriteMemory:
  assumes "PhysicalMemory_read m (RegisterFile_pc regs) = Ok b" "b_code b = WriteMemory"
    and "unat (b_operand b) < PhysicalMemory_size m"
  shows "Cpu_step c m regs =
    (let regs' = RegisterFile_setPc regs (s_add (RegisterFile_pc regs) 1) in
     (c, fst (PhysicalMemory_write m (b_operand b) (Block Nop 0 (RegisterFile_get regs' (b_reg b)) 0)), regs', IntOk))"
  using assms by (simp add: Cpu_step_def Let_def isJump_def write_in_range)

section \<open>Properties\<close>

text \<open>Two consecutive cycles.\<close>

definition Cpu_step2 ::
  "cpu \<Rightarrow> physical_memory \<Rightarrow> register_file \<Rightarrow> cpu \<times> physical_memory \<times> register_file \<times> interrupt_code"
where
  "Cpu_step2 c m regs = (case Cpu_step c m regs of (c', m', regs', _) \<Rightarrow> Cpu_step c' m' regs')"

text \<open>
  \<^verbatim>\<open>Push r\<close> followed by \<^verbatim>\<open>Pop r'\<close> copies the value of \<open>r\<close> into \<open>r'\<close> through the stack and
  leaves the stack pointer where it was, provided the stack cell below the stack pointer is
  a memory cell other than the one that holds the \<^verbatim>\<open>Pop\<close> instruction.
\<close>

theorem push_pop_roundtrip:
  assumes wf: "wf_regs regs"
    and push: "PhysicalMemory_read m (RegisterFile_pc regs) = Ok b1" "b_code b1 = Push"
    and pop: "PhysicalMemory_read m (s_add (RegisterFile_pc regs) 1) = Ok b2" "b_code b2 = Pop"
    and rs: "unat (b_reg b1) < 14" "unat (b_reg b2) < 14"
    and sp: "sp = s_sub (RegisterFile_sp regs) 1" "in_int32 (sint (RegisterFile_sp regs) - 1)"
    and cell: "unat sp < PhysicalMemory_size m" "sp \<noteq> s_add (RegisterFile_pc regs) 1"
  shows "step_int (Cpu_step2 c m regs) = IntOk
    \<and> RegisterFile_get (step_regs (Cpu_step2 c m regs)) (b_reg b2) = RegisterFile_get regs (b_reg b1)
    \<and> RegisterFile_sp (step_regs (Cpu_step2 c m regs)) = RegisterFile_sp regs"
proof -
  let ?pc1 = "s_add (RegisterFile_pc regs) 1"
  let ?regs1 = "RegisterFile_setPc regs ?pc1"
  let ?v = "RegisterFile_get ?regs1 (b_reg b1)"
  let ?m1 = "fst (PhysicalMemory_write m sp (Block Nop 0 ?v 0))"
  let ?regs2 = "RegisterFile_setSp ?regs1 sp"
  have idx: "unat (b_reg b1) < REGISTER_COUNT" "unat (b_reg b2) < REGISTER_COUNT"
    "b_reg b1 \<noteq> PROGRAM_COUNTER" "b_reg b2 \<noteq> STACK_POINTER"
    using rs unat_PC unat_SP by (auto simp: REGISTER_COUNT_def simp del: unat_PC unat_SP)
  have s1: "Cpu_step c m regs = (c, ?m1, ?regs2, IntOk)"
    using step_Push [OF push wf sp(1) cell(1)] by (simp add: Let_def)
  have fetch: "PhysicalMemory_read ?m1 (RegisterFile_pc ?regs2) = Ok b2"
    using pop(1) cell(2) pm.rd_wr_other [of ?pc1 sp m] by (simp add: wf)
  have top: "PhysicalMemory_read ?m1 (RegisterFile_sp ?regs2) = Ok (Block Nop 0 ?v 0)"
    using pm.rd_wr_same [OF cell(1)] by (simp add: wf)
  have spb: "s_add sp 1 = RegisterFile_sp regs"
    using s_add_s_sub_inverse [of "RegisterFile_sp regs" 1] sp by simp
  have v: "?v = RegisterFile_get regs (b_reg b1)"
    using get_setPc [OF wf idx(1) idx(3)] by simp
  have s2: "Cpu_step2 c m regs = (let regs' = RegisterFile_setPc ?regs2 (s_add ?pc1 1) in
     (c, ?m1, RegisterFile_setSp (RegisterFile_set regs' (b_reg b2) ?v) (RegisterFile_sp regs), IntOk))"
    using step_Pop [OF fetch pop(2) _ top] by (simp add: Cpu_step2_def s1 wf spb)
  then show ?thesis
    using idx wf by (simp add: Let_def get_setSp get_set v)
qed

definition stack_demo :: physical_memory where
  "stack_demo = \<lparr>cells = [Block Push 3 0 0, Block Pop 4 0 0, default_block, default_block]\<rparr>"

definition stack_regs :: register_file where
  "stack_regs = [0, 0, 0, 77, 5, 0, 0, 0, 0, 0, 0, 0, 0, 0, 0, 4]"

lemma stack_demo_simps:
  "wf_regs stack_regs" "RegisterFile_pc stack_regs = 0" "RegisterFile_sp stack_regs = 4"
  "PhysicalMemory_read stack_demo 0 = Ok (Block Push 3 0 0)"
  "PhysicalMemory_read stack_demo 1 = Ok (Block Pop 4 0 0)"
  "s_add 0 1 = 1" "s_sub 4 1 = 3" "PhysicalMemory_size stack_demo = 4"
  by (simp_all add: wf_regs_def stack_regs_def REGISTER_COUNT_def RegisterFile_pc_def RegisterFile_sp_def
      RegisterFile_get_def PhysicalMemory_read_def stack_demo_def s_add_def s_sub_def int32_def in_int32_def
      PhysicalMemory_size_def)

theorem push_pop_roundtrip_witness:
  "RegisterFile_get (step_regs (Cpu_step2 Cpu_new stack_demo stack_regs)) 4 = 77"
proof -
  have "RegisterFile_get (step_regs (Cpu_step2 Cpu_new stack_demo stack_regs)) 4
      = RegisterFile_get stack_regs 3"
    using push_pop_roundtrip [where regs = stack_regs and m = stack_demo and c = Cpu_new and sp = 3
        and ?b1.0 = "Block Push 3 0 0" and ?b2.0 = "Block Pop 4 0 0"]
    by (simp add: stack_demo_simps in_int32_def)
  then show ?thesis by (simp add: stack_regs_def RegisterFile_get_def REGISTER_COUNT_def)
qed

text \<open>
  \<^verbatim>\<open>Call t\<close> pushes the address after the call and a \<^verbatim>\<open>Return\<close> at the call's target comes back
  to exactly that address with the stack pointer restored, provided the stack cell used is a
  memory cell other than the target.
\<close>

theorem call_return_roundtrip:
  assumes wf: "wf_regs regs"
    and call: "PhysicalMemory_read m (RegisterFile_pc regs) = Ok b1" "b_code b1 = Call"
    and ret: "PhysicalMemory_read m (b_operand b1) = Ok b2" "b_code b2 = Return"
    and sp: "sp = s_sub (RegisterFile_sp regs) 1" "in_int32 (sint (RegisterFile_sp regs) - 1)"
    and cell: "unat sp < PhysicalMemory_size m" "sp \<noteq> b_operand b1"
  shows "step_int (Cpu_step2 c m regs) = IntOk
    \<and> RegisterFile_pc (step_regs (Cpu_step2 c m regs)) = s_add (RegisterFile_pc regs) 1
    \<and> RegisterFile_sp (step_regs (Cpu_step2 c m regs)) = RegisterFile_sp regs"
proof -
  let ?pc1 = "s_add (RegisterFile_pc regs) 1"
  let ?m1 = "fst (PhysicalMemory_write m sp (Block Nop 0 ?pc1 0))"
  let ?regs2 = "RegisterFile_setPc (RegisterFile_setSp (RegisterFile_setPc regs ?pc1) sp) (b_operand b1)"
  have s1: "Cpu_step c m regs = (c, ?m1, ?regs2, IntOk)"
    by (rule step_Call [OF call wf sp(1) cell(1)])
  have fetch: "PhysicalMemory_read ?m1 (RegisterFile_pc ?regs2) = Ok b2"
    using ret(1) cell(2) pm.rd_wr_other [of "b_operand b1" sp m] by (simp add: wf)
  have top: "PhysicalMemory_read ?m1 (RegisterFile_sp ?regs2) = Ok (Block Nop 0 ?pc1 0)"
    using pm.rd_wr_same [OF cell(1)] by (simp add: wf)
  have spb: "s_add sp 1 = RegisterFile_sp regs"
    using s_add_s_sub_inverse [of "RegisterFile_sp regs" 1] sp by simp
  show ?thesis
    using step_Return [OF fetch ret(2) _ top] by (simp add: Cpu_step2_def s1 wf spb Let_def)
qed

definition call_demo :: physical_memory where
  "call_demo = \<lparr>cells = [Block Call 0 2 0, default_block, Block Return 0 0 0, default_block]\<rparr>"

theorem call_return_roundtrip_witness:
  "RegisterFile_pc (step_regs (Cpu_step2 Cpu_new call_demo stack_regs)) = 1"
proof -
  have "PhysicalMemory_read call_demo 0 = Ok (Block Call 0 2 0)"
    "PhysicalMemory_read call_demo 2 = Ok (Block Return 0 0 0)" "PhysicalMemory_size call_demo = 4"
    by (simp_all add: call_demo_def PhysicalMemory_read_def PhysicalMemory_size_def)
  then show ?thesis
    using call_return_roundtrip [where regs = stack_regs and m = call_demo and c = Cpu_new and sp = 3
        and ?b1.0 = "Block Call 0 2 0" and ?b2.0 = "Block Return 0 0 0"]
    by (simp add: stack_demo_simps in_int32_def)
qed

text \<open>The relation a conditional jump names.\<close>

definition jump_relation :: "instruction \<Rightarrow> int \<Rightarrow> int \<Rightarrow> bool" where
  "jump_relation code a b =
     (case code of JumpEqual \<Rightarrow> a = b | JumpNotEqual \<Rightarrow> a \<noteq> b | JumpGreater \<Rightarrow> a > b
      | JumpLess \<Rightarrow> a < b | JumpGreaterEqual \<Rightarrow> a \<ge> b | JumpLessEqual \<Rightarrow> a \<le> b | _ \<Rightarrow> False)"

text \<open>
  A conditional jump right after a \<^verbatim>\<open>Compare\<close> goes to its target exactly when the two compared
  values, read as signed integers, stand in the relation the mnemonic names, and falls
  through to the next instruction otherwise.
\<close>

theorem compare_jump:
  assumes wf: "wf_regs regs"
    and cmp: "PhysicalMemory_read m (RegisterFile_pc regs) = Ok b1" "b_code b1 = Compare" "b_state b1 \<noteq> 1"
    and reg: "unat (b_reg b1) < 14"
    and jmp: "PhysicalMemory_read m (s_add (RegisterFile_pc regs) 1) = Ok b2" "isJump (b_code b2)"
  shows "RegisterFile_pc (step_regs (Cpu_step2 c m regs)) =
    (if jump_relation (b_code b2) (sint (RegisterFile_get regs (b_reg b1))) (sint (b_operand b1))
     then b_operand b2 else s_add (s_add (RegisterFile_pc regs) 1) 1)"
proof -
  let ?regs1 = "RegisterFile_setPc regs (s_add (RegisterFile_pc regs) 1)"
  let ?c1 = "c\<lparr>cpu_flags := ALU_compare (RegisterFile_get regs (b_reg b1)) (b_operand b1)\<rparr>"
  have "unat (b_reg b1) < REGISTER_COUNT" "b_reg b1 \<noteq> PROGRAM_COUNTER"
    using reg unat_PC by (auto simp: REGISTER_COUNT_def simp del: unat_PC)
  then have s1: "Cpu_step c m regs = (?c1, m, ?regs1, IntOk)"
    using step_Compare [OF cmp(1,2)] cmp(3) get_setPc [OF wf]
    by (simp add: Let_def resolveOperand_def)
  have fetch: "PhysicalMemory_read m (RegisterFile_pc ?regs1) = Ok b2"
    using jmp(1) by (simp add: wf)
  have "shouldJump ?c1 (b_code b2)
      = jump_relation (b_code b2) (sint (RegisterFile_get regs (b_reg b1))) (sint (b_operand b1))"
    using jmp(2) shouldJump_compare [of ?c1 "RegisterFile_get regs (b_reg b1)" "b_operand b1"]
    by (cases "b_code b2"; simp add: isJump_def jump_relation_def)
  then show ?thesis
    using step_Jump [OF fetch jmp(2)] by (simp add: Cpu_step2_def s1 wf Let_def)
qed

definition loop_demo :: physical_memory where
  "loop_demo = \<lparr>cells = [Block Compare 4 (-1) 0, Block JumpGreater 0 3 0, Block Halt 0 0 0, default_block]\<rparr>"

theorem compare_jump_witness:
  "RegisterFile_pc (step_regs (Cpu_step2 Cpu_new loop_demo stack_regs)) = 3"
proof -
  have "PhysicalMemory_read loop_demo 0 = Ok (Block Compare 4 (-1) 0)"
    "PhysicalMemory_read loop_demo 1 = Ok (Block JumpGreater 0 3 0)"
    "RegisterFile_get stack_regs 4 = 5"
    by (simp_all add: loop_demo_def PhysicalMemory_read_def stack_regs_def RegisterFile_get_def REGISTER_COUNT_def)
  then show ?thesis
    using compare_jump [where regs = stack_regs and m = loop_demo and c = Cpu_new
        and ?b1.0 = "Block Compare 4 (-1) 0" and ?b2.0 = "Block JumpGreater 0 3 0"]
    by (simp add: stack_demo_simps isJump_def jump_relation_def)
qed

end
