(* ===== verification/Process.thy ===== *)
theory Process
  imports Core Arch
begin

text \<open>
  Processes: the life-cycle automaton (\<^verbatim>\<open>process/state.h\<close>), priorities
  (\<^verbatim>\<open>process/priority.h\<close>), the process control block (\<^verbatim>\<open>process/pcb.h\<close>, \<^verbatim>\<open>process/pcb.cpp\<close>)
  and the process image (\<^verbatim>\<open>process/process_image.cpp\<close>).
\<close>

section \<open>Process states\<close>

datatype process_state = New | Ready | Running | Blocked | Suspended | Terminated

fun isValidTransition :: "process_state \<Rightarrow> process_state \<Rightarrow> bool" where
  "isValidTransition New s = (s = Ready)"
| "isValidTransition Ready s = (s = Running \<or> s = Suspended)"
| "isValidTransition Running s = (s = Ready \<or> s = Blocked \<or> s = Terminated)"
| "isValidTransition Blocked s = (s = Ready \<or> s = Suspended)"
| "isValidTransition Suspended s = (s = Ready)"
| "isValidTransition Terminated s = False"

fun processStateName :: "process_state \<Rightarrow> string" where
  "processStateName New = ''New''"
| "processStateName Ready = ''Ready''"
| "processStateName Running = ''Running''"
| "processStateName Blocked = ''Blocked''"
| "processStateName Suspended = ''Suspended''"
| "processStateName Terminated = ''Terminated''"

section \<open>Priorities\<close>

datatype priority_level = Realtime | High | AboveNormal | Normal | BelowNormal | Low | Idle

fun level_value :: "priority_level \<Rightarrow> nat" where
  "level_value Realtime = 0"
| "level_value High = 1"
| "level_value AboveNormal = 2"
| "level_value Normal = 3"
| "level_value BelowNormal = 4"
| "level_value Low = 5"
| "level_value Idle = 6"

definition NICE_MIN :: "32 word" where "NICE_MIN = -20"
definition NICE_MAX :: "32 word" where "NICE_MAX = 19"
definition NICE_DEFAULT :: "32 word" where "NICE_DEFAULT = 0"

record priority =
  pr_base :: priority_level
  pr_effective :: priority_level
  pr_nice :: "32 word"

definition clampNice :: "32 word \<Rightarrow> 32 word" where
  "clampNice v = (if v <s NICE_MIN then NICE_MIN else if NICE_MAX <s v then NICE_MAX else v)"

definition Priority_default :: priority where
  "Priority_default = \<lparr>pr_base = Normal, pr_effective = Normal, pr_nice = NICE_DEFAULT\<rparr>"

definition Priority_of_level :: "priority_level \<Rightarrow> priority" where
  "Priority_of_level l = \<lparr>pr_base = l, pr_effective = l, pr_nice = NICE_DEFAULT\<rparr>"

definition Priority_make :: "priority_level \<Rightarrow> priority_level \<Rightarrow> 32 word \<Rightarrow> priority" where
  "Priority_make b e n = \<lparr>pr_base = b, pr_effective = e, pr_nice = clampNice n\<rparr>"

definition isHigherThan :: "priority \<Rightarrow> priority \<Rightarrow> bool" where
  "isHigherThan p q =
     (if pr_effective p \<noteq> pr_effective q
      then level_value (pr_effective p) < level_value (pr_effective q)
      else pr_nice p <s pr_nice q)"

section \<open>The process control block\<close>

record process_timing =
  arrivalTime :: tick
  startTime :: tick
  finishTime :: tick
  totalCpuTime :: tick
  totalWaitTime :: tick
  totalBlockedTime :: tick
  lastStateChange :: tick
  estimatedBurst :: tick
  remainingBurst :: tick

record process_address_info =
  virtualBase :: memory_address
  codeStart :: memory_address
  codeSize :: "32 word"
  slot :: "32 word"

record pcb =
  pcb_id :: process_id
  pcb_name :: string
  pcb_state :: process_state
  pcb_priority :: priority
  pcb_timing :: process_timing
  pcb_addressInfo :: process_address_info

definition default_timing :: process_timing where
  "default_timing = \<lparr>arrivalTime = 0, startTime = 0, finishTime = 0, totalCpuTime = 0, totalWaitTime = 0,
     totalBlockedTime = 0, lastStateChange = 0, estimatedBurst = 0, remainingBurst = 0\<rparr>"

definition default_address_info :: process_address_info where
  "default_address_info = \<lparr>virtualBase = NULL_ADDRESS, codeStart = NULL_ADDRESS, codeSize = 0, slot = 0\<rparr>"

definition PCB_new :: "process_id \<Rightarrow> string \<Rightarrow> priority \<Rightarrow> tick \<Rightarrow> pcb" where
  "PCB_new i n p arrival =
     \<lparr>pcb_id = i, pcb_name = n, pcb_state = New, pcb_priority = p,
      pcb_timing = default_timing\<lparr>arrivalTime := arrival, lastStateChange := arrival\<rparr>,
      pcb_addressInfo = default_address_info\<rparr>"

text \<open>
  \<open>PCB_setState\<close> is the only operation that changes the state. It charges the time since the
  last change to the state being left; ticks are unsigned 64-bit values.
\<close>

definition PCB_setState :: "pcb \<Rightarrow> process_state \<Rightarrow> tick \<Rightarrow> pcb \<times> bool" where
  "PCB_setState p newState now =
     (if \<not> isValidTransition (pcb_state p) newState then (p, False)
      else
        let elapsed = now - lastStateChange (pcb_timing p);
            t = pcb_timing p;
            t = (case pcb_state p of
                   Running \<Rightarrow> t\<lparr>totalCpuTime := totalCpuTime t + elapsed\<rparr>
                 | Ready \<Rightarrow> t\<lparr>totalWaitTime := totalWaitTime t + elapsed\<rparr>
                 | Blocked \<Rightarrow> t\<lparr>totalBlockedTime := totalBlockedTime t + elapsed\<rparr>
                 | _ \<Rightarrow> t);
            t = (if newState = Running \<and> startTime t = 0 then t\<lparr>startTime := now\<rparr> else t);
            t = (if newState = Terminated then t\<lparr>finishTime := now\<rparr> else t)
        in (p\<lparr>pcb_state := newState, pcb_timing := t\<lparr>lastStateChange := now\<rparr>\<rparr>, True))"

definition PCB_setPriority :: "pcb \<Rightarrow> priority \<Rightarrow> pcb" where
  "PCB_setPriority p q = p\<lparr>pcb_priority := q\<rparr>"

definition PCB_setEffectivePriority :: "pcb \<Rightarrow> priority_level \<Rightarrow> pcb" where
  "PCB_setEffectivePriority p l = p\<lparr>pcb_priority := (pcb_priority p)\<lparr>pr_effective := l\<rparr>\<rparr>"

definition PCB_setNice :: "pcb \<Rightarrow> 32 word \<Rightarrow> pcb" where
  "PCB_setNice p n = p\<lparr>pcb_priority := (pcb_priority p)\<lparr>pr_nice := clampNice n\<rparr>\<rparr>"

definition PCB_addCpuTime :: "pcb \<Rightarrow> tick \<Rightarrow> pcb" where
  "PCB_addCpuTime p n = p\<lparr>pcb_timing := (pcb_timing p)\<lparr>totalCpuTime := totalCpuTime (pcb_timing p) + n\<rparr>\<rparr>"

definition PCB_addWaitTime :: "pcb \<Rightarrow> tick \<Rightarrow> pcb" where
  "PCB_addWaitTime p n = p\<lparr>pcb_timing := (pcb_timing p)\<lparr>totalWaitTime := totalWaitTime (pcb_timing p) + n\<rparr>\<rparr>"

definition PCB_addBlockedTime :: "pcb \<Rightarrow> tick \<Rightarrow> pcb" where
  "PCB_addBlockedTime p n =
     p\<lparr>pcb_timing := (pcb_timing p)\<lparr>totalBlockedTime := totalBlockedTime (pcb_timing p) + n\<rparr>\<rparr>"

section \<open>The process image\<close>

record process_image =
  im_pcb :: pcb
  im_registers :: register_file
  im_code :: "block list"

definition ProcessImage_new ::
  "process_id \<Rightarrow> string \<Rightarrow> block list \<Rightarrow> priority \<Rightarrow> tick \<Rightarrow> process_image" where
  "ProcessImage_new i n c p arrival =
     \<lparr>im_pcb = PCB_new i n p arrival, im_registers = RegisterFile_new, im_code = c\<rparr>"

definition ProcessImage_id :: "process_image \<Rightarrow> process_id" where
  "ProcessImage_id im = pcb_id (im_pcb im)"

definition ProcessImage_codeSize :: "process_image \<Rightarrow> nat" where
  "ProcessImage_codeSize im = length (im_code im)"

definition ProcessImage_readCode :: "process_image \<Rightarrow> nat \<Rightarrow> block" where
  "ProcessImage_readCode im i = (if i < length (im_code im) then im_code im ! i else undefined)"

definition ProcessImage_setCode :: "process_image \<Rightarrow> block list \<Rightarrow> process_image" where
  "ProcessImage_setCode im c = im\<lparr>im_code := c\<rparr>"

section \<open>Runs of state changes\<close>

text \<open>A sequence of calls of \<^verbatim>\<open>setState\<close>, each with its target state and tick.\<close>

fun PCB_run :: "pcb \<Rightarrow> (process_state \<times> tick) list \<Rightarrow> pcb" where
  "PCB_run p [] = p"
| "PCB_run p ((s, t) # cs) = PCB_run (fst (PCB_setState p s t)) cs"

text \<open>The time the timing record charges to a state.\<close>

definition accounted :: "pcb \<Rightarrow> tick" where
  "accounted p = totalCpuTime (pcb_timing p) + totalWaitTime (pcb_timing p) + totalBlockedTime (pcb_timing p)"

section \<open>Lemmas\<close>

lemma level_value_inj: "level_value a = level_value b \<longleftrightarrow> a = b"
  by (cases a; cases b) simp_all

instantiation priority_level :: linorder
begin

definition less_eq_priority_level :: "priority_level \<Rightarrow> priority_level \<Rightarrow> bool" where
  "less_eq_priority_level a b \<longleftrightarrow> level_value a \<le> level_value b"

definition less_priority_level :: "priority_level \<Rightarrow> priority_level \<Rightarrow> bool" where
  "less_priority_level a b \<longleftrightarrow> level_value a < level_value b"

instance
  by standard (auto simp: less_eq_priority_level_def less_priority_level_def level_value_inj)

end

lemma clampNice_bounds: "sint NICE_MIN \<le> sint (clampNice v) \<and> sint (clampNice v) \<le> sint NICE_MAX"
  by (auto simp: clampNice_def word_sless_alt NICE_MIN_def NICE_MAX_def)

lemma clampNice_idem: "clampNice (clampNice v) = clampNice v"
  by (auto simp: clampNice_def word_sless_alt NICE_MIN_def NICE_MAX_def)

lemma setState_False: "snd (PCB_setState p s t) \<longleftrightarrow> isValidTransition (pcb_state p) s"
  by (simp add: PCB_setState_def Let_def)

lemma setState_invalid [simp]: "\<not> isValidTransition (pcb_state p) s \<Longrightarrow> PCB_setState p s t = (p, False)"
  by (simp add: PCB_setState_def)

lemma setState_id [simp]: "pcb_id (fst (PCB_setState p s t)) = pcb_id p"
  by (simp add: PCB_setState_def Let_def)

lemma setState_valid:
  assumes "isValidTransition (pcb_state p) s"
  shows "snd (PCB_setState p s t)" "pcb_state (fst (PCB_setState p s t)) = s"
    "lastStateChange (pcb_timing (fst (PCB_setState p s t))) = t"
    "pcb_priority (fst (PCB_setState p s t)) = pcb_priority p"
    "pcb_addressInfo (fst (PCB_setState p s t)) = pcb_addressInfo p"
    "arrivalTime (pcb_timing (fst (PCB_setState p s t))) = arrivalTime (pcb_timing p)"
  using assms by (auto simp: PCB_setState_def Let_def split: process_state.splits)

lemma setState_accounted:
  assumes "isValidTransition (pcb_state p) s"
  shows "accounted (fst (PCB_setState p s t)) = accounted p +
    (if pcb_state p \<in> {Running, Ready, Blocked} then t - lastStateChange (pcb_timing p) else 0)"
  using assms by (cases "pcb_state p") (auto simp: PCB_setState_def Let_def accounted_def)

lemma PCB_run_id [simp]: "pcb_id (PCB_run p cs) = pcb_id p"
  by (induction p cs rule: PCB_run.induct) simp_all

section \<open>Properties\<close>

text \<open>
  A terminated process stays exactly as it is: no sequence of state changes moves it out of
  \<^verbatim>\<open>Terminated\<close> or touches its timing record again.
\<close>

theorem terminated_absorbing:
  assumes "pcb_state p = Terminated"
  shows "PCB_run p cs = p"
  using assms by (induction p cs rule: PCB_run.induct) simp_all

theorem terminated_absorbing_witness:
  "PCB_run ((PCB_new 1 ''p'' Priority_default 0)\<lparr>pcb_state := Terminated\<rparr>) [(Ready, 4), (Running, 9)]
   = (PCB_new 1 ''p'' Priority_default 0)\<lparr>pcb_state := Terminated\<rparr>"
  by (rule terminated_absorbing) simp

text \<open>
  Time accounting. For a process admitted to the ready queue at its arrival tick and never
  suspended, after any sequence of state changes the CPU, waiting and blocked times add up to
  the ticks between arrival and the last state change: no tick is lost or charged twice.
\<close>

theorem time_accounted:
  assumes "Suspended \<notin> fst ` set cs"
  shows "accounted (PCB_run (PCB_new i n pr arrival) ((Ready, arrival) # cs))
    = lastStateChange (pcb_timing (PCB_run (PCB_new i n pr arrival) ((Ready, arrival) # cs))) - arrival"
proof -
  have run: "accounted (PCB_run p cs) = lastStateChange (pcb_timing (PCB_run p cs)) - arrival"
    if "accounted p = lastStateChange (pcb_timing p) - arrival" "pcb_state p \<notin> {New, Suspended}"
      "Suspended \<notin> fst ` set cs" for p cs
    using that
  proof (induction p cs rule: PCB_run.induct)
    case (2 p s t cs)
    have st: "pcb_state p \<in> {Ready, Running, Blocked, Terminated}"
      using "2.prems"(2) by (cases "pcb_state p") auto
    show ?case
    proof (cases "isValidTransition (pcb_state p) s")
      case True
      then have "pcb_state p \<in> {Running, Ready, Blocked}" "s \<notin> {New, Suspended}"
        using st "2.prems"(3) by auto
      with True show ?thesis
        using "2.IH" "2.prems" by (simp add: setState_accounted setState_valid)
    next
      case False
      then show ?thesis using "2.IH" "2.prems" by simp
    qed
  qed simp
  let ?p = "fst (PCB_setState (PCB_new i n pr arrival) Ready arrival)"
  have "accounted ?p = lastStateChange (pcb_timing ?p) - arrival" "pcb_state ?p \<notin> {New, Suspended}"
    by (simp_all add: PCB_setState_def PCB_new_def Let_def accounted_def default_timing_def)
  from run [OF this assms] show ?thesis by simp
qed

theorem time_accounted_witness:
  "accounted (PCB_run (PCB_new 7 ''p'' Priority_default 10)
     ((Ready, 10) # [(Running, 12), (Blocked, 15), (Ready, 20), (Running, 21), (Terminated, 30)])) = 20"
proof -
  have "accounted (PCB_run (PCB_new 7 ''p'' Priority_default 10)
      ((Ready, 10) # [(Running, 12), (Blocked, 15), (Ready, 20), (Running, 21), (Terminated, 30)]))
    = lastStateChange (pcb_timing (PCB_run (PCB_new 7 ''p'' Priority_default 10)
      ((Ready, 10) # [(Running, 12), (Blocked, 15), (Ready, 20), (Running, 21), (Terminated, 30)]))) - 10"
    by (rule time_accounted) simp
  then show ?thesis by (simp add: PCB_setState_def PCB_new_def Let_def default_timing_def)
qed

text \<open>
  \<^verbatim>\<open>startTime\<close> is documented as the tick of the first entry into \<^verbatim>\<open>Running\<close>, but the code uses 0
  as its "not started yet" mark: a process that first runs at tick 0 gets its start time
  overwritten by its next dispatch, at whatever tick \<open>t\<close> that happens.
\<close>

theorem startTime_overwritten:
  "startTime (pcb_timing (PCB_run (PCB_new i n pr 0) [(Ready, 0), (Running, 0), (Ready, a), (Running, t)])) = t"
  by (simp add: PCB_setState_def PCB_new_def Let_def default_timing_def)

end
