(* ===== verification/Execution_Engine.thy ===== *)
theory Execution_Engine
  imports Cpu Process
begin

text \<open>
  The interpreter engine (\<^verbatim>\<open>execution/interpreter_engine.cpp\<close>,
  \<^verbatim>\<open>execution/execution_context.h\<close>): it loads a process's code at the base of memory and
  steps the CPU for at most a tick budget.
\<close>

section \<open>Execution results\<close>

datatype stop_reason = BudgetExhausted | ProcessExited | StopError | Interrupted | Halted

record execution_result =
  er_reason :: stop_reason
  er_interrupt :: interrupt_code
  er_ticks :: nat
  er_pid :: process_id

definition ER_budgetExhausted :: "process_id \<Rightarrow> nat \<Rightarrow> execution_result" where
  "ER_budgetExhausted pid n = \<lparr>er_reason = BudgetExhausted, er_interrupt = IntOk, er_ticks = n, er_pid = pid\<rparr>"

definition ER_exited :: "process_id \<Rightarrow> nat \<Rightarrow> execution_result" where
  "ER_exited pid n = \<lparr>er_reason = ProcessExited, er_interrupt = IntExit, er_ticks = n, er_pid = pid\<rparr>"

definition ER_error :: "process_id \<Rightarrow> nat \<Rightarrow> interrupt_code \<Rightarrow> execution_result" where
  "ER_error pid n i = \<lparr>er_reason = StopError, er_interrupt = i, er_ticks = n, er_pid = pid\<rparr>"

definition ER_interrupted :: "process_id \<Rightarrow> nat \<Rightarrow> interrupt_code \<Rightarrow> execution_result" where
  "ER_interrupted pid n i = \<lparr>er_reason = Interrupted, er_interrupt = i, er_ticks = n, er_pid = pid\<rparr>"

definition ER_halted :: "process_id \<Rightarrow> nat \<Rightarrow> execution_result" where
  "ER_halted pid n = \<lparr>er_reason = Halted, er_interrupt = IntExit, er_ticks = n, er_pid = pid\<rparr>"

section \<open>InterpreterEngine\<close>

record engine =
  haltedPids :: "process_id set"

definition InterpreterEngine_new :: engine where
  "InterpreterEngine_new = \<lparr>haltedPids = {}\<rparr>"

text \<open>Writing the code block by block from address \<open>i\<close>; \<open>False\<close> at the first failed write.\<close>

fun loadCode_from :: "physical_memory \<Rightarrow> nat \<Rightarrow> block list \<Rightarrow> physical_memory \<times> bool" where
  "loadCode_from m i [] = (m, True)"
| "loadCode_from m i (b # bs) =
     (case PhysicalMemory_write m (of_nat i) b of
        (m', Error _) \<Rightarrow> (m', False)
      | (m', Ok _) \<Rightarrow> loadCode_from m' (Suc i) bs)"

definition loadCode :: "physical_memory \<Rightarrow> process_image \<Rightarrow> physical_memory \<times> bool" where
  "loadCode m im =
     (if length (im_code im) > PhysicalMemory_size m then (m, False)
      else loadCode_from m 0 (im_code im))"

text \<open>The reaction of the engine to the interrupt of one step; \<open>None\<close> means it goes on.\<close>

fun stop_of :: "process_id \<Rightarrow> nat \<Rightarrow> interrupt_code \<Rightarrow> execution_result option" where
  "stop_of pid n IntOk = None"
| "stop_of pid n IntExit = Some (ER_exited pid n)"
| "stop_of pid n IntDivByZero = Some (ER_error pid n IntDivByZero)"
| "stop_of pid n IntError = Some (ER_error pid n IntError)"
| "stop_of pid n IntSystemCall = Some (ER_interrupted pid n IntSystemCall)"
| "stop_of pid n IntDeviceIO = Some (ER_interrupted pid n IntDeviceIO)"
| "stop_of pid n IntNetworkIO = Some (ER_interrupted pid n IntNetworkIO)"
| "stop_of pid n IntPageFault = Some (ER_interrupted pid n IntPageFault)"
| "stop_of pid n IntTimer = Some (ER_interrupted pid n IntTimer)"
| "stop_of pid n (IntUnknown v) = Some (ER_error pid n (IntUnknown v))"

text \<open>The loop over the remaining budget.\<close>

fun run_loop ::
  "engine \<Rightarrow> cpu \<Rightarrow> physical_memory \<Rightarrow> register_file \<Rightarrow> process_id \<Rightarrow> nat \<Rightarrow> nat
   \<Rightarrow> engine \<times> cpu \<times> physical_memory \<times> register_file \<times> execution_result" where
  "run_loop e c m regs pid ticks 0 = (e, c, m, regs, ER_budgetExhausted pid ticks)"
| "run_loop e c m regs pid ticks (Suc n) =
     (if pid \<in> haltedPids e
      then (e\<lparr>haltedPids := haltedPids e - {pid}\<rparr>, c, m, regs, ER_halted pid ticks)
      else case Cpu_step c m regs of (c', m', regs', i) \<Rightarrow>
        (case stop_of pid (Suc ticks) i of
           None \<Rightarrow> run_loop e c' m' regs' pid (Suc ticks) n
         | Some r \<Rightarrow> (e, c', m', regs', r)))"

definition InterpreterEngine_execute ::
  "engine \<Rightarrow> cpu \<Rightarrow> physical_memory \<Rightarrow> process_image \<Rightarrow> nat
   \<Rightarrow> engine \<times> cpu \<times> physical_memory \<times> process_image \<times> execution_result" where
  "InterpreterEngine_execute e c m im budget =
     (let pid = ProcessImage_id im in
      if pid \<in> haltedPids e
      then (e\<lparr>haltedPids := haltedPids e - {pid}\<rparr>, c, m, im, ER_halted pid 0)
      else case loadCode m im of
        (m', False) \<Rightarrow> (e, c, m', im, ER_error pid 0 IntError)
      | (m', True) \<Rightarrow>
          (case run_loop e c m' (im_registers im) pid 0 budget of
             (e', c', m'', regs, r) \<Rightarrow> (e', c', m'', im\<lparr>im_registers := regs\<rparr>, r)))"

definition InterpreterEngine_halt :: "engine \<Rightarrow> process_id \<Rightarrow> engine" where
  "InterpreterEngine_halt e pid = e\<lparr>haltedPids := insert pid (haltedPids e)\<rparr>"

section \<open>Iterated CPU steps\<close>

text \<open>The reference execution: \<open>n\<close> CPU cycles, whatever they raise.\<close>

fun cpu_iter ::
  "nat \<Rightarrow> cpu \<times> physical_memory \<times> register_file \<Rightarrow> cpu \<times> physical_memory \<times> register_file" where
  "cpu_iter 0 s = s"
| "cpu_iter (Suc n) (c, m, regs) =
     (case Cpu_step c m regs of (c', m', regs', _) \<Rightarrow> cpu_iter n (c', m', regs'))"

text \<open>The interrupt raised by the next cycle of a state.\<close>

definition next_int :: "cpu \<times> physical_memory \<times> register_file \<Rightarrow> interrupt_code" where
  "next_int s = (case s of (c, m, regs) \<Rightarrow> step_int (Cpu_step c m regs))"

section \<open>Lemmas\<close>

subsection \<open>Loading code\<close>

lemma loadCode_from_seq:
  assumes "i + length bs \<le> PhysicalMemory_size m" "i + length bs < 2 ^ 32"
  shows "loadCode_from m i bs = (pm.wr_seq m (of_nat i) bs, True)"
  using assms
proof (induction bs arbitrary: m i)
  case Nil
  then show ?case by simp
next
  case (Cons b bs)
  let ?m = "fst (PhysicalMemory_write m (of_nat i) b)"
  have i: "unat (of_nat i :: 32 word) = i"
    using Cons.prems by (simp add: unat_of_nat take_bit_nat_eq_self)
  then have w: "PhysicalMemory_write m (of_nat i) b = (?m, Ok ())"
    using Cons.prems by (simp add: write_in_range)
  have "loadCode_from ?m (Suc i) bs = (pm.wr_seq ?m (of_nat (Suc i)) bs, True)"
    using Cons.IH [of "Suc i" ?m] Cons.prems pm.sz_wr [of m "of_nat i" b] by simp
  then show ?case by (subst loadCode_from.simps, subst w) (simp add: add.commute)
qed

text \<open>After a successful load the code is at address 0 and the rest of memory is unchanged.\<close>

lemma loadCode_read:
  assumes "length (im_code im) \<le> PhysicalMemory_size m" "length (im_code im) < 2 ^ 32"
  shows "snd (loadCode m im)"
    and "PhysicalMemory_size (fst (loadCode m im)) = PhysicalMemory_size m"
    and "PhysicalMemory_read (fst (loadCode m im)) a =
      (if unat a < length (im_code im) then Ok (im_code im ! unat a) else PhysicalMemory_read m a)"
  using assms loadCode_from_seq [of 0 "im_code im" m] pm.sz_wr_seq [of m 0 "im_code im"]
    pm.rd_wr_seq [of 0 "im_code im" m a]
  by (auto simp: loadCode_def)

lemma loadCode_too_big: "PhysicalMemory_size m < length (im_code im) \<Longrightarrow> loadCode m im = (m, False)"
  by (simp add: loadCode_def)

lemma loadCode_from_size: "PhysicalMemory_size (fst (loadCode_from m i bs)) = PhysicalMemory_size m"
  by (induction m i bs rule: loadCode_from.induct)
    (auto simp: write_dest split: prod.splits result.splits)

lemma loadCode_size: "PhysicalMemory_size (fst (loadCode m im)) = PhysicalMemory_size m"
  by (simp add: loadCode_def loadCode_from_size)

subsection \<open>The loop\<close>

lemma stop_of_None: "stop_of pid n i = None \<longleftrightarrow> i = IntOk"
  by (cases i) simp_all

lemma stop_of_Some:
  assumes "stop_of pid n i = Some r"
  shows "er_ticks r = n" "er_pid r = pid" "er_interrupt r = i" "er_reason r \<noteq> BudgetExhausted" "i \<noteq> IntOk"
  using assms
  by (cases i; auto simp: ER_exited_def ER_error_def ER_interrupted_def)+

lemma run_loop_size:
  "run_loop e c m regs pid t n = (e', c', m', regs', r) \<Longrightarrow> PhysicalMemory_size m' = PhysicalMemory_size m"
proof (induction n arbitrary: c m regs t)
  case (Suc n)
  obtain c1 m1 regs1 i where s: "Cpu_step c m regs = (c1, m1, regs1, i)" by (metis prod_cases4)
  have "PhysicalMemory_size m1 = PhysicalMemory_size m"
    using step_mem_size [of c m regs] s by simp
  with Suc s show ?case by (auto split: if_splits option.splits)
qed simp

lemma run_loop_halted: "pid \<notin> haltedPids e \<Longrightarrow> fst (run_loop e c m regs pid t n) = e"
proof (induction n arbitrary: c m regs t)
  case (Suc n)
  then show ?case by (cases "Cpu_step c m regs") (auto split: option.splits)
qed simp

text \<open>The loop is iteration of the CPU step that stops at the first interrupt.\<close>

lemma run_loop_iter:
  assumes "pid \<notin> haltedPids e" "run_loop e c m regs pid t n = (e', c', m', regs', r)"
  shows "\<exists>k \<le> n. er_ticks r = t + k \<and> er_pid r = pid \<and> (c', m', regs') = cpu_iter k (c, m, regs)
    \<and> (\<forall>j < k - 1. next_int (cpu_iter j (c, m, regs)) = IntOk)
    \<and> (er_reason r = BudgetExhausted \<longrightarrow> k = n \<and> (\<forall>j < k. next_int (cpu_iter j (c, m, regs)) = IntOk))
    \<and> (er_reason r \<noteq> BudgetExhausted \<longrightarrow>
        0 < k \<and> next_int (cpu_iter (k - 1) (c, m, regs)) = er_interrupt r \<and> er_interrupt r \<noteq> IntOk)"
  using assms
proof (induction n arbitrary: c m regs t)
  case 0
  then show ?case by (auto simp: ER_budgetExhausted_def)
next
  case (Suc n)
  obtain c1 m1 regs1 i where s: "Cpu_step c m regs = (c1, m1, regs1, i)" by (metis prod_cases4)
  have it: "cpu_iter (Suc j) (c, m, regs) = cpu_iter j (c1, m1, regs1)" for j
    by (simp add: s)
  have ni: "next_int (cpu_iter 0 (c, m, regs)) = i"
    by (simp add: next_int_def s)
  show ?case
  proof (cases "i = IntOk")
    case True
    then have "run_loop e c1 m1 regs1 pid (Suc t) n = (e', c', m', regs', r)"
      using Suc.prems s by simp
    from Suc.IH [OF Suc.prems(1) this] obtain k where k: "k \<le> n" "er_ticks r = Suc t + k" "er_pid r = pid"
      "(c', m', regs') = cpu_iter k (c1, m1, regs1)"
      "\<forall>j < k - 1. next_int (cpu_iter j (c1, m1, regs1)) = IntOk"
      "er_reason r = BudgetExhausted \<longrightarrow> k = n \<and> (\<forall>j < k. next_int (cpu_iter j (c1, m1, regs1)) = IntOk)"
      "er_reason r \<noteq> BudgetExhausted \<longrightarrow>
        0 < k \<and> next_int (cpu_iter (k - 1) (c1, m1, regs1)) = er_interrupt r \<and> er_interrupt r \<noteq> IntOk"
      by auto
    have all: "(\<forall>j < Suc l. next_int (cpu_iter j (c, m, regs)) = IntOk)
        \<longleftrightarrow> (\<forall>j < l. next_int (cpu_iter j (c1, m1, regs1)) = IntOk)" for l
      using ni True it by (auto simp: less_Suc_eq_0_disj simp del: cpu_iter.simps)
    show ?thesis
    proof (intro exI [of _ "Suc k"] conjI impI)
      show "\<forall>j < Suc k - 1. next_int (cpu_iter j (c, m, regs)) = IntOk"
        using k(5) all [of "k - 1"] by (cases k) auto
      show "\<forall>j < Suc k. next_int (cpu_iter j (c, m, regs)) = IntOk" if "er_reason r = BudgetExhausted"
        using k(6) that all by blast
      show "next_int (cpu_iter (Suc k - 1) (c, m, regs)) = er_interrupt r" if "er_reason r \<noteq> BudgetExhausted"
        using k(7) that it [of "k - 1"] by simp
    qed (use k it in auto)
  next
    case False
    then obtain r' where r': "stop_of pid (Suc t) i = Some r'"
      using stop_of_None [of pid "Suc t" i] by (cases "stop_of pid (Suc t) i") auto
    then have "r = r'" "(c', m', regs') = (c1, m1, regs1)"
      using Suc.prems s by auto
    with stop_of_Some [OF r'] s show ?thesis
      by (intro exI [of _ "Suc 0"]) (auto simp: next_int_def)
  qed
qed

lemma run_loop_split:
  assumes "pid \<notin> haltedPids e" "run_loop e c m regs pid t a = (e', c', m', regs', r)"
    "er_reason r = BudgetExhausted"
  shows "run_loop e c m regs pid t (a + b) = run_loop e c' m' regs' pid (t + a) b"
  using assms
proof (induction a arbitrary: c m regs t)
  case (Suc a)
  obtain c1 m1 regs1 i where s: "Cpu_step c m regs = (c1, m1, regs1, i)" by (metis prod_cases4)
  have i: "stop_of pid (Suc t) i = None"
    using Suc.prems s stop_of_Some(4) by (cases "stop_of pid (Suc t) i") auto
  then show ?case using Suc.IH [of c1 m1 regs1 "Suc t"] Suc.prems s by simp
qed simp

lemma execute_size:
  "InterpreterEngine_execute e c m im n = (e', c', m', im', r) \<Longrightarrow> PhysicalMemory_size m' = PhysicalMemory_size m"
  using loadCode_size [of m im]
  by (auto simp: InterpreterEngine_execute_def Let_def split: if_splits prod.splits bool.splits dest!: run_loop_size)

lemma run_loop_ticks: "run_loop e c m regs pid t n = (e', c', m', regs', r) \<Longrightarrow> t \<le> er_ticks r \<and> er_ticks r \<le> t + n"
proof (induction n arbitrary: c m regs t)
  case (Suc n)
  show ?case
  proof (cases "pid \<in> haltedPids e")
    case True
    then show ?thesis using Suc.prems by (auto simp: ER_halted_def)
  next
    case False
    obtain c1 m1 regs1 i where s: "Cpu_step c m regs = (c1, m1, regs1, i)" by (metis prod_cases4)
    show ?thesis
    proof (cases "stop_of pid (Suc t) i")
      case None
      then show ?thesis using Suc.IH [of c1 m1 regs1 "Suc t"] Suc.prems False s by auto
    next
      case (Some x)
      then show ?thesis using Suc.prems False s
        by (cases i) (auto simp: ER_exited_def ER_error_def ER_interrupted_def)
    qed
  qed
qed (auto simp: ER_budgetExhausted_def)

lemma execute_ticks:
  "InterpreterEngine_execute e c m im n = (e', c', m', im', r) \<Longrightarrow> er_ticks r \<le> n"
  by (auto simp: InterpreterEngine_execute_def Let_def ER_halted_def ER_error_def
      split: if_splits prod.splits bool.splits dest!: run_loop_ticks)

lemma run_loop_exhausted:
  "run_loop e c m regs pid t n = (e', c', m', regs', r) \<Longrightarrow> er_reason r = BudgetExhausted \<Longrightarrow> er_ticks r = t + n"
proof (induction n arbitrary: c m regs t)
  case (Suc n)
  obtain c1 m1 regs1 i where s: "Cpu_step c m regs = (c1, m1, regs1, i)" by (metis prod_cases4)
  have h: "pid \<notin> haltedPids e" using Suc.prems by (auto simp: ER_halted_def)
  show ?case
  proof (cases "stop_of pid (Suc t) i")
    case None
    then show ?thesis using Suc h s by simp
  next
    case (Some x)
    then show ?thesis using Suc.prems h s stop_of_Some(4) [OF Some] by simp
  qed
qed (auto simp: ER_budgetExhausted_def)

lemma execute_exhausted:
  "InterpreterEngine_execute e c m im n = (e', c', m', im', r) \<Longrightarrow> er_reason r = BudgetExhausted \<Longrightarrow> er_ticks r = n"
  by (auto simp: InterpreterEngine_execute_def Let_def ER_halted_def ER_error_def
      split: if_splits prod.splits bool.splits dest!: run_loop_exhausted)

lemma execute_pcb:
  "InterpreterEngine_execute e c m im n = (e', c', m', im', r) \<Longrightarrow> im_pcb im' = im_pcb im \<and> im_code im' = im_code im"
  by (auto simp: InterpreterEngine_execute_def Let_def split: if_splits prod.splits bool.splits)

lemma ProcessImage_id_registers [simp]: "ProcessImage_id (im\<lparr>im_registers := regs\<rparr>) = ProcessImage_id im"
  by (simp add: ProcessImage_id_def)

lemma run_loop_shift:
  "run_loop e c m regs pid (k + t) n = (case run_loop e c m regs pid t n of
     (e', c', m', regs', r) \<Rightarrow> (e', c', m', regs', r\<lparr>er_ticks := k + er_ticks r\<rparr>))"
proof (induction n arbitrary: c m regs t)
  case (Suc n)
  obtain c' m' regs' i where s: "Cpu_step c m regs = (c', m', regs', i)" by (metis prod_cases4)
  then show ?case using Suc [of c' m' regs' "Suc t"]
    by (cases i) (auto simp: ER_halted_def ER_exited_def ER_error_def ER_interrupted_def)
qed (simp add: ER_budgetExhausted_def)

lemma execute_loaded:
  assumes "ProcessImage_id im \<notin> haltedPids e" "loadCode m im = (m1, True)"
  shows "InterpreterEngine_execute e c m im n =
    (case run_loop e c m1 (im_registers im) (ProcessImage_id im) 0 n of
       (e', c', m', regs, r) \<Rightarrow> (e', c', m', im\<lparr>im_registers := regs\<rparr>, r))"
  using assms by (simp add: InterpreterEngine_execute_def)

lemma loadCode_ok:
  assumes "length (im_code im) \<le> PhysicalMemory_size m" "length (im_code im) < 2 ^ 32"
  obtains m1 where "loadCode m im = (m1, True)"
  using loadCode_read(1) [OF assms] by (metis prod.collapse)

section \<open>Programs of app/main.cpp\<close>

definition makeProgramAddOnePlusOne :: "block list" where
  "makeProgramAddOnePlusOne = [Block Mov 0 1 0, Block Add 0 1 0, Block Halt 0 0 0]"

definition makeProgramCounterLoop :: "block list" where
  "makeProgramCounterLoop =
     [Block Mov 0 0 0, Block Add 0 1 0, Block Compare 0 16 0, Block JumpLess 0 1 0, Block Halt 0 0 0]"

definition makeProgramCpuHeavy :: "block list" where
  "makeProgramCpuHeavy =
     [Block Mov 1 2 0, Block Mov 2 3 0, Block Mul 1 2 1, Block Add 1 7 0, Block Sub 1 1 0,
      Block Compare 1 20 0, Block JumpLess 0 2 0, Block Halt 0 0 0]"

definition makeProgramLongNop :: "nat \<Rightarrow> block list" where
  "makeProgramLongNop nops = replicate nops (Block Nop 0 0 0) @ [Block Halt 0 0 0]"

lemma sint_of_nat32: "j < 2 ^ 31 \<Longrightarrow> sint (of_nat j :: 32 word) = int j"
  using sint_int32 [of "int j"] by (simp add: int32_def in_int32_def)

lemma pc_succ: "Suc j < 2 ^ 31 \<Longrightarrow> s_add (of_nat j) 1 = (of_nat (Suc j) :: 32 word)"
  using sint_of_nat32 [of j] by (simp add: s_add_word in_int32_def add.commute)

lemma nop_loop:
  assumes "\<forall>a < n. PhysicalMemory_read m (of_nat a) = Ok (Block Nop 0 0 0)"
    and "PhysicalMemory_read m (of_nat n) = Ok (Block Halt 0 0 0)"
    and "Suc n < 2 ^ 31" "pid \<notin> haltedPids e"
    and "j \<le> n" "n - j < budget" "wf_regs regs" "RegisterFile_pc regs = of_nat j"
  shows "\<exists>regs'. run_loop e c m regs pid t budget = (e, c, m, regs', ER_exited pid (t + Suc (n - j)))"
  using assms(5-)
proof (induction "n - j" arbitrary: j regs t budget)
  case 0
  then obtain b where "budget = Suc b" "j = n" by (cases budget) auto
  then show ?case using 0 assms(2,4) by (simp add: Cpu_step_def isJump_def)
next
  case (Suc d)
  then obtain b where b: "budget = Suc b" by (cases budget) auto
  let ?regs = "RegisterFile_setPc regs (of_nat (Suc j))"
  have "Cpu_step c m regs = (c, m, ?regs, IntOk)"
    using Suc assms(1,3) pc_succ [of j] by (simp add: Cpu_step_def)
  moreover have "\<exists>regs'. run_loop e c m ?regs pid (Suc t) b = (e, c, m, regs', ER_exited pid (Suc t + Suc (n - Suc j)))"
    using Suc b by (intro Suc.hyps) auto
  moreover have "Suc t + Suc (n - Suc j) = t + Suc (n - j)" using Suc by simp
  ultimately show ?case using b assms(4) by (simp del: add_Suc add_Suc_right)
qed

section \<open>Properties\<close>

text \<open>
  C28: A burst of the interpreter is iteration of the CPU cycle on the loaded memory. If the process
  is not marked halted and its code fits, \<^verbatim>\<open>execute\<close> runs some number \<open>k\<close> of cycles within the
  budget, reports exactly \<open>k\<close> ticks and leaves the state those cycles lead to; every cycle
  before the last raised no interrupt; the burst ends with \<^verbatim>\<open>BudgetExhausted\<close> only when the whole
  budget was used without an interrupt, and otherwise reports the interrupt of the last cycle.
\<close>

theorem execute_refines_cpu:
  assumes "ProcessImage_id im \<notin> haltedPids e"
    and "length (im_code im) \<le> PhysicalMemory_size m" "length (im_code im) < 2 ^ 32"
    and "InterpreterEngine_execute e c m im budget = (e', c', m', im', r)"
  shows "\<exists>k \<le> budget. er_ticks r = k \<and> er_pid r = ProcessImage_id im \<and> e' = e
    \<and> (c', m', im_registers im') = cpu_iter k (c, fst (loadCode m im), im_registers im)
    \<and> (\<forall>j < k - 1. next_int (cpu_iter j (c, fst (loadCode m im), im_registers im)) = IntOk)
    \<and> (er_reason r = BudgetExhausted \<longrightarrow> k = budget
        \<and> (\<forall>j < k. next_int (cpu_iter j (c, fst (loadCode m im), im_registers im)) = IntOk))
    \<and> (er_reason r \<noteq> BudgetExhausted \<longrightarrow> 0 < k \<and> er_interrupt r \<noteq> IntOk
        \<and> next_int (cpu_iter (k - 1) (c, fst (loadCode m im), im_registers im)) = er_interrupt r)"
proof -
  obtain m1 where m1: "loadCode m im = (m1, True)" by (rule loadCode_ok [OF assms(2,3)])
  obtain regs' where l: "run_loop e c m1 (im_registers im) (ProcessImage_id im) 0 budget = (e', c', m', regs', r)"
    and i: "im' = im\<lparr>im_registers := regs'\<rparr>"
    using assms(4) by (auto simp: execute_loaded [OF assms(1) m1] split: prod.splits)
  have "e' = e"
    using run_loop_halted [OF assms(1), of c m1 "im_registers im" 0 budget] l by simp
  with run_loop_iter [OF assms(1) l] i m1 show ?thesis by auto
qed

definition engine_demo_image :: process_image where
  "engine_demo_image = ProcessImage_new 1 ''calc'' makeProgramAddOnePlusOne Priority_default 0"

theorem execute_refines_cpu_witness:
  "\<exists>k \<le> 2. er_ticks (snd (snd (snd (snd
     (InterpreterEngine_execute InterpreterEngine_new Cpu_new (PhysicalMemory_new 4) engine_demo_image 2))))) = k"
proof -
  obtain e' c' m' im' r where x:
    "InterpreterEngine_execute InterpreterEngine_new Cpu_new (PhysicalMemory_new 4) engine_demo_image 2
      = (e', c', m', im', r)" by (metis prod_cases5)
  have "ProcessImage_id engine_demo_image \<notin> haltedPids InterpreterEngine_new"
    "length (im_code engine_demo_image) \<le> PhysicalMemory_size (PhysicalMemory_new 4)"
    "length (im_code engine_demo_image) < 2 ^ 32"
    by (simp_all add: InterpreterEngine_new_def engine_demo_image_def ProcessImage_new_def
        makeProgramAddOnePlusOne_def PhysicalMemory_size_def PhysicalMemory_new_def)
  from execute_refines_cpu [OF this x] show ?thesis using x by auto
qed

text \<open>
  Preemption is transparent: when a burst ends because its budget \<open>a\<close> is exhausted, and reloading
  the code changes nothing (the program did not overwrite its own code), then a second
  burst of budget \<open>b\<close> continues so that both bursts together reach exactly the state, and
  the stop reason, of one burst of budget \<open>a + b\<close>.
\<close>

theorem burst_resume:
  assumes "ProcessImage_id im \<notin> haltedPids e"
    and "length (im_code im) \<le> PhysicalMemory_size m" "length (im_code im) < 2 ^ 32"
    and first: "InterpreterEngine_execute e c m im a = (e1, c1, m1, im1, r1)" "er_reason r1 = BudgetExhausted"
    and reload: "loadCode m1 im1 = (m1, True)"
    and second: "InterpreterEngine_execute e1 c1 m1 im1 b = (e2, c2, m2, im2, r2)"
    and whole: "InterpreterEngine_execute e c m im (a + b) = (e3, c3, m3, im3, r3)"
  shows "(e2, c2, m2, im2) = (e3, c3, m3, im3) \<and> er_reason r2 = er_reason r3
    \<and> er_interrupt r2 = er_interrupt r3 \<and> a + er_ticks r2 = er_ticks r3"
proof -
  let ?pid = "ProcessImage_id im"
  obtain ml where ld: "loadCode m im = (ml, True)" by (rule loadCode_ok [OF assms(2,3)])
  obtain regs1 where l1: "run_loop e c ml (im_registers im) ?pid 0 a = (e1, c1, m1, regs1, r1)"
    and i1: "im1 = im\<lparr>im_registers := regs1\<rparr>"
    using first(1) by (auto simp: execute_loaded [OF assms(1) ld] split: prod.splits)
  have e1: "e1 = e" using run_loop_halted [OF assms(1), of c ml "im_registers im" 0 a] l1 by simp
  have sp: "run_loop e c ml (im_registers im) ?pid 0 (a + b) = run_loop e c1 m1 regs1 ?pid (a + 0) b"
    using run_loop_split [OF assms(1) l1 first(2), of b] by simp
  have "ProcessImage_id im1 \<notin> haltedPids e1" by (simp add: i1 e1 assms(1))
  from second [unfolded execute_loaded [OF this reload]] whole [unfolded execute_loaded [OF assms(1) ld]]
  show ?thesis
    using run_loop_shift [of e c1 m1 regs1 ?pid a 0 b] by (auto simp: e1 sp i1 split: prod.splits)
qed

definition nop_image :: process_image where
  "nop_image = ProcessImage_new 1 ''nop'' (makeProgramLongNop 2) Priority_default 0"

theorem burst_resume_witness:
  "\<exists>e1 c1 m1 im1 r1 e2 c2 m2 im2 r2 e3 c3 m3 im3 r3.
     InterpreterEngine_execute InterpreterEngine_new Cpu_new (PhysicalMemory_new 4) nop_image 1 = (e1, c1, m1, im1, r1)
     \<and> InterpreterEngine_execute e1 c1 m1 im1 2 = (e2, c2, m2, im2, r2)
     \<and> InterpreterEngine_execute InterpreterEngine_new Cpu_new (PhysicalMemory_new 4) nop_image (1 + 2) = (e3, c3, m3, im3, r3)
     \<and> m2 = m3 \<and> 1 + er_ticks r2 = er_ticks r3"
proof -
  obtain e1 c1 m1 im1 r1 where x1: "InterpreterEngine_execute InterpreterEngine_new Cpu_new
      (PhysicalMemory_new 4) nop_image 1 = (e1, c1, m1, im1, r1)" by (metis prod_cases5)
  obtain e2 c2 m2 im2 r2 where x2: "InterpreterEngine_execute e1 c1 m1 im1 2 = (e2, c2, m2, im2, r2)"
    by (metis prod_cases5)
  obtain e3 c3 m3 im3 r3 where x3: "InterpreterEngine_execute InterpreterEngine_new Cpu_new
      (PhysicalMemory_new 4) nop_image (1 + 2) = (e3, c3, m3, im3, r3)" by (metis prod_cases5)
  have h: "ProcessImage_id nop_image \<notin> haltedPids InterpreterEngine_new"
    "length (im_code nop_image) \<le> PhysicalMemory_size (PhysicalMemory_new 4)" "length (im_code nop_image) < 2 ^ 32"
    by (simp_all add: InterpreterEngine_new_def nop_image_def ProcessImage_new_def makeProgramLongNop_def
        PhysicalMemory_size_def PhysicalMemory_new_def)
  have "er_reason (snd (snd (snd (snd (InterpreterEngine_execute InterpreterEngine_new Cpu_new
      (PhysicalMemory_new 4) nop_image 1))))) = BudgetExhausted"
    "(case InterpreterEngine_execute InterpreterEngine_new Cpu_new (PhysicalMemory_new 4) nop_image 1 of
       (e, c, m, im, r) \<Rightarrow> loadCode m im = (m, True))"
    by code_simp+
  then have l: "er_reason r1 = BudgetExhausted \<and> loadCode m1 im1 = (m1, True)" unfolding x1 by simp
  show ?thesis
    using burst_resume [OF h x1 conjunct1 [OF l] conjunct2 [OF l] x2 x3] x1 x2 x3 by auto
qed

text \<open>
  C40: The comparison flags are not part of a process. A process image is documented to hold all the data needed to execute a process, but
  the flags stay in the CPU that all processes share: a process that is resumed at a conditional jump branches by the
  flags that whatever ran last left there, not by its own comparison, and either way of the branch can be the result.
\<close>

theorem resumed_branch:
  assumes "ProcessImage_id im \<notin> haltedPids e"
    and "length (im_code im) \<le> PhysicalMemory_size m" "length (im_code im) < 2 ^ 32"
    and "wf_regs (im_registers im)" "pc = RegisterFile_pc (im_registers im)" "unat pc < length (im_code im)"
    and "isJump (b_code (im_code im ! unat pc))"
    and "InterpreterEngine_execute e c m im 1 = (e', c', m', im', r)"
  shows "er_reason r = BudgetExhausted \<and> c' = c
    \<and> RegisterFile_pc (im_registers im') =
        (if shouldJump c (b_code (im_code im ! unat pc)) then b_operand (im_code im ! unat pc) else s_add pc 1)
    \<and> (\<exists>c1 c2. shouldJump c1 (b_code (im_code im ! unat pc)) \<and> \<not> shouldJump c2 (b_code (im_code im ! unat pc)))"
proof -
  let ?b = "im_code im ! unat pc"
  obtain m1 where m1: "loadCode m im = (m1, True)" by (rule loadCode_ok [OF assms(2,3)])
  have "PhysicalMemory_read m1 (RegisterFile_pc (im_registers im)) = Ok ?b"
    using loadCode_read(3) [OF assms(2,3), of pc] m1 assms(5,6) by simp
  note s = step_Jump [OF this assms(7), of c]
  have "shouldJump \<lparr>cpu_flags = ZERO_FLAG\<rparr> i \<noteq> shouldJump \<lparr>cpu_flags = 0\<rparr> i \<or> shouldJump \<lparr>cpu_flags = SIGN_FLAG\<rparr> i \<noteq> shouldJump \<lparr>cpu_flags = 0\<rparr> i"
    if "isJump i" for i
    using that by (cases i) (simp_all add: isJump_def shouldJump_def)
  then have "\<exists>c1 c2. shouldJump c1 (b_code ?b) \<and> \<not> shouldJump c2 (b_code ?b)" using assms(7) by blast
  then show ?thesis
    using assms(8) s by (auto simp: execute_loaded [OF assms(1) m1] assms(1,4,5) Let_def ER_budgetExhausted_def)
qed

text \<open>The counter of the demo right after its comparison: with its own flags it goes round, with those of another process it ends.\<close>

definition counter_at_jump :: process_image where
  "counter_at_jump = (ProcessImage_new 2 ''counter'' makeProgramCounterLoop Priority_default 0)
     \<lparr>im_registers := RegisterFile_new[0 := 1, 14 := 3]\<rparr>"

theorem resumed_branch_witness:
  "RegisterFile_pc (im_registers (fst (snd (snd (snd
     (InterpreterEngine_execute InterpreterEngine_new \<lparr>cpu_flags = SIGN_FLAG\<rparr> (PhysicalMemory_new 8) counter_at_jump 1)))))) = 1
   \<and> RegisterFile_pc (im_registers (fst (snd (snd (snd
     (InterpreterEngine_execute InterpreterEngine_new \<lparr>cpu_flags = 0\<rparr> (PhysicalMemory_new 8) counter_at_jump 1)))))) = 4"
proof -
  have h: "ProcessImage_id counter_at_jump \<notin> haltedPids InterpreterEngine_new"
    "length (im_code counter_at_jump) \<le> PhysicalMemory_size (PhysicalMemory_new 8)" "length (im_code counter_at_jump) < 2 ^ 32"
    "wf_regs (im_registers counter_at_jump)" "3 = RegisterFile_pc (im_registers counter_at_jump)"
    "im_code counter_at_jump ! unat (3 :: 32 word) = Block JumpLess 0 1 0" "unat (3 :: 32 word) < length (im_code counter_at_jump)"
    "s_add 3 1 = (4 :: 32 word)"
    by (simp_all add: InterpreterEngine_new_def counter_at_jump_def ProcessImage_new_def makeProgramCounterLoop_def
        PhysicalMemory_size_def PhysicalMemory_new_def wf_regs_def RegisterFile_new_def RegisterFile_pc_def RegisterFile_get_def
        REGISTER_COUNT_def nth_list_update s_add_def int32_def in_int32_def)
  have j: "isJump (b_code (im_code counter_at_jump ! unat (3 :: 32 word)))" unfolding h(6) by (simp add: isJump_def)
  have "RegisterFile_pc (im_registers (fst (snd (snd (snd
      (InterpreterEngine_execute InterpreterEngine_new c (PhysicalMemory_new 8) counter_at_jump 1)))))) = (if shouldJump c JumpLess then 1 else 4)" for c
  proof -
    obtain e' c' m' im' r where x:
      "InterpreterEngine_execute InterpreterEngine_new c (PhysicalMemory_new 8) counter_at_jump 1 = (e', c', m', im', r)"
      by (metis prod_cases5)
    from resumed_branch [OF h(1-5,7) j x, unfolded h(6,8)] x show ?thesis by simp
  qed
  then show ?thesis by (simp add: shouldJump_def)
qed

text \<open>
  The demo program of \<open>n\<close> \<^verbatim>\<open>Nop\<close>s and a \<^verbatim>\<open>Halt\<close> (\<^verbatim>\<open>makeProgramLongNop\<close>) terminates: a fresh process
  with enough memory and a budget above \<open>n\<close> exits normally after exactly \<open>n + 1\<close> ticks.
\<close>

theorem long_nop_exits:
  assumes "Suc n < 2 ^ 31" "n < budget" "n < PhysicalMemory_size m" "pid \<notin> haltedPids e"
  shows "snd (snd (snd (snd (InterpreterEngine_execute e c m
      (ProcessImage_new pid name (makeProgramLongNop n) pr arrival) budget))))
    = ER_exited pid (Suc n)"
proof -
  let ?im = "ProcessImage_new pid name (makeProgramLongNop n) pr arrival"
  have fits: "length (im_code ?im) \<le> PhysicalMemory_size m" "length (im_code ?im) < 2 ^ 32"
    using assms by (simp_all add: ProcessImage_new_def makeProgramLongNop_def)
  obtain m1 where m1: "loadCode m ?im = (m1, True)" by (rule loadCode_ok [OF fits])
  have u: "unat (of_nat a :: 32 word) = a" if "a \<le> n" for a
    using that assms(1) by (simp add: unat_of_nat take_bit_nat_eq_self)
  have r: "\<forall>a < n. PhysicalMemory_read m1 (of_nat a) = Ok (Block Nop 0 0 0)"
    "PhysicalMemory_read m1 (of_nat n) = Ok (Block Halt 0 0 0)"
    using loadCode_read(3) [OF fits, unfolded m1] u
    by (auto simp: ProcessImage_new_def makeProgramLongNop_def nth_append)
  have "RegisterFile_pc (im_registers ?im) = of_nat 0" "wf_regs (im_registers ?im)"
    by (simp_all add: ProcessImage_new_def RegisterFile_new_def RegisterFile_pc_def RegisterFile_get_def
        REGISTER_COUNT_def wf_regs_def)
  then obtain regs' where "run_loop e c m1 (im_registers ?im) pid 0 budget
      = (e, c, m1, regs', ER_exited pid (0 + Suc (n - 0)))"
    using nop_loop [OF r assms(1,4), of 0 budget "im_registers ?im" c 0] assms(2) by auto
  moreover have pid: "ProcessImage_id ?im = pid"
    by (simp add: ProcessImage_id_def ProcessImage_new_def PCB_new_def)
  ultimately show ?thesis
    using execute_loaded [OF _ m1, of e c budget] assms(4) by simp
qed

theorem long_nop_exits_witness:
  "snd (snd (snd (snd (InterpreterEngine_execute InterpreterEngine_new Cpu_new (PhysicalMemory_new 64)
     (ProcessImage_new 4 ''worker-2'' (makeProgramLongNop 24) Priority_default 0) 30)))) = ER_exited 4 25"
  using long_nop_exits [of 24 30 "PhysicalMemory_new 64" 4 InterpreterEngine_new]
  by (simp add: InterpreterEngine_new_def PhysicalMemory_new_def PhysicalMemory_size_def)

end
