(* ===== verification/Page_Table.thy ===== *)
theory Page_Table
  imports Prelude
begin

text \<open>
  Page tables: \<^verbatim>\<open>memory/page_table.h\<close> and \<^verbatim>\<open>memory/page_table.cpp\<close>. Every operation holds the
  table's mutex for its whole body, so an operation is one step.
\<close>

record page_table_entry =
  frameId :: frame_id
  present :: bool
  dirty :: bool
  referenced :: bool

definition default_entry :: page_table_entry where
  "default_entry = \<lparr>frameId = INVALID_FRAME, present = False, dirty = False, referenced = False\<rparr>"

type_synonym page_table = "page_table_entry list"

definition PageTable_new :: "nat \<Rightarrow> page_table" where
  "PageTable_new pageCount = replicate pageCount default_entry"

definition PageTable_map :: "page_table \<Rightarrow> nat \<Rightarrow> frame_id \<Rightarrow> page_table \<times> unit result" where
  "PageTable_map pt vp f =
     (if vp \<ge> length pt then (pt, Error InvalidAddress)
      else (pt[vp := (pt ! vp)\<lparr>frameId := f, present := True, dirty := False, referenced := True\<rparr>], Ok ()))"

definition PageTable_unmap :: "page_table \<Rightarrow> nat \<Rightarrow> page_table \<times> unit result" where
  "PageTable_unmap pt vp =
     (if vp \<ge> length pt then (pt, Error InvalidAddress) else (pt[vp := default_entry], Ok ()))"

definition PageTable_translate :: "page_table \<Rightarrow> nat \<Rightarrow> frame_id result" where
  "PageTable_translate pt vp =
     (if vp \<ge> length pt then Error InvalidAddress
      else if \<not> present (pt ! vp) then Error SegmentationFault
      else Ok (frameId (pt ! vp)))"

definition PageTable_getEntry :: "page_table \<Rightarrow> nat \<Rightarrow> page_table_entry result" where
  "PageTable_getEntry pt vp = (if vp \<ge> length pt then Error InvalidAddress else Ok (pt ! vp))"

definition PageTable_setReferenced :: "page_table \<Rightarrow> nat \<Rightarrow> bool \<Rightarrow> page_table \<times> unit result" where
  "PageTable_setReferenced pt vp b =
     (if vp \<ge> length pt then (pt, Error InvalidAddress) else (pt[vp := (pt ! vp)\<lparr>referenced := b\<rparr>], Ok ()))"

definition PageTable_setDirty :: "page_table \<Rightarrow> nat \<Rightarrow> bool \<Rightarrow> page_table \<times> unit result" where
  "PageTable_setDirty pt vp b =
     (if vp \<ge> length pt then (pt, Error InvalidAddress) else (pt[vp := (pt ! vp)\<lparr>dirty := b\<rparr>], Ok ()))"

definition PageTable_clearReferenced :: "page_table \<Rightarrow> nat \<Rightarrow> page_table \<times> unit result" where
  "PageTable_clearReferenced pt vp = PageTable_setReferenced pt vp False"

definition PageTable_pageCount :: "page_table \<Rightarrow> nat" where
  "PageTable_pageCount pt = length pt"

definition PageTable_presentCount :: "page_table \<Rightarrow> nat" where
  "PageTable_presentCount pt = length (filter present pt)"

definition PageTable_clear :: "page_table \<Rightarrow> page_table" where
  "PageTable_clear pt = map (\<lambda>_. default_entry) pt"

section \<open>The translation a table implements\<close>

text \<open>A page table read as a partial map from pages to frames.\<close>

definition pt_map :: "page_table \<Rightarrow> nat \<Rightarrow> frame_id option" where
  "pt_map pt v = (if v < length pt \<and> present (pt ! v) then Some (frameId (pt ! v)) else None)"

lemma pt_map_new [simp]: "pt_map (PageTable_new n) v = None"
  by (simp add: pt_map_def PageTable_new_def default_entry_def)

lemma length_new [simp]: "length (PageTable_new n) = n"
  by (simp add: PageTable_new_def)

lemma pt_map_map: "vp < length pt \<Longrightarrow> pt_map (fst (PageTable_map pt vp f)) = (pt_map pt)(vp \<mapsto> f)"
  by (auto simp: pt_map_def PageTable_map_def nth_list_update fun_eq_iff)

lemma length_PageTable_map [simp]: "length (fst (PageTable_map pt vp f)) = length pt"
  by (simp add: PageTable_map_def)

lemma pt_map_unmap: "pt_map (fst (PageTable_unmap pt vp)) = (pt_map pt)(vp := None)"
  by (auto simp: pt_map_def PageTable_unmap_def nth_list_update fun_eq_iff default_entry_def)

lemma length_unmap [simp]: "length (fst (PageTable_unmap pt vp)) = length pt"
  by (simp add: PageTable_unmap_def)

lemma pt_map_setReferenced [simp]: "pt_map (fst (PageTable_setReferenced pt vp b)) = pt_map pt"
  by (auto simp: pt_map_def PageTable_setReferenced_def nth_list_update fun_eq_iff)

lemma length_setReferenced [simp]: "length (fst (PageTable_setReferenced pt vp b)) = length pt"
  by (simp add: PageTable_setReferenced_def)

lemma pt_map_setDirty [simp]: "pt_map (fst (PageTable_setDirty pt vp b)) = pt_map pt"
  by (auto simp: pt_map_def PageTable_setDirty_def nth_list_update fun_eq_iff)

lemma length_setDirty [simp]: "length (fst (PageTable_setDirty pt vp b)) = length pt"
  by (simp add: PageTable_setDirty_def)

lemma pt_map_clear [simp]: "pt_map (PageTable_clear pt) v = None"
  by (simp add: pt_map_def PageTable_clear_def default_entry_def)

lemma translate_pt_map:
  "PageTable_translate pt vp =
    (case pt_map pt vp of Some f \<Rightarrow> Ok f
     | None \<Rightarrow> Error (if vp < length pt then SegmentationFault else InvalidAddress))"
  by (simp add: PageTable_translate_def pt_map_def)

lemma getEntry_present:
  "(\<exists>en. PageTable_getEntry pt vp = Ok en \<and> present en) \<longleftrightarrow> pt_map pt vp \<noteq> None"
  by (auto simp: PageTable_getEntry_def pt_map_def)

lemma presentCount_card: "PageTable_presentCount pt = card {v. pt_map pt v \<noteq> None}"
  by (simp add: PageTable_presentCount_def pt_map_def length_filter_conv_card)

end
