(* ===== verification/Page_Replacement.thy ===== *)
theory Page_Replacement
  imports Prelude "HOL-Library.Multiset"
begin

text \<open>
  The page replacement policies (\<^verbatim>\<open>memory/fifo_replacement.cpp\<close>, \<^verbatim>\<open>memory/lru_replacement.cpp\<close>,
  \<^verbatim>\<open>memory/clock_replacement.cpp\<close>, \<^verbatim>\<open>memory/optimal_replacement.cpp\<close>) behind the interface
  \<^verbatim>\<open>memory/i_page_replacement.h\<close>. None of them looks at the page table argument of
  \<^verbatim>\<open>selectVictim\<close>. The virtual dispatch of the interface is the sum type
  \<open>replacement_policy\<close>; the locale \<open>page_replacement\<close> states what the MMU relies on.
\<close>

section \<open>FIFO\<close>

record fifo =
  loadOrder :: "frame_id list"

definition Fifo_new :: fifo where "Fifo_new = \<lparr>loadOrder = []\<rparr>"

definition Fifo_selectVictim :: "fifo \<Rightarrow> fifo \<times> frame_id" where
  "Fifo_selectVictim p =
     (case loadOrder p of [] \<Rightarrow> (p, INVALID_FRAME) | f # fs \<Rightarrow> (p\<lparr>loadOrder := fs\<rparr>, f))"

definition Fifo_onAccess :: "fifo \<Rightarrow> frame_id \<Rightarrow> fifo" where
  "Fifo_onAccess p f = p"

definition Fifo_onLoad :: "fifo \<Rightarrow> frame_id \<Rightarrow> fifo" where
  "Fifo_onLoad p f = p\<lparr>loadOrder := loadOrder p @ [f]\<rparr>"

definition Fifo_reset :: "fifo \<Rightarrow> fifo" where
  "Fifo_reset p = p\<lparr>loadOrder := []\<rparr>"

section \<open>LRU\<close>

record lru =
  accessTime :: "frame_id \<rightharpoonup> 64 word"
  lru_clock :: "64 word"

definition Lru_new :: lru where "Lru_new = \<lparr>accessTime = Map.empty, lru_clock = 0\<rparr>"

definition Lru_selectVictim :: "(frame_id set \<Rightarrow> frame_id list) \<Rightarrow> lru \<Rightarrow> lru \<times> frame_id" where
  "Lru_selectVictim iter p =
     (case min_element (\<lambda>a b. the (accessTime p a) < the (accessTime p b)) (iter (dom (accessTime p))) of
        None \<Rightarrow> (p, INVALID_FRAME)
      | Some f \<Rightarrow> (p\<lparr>accessTime := (accessTime p)(f := None)\<rparr>, f))"

definition Lru_onAccess :: "lru \<Rightarrow> frame_id \<Rightarrow> lru" where
  "Lru_onAccess p f =
     p\<lparr>lru_clock := lru_clock p + 1, accessTime := (accessTime p)(f \<mapsto> lru_clock p + 1)\<rparr>"

definition Lru_onLoad :: "lru \<Rightarrow> frame_id \<Rightarrow> lru" where
  "Lru_onLoad p f =
     p\<lparr>lru_clock := lru_clock p + 1, accessTime := (accessTime p)(f \<mapsto> lru_clock p + 1)\<rparr>"

definition Lru_reset :: "lru \<Rightarrow> lru" where
  "Lru_reset p = p\<lparr>accessTime := Map.empty, lru_clock := 0\<rparr>"

section \<open>Clock (second chance)\<close>

record clock_repl =
  ck_frames :: "frame_id list"
  ck_refBits :: "frame_id set"
  ck_hand :: nat

definition ClockR_new :: clock_repl where
  "ClockR_new = \<lparr>ck_frames = [], ck_refBits = {}, ck_hand = 0\<rparr>"

text \<open>
  The scan \<^verbatim>\<open>while (true)\<close>. Each round that does not evict clears one reference bit of a frame in
  the buffer, so the number of such bits is a measure. A hand outside the buffer, which
  no operation produces, would be an out-of-range read.
\<close>

function ClockR_scan :: "frame_id list \<Rightarrow> frame_id set \<Rightarrow> nat \<Rightarrow> clock_repl \<times> frame_id" where
  "ClockR_scan fs bits hand =
     (if hand < length fs then
        (let cur = fs ! hand in
         if cur \<notin> bits then
           (let fs' = take hand fs @ drop (Suc hand) fs
            in (\<lparr>ck_frames = fs', ck_refBits = bits,
                  ck_hand = (if fs' \<noteq> [] then hand mod length fs' else 0)\<rparr>, cur))
         else ClockR_scan fs (bits - {cur}) ((hand + 1) mod length fs))
      else undefined)"
  by pat_completeness auto
termination
proof (relation "measure (\<lambda>(fs, bits, hand). card (bits \<inter> set fs))")
  fix fs :: "frame_id list" and bits hand cur
  assume "hand < length fs" "cur = fs ! hand" "\<not> cur \<notin> bits"
  then have "(bits - {cur}) \<inter> set fs \<subset> bits \<inter> set fs"
    by (auto simp: set_conv_nth)
  then show "((fs, bits - {cur}, (hand + 1) mod length fs), fs, bits, hand)
      \<in> measure (\<lambda>(fs, bits, hand). card (bits \<inter> set fs))"
    by (simp add: psubset_card_mono)
qed simp

declare ClockR_scan.simps [simp del]

definition ClockR_selectVictim :: "clock_repl \<Rightarrow> clock_repl \<times> frame_id" where
  "ClockR_selectVictim p =
     (if ck_frames p = [] then (p, INVALID_FRAME)
      else ClockR_scan (ck_frames p) (ck_refBits p) (ck_hand p))"

definition ClockR_onAccess :: "clock_repl \<Rightarrow> frame_id \<Rightarrow> clock_repl" where
  "ClockR_onAccess p f = p\<lparr>ck_refBits := insert f (ck_refBits p)\<rparr>"

definition ClockR_onLoad :: "clock_repl \<Rightarrow> frame_id \<Rightarrow> clock_repl" where
  "ClockR_onLoad p f = p\<lparr>ck_frames := ck_frames p @ [f], ck_refBits := insert f (ck_refBits p)\<rparr>"

definition ClockR_reset :: "clock_repl \<Rightarrow> clock_repl" where
  "ClockR_reset p = p\<lparr>ck_frames := [], ck_refBits := {}, ck_hand := 0\<rparr>"

section \<open>Optimal (Belady)\<close>

record optimal =
  futureAccesses :: "frame_id list"
  opt_currentIndex :: nat
  loadedFrames :: "frame_id set"

definition Optimal_new :: "frame_id list \<Rightarrow> optimal" where
  "Optimal_new fut = \<lparr>futureAccesses = fut, opt_currentIndex = 0, loadedFrames = {}\<rparr>"

text \<open>
  \<^verbatim>\<open>std::find\<close> from the current index: the distance to the next access, \<open>None\<close> when there is none.
  An index past the end of the recorded accesses makes the start iterator invalid.
\<close>

fun find_index :: "frame_id \<Rightarrow> frame_id list \<Rightarrow> nat option" where
  "find_index f [] = None"
| "find_index f (x # xs) = (if x = f then Some 0 else map_option Suc (find_index f xs))"

definition next_use :: "optimal \<Rightarrow> frame_id \<Rightarrow> nat option" where
  "next_use p f =
     (if opt_currentIndex p \<le> length (futureAccesses p)
      then find_index f (drop (opt_currentIndex p) (futureAccesses p)) else undefined)"

fun Optimal_scan :: "optimal \<Rightarrow> frame_id list \<Rightarrow> frame_id \<Rightarrow> nat \<Rightarrow> frame_id" where
  "Optimal_scan p [] victim farthest = victim"
| "Optimal_scan p (f # fs) victim farthest =
     (case next_use p f of
        None \<Rightarrow> f
      | Some d \<Rightarrow>
          if d > farthest \<or> victim = INVALID_FRAME
          then Optimal_scan p fs f d else Optimal_scan p fs victim farthest)"

definition Optimal_selectVictim ::
  "(frame_id set \<Rightarrow> frame_id list) \<Rightarrow> optimal \<Rightarrow> optimal \<times> frame_id" where
  "Optimal_selectVictim iter p =
     (if loadedFrames p = {} then (p, INVALID_FRAME)
      else
        let victim = Optimal_scan p (iter (loadedFrames p)) INVALID_FRAME 0
        in (p\<lparr>loadedFrames := loadedFrames p - {victim}\<rparr>, victim))"

definition Optimal_onAccess :: "optimal \<Rightarrow> frame_id \<Rightarrow> optimal" where
  "Optimal_onAccess p f = p\<lparr>opt_currentIndex := opt_currentIndex p + 1\<rparr>"

definition Optimal_onLoad :: "optimal \<Rightarrow> frame_id \<Rightarrow> optimal" where
  "Optimal_onLoad p f = p\<lparr>loadedFrames := insert f (loadedFrames p)\<rparr>"

definition Optimal_reset :: "optimal \<Rightarrow> optimal" where
  "Optimal_reset p = p\<lparr>opt_currentIndex := 0, loadedFrames := {}\<rparr>"

section \<open>IPageReplacementPolicy\<close>

datatype replacement_policy =
  FifoReplacement fifo | LruReplacement lru | ClockReplacement clock_repl | OptimalReplacement optimal

fun policy_selectVictim ::
  "(frame_id set \<Rightarrow> frame_id list) \<Rightarrow> replacement_policy \<Rightarrow> replacement_policy \<times> frame_id" where
  "policy_selectVictim iter (FifoReplacement p) = map_prod FifoReplacement id (Fifo_selectVictim p)"
| "policy_selectVictim iter (LruReplacement p) = map_prod LruReplacement id (Lru_selectVictim iter p)"
| "policy_selectVictim iter (ClockReplacement p) = map_prod ClockReplacement id (ClockR_selectVictim p)"
| "policy_selectVictim iter (OptimalReplacement p) = map_prod OptimalReplacement id (Optimal_selectVictim iter p)"

fun policy_onAccess :: "replacement_policy \<Rightarrow> frame_id \<Rightarrow> replacement_policy" where
  "policy_onAccess (FifoReplacement p) f = FifoReplacement (Fifo_onAccess p f)"
| "policy_onAccess (LruReplacement p) f = LruReplacement (Lru_onAccess p f)"
| "policy_onAccess (ClockReplacement p) f = ClockReplacement (ClockR_onAccess p f)"
| "policy_onAccess (OptimalReplacement p) f = OptimalReplacement (Optimal_onAccess p f)"

fun policy_onLoad :: "replacement_policy \<Rightarrow> frame_id \<Rightarrow> replacement_policy" where
  "policy_onLoad (FifoReplacement p) f = FifoReplacement (Fifo_onLoad p f)"
| "policy_onLoad (LruReplacement p) f = LruReplacement (Lru_onLoad p f)"
| "policy_onLoad (ClockReplacement p) f = ClockReplacement (ClockR_onLoad p f)"
| "policy_onLoad (OptimalReplacement p) f = OptimalReplacement (Optimal_onLoad p f)"

fun policy_reset :: "replacement_policy \<Rightarrow> replacement_policy" where
  "policy_reset (FifoReplacement p) = FifoReplacement (Fifo_reset p)"
| "policy_reset (LruReplacement p) = LruReplacement (Lru_reset p)"
| "policy_reset (ClockReplacement p) = ClockReplacement (ClockR_reset p)"
| "policy_reset (OptimalReplacement p) = OptimalReplacement (Optimal_reset p)"

text \<open>The frames a policy can name as a victim, and what its operations keep.\<close>

fun policy_frames :: "replacement_policy \<Rightarrow> frame_id set" where
  "policy_frames (FifoReplacement p) = set (loadOrder p)"
| "policy_frames (LruReplacement p) = dom (accessTime p)"
| "policy_frames (ClockReplacement p) = set (ck_frames p)"
| "policy_frames (OptimalReplacement p) = loadedFrames p"

fun policy_wf :: "replacement_policy \<Rightarrow> bool" where
  "policy_wf (FifoReplacement p) = True"
| "policy_wf (LruReplacement p) = finite (dom (accessTime p))"
| "policy_wf (ClockReplacement p) = (if ck_frames p = [] then ck_hand p = 0 else ck_hand p < length (ck_frames p))"
| "policy_wf (OptimalReplacement p) = finite (loadedFrames p)"

section \<open>The interface\<close>

text \<open>
  What the MMU relies on: a victim is \<^verbatim>\<open>INVALID_FRAME\<close> only when the policy knows no frame (or the
  frame of that number is itself loaded), any other victim is a frame the policy was told about,
  and no operation invents frames.
\<close>

locale page_replacement =
  fixes select :: "(frame_id set \<Rightarrow> frame_id list) \<Rightarrow> 'p \<Rightarrow> 'p \<times> frame_id"
    and access :: "'p \<Rightarrow> frame_id \<Rightarrow> 'p"
    and load :: "'p \<Rightarrow> frame_id \<Rightarrow> 'p"
    and frames :: "'p \<Rightarrow> frame_id set"
    and wf :: "'p \<Rightarrow> bool"
  assumes select_victim: "\<lbrakk>iter_ok iter; wf p; select iter p = (p', f); f \<noteq> INVALID_FRAME\<rbrakk> \<Longrightarrow> f \<in> frames p"
    and select_frames: "\<lbrakk>iter_ok iter; wf p; select iter p = (p', f)\<rbrakk> \<Longrightarrow> frames p' \<subseteq> frames p"
    and select_keeps: "\<lbrakk>iter_ok iter; wf p; select iter p = (p', f)\<rbrakk> \<Longrightarrow> frames p - {f} \<subseteq> frames p'"
    and select_some: "\<lbrakk>iter_ok iter; wf p; frames p \<noteq> {}; INVALID_FRAME \<notin> frames p; select iter p = (p', f)\<rbrakk>
      \<Longrightarrow> f \<noteq> INVALID_FRAME"
    and select_wf: "\<lbrakk>iter_ok iter; wf p; select iter p = (p', f)\<rbrakk> \<Longrightarrow> wf p'"
    and access_frames: "wf p \<Longrightarrow> frames (access p f) \<subseteq> insert f (frames p)"
    and access_keeps: "wf p \<Longrightarrow> frames p \<subseteq> frames (access p f)"
    and access_wf: "wf p \<Longrightarrow> wf (access p f)"
    and load_frames: "wf p \<Longrightarrow> frames (load p f) = insert f (frames p)"
    and load_wf: "wf p \<Longrightarrow> wf (load p f)"
begin

lemma victim_in:
  assumes "iter_ok iter" "wf p" "frames p \<subseteq> R" "select iter p = (p', f)" "f \<noteq> INVALID_FRAME"
  shows "f \<in> R" "frames p' \<subseteq> R" "wf p'"
  using select_victim [OF assms(1,2,4,5)] select_frames [OF assms(1,2,4)] select_wf [OF assms(1,2,4)] assms(3)
  by auto

lemma load_in: "wf p \<Longrightarrow> frames p \<subseteq> R \<Longrightarrow> f \<in> R \<Longrightarrow> frames (load p f) \<subseteq> R \<and> wf (load p f)"
  using load_frames load_wf by auto

lemma access_in: "wf p \<Longrightarrow> frames p \<subseteq> R \<Longrightarrow> f \<in> R \<Longrightarrow> frames (access p f) \<subseteq> R \<and> wf (access p f)"
  using access_frames access_wf by blast

end

section \<open>Lemmas\<close>

subsection \<open>The clock scan\<close>

lemma ClockR_scan_victim:
  assumes "hand < length fs" "ClockR_scan fs bits hand = (p', f)"
  shows "f \<in> set fs \<and> set (ck_frames p') \<subseteq> set fs
    \<and> (if ck_frames p' = [] then ck_hand p' = 0 else ck_hand p' < length (ck_frames p'))
    \<and> mset (ck_frames p') + {#f#} = mset fs \<and> set fs - {f} \<subseteq> set (ck_frames p')"
  using assms
proof (induction fs bits hand rule: ClockR_scan.induct)
  case (1 fs bits hand)
  show ?case
  proof (cases "fs ! hand \<in> bits")
    case True
    have "Suc hand mod length fs < length fs"
      by (rule mod_less_divisor) (use "1.prems"(1) in auto)
    moreover have "ClockR_scan fs (bits - {fs ! hand}) ((hand + 1) mod length fs) = (p', f)"
      using "1.prems" True by (simp add: ClockR_scan.simps [of fs bits hand] Let_def)
    ultimately show ?thesis
      using "1.IH" "1.prems"(1) True by simp
  next
    case False
    let ?fs = "take hand fs @ drop (Suc hand) fs"
    have p: "f = fs ! hand" "ck_frames p' = ?fs" "ck_hand p' = (if ?fs \<noteq> [] then hand mod length ?fs else 0)"
      using "1.prems" False by (auto simp: ClockR_scan.simps [of fs bits hand] Let_def)
    have "mset fs = mset ?fs + {#fs ! hand#}"
      using id_take_nth_drop [OF "1.prems"(1)] by (metis add_mset_add_single mset.simps(2) mset_append union_mset_add_mset_right)
    moreover have "set ?fs \<subseteq> set fs"
      by (auto dest: in_set_takeD in_set_dropD)
    moreover have "set fs - {fs ! hand} \<subseteq> set ?fs"
    proof
      fix x
      assume x: "x \<in> set fs - {fs ! hand}"
      have "set fs = set (take hand fs @ fs ! hand # drop (Suc hand) fs)"
        using id_take_nth_drop [OF "1.prems"(1)] by simp
      then show "x \<in> set ?fs" using x by auto
    qed
    ultimately show ?thesis
      using p "1.prems"(1) by (auto simp del: append_eq_conv_conj)
  qed
qed

lemma ClockR_scan_skip:
  assumes "hand < length fs" "fs ! hand \<in> bits"
  shows "ClockR_scan fs bits hand = ClockR_scan fs (bits - {fs ! hand}) (Suc hand mod length fs)"
  using assms by (simp add: ClockR_scan.simps [of fs bits hand] Let_def)

subsection \<open>The optimal scan\<close>

lemma Optimal_scan_mem: "Optimal_scan p fs v d \<in> insert v (set fs)"
  by (induction p fs v d rule: Optimal_scan.induct) (auto split: option.splits)

lemma INVALID_victim:
  assumes "fs \<noteq> []" "INVALID_FRAME \<notin> set fs"
  shows "Optimal_scan p fs INVALID_FRAME d \<in> set fs"
proof (cases fs)
  case (Cons f fs')
  then show ?thesis
    using Optimal_scan_mem [of p fs' f] assms by (auto split: option.splits)
qed (use assms in simp)

lemma Optimal_scan_farthest:
  assumes "v \<noteq> INVALID_FRAME" "next_use p v = Some d" "INVALID_FRAME \<notin> set fs"
    "Optimal_scan p fs v d = w" "next_use p w = Some e"
  shows "d \<le> e \<and> (\<forall>f \<in> set fs. \<exists>k. next_use p f = Some k \<and> k \<le> e)"
  using assms
proof (induction p fs v d rule: Optimal_scan.induct)
  case (2 p f fs v d)
  then obtain k where k: "next_use p f = Some k"
    by (cases "next_use p f") auto
  show ?case
  proof (cases "d < k")
    case True
    then show ?thesis using 2 k by fastforce
  next
    case False
    then show ?thesis using 2 k by fastforce
  qed
qed auto

subsection \<open>The interface holds for the four policies\<close>

interpretation lru_order: strict_weak_order "\<lambda>a b. the (accessTime p a) < the (accessTime p b)" for p
  by (rule strict_weak_order_key)

lemma Lru_selectVictim_cases:
  assumes "iter_ok iter" "finite (dom (accessTime p))" "Lru_selectVictim iter p = (p', f)"
  shows "if accessTime p = Map.empty then f = INVALID_FRAME \<and> p' = p
    else f \<in> dom (accessTime p) \<and> accessTime p' = (accessTime p)(f := None) \<and> lru_clock p' = lru_clock p
      \<and> (\<forall>g \<in> dom (accessTime p). the (accessTime p f) \<le> the (accessTime p g))"
proof (cases "accessTime p = Map.empty")
  case True
  then show ?thesis
    using assms iter_ok_set [OF assms(1), of "{}"] by (auto simp: Lru_selectVictim_def)
next
  case False
  let ?lt = "\<lambda>a b. the (accessTime p a) < the (accessTime p b)"
  have it: "set (iter (dom (accessTime p))) = dom (accessTime p)"
    using iter_ok_set assms(1,2) by blast
  have "iter (dom (accessTime p)) \<noteq> []"
    using iter_ok_nonempty [OF assms(1,2)] False by auto
  then obtain m where m: "min_element ?lt (iter (dom (accessTime p))) = Some m"
    by (metis not_None_eq min_element_None)
  have "\<forall>g \<in> dom (accessTime p). \<not> ?lt g m"
    using lru_order.minimal [OF m] it by blast
  then show ?thesis
    using assms(3) m min_element_mem [OF m] it False by (auto simp: Lru_selectVictim_def not_less)
qed

lemma Optimal_selectVictim_cases:
  assumes "iter_ok iter" "finite (loadedFrames p)" "Optimal_selectVictim iter p = (p', f)"
  shows "f \<in> insert INVALID_FRAME (loadedFrames p) \<and> loadedFrames p' = loadedFrames p - {f}
    \<or> p' = p \<and> f = INVALID_FRAME"
    "loadedFrames p \<noteq> {} \<Longrightarrow> INVALID_FRAME \<notin> loadedFrames p \<Longrightarrow> f \<noteq> INVALID_FRAME"
proof -
  have it: "set (iter (loadedFrames p)) = loadedFrames p"
    using iter_ok_set assms(1,2) by blast
  have f: "f = Optimal_scan p (iter (loadedFrames p)) INVALID_FRAME 0" "loadedFrames p' = loadedFrames p - {f}"
    if "loadedFrames p \<noteq> {}"
    using assms(3) that by (auto simp: Optimal_selectVictim_def Let_def)
  show "f \<in> insert INVALID_FRAME (loadedFrames p) \<and> loadedFrames p' = loadedFrames p - {f}
    \<or> p' = p \<and> f = INVALID_FRAME"
  proof (cases "loadedFrames p = {}")
    case True
    then show ?thesis using assms(3) by (simp add: Optimal_selectVictim_def)
  next
    case False
    then show ?thesis
      using f Optimal_scan_mem [of p "iter (loadedFrames p)" INVALID_FRAME 0] unfolding it by metis
  qed
  assume ne: "loadedFrames p \<noteq> {}" "INVALID_FRAME \<notin> loadedFrames p"
  have "iter (loadedFrames p) \<noteq> []" using iter_ok_nonempty assms(1,2) ne(1) by blast
  then have "f \<in> loadedFrames p"
    using INVALID_victim [of "iter (loadedFrames p)" p 0] f(1) ne unfolding it by metis
  then show "f \<noteq> INVALID_FRAME" using ne(2) by blast
qed

lemma policy_ops_frames:
  "policy_frames (policy_onAccess p f) \<subseteq> insert f (policy_frames p)"
  "policy_frames p \<subseteq> policy_frames (policy_onAccess p f)"
  "policy_frames (policy_onLoad p f) = insert f (policy_frames p)"
  by (cases p; auto simp: Fifo_onAccess_def Fifo_onLoad_def Lru_onAccess_def Lru_onLoad_def
      ClockR_onAccess_def ClockR_onLoad_def Optimal_onAccess_def Optimal_onLoad_def)+

lemma policy_ops_wf:
  "policy_wf p \<Longrightarrow> policy_wf (policy_onAccess p f)"
  "policy_wf p \<Longrightarrow> policy_wf (policy_onLoad p f)"
  by (cases p; auto simp: Fifo_onAccess_def Fifo_onLoad_def Lru_onAccess_def Lru_onLoad_def
      ClockR_onAccess_def ClockR_onLoad_def Optimal_onAccess_def Optimal_onLoad_def split: if_splits)+

interpretation pr: page_replacement policy_selectVictim policy_onAccess policy_onLoad policy_frames policy_wf
proof
  fix iter :: "frame_id set \<Rightarrow> frame_id list" and p p' f
  assume it: "iter_ok iter" and wf: "policy_wf p" and sel: "policy_selectVictim iter p = (p', f)"
  have all: "(f \<noteq> INVALID_FRAME \<longrightarrow> f \<in> policy_frames p) \<and> policy_frames p' \<subseteq> policy_frames p \<and> policy_wf p'
    \<and> policy_frames p - {f} \<subseteq> policy_frames p'
    \<and> (policy_frames p \<noteq> {} \<longrightarrow> INVALID_FRAME \<notin> policy_frames p \<longrightarrow> f \<noteq> INVALID_FRAME)"
  proof (cases p)
    case (FifoReplacement q)
    then show ?thesis using sel by (auto simp: Fifo_selectVictim_def split: list.splits)
  next
    case (LruReplacement q)
    then obtain q' where q: "p' = LruReplacement q'" "Lru_selectVictim iter q = (q', f)"
      using sel by (cases "Lru_selectVictim iter q") auto
    then show ?thesis
      using Lru_selectVictim_cases [OF it _ q(2)] wf LruReplacement
      by (auto split: if_splits)
  next
    case (ClockReplacement q)
    then obtain q' where q: "p' = ClockReplacement q'" "ClockR_selectVictim q = (q', f)"
      using sel by (cases "ClockR_selectVictim q") auto
    show ?thesis
    proof (cases "ck_frames q = []")
      case True
      then show ?thesis using q wf ClockReplacement by (auto simp: ClockR_selectVictim_def)
    next
      case False
      then have "ClockR_scan (ck_frames q) (ck_refBits q) (ck_hand q) = (q', f)" "ck_hand q < length (ck_frames q)"
        using q(2) wf ClockReplacement by (auto simp: ClockR_selectVictim_def)
      then show ?thesis
        using ClockR_scan_victim q(1) ClockReplacement by auto
    qed
  next
    case (OptimalReplacement q)
    then obtain q' where q: "p' = OptimalReplacement q'" "Optimal_selectVictim iter q = (q', f)"
      using sel by (cases "Optimal_selectVictim iter q") auto
    then show ?thesis
      using Optimal_selectVictim_cases [OF it _ q(2)] wf OptimalReplacement by auto
  qed
  then show "f \<noteq> INVALID_FRAME \<Longrightarrow> f \<in> policy_frames p" "policy_frames p' \<subseteq> policy_frames p" "policy_wf p'"
    "policy_frames p - {f} \<subseteq> policy_frames p'"
    "policy_frames p \<noteq> {} \<Longrightarrow> INVALID_FRAME \<notin> policy_frames p \<Longrightarrow> f \<noteq> INVALID_FRAME"
    by auto
qed (use policy_ops_frames policy_ops_wf in blast)+

section \<open>Least recently used\<close>

text \<open>
  What a sequence of calls makes a policy do: the victims it names. The reference behaviour of LRU
  keeps the frames in order of their last use.
\<close>

datatype repl_event = Loaded frame_id | Accessed frame_id | Evict

fun lru_trace :: "(frame_id set \<Rightarrow> frame_id list) \<Rightarrow> lru \<Rightarrow> repl_event list \<Rightarrow> frame_id list" where
  "lru_trace iter p [] = []"
| "lru_trace iter p (Loaded f # es) = lru_trace iter (Lru_onLoad p f) es"
| "lru_trace iter p (Accessed f # es) = lru_trace iter (Lru_onAccess p f) es"
| "lru_trace iter p (Evict # es) =
     (let (p', f) = Lru_selectVictim iter p in f # lru_trace iter p' es)"

fun recency_trace :: "frame_id list \<Rightarrow> repl_event list \<Rightarrow> frame_id list" where
  "recency_trace q [] = []"
| "recency_trace q (Loaded f # es) = recency_trace (filter (\<lambda>g. g \<noteq> f) q @ [f]) es"
| "recency_trace q (Accessed f # es) = recency_trace (filter (\<lambda>g. g \<noteq> f) q @ [f]) es"
| "recency_trace q (Evict # es) =
     (case q of [] \<Rightarrow> INVALID_FRAME # recency_trace [] es | f # q' \<Rightarrow> f # recency_trace q' es)"

text \<open>The list of frames by last use that an LRU state stands for.\<close>

definition lru_rel :: "lru \<Rightarrow> frame_id list \<Rightarrow> bool" where
  "lru_rel p q \<longleftrightarrow> set q = dom (accessTime p) \<and> distinct q
     \<and> sorted_wrt (\<lambda>f g. the (accessTime p f) < the (accessTime p g)) q
     \<and> (\<forall>f \<in> set q. the (accessTime p f) \<le> lru_clock p)"

lemma lru_rel_touch:
  assumes "lru_rel p q" "unat (lru_clock p) < 2 ^ 64 - 1"
  shows "lru_rel (p\<lparr>lru_clock := lru_clock p + 1, accessTime := (accessTime p)(f \<mapsto> lru_clock p + 1)\<rparr>)
    (filter (\<lambda>g. g \<noteq> f) q @ [f])" "unat (lru_clock p + 1) = Suc (unat (lru_clock p))"
proof -
  show "unat (lru_clock p + 1) = Suc (unat (lru_clock p))"
    using assms(2) by (simp add: unat_word_ariths)
  then have lt: "lru_clock p < lru_clock p + 1"
    by (simp add: word_less_nat_alt)
  have "sorted_wrt (\<lambda>g h. the (((accessTime p)(f \<mapsto> lru_clock p + 1)) g) < the (((accessTime p)(f \<mapsto> lru_clock p + 1)) h))
      (filter (\<lambda>g. g \<noteq> f) q)"
    by (rule sorted_wrt_mono_rel [rotated, OF sorted_wrt_filter])
      (use assms(1) in \<open>auto simp: lru_rel_def\<close>)
  then show "lru_rel (p\<lparr>lru_clock := lru_clock p + 1, accessTime := (accessTime p)(f \<mapsto> lru_clock p + 1)\<rparr>)
    (filter (\<lambda>g. g \<noteq> f) q @ [f])"
    using assms(1) lt unfolding lru_rel_def by (auto simp: sorted_wrt_append intro: order.strict_trans1 less_imp_le)
qed

lemma lru_rel_select:
  assumes "iter_ok iter" "lru_rel p q" "Lru_selectVictim iter p = (p', f)"
  shows "(case q of [] \<Rightarrow> f = INVALID_FRAME \<and> lru_rel p' [] | g # q' \<Rightarrow> f = g \<and> lru_rel p' q')
    \<and> lru_clock p' = lru_clock p"
proof -
  have fin: "finite (dom (accessTime p))"
    using assms(2) unfolding lru_rel_def by (metis List.finite_set)
  note c = Lru_selectVictim_cases [OF assms(1) fin assms(3)]
  show ?thesis
  proof (cases q)
    case Nil
    then have "accessTime p = Map.empty" using assms(2) by (auto simp: lru_rel_def)
    then show ?thesis using c Nil by (auto simp: lru_rel_def)
  next
    case (Cons g q')
    then have "accessTime p \<noteq> Map.empty" and g: "g \<in> dom (accessTime p)"
      using assms(2) by (auto simp: lru_rel_def)
    then have f: "f \<in> set q" "accessTime p' = (accessTime p)(f := None)" "lru_clock p' = lru_clock p"
      "the (accessTime p f) \<le> the (accessTime p g)"
      using c assms(2) by (auto simp: lru_rel_def)
    then have fg: "f = g"
      using assms(2) Cons unfolding lru_rel_def by (auto simp: not_less [symmetric])
    have "sorted_wrt (\<lambda>a b. the (accessTime p' a) < the (accessTime p' b)) q'"
      using assms(2) Cons f(2) fg unfolding lru_rel_def
      by (auto intro!: sorted_wrt_mono_rel [of q' "\<lambda>a b. the (accessTime p a) < the (accessTime p b)"])
    then have "lru_rel p' q'"
      using assms(2) Cons f fg unfolding lru_rel_def by auto
    then show ?thesis using Cons fg f(3) by simp
  qed
qed

lemma lru_trace_rel:
  assumes "iter_ok iter" "lru_rel p q" "unat (lru_clock p) + length es < 2 ^ 64"
  shows "lru_trace iter p es = recency_trace q es"
  using assms(2,3)
proof (induction es arbitrary: p q)
  case (Cons e es)
  show ?case
  proof (cases e)
    case Evict
    obtain p' f where s: "Lru_selectVictim iter p = (p', f)" by fastforce
    show ?thesis
      using lru_rel_select [OF assms(1) Cons.prems(1) s] Cons.IH [of p'] Cons.prems(2) s Evict
      by (cases q) auto
  qed (use Cons lru_rel_touch [OF Cons.prems(1)] in \<open>auto simp: Lru_onLoad_def Lru_onAccess_def\<close>)
qed simp

section \<open>Properties\<close>

text \<open>
  C30: LRU evicts the least recently used frame. For every sequence of loads, accesses and evictions
  (fewer than 2^64 of them, so that the access counter does not wrap), and for every iteration order
  of the hash map, the victims \<^verbatim>\<open>LruReplacement\<close> names are those of the list of frames kept in order of
  last use.
\<close>

theorem lru_refines_recency:
  assumes "iter_ok iter" "length es < 2 ^ 64"
  shows "lru_trace iter Lru_new es = recency_trace [] es"
  by (rule lru_trace_rel) (use assms in \<open>auto simp: lru_rel_def Lru_new_def\<close>)

theorem lru_refines_recency_witness:
  "lru_trace sorted_list_of_set Lru_new [Loaded 4, Loaded 2, Loaded 9, Accessed 4, Evict, Accessed 9, Evict, Evict]
    = [2, 4, 9]"
  using lru_refines_recency [OF iter_ok_sorted, of "[Loaded 4, Loaded 2, Loaded 9, Accessed 4, Evict, Accessed 9, Evict, Evict]"]
  by simp

text \<open>
  Belady's rule. When the accesses seen so far are within the recorded trace and the frame
  number \<^verbatim>\<open>INVALID_FRAME\<close> is not loaded, the victim of \<^verbatim>\<open>OptimalReplacement\<close> is a loaded frame that is
  either never accessed again or whose next access is at least as far away as that of every other
  loaded frame; it is the only frame removed.
\<close>

theorem optimal_is_belady:
  assumes "iter_ok iter" "finite (loadedFrames p)" "loadedFrames p \<noteq> {}" "INVALID_FRAME \<notin> loadedFrames p"
    "opt_currentIndex p \<le> length (futureAccesses p)"
    "Optimal_selectVictim iter p = (p', v)"
  shows "v \<in> loadedFrames p \<and> loadedFrames p' = loadedFrames p - {v}
    \<and> (\<forall>d. find_index v (drop (opt_currentIndex p) (futureAccesses p)) = Some d \<longrightarrow>
        (\<forall>f \<in> loadedFrames p. \<exists>k \<le> d. find_index f (drop (opt_currentIndex p) (futureAccesses p)) = Some k))"
proof -
  have it: "set (iter (loadedFrames p)) = loadedFrames p"
    using iter_ok_set assms(1,2) by blast
  have nu: "find_index f (drop (opt_currentIndex p) (futureAccesses p)) = next_use p f" for f
    using assms(5) by (simp add: next_use_def)
  obtain f fs where c: "iter (loadedFrames p) = f # fs"
    using iter_ok_nonempty [OF assms(1-3)] by (cases "iter (loadedFrames p)") auto
  have v: "v = Optimal_scan p (f # fs) INVALID_FRAME 0" "loadedFrames p' = loadedFrames p - {v}"
    using assms(3,6) c by (auto simp: Optimal_selectVictim_def Let_def)
  have "v \<in> loadedFrames p"
    using INVALID_victim [of "f # fs" p 0] assms(4) it c v(1) by auto
  moreover have "\<forall>f \<in> loadedFrames p. \<exists>k \<le> d. next_use p f = Some k" if nd: "next_use p v = Some d" for d
  proof -
    obtain k where k: "next_use p f = Some k"
      using nd v(1) by (cases "next_use p f") simp_all
    then have "Optimal_scan p fs f k = v" using v(1) by simp
    then show ?thesis
      using Optimal_scan_farthest [of f p k fs v d] nd k assms(4) it c by force
  qed
  ultimately show ?thesis using v(2) nu by auto
qed

theorem optimal_is_belady_witness:
  "Optimal_selectVictim sorted_list_of_set
     ((fold (\<lambda>f p. Optimal_onLoad p f) [1, 2, 3] (Optimal_new [7, 2, 1, 3, 1]))\<lparr>opt_currentIndex := 1\<rparr>)
   = (\<lparr>futureAccesses = [7, 2, 1, 3, 1], opt_currentIndex = 1, loadedFrames = {1, 2}\<rparr>, 3)
   \<and> (\<exists>k \<le> 2. find_index 1 [2, 1, 3, 1] = Some k)"
proof -
  let ?p = "(fold (\<lambda>f p. Optimal_onLoad p f) [1, 2, 3] (Optimal_new [7, 2, 1, 3, 1]))\<lparr>opt_currentIndex := 1\<rparr>"
  have p: "?p = \<lparr>futureAccesses = [7, 2, 1, 3, 1], opt_currentIndex = 1, loadedFrames = {1, 2, 3}\<rparr>"
    by (auto simp: Optimal_onLoad_def Optimal_new_def)
  have s: "Optimal_selectVictim sorted_list_of_set ?p
      = (\<lparr>futureAccesses = [7, 2, 1, 3, 1], opt_currentIndex = 1, loadedFrames = {1, 2}\<rparr>, 3)"
    unfolding p by (auto simp: Optimal_selectVictim_def next_use_def INVALID_FRAME_def Let_def)
  then show ?thesis
    using optimal_is_belady [OF iter_ok_sorted _ _ _ _ s] by (simp add: p INVALID_FRAME_def)
qed

text \<open>The scan passes over a run of referenced frames, clearing their bits.\<close>

lemma ClockR_scan_run:
  assumes "hand < length fs" "distinct fs" "k \<le> length fs"
    "\<forall>j < k. rotate hand fs ! j \<in> bits"
  shows "ClockR_scan fs bits hand
    = ClockR_scan fs (bits - set (take k (rotate hand fs))) ((hand + k) mod length fs)"
  using assms(3,4)
proof (induction k)
  case 0
  then show ?case using assms(1) by simp
next
  case (Suc k)
  let ?h = "(hand + k) mod length fs" and ?r = "rotate hand fs"
  have h: "?h < length fs" by (rule mod_less_divisor) (use assms(1) in auto)
  have r: "fs ! ?h = ?r ! k" using Suc.prems(1) by (simp add: nth_rotate)
  have notin: "?r ! k \<notin> set (take k ?r)"
    using distinct_take [of ?r "Suc k"] assms(2) Suc.prems(1) by (simp add: take_Suc_conv_app_nth)
  have t: "set (take (Suc k) ?r) = insert (?r ! k) (set (take k ?r))"
    using Suc.prems(1) by (simp add: take_Suc_conv_app_nth)
  have "ClockR_scan fs bits hand = ClockR_scan fs (bits - set (take k ?r)) ?h"
    using Suc by simp
  also have "\<dots> = ClockR_scan fs (bits - set (take k ?r) - {?r ! k}) (Suc ?h mod length fs)"
    by (subst ClockR_scan_skip [OF h]) (use r notin Suc.prems(2) in simp_all)
  also have "\<dots> = ClockR_scan fs (bits - set (take (Suc k) ?r)) ((hand + Suc k) mod length fs)"
    unfolding t by (simp only: Diff_insert [symmetric] mod_Suc_eq add_Suc_right)
  finally show ?case .
qed

text \<open>
  Second chance. With the hand at a frame of the buffer, \<^verbatim>\<open>ClockReplacement\<close> evicts the first frame
  in clock order from the hand whose reference bit is clear, and exactly the frames it passed lose
  their bits; when every frame is referenced it clears them all and evicts the frame under the hand.
  In particular the \<^verbatim>\<open>while (true)\<close> scan ends. The victim alone leaves the buffer.
\<close>

theorem clock_second_chance:
  assumes "ck_frames p \<noteq> []" "distinct (ck_frames p)" "ck_hand p < length (ck_frames p)"
    "order = rotate (ck_hand p) (ck_frames p)"
    "ClockR_selectVictim p = (p', v)"
  shows "v = (case dropWhile (\<lambda>f. f \<in> ck_refBits p) order of [] \<Rightarrow> ck_frames p ! ck_hand p | f # _ \<Rightarrow> f)
    \<and> ck_refBits p' = ck_refBits p - set (takeWhile (\<lambda>f. f \<in> ck_refBits p) order)
    \<and> mset (ck_frames p') + {#v#} = mset (ck_frames p)"
proof -
  let ?fs = "ck_frames p" and ?bits = "ck_refBits p" and ?h = "ck_hand p"
  let ?tw = "takeWhile (\<lambda>f. f \<in> ?bits) order"
  let ?k = "length ?tw"
  have sc: "ClockR_scan ?fs ?bits ?h = (p', v)"
    using assms by (simp add: ClockR_selectVictim_def)
  have len: "length order = length ?fs" using assms(4) by simp
  have k: "?k \<le> length ?fs" using length_takeWhile_le [of _ order] len by simp
  have tk: "take ?k order = ?tw" by (rule takeWhile_eq_take [symmetric])
  have "\<forall>j < ?k. order ! j \<in> ?bits"
    by (metis nth_mem set_takeWhileD takeWhile_nth)
  then have run: "ClockR_scan ?fs ?bits ?h = ClockR_scan ?fs (?bits - set ?tw) ((?h + ?k) mod length ?fs)"
    using ClockR_scan_run [OF assms(3,2) k, of ?bits] tk assms(4) by simp
  let ?h' = "(?h + ?k) mod length ?fs"
  have h': "?h' < length ?fs" using assms(1) by simp
  have "?fs ! ?h' = (case dropWhile (\<lambda>f. f \<in> ?bits) order of [] \<Rightarrow> ?fs ! ?h | f # _ \<Rightarrow> f)
    \<and> ?fs ! ?h' \<notin> ?bits - set ?tw"
  proof (cases "?k < length ?fs")
    case True
    have "?fs ! ?h' = order ! ?k" using True assms(4) by (simp add: nth_rotate)
    moreover have "order ! ?k \<notin> ?bits" using nth_length_takeWhile True len by metis
    moreover have "dropWhile (\<lambda>f. f \<in> ?bits) order = order ! ?k # drop (Suc ?k) order"
      using True len by (simp add: dropWhile_eq_drop Cons_nth_drop_Suc)
    ultimately show ?thesis by simp
  next
    case False
    then have kl: "?k = length ?fs" using k by simp
    then have tw: "?tw = order" using tk len by simp
    then have dw: "dropWhile (\<lambda>f. f \<in> ?bits) order = []"
      by (metis append_self_conv takeWhile_dropWhile_id)
    have hh: "?h' = ?h" using kl assms(3) by simp
    have "?fs ! ?h \<in> set ?tw" unfolding tw using assms(3,4) by simp
    then show ?thesis unfolding hh dw by simp
  qed
  moreover from this have "v = ?fs ! ?h'" "ck_refBits p' = ?bits - set ?tw"
    using sc unfolding run by (auto simp: ClockR_scan.simps [of ?fs _ ?h'] Let_def h')
  ultimately show ?thesis
    using ClockR_scan_victim [OF assms(3) sc] by metis
qed

theorem clock_second_chance_witness:
  "snd (ClockR_selectVictim \<lparr>ck_frames = [5, 6, 7], ck_refBits = {7, 5}, ck_hand = 2\<rparr>) = 6
   \<and> ck_refBits (fst (ClockR_selectVictim \<lparr>ck_frames = [5, 6, 7], ck_refBits = {7, 5}, ck_hand = 2\<rparr>)) = {}"
proof -
  let ?p = "\<lparr>ck_frames = [5, 6, 7], ck_refBits = {7, 5}, ck_hand = 2\<rparr>"
  obtain p' v where s: "ClockR_selectVictim ?p = (p', v)" by fastforce
  have r: "rotate 2 [5, 6, 7] = [7, 5, 6 :: frame_id]" by (simp add: eval_nat_numeral)
  have "v = 6 \<and> ck_refBits p' = {7, 5} - {7, 5}"
    using clock_second_chance [OF _ _ _ _ s, of "[7, 5, 6]"] by (simp add: r)
  then show ?thesis using s by simp
qed

end
