(* ===== verification/Mmu.thy ===== *)
theory Mmu
  imports Physical_Memory Page_Table Page_Replacement
begin

text \<open>
  The memory management unit: \<^verbatim>\<open>memory/mmu.cpp\<close>. One virtual page is one memory cell, so a virtual
  address is a page number. Every operation holds the unit's mutex for its whole body and is one
  step. The referenced memory is an argument, returned when an operation writes it; trace calls
  are left out. The choice of a free frame (\<^verbatim>\<open>freeFrames.begin()\<close>) and the order in which a policy
  visits its hash containers is the argument \<open>iter\<close>.

  The proofs go through an abstract view of the unit: the set of free frames, the owner of each
  frame, the translation of all processes as one partial map, and the swap space. The section on
  that view states what one allocation, eviction, release and deallocation do to it.
\<close>

section \<open>State and operations\<close>

record mmu =
  replacementPolicy :: replacement_policy
  pageTables :: "process_id \<rightharpoonup> page_table"
  freeFrames :: "frame_id set"
  frameOwners :: "frame_id \<rightharpoonup> process_id"
  swapSpace :: "process_id \<times> nat \<rightharpoonup> block"
  totalFrameCount :: nat

definition Mmu_new :: "physical_memory \<Rightarrow> replacement_policy \<Rightarrow> mmu" where
  "Mmu_new mem policy =
     \<lparr>replacementPolicy = policy, pageTables = Map.empty,
      freeFrames = word_of_nat ` {..<PhysicalMemory_size mem}, frameOwners = Map.empty,
      swapSpace = Map.empty, totalFrameCount = PhysicalMemory_size mem\<rparr>"

definition Mmu_allocateFrame ::
  "(frame_id set \<Rightarrow> frame_id list) \<Rightarrow> mmu \<Rightarrow> process_id \<Rightarrow> mmu \<times> frame_id" where
  "Mmu_allocateFrame iter st pid =
     (if freeFrames st = {} then (st, INVALID_FRAME)
      else let frame = hd (iter (freeFrames st)) in
        (st\<lparr>freeFrames := freeFrames st - {frame}, frameOwners := (frameOwners st)(frame \<mapsto> pid)\<rparr>, frame))"

definition Mmu_freeFrame :: "mmu \<Rightarrow> frame_id \<Rightarrow> mmu" where
  "Mmu_freeFrame st frame =
     st\<lparr>frameOwners := (frameOwners st)(frame := None), freeFrames := insert frame (freeFrames st)\<rparr>"

definition Mmu_read ::
  "mmu \<Rightarrow> physical_memory \<Rightarrow> process_id \<Rightarrow> memory_address \<Rightarrow> mmu \<times> block result" where
  "Mmu_read st mem pid va =
     (case pageTables st pid of
        None \<Rightarrow> (st, Error InvalidPid)
      | Some pt \<Rightarrow>
          (case PageTable_translate pt (unat va) of
             Error e \<Rightarrow> (st, Error e)
           | Ok frame \<Rightarrow>
               (st\<lparr>pageTables := (pageTables st)(pid \<mapsto> fst (PageTable_setReferenced pt (unat va) True)),
                   replacementPolicy := policy_onAccess (replacementPolicy st) frame\<rparr>,
                PhysicalMemory_read mem frame)))"

definition Mmu_write ::
  "mmu \<Rightarrow> physical_memory \<Rightarrow> process_id \<Rightarrow> memory_address \<Rightarrow> block \<Rightarrow> (mmu \<times> physical_memory) \<times> unit result" where
  "Mmu_write st mem pid va b =
     (case pageTables st pid of
        None \<Rightarrow> ((st, mem), Error InvalidPid)
      | Some pt \<Rightarrow>
          (case PageTable_translate pt (unat va) of
             Error e \<Rightarrow> ((st, mem), Error e)
           | Ok frame \<Rightarrow>
               (let pt1 = fst (PageTable_setReferenced pt (unat va) True);
                    pt2 = fst (PageTable_setDirty pt1 (unat va) True);
                    (mem', r) = PhysicalMemory_write mem frame b
                in ((st\<lparr>pageTables := (pageTables st)(pid \<mapsto> pt2),
                        replacementPolicy := policy_onAccess (replacementPolicy st) frame\<rparr>, mem'), r))))"

text \<open>The page of an owner's table that maps a frame: the first one the scan finds.\<close>

definition mapped_page :: "page_table \<Rightarrow> frame_id \<Rightarrow> nat option" where
  "mapped_page pt frame =
     List.find (\<lambda>vp. case PageTable_getEntry pt vp of
        Ok en \<Rightarrow> present en \<and> frameId en = frame | Error _ \<Rightarrow> False) [0..<PageTable_pageCount pt]"

text \<open>
  The eviction of a victim, the same code in \<^verbatim>\<open>allocate\<close> and \<^verbatim>\<open>swapIn\<close>: the page of the previous owner
  goes to swap space and the frame gets its new owner. \<^verbatim>\<open>pageTables.at\<close> throws when the owner
  has no table.
\<close>

definition Mmu_evict :: "mmu \<Rightarrow> physical_memory \<Rightarrow> frame_id \<Rightarrow> process_id \<Rightarrow> mmu" where
  "Mmu_evict st mem frame pid =
     (let st1 =
        (case frameOwners st frame of
           None \<Rightarrow> st
         | Some owner \<Rightarrow>
             (case PhysicalMemory_read mem frame of
                Error _ \<Rightarrow> st
              | Ok b \<Rightarrow>
                  (case pageTables st owner of
                     None \<Rightarrow> undefined
                   | Some ot \<Rightarrow>
                       (case mapped_page ot frame of
                          None \<Rightarrow> st
                        | Some vp \<Rightarrow>
                            st\<lparr>swapSpace := (swapSpace st)((owner, vp) \<mapsto> b),
                               pageTables := (pageTables st)(owner \<mapsto> fst (PageTable_unmap ot vp))\<rparr>))))
      in st1\<lparr>frameOwners := (frameOwners st1)(frame \<mapsto> pid)\<rparr>)"

text \<open>\<^verbatim>\<open>map\<close> of a page of the process's table and \<^verbatim>\<open>onLoad\<close> of the frame.\<close>

definition Mmu_install :: "mmu \<Rightarrow> process_id \<Rightarrow> nat \<Rightarrow> frame_id \<Rightarrow> mmu" where
  "Mmu_install st pid page frame =
     st\<lparr>pageTables := (pageTables st)(pid \<mapsto> fst (PageTable_map (the (pageTables st pid)) page frame)),
        replacementPolicy := policy_onLoad (replacementPolicy st) frame\<rparr>"

text \<open>The loop that frees the resident frames of the first pages of a table.\<close>

definition Mmu_freePages :: "page_table \<Rightarrow> nat \<Rightarrow> mmu \<Rightarrow> mmu" where
  "Mmu_freePages pt n st =
     fold (\<lambda>page st. case PageTable_getEntry pt page of
         Ok en \<Rightarrow> if present en then Mmu_freeFrame st (frameId en) else st | Error _ \<Rightarrow> st) [0..<n] st"

text \<open>The loop over the pages of a new process; \<open>iter page\<close> is the order met in that round.\<close>

fun Mmu_allocate_loop ::
  "(nat \<Rightarrow> frame_id set \<Rightarrow> frame_id list) \<Rightarrow> physical_memory \<Rightarrow> process_id \<Rightarrow> nat list \<Rightarrow> mmu
    \<Rightarrow> mmu \<times> memory_address result" where
  "Mmu_allocate_loop iter mem pid [] st = (st, Ok 0)"
| "Mmu_allocate_loop iter mem pid (page # pages) st =
     (let (st1, frame) = Mmu_allocateFrame (iter page) st pid in
      if frame \<noteq> INVALID_FRAME
      then Mmu_allocate_loop iter mem pid pages (Mmu_install st1 pid page frame)
      else
        let (policy, victim) = policy_selectVictim (iter page) (replacementPolicy st1);
            st2 = st1\<lparr>replacementPolicy := policy\<rparr>;
            self = (victim \<noteq> INVALID_FRAME \<and> frameOwners st2 victim = Some pid);
            st3 = (if self then st2\<lparr>replacementPolicy := policy_onLoad policy victim\<rparr> else st2)
        in if self \<or> victim = INVALID_FRAME
           then (let st4 = Mmu_freePages (the (pageTables st3 pid)) page st3
                 in (st4\<lparr>pageTables := (pageTables st4)(pid := None)\<rparr>, Error OutOfMemory))
           else Mmu_allocate_loop iter mem pid pages
                  (Mmu_install (Mmu_evict st3 mem victim pid) pid page victim))"

definition Mmu_allocate ::
  "(nat \<Rightarrow> frame_id set \<Rightarrow> frame_id list) \<Rightarrow> mmu \<Rightarrow> physical_memory \<Rightarrow> process_id \<Rightarrow> nat
    \<Rightarrow> mmu \<times> memory_address result" where
  "Mmu_allocate iter st mem pid pageCount =
     (if pageCount = 0 then (st, Error InvalidAddress)
      else if pageTables st pid \<noteq> None then (st, Error InvalidPid)
      else Mmu_allocate_loop iter mem pid [0..<pageCount]
             (st\<lparr>pageTables := (pageTables st)(pid \<mapsto> PageTable_new pageCount)\<rparr>))"

definition Mmu_deallocate :: "mmu \<Rightarrow> process_id \<Rightarrow> mmu \<times> unit result" where
  "Mmu_deallocate st pid =
     (case pageTables st pid of
        None \<Rightarrow> (st, Error InvalidPid)
      | Some pt \<Rightarrow>
          (let st1 = Mmu_freePages pt (PageTable_pageCount pt) st
           in (st1\<lparr>swapSpace := (\<lambda>(p, v). if p = pid then None else swapSpace st1 (p, v)),
                   pageTables := (pageTables st1)(pid := None)\<rparr>, Ok ())))"

definition Mmu_restore :: "mmu \<Rightarrow> physical_memory \<Rightarrow> process_id \<Rightarrow> nat \<Rightarrow> frame_id \<Rightarrow> mmu \<times> physical_memory" where
  "Mmu_restore st mem pid page frame =
     (case swapSpace st (pid, page) of
        None \<Rightarrow> (st, mem)
      | Some b \<Rightarrow> (st\<lparr>swapSpace := (swapSpace st)((pid, page) := None)\<rparr>,
                   fst (PhysicalMemory_write mem frame b)))"

definition Mmu_swapIn ::
  "(frame_id set \<Rightarrow> frame_id list) \<Rightarrow> mmu \<Rightarrow> physical_memory \<Rightarrow> process_id \<Rightarrow> memory_address
    \<Rightarrow> (mmu \<times> physical_memory) \<times> unit result" where
  "Mmu_swapIn iter st mem pid va =
     (case pageTables st pid of
        None \<Rightarrow> ((st, mem), Error InvalidPid)
      | Some pt \<Rightarrow>
          (case PageTable_getEntry pt (unat va) of
             Error e \<Rightarrow> ((st, mem), Error e)
           | Ok en \<Rightarrow>
               if present en then ((st, mem), Ok ())
               else
                 let (st1, frame) = Mmu_allocateFrame iter st pid in
                 if frame \<noteq> INVALID_FRAME
                 then (let (st2, mem') = Mmu_restore st1 mem pid (unat va) frame
                       in ((Mmu_install st2 pid (unat va) frame, mem'), Ok ()))
                 else
                   let (policy, victim) = policy_selectVictim iter (replacementPolicy st1);
                       st2 = st1\<lparr>replacementPolicy := policy\<rparr>
                   in if victim = INVALID_FRAME then ((st2, mem), Error OutOfMemory)
                      else
                        let (st3, mem') = Mmu_restore (Mmu_evict st2 mem victim pid) mem pid (unat va) victim
                        in ((Mmu_install st3 pid (unat va) victim, mem'), Ok ())))"

definition Mmu_swapOut ::
  "mmu \<Rightarrow> physical_memory \<Rightarrow> process_id \<Rightarrow> memory_address \<Rightarrow> mmu \<times> unit result" where
  "Mmu_swapOut st mem pid va =
     (case pageTables st pid of
        None \<Rightarrow> (st, Error InvalidPid)
      | Some pt \<Rightarrow>
          (case PageTable_getEntry pt (unat va) of
             Error e \<Rightarrow> (st, Error e)
           | Ok en \<Rightarrow>
               if \<not> present en then (st, Ok ())
               else
                 let st1 = (case PhysicalMemory_read mem (frameId en) of
                              Error _ \<Rightarrow> st
                            | Ok b \<Rightarrow> st\<lparr>swapSpace := (swapSpace st)((pid, unat va) \<mapsto> b)\<rparr>);
                     st2 = st1\<lparr>pageTables := (pageTables st1)(pid \<mapsto> fst (PageTable_unmap pt (unat va)))\<rparr>
                 in (Mmu_freeFrame st2 (frameId en), Ok ())))"

definition Mmu_totalFrames :: "mmu \<Rightarrow> nat" where
  "Mmu_totalFrames st = totalFrameCount st"

definition Mmu_freeFrames :: "mmu \<Rightarrow> nat" where
  "Mmu_freeFrames st = card (freeFrames st)"

section \<open>The abstract view\<close>

text \<open>All page tables as one translation, and the pages that exist.\<close>

definition vmap :: "mmu \<Rightarrow> process_id \<times> nat \<Rightarrow> frame_id option" where
  "vmap st = (\<lambda>(p, v). case pageTables st p of None \<Rightarrow> None | Some pt \<Rightarrow> pt_map pt v)"

definition pages :: "mmu \<Rightarrow> (process_id \<times> nat) set" where
  "pages st = {(p, v). \<exists>pt. pageTables st p = Some pt \<and> v < length pt}"

text \<open>
  The bookkeeping of the unit, for the set \<open>back\<close> of pages that must hold data: every frame is either
  free or owned; a resident page is owned by its process; no frame is mapped twice; every owned
  frame is mapped by its owner; and a page that must hold data is in memory or in swap space, never
  both.
\<close>

definition frames_ok ::
  "frame_id set \<Rightarrow> frame_id set \<Rightarrow> (frame_id \<rightharpoonup> process_id) \<Rightarrow> (process_id \<times> nat \<rightharpoonup> frame_id)
    \<Rightarrow> (process_id \<times> nat \<rightharpoonup> block) \<Rightarrow> (process_id \<times> nat) set \<Rightarrow> bool" where
  "frames_ok frames free owner vm swap backed \<longleftrightarrow>
     free \<union> dom owner = frames \<and> free \<inter> dom owner = {}
     \<and> (\<forall>pv f. vm pv = Some f \<longrightarrow> owner f = Some (fst pv))
     \<and> (\<forall>pv qv f. vm pv = Some f \<longrightarrow> vm qv = Some f \<longrightarrow> pv = qv)
     \<and> (\<forall>f p. owner f = Some p \<longrightarrow> (\<exists>v. vm (p, v) = Some f))
     \<and> dom vm \<subseteq> backed \<and> dom swap = backed - dom vm"

definition all_frames :: "nat \<Rightarrow> frame_id set" where
  "all_frames n = word_of_nat ` {..<n}"

definition mmu_view_ok :: "nat \<Rightarrow> mmu \<Rightarrow> (process_id \<times> nat) set \<Rightarrow> bool" where
  "mmu_view_ok n st backed \<longleftrightarrow>
     frames_ok (all_frames n) (freeFrames st) (frameOwners st) (vmap st) (swapSpace st) backed
     \<and> policy_wf (replacementPolicy st) \<and> policy_frames (replacementPolicy st) \<subseteq> all_frames n
     \<and> dom (frameOwners st) \<subseteq> policy_frames (replacementPolicy st)
     \<and> totalFrameCount st = n"

text \<open>The invariant of the unit between operations; the memory keeps its size.\<close>

definition mmu_inv :: "physical_memory \<Rightarrow> mmu \<Rightarrow> bool" where
  "mmu_inv mem st \<longleftrightarrow> PhysicalMemory_size mem < 2 ^ 32
     \<and> mmu_view_ok (PhysicalMemory_size mem) st (pages st)"

text \<open>What a virtual address holds, wherever it is kept.\<close>

definition content :: "physical_memory \<Rightarrow> mmu \<Rightarrow> process_id \<times> nat \<Rightarrow> block option" where
  "content mem st pv =
     (case vmap st pv of
        Some f \<Rightarrow> (case PhysicalMemory_read mem f of Ok b \<Rightarrow> Some b | Error _ \<Rightarrow> None)
      | None \<Rightarrow> swapSpace st pv)"

section \<open>Lemmas on the abstract view\<close>

lemma frames_okD:
  assumes "frames_ok F free ow vm sw B"
  shows "free \<union> dom ow = F" "free \<inter> dom ow = {}" "\<And>pv f. vm pv = Some f \<Longrightarrow> ow f = Some (fst pv)"
    "\<And>pv qv f. vm pv = Some f \<Longrightarrow> vm qv = Some f \<Longrightarrow> pv = qv"
    "\<And>f p. ow f = Some p \<Longrightarrow> \<exists>v. vm (p, v) = Some f"
    "dom vm \<subseteq> B" "dom sw = B - dom vm"
  using assms unfolding frames_ok_def by blast+

lemma dom_drop: "dom (\<lambda>pv. if fst pv = p then None else m pv) = dom m - {pv. fst pv = p}"
  by (auto simp: dom_def)

lemma frames_okI:
  assumes "free \<union> dom ow = F" "free \<inter> dom ow = {}" "\<forall>pv f. vm pv = Some f \<longrightarrow> ow f = Some (fst pv)"
    "\<forall>pv qv f. vm pv = Some f \<longrightarrow> vm qv = Some f \<longrightarrow> pv = qv"
    "\<And>f p. ow f = Some p \<Longrightarrow> \<exists>v. vm (p, v) = Some f"
    "dom vm \<subseteq> B" "dom sw = B - dom vm"
  shows "frames_ok F free ow vm sw B"
  using assms unfolding frames_ok_def by simp

lemma frames_ok_range: "frames_ok F free ow vm sw B \<Longrightarrow> vm pv = Some f \<Longrightarrow> f \<in> F"
  unfolding frames_ok_def by blast

lemma frames_ok_grab:
  assumes "frames_ok F free ow vm sw B" "f \<in> free" "vm pv = None"
  shows "frames_ok F (free - {f}) (ow(f \<mapsto> fst pv)) (vm(pv \<mapsto> f)) (sw(pv := None)) (insert pv B)"
proof -
  note ok = frames_okD [OF assms(1)]
  have ow: "ow f = None" using ok(2) assms(2) by blast
  have nf: "vm qv \<noteq> Some f" for qv using ok(3) ow by fastforce
  show ?thesis
  proof (rule frames_okI)
    fix g p
    assume og: "(ow(f \<mapsto> fst pv)) g = Some p"
    show "\<exists>v. (vm(pv \<mapsto> f)) (p, v) = Some g"
    proof (cases "g = f")
      case True
      then show ?thesis using og by (intro exI [of _ "snd pv"]) auto
    next
      case False
      then obtain v where "vm (p, v) = Some g" using og ok(5) [of g p] by auto
      then show ?thesis using assms(3) by (intro exI [of _ v]) auto
    qed
  next
    show "(free - {f}) \<union> dom (ow(f \<mapsto> fst pv)) = F" using ok(1) assms(2) by auto
    show "(free - {f}) \<inter> dom (ow(f \<mapsto> fst pv)) = {}" using ok(2) by auto
    show "dom (vm(pv \<mapsto> f)) \<subseteq> insert pv B" using ok(6) by auto
    show "dom (sw(pv := None)) = insert pv B - dom (vm(pv \<mapsto> f))" using ok(7) by auto
  qed (use ok(3,4) nf in auto)
qed

lemma frames_ok_evict:
  assumes "frames_ok F free ow vm sw B" "vm qv = Some f" "vm pv = None"
  shows "frames_ok F free (ow(f \<mapsto> fst pv)) ((vm(qv := None))(pv \<mapsto> f)) ((sw(qv \<mapsto> b))(pv := None)) (insert pv B)"
proof -
  note ok = frames_okD [OF assms(1)]
  have ow: "ow f = Some (fst qv)" using ok(3) assms(2) by blast
  have nf: "vm rv = Some f \<longleftrightarrow> rv = qv" for rv using ok(4) assms(2) by blast
  show ?thesis
  proof (rule frames_okI)
    fix g p
    assume og: "(ow(f \<mapsto> fst pv)) g = Some p"
    show "\<exists>v. ((vm(qv := None))(pv \<mapsto> f)) (p, v) = Some g"
    proof (cases "g = f")
      case True
      then show ?thesis using og by (intro exI [of _ "snd pv"]) auto
    next
      case False
      then obtain v where "vm (p, v) = Some g" using og ok(5) [of g p] by auto
      then show ?thesis using assms(2,3) False by (intro exI [of _ v]) auto
    qed
  next
    show "free \<union> dom (ow(f \<mapsto> fst pv)) = F" using ok(1) ow by auto
    show "free \<inter> dom (ow(f \<mapsto> fst pv)) = {}" using ok(2) ow by auto
    show "dom ((vm(qv := None))(pv \<mapsto> f)) \<subseteq> insert pv B" using ok(6) by auto
    have "qv \<noteq> pv" "qv \<in> B" using assms(2,3) ok(6) by auto
    then show "dom ((sw(qv \<mapsto> b))(pv := None)) = insert pv B - dom ((vm(qv := None))(pv \<mapsto> f))"
      using ok(7) by auto
  qed (use ok(3,4) nf in \<open>auto split: if_splits\<close>)
qed

lemma frames_ok_release:
  assumes "frames_ok F free ow vm sw B" "vm qv = Some f"
  shows "frames_ok F (insert f free) (ow(f := None)) (vm(qv := None)) (sw(qv \<mapsto> b)) B"
proof -
  note ok = frames_okD [OF assms(1)]
  have ow: "ow f = Some (fst qv)" using ok(3) assms(2) by blast
  have nf: "vm rv = Some f \<longleftrightarrow> rv = qv" for rv using ok(4) assms(2) by blast
  show ?thesis
  proof (rule frames_okI)
    fix g p
    assume "(ow(f := None)) g = Some p"
    then have "g \<noteq> f" "ow g = Some p" by (auto split: if_splits)
    then obtain v where "vm (p, v) = Some g" using ok(5) by blast
    then show "\<exists>v. (vm(qv := None)) (p, v) = Some g"
      using \<open>g \<noteq> f\<close> assms(2) by (intro exI [of _ v]) auto
  next
    show "insert f free \<union> dom (ow(f := None)) = F" using ok(1) ow by auto
    show "insert f free \<inter> dom (ow(f := None)) = {}" using ok(2) by auto
    show "dom (vm(qv := None)) \<subseteq> B" using ok(6) by auto
    have "qv \<in> B" using assms(2) ok(6) by auto
    then show "dom (sw(qv \<mapsto> b)) = B - dom (vm(qv := None))"
      using ok(7) by auto
  qed (use ok(3,4) nf in auto)
qed

lemma frames_ok_drop:
  assumes "frames_ok F free ow vm sw B" "fs = {f. ow f = Some p}"
  shows "frames_ok F (free \<union> fs) (ow |` (- fs)) (\<lambda>pv. if fst pv = p then None else vm pv)
    (\<lambda>pv. if fst pv = p then None else sw pv) {pv \<in> B. fst pv \<noteq> p}"
proof -
  note ok = frames_okD [OF assms(1)]
  have ow: "(ow |` (- fs)) g = Some q \<longleftrightarrow> ow g = Some q \<and> q \<noteq> p" for g q
    using assms(2) by (auto simp: restrict_map_def)
  have d: "dom (ow |` (- fs)) = dom ow - fs" "fs \<subseteq> dom ow"
    using assms(2) by (auto simp: restrict_map_def)
  show ?thesis
  proof (rule frames_okI)
    fix g q
    assume "(ow |` (- fs)) g = Some q"
    then show "\<exists>v. (if fst (q, v) = p then None else vm (q, v)) = Some g"
      using ok(5) unfolding ow by simp
  next
    show "free \<union> fs \<union> dom (ow |` (- fs)) = F" "(free \<union> fs) \<inter> dom (ow |` (- fs)) = {}"
      using ok(1,2) d by blast+
    show "dom (\<lambda>pv. if fst pv = p then None else vm pv) \<subseteq> {pv \<in> B. fst pv \<noteq> p}"
      unfolding dom_drop using ok(6) by auto
    show "dom (\<lambda>pv. if fst pv = p then None else sw pv)
      = {pv \<in> B. fst pv \<noteq> p} - dom (\<lambda>pv. if fst pv = p then None else vm pv)"
      unfolding dom_drop ok(7) by auto
    show "\<forall>pv f. (if fst pv = p then None else vm pv) = Some f \<longrightarrow> (ow |` (- fs)) f = Some (fst pv)"
      using ok(3) unfolding ow by auto
    show "\<forall>pv qv f. (if fst pv = p then None else vm pv) = Some f
      \<longrightarrow> (if fst qv = p then None else vm qv) = Some f \<longrightarrow> pv = qv"
      using ok(4) by auto
  qed
qed

section \<open>The operations on the view\<close>

lemma all_frames_bound: "f \<in> all_frames n \<Longrightarrow> n < 2 ^ 32 \<Longrightarrow> unat f < n"
  by (auto simp: all_frames_def unat_of_nat)

lemma INVALID_not_frame: "n < 2 ^ 32 \<Longrightarrow> INVALID_FRAME \<notin> all_frames n"
  using all_frames_bound [of INVALID_FRAME n] by (auto simp: INVALID_FRAME_def)

lemma finite_all_frames [simp]: "finite (all_frames n)"
  by (simp add: all_frames_def)

lemma card_all_frames: "n < 2 ^ 32 \<Longrightarrow> card (all_frames n) = n"
  unfolding all_frames_def
  by (subst card_image) (auto simp: inj_on_def word_of_nat_eq_iff take_bit_nat_eq_self)

lemma read_frame: "f \<in> all_frames (PhysicalMemory_size mem) \<Longrightarrow> PhysicalMemory_size mem < 2 ^ 32
  \<Longrightarrow> \<exists>b. PhysicalMemory_read mem f = Ok b"
  using all_frames_bound pm.rd_ok isOk_ex by metis

lemma vmap_Some: "vmap st (p, v) = Some f \<longleftrightarrow> (\<exists>pt. pageTables st p = Some pt \<and> pt_map pt v = Some f)"
  by (auto simp: vmap_def split: option.splits)

lemma vmap_upd [simp]:
  "vmap (st\<lparr>pageTables := (pageTables st)(p \<mapsto> pt)\<rparr>) (q, v) = (if q = p then pt_map pt v else vmap st (q, v))"
  by (simp add: vmap_def)

lemma vmap_other_fields [simp]:
  "vmap (st\<lparr>freeFrames := a\<rparr>) = vmap st" "vmap (st\<lparr>frameOwners := b\<rparr>) = vmap st"
  "vmap (st\<lparr>swapSpace := c\<rparr>) = vmap st" "vmap (st\<lparr>replacementPolicy := d\<rparr>) = vmap st"
  by (simp_all add: vmap_def fun_eq_iff)

lemma pages_other_fields [simp]:
  "pages (st\<lparr>freeFrames := a\<rparr>) = pages st" "pages (st\<lparr>frameOwners := b\<rparr>) = pages st"
  "pages (st\<lparr>swapSpace := c\<rparr>) = pages st" "pages (st\<lparr>replacementPolicy := d\<rparr>) = pages st"
  by (simp_all add: pages_def)

lemma mapped_page_Some:
  assumes "pt_map pt v = Some f" "\<And>w. pt_map pt w = Some f \<Longrightarrow> w = v"
  shows "mapped_page pt f = Some v"
proof -
  let ?P = "\<lambda>vp. case PageTable_getEntry pt vp of Ok en \<Rightarrow> present en \<and> frameId en = f | Error _ \<Rightarrow> False"
  have P: "?P w \<longleftrightarrow> pt_map pt w = Some f" for w
    by (auto simp: PageTable_getEntry_def pt_map_def)
  have v: "v < length pt" using assms(1) by (auto simp: pt_map_def split: if_splits)
  then have "List.find ?P [0..<length pt] \<noteq> None"
    using P assms(1) by (auto simp: find_None_iff)
  then obtain w where w: "List.find ?P [0..<length pt] = Some w" by blast
  then have "?P w" by (metis (no_types, lifting) find_Some_iff)
  then have "w = v" using P assms(2) by blast
  then show ?thesis using w by (simp add: mapped_page_def PageTable_pageCount_def)
qed

lemma install_view:
  assumes "pageTables st pid = Some pt" "page < length pt"
  shows "vmap (Mmu_install st pid page f) = (vmap st)((pid, page) \<mapsto> f)"
    "pages (Mmu_install st pid page f) = pages st"
    "freeFrames (Mmu_install st pid page f) = freeFrames st"
    "frameOwners (Mmu_install st pid page f) = frameOwners st"
    "swapSpace (Mmu_install st pid page f) = swapSpace st"
    "totalFrameCount (Mmu_install st pid page f) = totalFrameCount st"
    "replacementPolicy (Mmu_install st pid page f) = policy_onLoad (replacementPolicy st) f"
    "pageTables (Mmu_install st pid page f) = (pageTables st)(pid \<mapsto> fst (PageTable_map pt page f))"
  using assms pt_map_map [OF assms(2), of f]
  by (auto simp: Mmu_install_def vmap_def fun_eq_iff pages_def split: if_splits option.splits)

lemma evict_view:
  assumes "frames_ok F (freeFrames st) (frameOwners st) (vmap st) sw B" "vmap st qv = Some f"
    "PhysicalMemory_read mem f = Ok b"
  shows "vmap (Mmu_evict st mem f pid) = (vmap st)(qv := None)"
    "pages (Mmu_evict st mem f pid) = pages st"
    "freeFrames (Mmu_evict st mem f pid) = freeFrames st"
    "frameOwners (Mmu_evict st mem f pid) = (frameOwners st)(f \<mapsto> pid)"
    "swapSpace (Mmu_evict st mem f pid) = (swapSpace st)(qv \<mapsto> b)"
    "totalFrameCount (Mmu_evict st mem f pid) = totalFrameCount st"
    "replacementPolicy (Mmu_evict st mem f pid) = replacementPolicy st"
    "\<exists>pt. pageTables st (fst qv) = Some pt \<and>
       pageTables (Mmu_evict st mem f pid) = (pageTables st)(fst qv \<mapsto> fst (PageTable_unmap pt (snd qv)))"
proof -
  obtain o' v where qv: "qv = (o', v)" by fastforce
  obtain pt where pt: "pageTables st o' = Some pt" "pt_map pt v = Some f"
    using assms(2) qv by (auto simp: vmap_Some)
  have ow: "frameOwners st f = Some o'" using frames_okD(3) [OF assms(1,2)] qv by simp
  have "w = v" if "pt_map pt w = Some f" for w
    using frames_okD(4) [OF assms(1), of "(o', w)" f "(o', v)"] that pt by (simp add: vmap_def)
  then have mp: "mapped_page pt f = Some v" using mapped_page_Some pt(2) by blast
  have st: "Mmu_evict st mem f pid = st\<lparr>swapSpace := (swapSpace st)((o', v) \<mapsto> b),
      pageTables := (pageTables st)(o' \<mapsto> fst (PageTable_unmap pt v)), frameOwners := (frameOwners st)(f \<mapsto> pid)\<rparr>"
    by (simp add: Mmu_evict_def ow pt assms(3) mp)
  then show "freeFrames (Mmu_evict st mem f pid) = freeFrames st"
    "frameOwners (Mmu_evict st mem f pid) = (frameOwners st)(f \<mapsto> pid)"
    "swapSpace (Mmu_evict st mem f pid) = (swapSpace st)(qv \<mapsto> b)"
    "totalFrameCount (Mmu_evict st mem f pid) = totalFrameCount st"
    "replacementPolicy (Mmu_evict st mem f pid) = replacementPolicy st"
    "\<exists>pt. pageTables st (fst qv) = Some pt \<and>
       pageTables (Mmu_evict st mem f pid) = (pageTables st)(fst qv \<mapsto> fst (PageTable_unmap pt (snd qv)))"
    using qv pt by simp_all
  show "vmap (Mmu_evict st mem f pid) = (vmap st)(qv := None)"
    using pt by (auto simp: st qv vmap_def pt_map_unmap fun_eq_iff)
  show "pages (Mmu_evict st mem f pid) = pages st"
    using pt by (auto simp: st pages_def split: if_splits)
qed

lemma freePages_view:
  "Mmu_freePages pt n st = st\<lparr>frameOwners := frameOwners st |` (- {f. \<exists>v < n. pt_map pt v = Some f}),
     freeFrames := freeFrames st \<union> {f. \<exists>v < n. pt_map pt v = Some f}\<rparr>"
proof (induction n)
  case 0
  then show ?case by (simp add: Mmu_freePages_def)
next
  case (Suc n)
  let ?fs = "\<lambda>n. {f. \<exists>v < n. pt_map pt v = Some f}"
  have step: "Mmu_freePages pt (Suc n) st = (case PageTable_getEntry pt n of
      Ok en \<Rightarrow> if present en then Mmu_freeFrame (Mmu_freePages pt n st) (frameId en) else Mmu_freePages pt n st
    | Error _ \<Rightarrow> Mmu_freePages pt n st)"
    unfolding Mmu_freePages_def by simp
  show ?case
  proof (cases "pt_map pt n")
    case None
    then have "?fs (Suc n) = ?fs n" by (auto simp: less_Suc_eq)
    then show ?thesis using step Suc None by (auto simp: PageTable_getEntry_def pt_map_def)
  next
    case (Some f)
    then have fs: "?fs (Suc n) = insert f (?fs n)" by (auto simp: less_Suc_eq)
    have r: "(m |` (- ?fs n))(f := None) = m |` (- insert f (?fs n))" for m :: "frame_id \<rightharpoonup> process_id"
      by (auto simp: restrict_map_def fun_eq_iff)
    have "Mmu_freePages pt (Suc n) st = Mmu_freeFrame (Mmu_freePages pt n st) f"
      using step Some by (auto simp: PageTable_getEntry_def pt_map_def split: if_splits)
    then show ?thesis unfolding Suc.IH fs Mmu_freeFrame_def using r by simp
  qed
qed

section \<open>Backing one page\<close>

text \<open>
  The number of pages of each process: what every operation but \<^verbatim>\<open>allocate\<close> and \<^verbatim>\<open>deallocate\<close> keeps.
\<close>

definition shape :: "mmu \<Rightarrow> process_id \<Rightarrow> nat option" where
  "shape st p = map_option length (pageTables st p)"

lemma pages_shape: "pages st = {(p, v). \<exists>n. shape st p = Some n \<and> v < n}"
  by (auto simp: pages_def shape_def)

lemma shape_other_fields [simp]:
  "shape (st\<lparr>freeFrames := a\<rparr>) = shape st" "shape (st\<lparr>frameOwners := b\<rparr>) = shape st"
  "shape (st\<lparr>swapSpace := c\<rparr>) = shape st" "shape (st\<lparr>replacementPolicy := d\<rparr>) = shape st"
  by (simp_all add: shape_def fun_eq_iff)

text \<open>
  What it means that a page got a frame: the bookkeeping holds with that page backed, no process
  changed its size, and no content was lost, neither that of the other pages nor what the page itself had
  in swap space.
\<close>

definition page_backed ::
  "physical_memory \<Rightarrow> mmu \<Rightarrow> process_id \<times> nat \<Rightarrow> (process_id \<times> nat) set \<Rightarrow> physical_memory \<Rightarrow> mmu \<Rightarrow> bool" where
  "page_backed mem st pv B mem' st' \<longleftrightarrow>
     mmu_view_ok (PhysicalMemory_size mem) st' (insert pv B)
     \<and> PhysicalMemory_size mem' = PhysicalMemory_size mem
     \<and> shape st' = shape st \<and> vmap st' pv \<noteq> None
     \<and> (\<forall>qv. qv \<noteq> pv \<or> swapSpace st pv \<noteq> None \<longrightarrow> content mem' st' qv = content mem st qv)"

lemma place_view:
  assumes "pageTables st pid = Some pt" "page < length pt"
    "st' = Mmu_install (fst (Mmu_restore st mem pid page f)) pid page f"
  shows "vmap st' = (vmap st)((pid, page) \<mapsto> f)" "freeFrames st' = freeFrames st"
    "frameOwners st' = frameOwners st" "swapSpace st' = (swapSpace st)((pid, page) := None)"
    "totalFrameCount st' = totalFrameCount st"
    "replacementPolicy st' = policy_onLoad (replacementPolicy st) f" "shape st' = shape st"
proof -
  let ?r = "fst (Mmu_restore st mem pid page f)"
  have pt: "pageTables ?r = pageTables st"
    by (simp add: Mmu_restore_def split: option.splits)
  note v = install_view [of ?r pid pt page f, folded assms(3)]
  have "vmap ?r = vmap st" "freeFrames ?r = freeFrames st" "frameOwners ?r = frameOwners st"
    "swapSpace ?r = (swapSpace st)((pid, page) := None)" "totalFrameCount ?r = totalFrameCount st"
    "replacementPolicy ?r = replacementPolicy st"
    by (auto simp: Mmu_restore_def split: option.splits)
  then show "vmap st' = (vmap st)((pid, page) \<mapsto> f)" "freeFrames st' = freeFrames st"
    "frameOwners st' = frameOwners st" "swapSpace st' = (swapSpace st)((pid, page) := None)"
    "totalFrameCount st' = totalFrameCount st"
    "replacementPolicy st' = policy_onLoad (replacementPolicy st) f"
    using v assms(1,2) pt by simp_all
  show "shape st' = shape st"
    using v(8) assms(1,2) pt by (auto simp: shape_def fun_eq_iff)
qed

lemma restore_memory:
  assumes "mem' = snd (Mmu_restore st mem pid page f)" "unat f < PhysicalMemory_size mem"
  shows "PhysicalMemory_size mem' = PhysicalMemory_size mem"
    "PhysicalMemory_read mem' g =
      (if g = f \<and> swapSpace st (pid, page) \<noteq> None then Ok (the (swapSpace st (pid, page)))
       else PhysicalMemory_read mem g)"
  using assms pm.rd_wr [OF assms(2)] pm.sz_wr by (auto simp: Mmu_restore_def split: option.splits)

lemma view_okD:
  assumes "mmu_view_ok n st B"
  shows "frames_ok (all_frames n) (freeFrames st) (frameOwners st) (vmap st) (swapSpace st) B"
    "policy_wf (replacementPolicy st)" "policy_frames (replacementPolicy st) \<subseteq> all_frames n"
    "totalFrameCount st = n" "dom (frameOwners st) \<subseteq> policy_frames (replacementPolicy st)"
  using assms unfolding mmu_view_ok_def by blast+

text \<open>A victim that is refused is given back to the policy, so that the policy still knows all frames in use.\<close>

lemma refused_victim:
  assumes ok: "mmu_view_ok n st B" and n: "n < 2 ^ 32" and it: "iter_ok iter"
    and sel: "policy_selectVictim iter (replacementPolicy st) = (policy, f)"
    and pol: "pol = (if f = INVALID_FRAME then policy else policy_onLoad policy f)"
  shows "mmu_view_ok n (st\<lparr>replacementPolicy := pol\<rparr>) B"
proof -
  note d = view_okD [OF ok]
  have w: "policy_wf policy" "policy_frames policy \<subseteq> all_frames n"
    using pr.select_wf [OF it d(2) sel] pr.select_frames [OF it d(2) sel] d(3) by auto
  then have "policy_wf pol \<and> policy_frames pol \<subseteq> all_frames n"
    using pr.load_in pr.victim_in(1) [OF it d(2,3) sel] unfolding pol by auto
  moreover have "dom (frameOwners st) \<subseteq> policy_frames pol"
    using pr.select_keeps [OF it d(2) sel] d(5) pr.load_frames [OF w(1), of f] frames_okD(1) [OF d(1)] INVALID_not_frame [OF n]
    unfolding pol by (cases "f = INVALID_FRAME") (simp_all, blast+)
  ultimately show ?thesis using ok unfolding mmu_view_ok_def by simp
qed

text \<open>
  A frame changes hands: the page \<open>qv\<close> that had it goes to swap with what the frame held, the page \<open>pv\<close> takes it and gets from swap
  what was there. No page changes its content, but for \<open>pv\<close> if it had none.
\<close>

lemma handover_content:
  assumes qv: "vmap st qv = Some f" and b: "PhysicalMemory_read mem f = Ok b" and pv: "vmap st pv = None"
    and inj: "\<And>g w. vmap st w = Some g \<Longrightarrow> vmap st qv = Some g \<Longrightarrow> w = qv"
    and st': "vmap st' = (vmap st)(qv := None, pv \<mapsto> f)" "swapSpace st' = (swapSpace st)(qv \<mapsto> b, pv := None)"
    and mem': "\<And>g. PhysicalMemory_read mem' g =
      (if g = f \<and> swapSpace st pv \<noteq> None then Ok (the (swapSpace st pv)) else PhysicalMemory_read mem g)"
    and w: "w \<noteq> pv \<or> swapSpace st pv \<noteq> None"
  shows "content mem' st' w = content mem st w"
proof -
  have ne: "qv \<noteq> pv" using qv pv by auto
  consider "w = pv" | "w = qv" | "w \<noteq> pv" "w \<noteq> qv" by blast
  then show ?thesis
  proof cases
    case 1
    then show ?thesis using w pv st' mem' [of f] by (auto simp: content_def)
  next
    case 2
    then show ?thesis using st' ne qv b by (auto simp: content_def)
  next
    case 3
    then have "vmap st' w = vmap st w" "swapSpace st' w = swapSpace st w" using st' by auto
    moreover have "PhysicalMemory_read mem' g = PhysicalMemory_read mem g" if "vmap st w = Some g" for g
      using mem' [of g] inj [OF that] qv 3 by auto
    ultimately show ?thesis by (auto simp: content_def split: option.splits)
  qed
qed

lemma grab_backs_page:
  assumes ok: "mmu_view_ok (PhysicalMemory_size mem) st B" and n: "PhysicalMemory_size mem < 2 ^ 32"
    and it: "iter_ok iter" and free: "freeFrames st \<noteq> {}"
    and pt: "pageTables st pid = Some pt" "page < length pt" and pv: "vmap st (pid, page) = None"
    and al: "Mmu_allocateFrame iter st pid = (st1, f)"
    and r: "st' = Mmu_install (fst (Mmu_restore st1 mem pid page f)) pid page f"
      "mem' = snd (Mmu_restore st1 mem pid page f)"
  shows "f \<noteq> INVALID_FRAME \<and> page_backed mem st (pid, page) B mem' st'
    \<and> (\<forall>w. w \<noteq> page \<longrightarrow> vmap st' (pid, w) = vmap st (pid, w))"
proof -
  let ?n = "PhysicalMemory_size mem"
  note fo = frames_okD [OF view_okD(1) [OF ok]]
  have "finite (freeFrames st)"
    using fo(1) finite_all_frames by (metis finite_Un)
  then have f: "f \<in> freeFrames st"
    using iter_ok_hd [OF it] free al by (auto simp: Mmu_allocateFrame_def Let_def)
  have fr: "f \<in> all_frames ?n" using f fo(1) by blast
  have st1: "st1 = st\<lparr>freeFrames := freeFrames st - {f}, frameOwners := (frameOwners st)(f \<mapsto> pid)\<rparr>"
    using al free by (auto simp: Mmu_allocateFrame_def Let_def)
  then have "pageTables st1 pid = Some pt" using pt by simp
  note v = place_view [OF this pt(2) r(1)]
  have v1: "vmap st1 = vmap st" "shape st1 = shape st" "swapSpace st1 = swapSpace st"
    using st1 by simp_all
  have "frames_ok (all_frames ?n) (freeFrames st') (frameOwners st') (vmap st') (swapSpace st') (insert (pid, page) B)"
    using frames_ok_grab [OF view_okD(1) [OF ok] f pv] v st1 by simp
  moreover have "policy_wf (replacementPolicy st')" "policy_frames (replacementPolicy st') \<subseteq> all_frames ?n"
    using pr.load_in [OF view_okD(2,3) [OF ok] fr] v(6) st1 by auto
  moreover have "dom (frameOwners st') \<subseteq> policy_frames (replacementPolicy st')"
    using view_okD(5) [OF ok] pr.load_frames [OF view_okD(2) [OF ok]] v(3,6) st1 by auto
  moreover have "totalFrameCount st' = ?n" using v(5) st1 view_okD(4) [OF ok] by simp
  ultimately have ok': "mmu_view_ok ?n st' (insert (pid, page) B)"
    by (simp add: mmu_view_ok_def)
  have fb: "unat f < ?n" using all_frames_bound [OF fr n] .
  note m = restore_memory [OF r(2) fb]
  have nf: "vmap st qv \<noteq> Some f" for qv
    using fo(2,3) f by fastforce
  have "content mem' st' qv = content mem st qv" if "qv \<noteq> (pid, page) \<or> swapSpace st (pid, page) \<noteq> None" for qv
  proof (cases "qv = (pid, page)")
    case True
    then show ?thesis using that pv v m(2) [of f] v1 by (auto simp: content_def)
  next
    case False
    have "vmap st' qv = vmap st qv" "swapSpace st' qv = swapSpace st qv"
      using False v v1 by simp_all
    moreover have "PhysicalMemory_read mem' g = PhysicalMemory_read mem g" if "vmap st qv = Some g" for g
      using m(2) [of g] nf [of qv] that by auto
    ultimately show ?thesis by (auto simp: content_def split: option.splits)
  qed
  then have "page_backed mem st (pid, page) B mem' st'"
    using ok' m(1) v(1,7) v1 by (simp add: page_backed_def)
  then show ?thesis
    using fr INVALID_not_frame [OF n] v(1) v1 by auto
qed

lemma evict_backs_page:
  assumes ok: "mmu_view_ok (PhysicalMemory_size mem) st B" and n: "PhysicalMemory_size mem < 2 ^ 32"
    and it: "iter_ok iter" and free: "freeFrames st = {}"
    and pt: "pageTables st pid = Some pt" "page < length pt" and pv: "vmap st (pid, page) = None"
    and sel: "policy_selectVictim iter (replacementPolicy st) = (policy, f)" "f \<noteq> INVALID_FRAME"
    and st2: "st2 = Mmu_evict (st\<lparr>replacementPolicy := policy\<rparr>) mem f pid"
    and r: "st' = Mmu_install (fst (Mmu_restore st2 mem pid page f)) pid page f"
      "mem' = snd (Mmu_restore st2 mem pid page f)"
  shows "page_backed mem st (pid, page) B mem' st' \<and> swapSpace st2 (pid, page) = swapSpace st (pid, page)
    \<and> (frameOwners st f \<noteq> Some pid \<longrightarrow> (\<forall>w. w \<noteq> page \<longrightarrow> vmap st' (pid, w) = vmap st (pid, w)))"
proof -
  let ?n = "PhysicalMemory_size mem" and ?s = "st\<lparr>replacementPolicy := policy\<rparr>" and ?pv = "(pid, page)"
  note fo = frames_okD [OF view_okD(1) [OF ok]]
  note vi = pr.victim_in [OF it view_okD(2,3) [OF ok] sel]
  have fr: "f \<in> all_frames ?n" and pol: "policy_wf policy" "policy_frames policy \<subseteq> all_frames ?n"
    using vi by auto
  have fb: "unat f < ?n" using all_frames_bound [OF fr n] .
  obtain b where b: "PhysicalMemory_read mem f = Ok b" using read_frame [OF fr n] by blast
  obtain p where "frameOwners st f = Some p" using fo(1) fr free by auto
  then obtain v where qv: "vmap st (p, v) = Some f" using fo(5) by blast
  let ?qv = "(p, v)"
  have ow: "frameOwners st f = Some p" using fo(3) [OF qv] by simp
  have ne: "?qv \<noteq> ?pv" using qv pv by auto
  have "frames_ok (all_frames ?n) (freeFrames ?s) (frameOwners ?s) (vmap ?s) (swapSpace ?s) B"
    using view_okD(1) [OF ok] by simp
  note e = evict_view [OF this _ b, of ?qv pid, folded st2]
  have e': "vmap st2 = (vmap st)(?qv := None)" "freeFrames st2 = freeFrames st"
    "frameOwners st2 = (frameOwners st)(f \<mapsto> pid)" "swapSpace st2 = (swapSpace st)(?qv \<mapsto> b)"
    "totalFrameCount st2 = totalFrameCount st" "replacementPolicy st2 = policy"
    using e qv by simp_all
  obtain pt' where pt': "pageTables st p = Some pt'" "pageTables st2 = (pageTables st)(p \<mapsto> fst (PageTable_unmap pt' v))"
    using e(8) qv by auto
  then have sh: "shape st2 = shape st" by (auto simp: shape_def fun_eq_iff)
  obtain pt2 where pt2: "pageTables st2 pid = Some pt2" "page < length pt2"
    using pt pt' by (cases "p = pid") auto
  note v' = place_view [OF pt2 r(1)]
  have "frames_ok (all_frames ?n) (freeFrames st') (frameOwners st') (vmap st') (swapSpace st') (insert ?pv B)"
    using frames_ok_evict [OF view_okD(1) [OF ok] qv pv, of b] v' e' by simp
  moreover have "policy_wf (replacementPolicy st')" "policy_frames (replacementPolicy st') \<subseteq> all_frames ?n"
    using pr.load_in [OF pol fr] v'(6) e' by auto
  moreover have "dom (frameOwners st') \<subseteq> policy_frames (replacementPolicy st')"
    using view_okD(5) [OF ok] pr.load_frames [OF pol(1)] pr.select_keeps [OF it view_okD(2) [OF ok] sel(1)] v'(3,6) e'
    by auto
  moreover have "totalFrameCount st' = ?n" using v'(5) e' view_okD(4) [OF ok] by simp
  ultimately have ok': "mmu_view_ok ?n st' (insert ?pv B)"
    by (simp add: mmu_view_ok_def)
  have sw: "swapSpace st2 ?pv = swapSpace st ?pv" using e'(4) ne by auto
  note m = restore_memory [OF r(2) fb]
  have "content mem' st' w = content mem st w" if "w \<noteq> ?pv \<or> swapSpace st ?pv \<noteq> None" for w
    by (rule handover_content [OF qv b pv _ _ _ _ that]) (use fo(4) v'(1,4) e'(1,4) m(2) sw in \<open>auto simp del: fun_upd_apply\<close>)
  then have "page_backed mem st ?pv B mem' st'"
    using ok' m(1) v'(1,7) sh by (simp add: page_backed_def)
  moreover have "\<forall>w. w \<noteq> page \<longrightarrow> vmap st' (pid, w) = vmap st (pid, w)" if "frameOwners st f \<noteq> Some pid"
    using that ow v'(1) e'(1) by auto
  ultimately show ?thesis using sw by blast
qed

section \<open>The operations\<close>

lemma content_cong:
  "vmap st qv = vmap st' qv \<Longrightarrow> swapSpace st qv = swapSpace st' qv \<Longrightarrow> content mem st qv = content mem st' qv"
  by (simp add: content_def cong: option.case_cong)

lemma content_policy [simp]: "content mem (st\<lparr>replacementPolicy := x\<rparr>) qv = content mem st qv"
  by (rule content_cong) simp_all

lemma restore_none: "swapSpace st (pid, page) = None \<Longrightarrow> Mmu_restore st mem pid page f = (st, mem)"
  by (simp add: Mmu_restore_def)

lemma allocateFrame_swap: "swapSpace (fst (Mmu_allocateFrame iter st pid)) = swapSpace st"
  by (simp add: Mmu_allocateFrame_def Let_def)

lemma allocateFrame_none:
  "freeFrames st = {} \<Longrightarrow> Mmu_allocateFrame iter st pid = (st, INVALID_FRAME)"
  by (simp add: Mmu_allocateFrame_def)

text \<open>Freeing the resident pages of a process and erasing its table takes the process out of the view.\<close>

lemma drop_process_view:
  assumes ok: "mmu_view_ok n st B" and pt: "pageTables st pid = Some pt"
    and res: "\<And>v f. pt_map pt v = Some f \<Longrightarrow> v < k"
    and st': "st' = (Mmu_freePages pt k st)\<lparr>pageTables := (pageTables st)(pid := None), swapSpace := sw\<rparr>"
    and sw: "sw = (\<lambda>pv. if fst pv = pid then None else swapSpace st pv)"
  shows "mmu_view_ok n st' {pv \<in> B. fst pv \<noteq> pid} \<and> shape st' = (shape st)(pid := None)
    \<and> (\<forall>qv. fst qv \<noteq> pid \<longrightarrow> content mem st' qv = content mem st qv)"
proof -
  note fo = frames_okD [OF view_okD(1) [OF ok]]
  let ?fs = "{f. frameOwners st f = Some pid}"
  have fs: "{f. \<exists>v < k. pt_map pt v = Some f} = ?fs"
  proof
    show "{f. \<exists>v < k. pt_map pt v = Some f} \<subseteq> ?fs"
      using fo(3) [of "(pid, _)"] pt by (auto simp: vmap_def)
    show "?fs \<subseteq> {f. \<exists>v < k. pt_map pt v = Some f}"
      using fo(5) res pt by (fastforce simp: vmap_def)
  qed
  have f: "freeFrames st' = freeFrames st \<union> ?fs" "frameOwners st' = frameOwners st |` (- ?fs)"
    "swapSpace st' = sw" "totalFrameCount st' = totalFrameCount st" "replacementPolicy st' = replacementPolicy st"
    "pageTables st' = (pageTables st)(pid := None)"
    using st' unfolding freePages_view fs by simp_all
  have vm: "vmap st' = (\<lambda>pv. if fst pv = pid then None else vmap st pv)"
    by (auto simp: vmap_def f fun_eq_iff)
  have "mmu_view_ok n st' {pv \<in> B. fst pv \<noteq> pid}"
    using frames_ok_drop [OF view_okD(1) [OF ok] refl, of pid] view_okD(2-5) [OF ok]
    unfolding mmu_view_ok_def f vm sw dom_restrict by blast
  moreover have "content mem st' qv = content mem st qv" if "fst qv \<noteq> pid" for qv
    by (rule content_cong) (use that in \<open>simp_all add: vm f sw\<close>)
  moreover have "shape st' = (shape st)(pid := None)"
    by (simp add: shape_def f fun_eq_iff)
  ultimately show ?thesis by blast
qed

text \<open>The state of the allocation loop before page \<open>page\<close>.\<close>

definition allocating :: "physical_memory \<Rightarrow> process_id \<Rightarrow> (process_id \<times> nat) set \<Rightarrow> nat \<Rightarrow> nat \<Rightarrow> mmu \<Rightarrow> bool" where
  "allocating mem pid others cnt page st \<longleftrightarrow>
     mmu_view_ok (PhysicalMemory_size mem) st (others \<union> {pid} \<times> {..<page})
     \<and> (\<forall>pv \<in> others. fst pv \<noteq> pid) \<and> shape st pid = Some cnt
     \<and> (\<forall>v. vmap st (pid, v) \<noteq> None \<longleftrightarrow> v < page)"

lemma allocating_backed:
  assumes "allocating mem pid others cnt page st" "page_backed mem st (pid, page) (others \<union> {pid} \<times> {..<page}) mem st'"
    "\<forall>w. w \<noteq> page \<longrightarrow> vmap st' (pid, w) = vmap st (pid, w)"
  shows "allocating mem pid others cnt (Suc page) st'"
proof -
  have "insert (pid, page) (others \<union> {pid} \<times> {..<page}) = others \<union> {pid} \<times> {..<Suc page}"
    by auto
  moreover have "vmap st' (pid, v) \<noteq> None \<longleftrightarrow> v < Suc page" for v
    using assms unfolding allocating_def page_backed_def by (cases "v = page") auto
  ultimately show ?thesis
    using assms unfolding allocating_def page_backed_def by simp
qed

lemma allocating_rollback:
  assumes al: "allocating mem pid others cnt page st" and pt: "pageTables st pid = Some pt"
    and st': "st' = (Mmu_freePages pt page st)\<lparr>pageTables := (pageTables st)(pid := None)\<rparr>"
  shows "mmu_view_ok (PhysicalMemory_size mem) st' others \<and> shape st' = (shape st)(pid := None)
    \<and> (\<forall>qv. fst qv \<noteq> pid \<longrightarrow> content mem st' qv = content mem st qv)"
proof -
  let ?B = "others \<union> {pid} \<times> {..<page}"
  have ok: "mmu_view_ok (PhysicalMemory_size mem) st ?B" and o: "\<forall>pv \<in> others. fst pv \<noteq> pid"
    and vm: "\<And>v. vmap st (pid, v) \<noteq> None \<longleftrightarrow> v < page"
    using al unfolding allocating_def by auto
  have "(pid, v) \<notin> dom (swapSpace st)" for v
  proof -
    have "(pid, v) \<in> ?B \<Longrightarrow> (pid, v) \<in> dom (vmap st)" using vm [of v] o by auto
    then show ?thesis unfolding frames_okD(7) [OF view_okD(1) [OF ok]] by blast
  qed
  then have "swapSpace st (pid, v) = None" for v by (simp add: domIff)
  then have sw: "swapSpace st = (\<lambda>pv. if fst pv = pid then None else swapSpace st pv)"
    by (auto simp: fun_eq_iff)
  have res: "v < page" if "pt_map pt v = Some f" for v f
    using vm [of v] that pt by (simp add: vmap_def)
  have st'': "st' = (Mmu_freePages pt page st)\<lparr>pageTables := (pageTables st)(pid := None), swapSpace := swapSpace st\<rparr>"
    unfolding st' freePages_view by simp
  have "{pv \<in> ?B. fst pv \<noteq> pid} = others" using o by auto
  then show ?thesis
    using drop_process_view [OF ok pt res st'' sw] by simp
qed

lemma allocate_loop_view:
  assumes n: "PhysicalMemory_size mem < 2 ^ 32" and it: "\<forall>i. iter_ok (iter i)"
    and al: "allocating mem pid others cnt page st" and le: "page \<le> cnt"
    and res: "Mmu_allocate_loop iter mem pid [page..<cnt] st = (st', r)"
  shows "(r = Ok 0 \<and> allocating mem pid others cnt cnt st' \<and> shape st' = shape st
      \<or> r = Error OutOfMemory \<and> mmu_view_ok (PhysicalMemory_size mem) st' others \<and> shape st' = (shape st)(pid := None))
    \<and> (\<forall>qv. fst qv \<noteq> pid \<longrightarrow> content mem st' qv = content mem st qv)"
  using le al res
proof (induction page arbitrary: st rule: inc_induct)
  case base
  then show ?case by simp
next
  case (step page)
  let ?B = "others \<union> {pid} \<times> {..<page}"
  have ok: "mmu_view_ok (PhysicalMemory_size mem) st ?B" and vm: "vmap st (pid, page) = None"
    and sh: "shape st pid = Some cnt"
    using step.prems(1) unfolding allocating_def by auto
  obtain pt where pt: "pageTables st pid = Some pt" "page < length pt"
    using sh step.hyps by (auto simp: shape_def)
  have "(pid, page) \<notin> dom (swapSpace st)"
    using frames_okD(7) [OF view_okD(1) [OF ok]] step.prems(1) by (auto simp: allocating_def)
  then have sw: "swapSpace st (pid, page) = None" by auto
  have itp: "iter_ok (iter page)" using it by blast
  have "[page..<cnt] = page # [Suc page..<cnt]" using step.hyps by (simp add: upt_rec)
  note res' = step.prems(2) [unfolded this Mmu_allocate_loop.simps]
  have go: ?case if "page_backed mem st (pid, page) ?B mem st1"
    "\<forall>w. w \<noteq> page \<longrightarrow> vmap st1 (pid, w) = vmap st (pid, w)"
    "Mmu_allocate_loop iter mem pid [Suc page..<cnt] st1 = (st', r)" for st1
  proof -
    have "shape st1 = shape st" "\<forall>qv. fst qv \<noteq> pid \<longrightarrow> content mem st1 qv = content mem st qv"
      using that(1) unfolding page_backed_def by auto
    then show ?thesis
      using step.IH [OF allocating_backed [OF step.prems(1) that(1,2)] that(3)] by auto
  qed
  show ?case
  proof (cases "freeFrames st = {}")
    case False
    obtain st1 f where a: "Mmu_allocateFrame (iter page) st pid = (st1, f)" by fastforce
    have "swapSpace st1 (pid, page) = None" using allocateFrame_swap [of "iter page" st pid] a sw by simp
    note rn = restore_none [OF this, of mem f]
    note g = grab_backs_page [OF ok n itp False pt vm a refl refl, unfolded rn, simplified]
    show ?thesis
      by (rule go [of "Mmu_install st1 pid page f"]) (use g a res' in \<open>auto simp: page_backed_def\<close>)
  next
    case True
    note a = allocateFrame_none [OF True, of "iter page" pid]
    obtain policy f where sel: "policy_selectVictim (iter page) (replacementPolicy st) = (policy, f)" by fastforce
    let ?st2 = "st\<lparr>replacementPolicy := policy\<rparr>"
    show ?thesis
    proof (cases "f \<noteq> INVALID_FRAME \<and> frameOwners st f \<noteq> Some pid")
      case False
      define pol where "pol = (if f = INVALID_FRAME then policy else policy_onLoad policy f)"
      have al': "allocating mem pid others cnt page (st\<lparr>replacementPolicy := pol\<rparr>)"
        using step.prems(1) refused_victim [OF ok n itp sel pol_def] unfolding allocating_def by simp
      have "st' = (Mmu_freePages pt page (st\<lparr>replacementPolicy := pol\<rparr>))\<lparr>pageTables := (pageTables st)(pid := None)\<rparr>"
        "r = Error OutOfMemory"
        using res' False pt by (auto simp: a sel Let_def pol_def freePages_view split: if_splits)
      then show ?thesis
        using allocating_rollback [OF al', of pt st'] pt(1) by simp
    next
      case True
      note e = evict_backs_page [OF ok n itp \<open>freeFrames st = {}\<close> pt vm sel _ refl refl refl]
      have "swapSpace (Mmu_evict ?st2 mem f pid) (pid, page) = None" using e True sw by simp
      note rn = restore_none [OF this, of mem f]
      show ?thesis
        by (rule go [of "Mmu_install (Mmu_evict ?st2 mem f pid) pid page f"])
          (use e [unfolded rn] True res' in \<open>auto simp: a sel Let_def\<close>)
    qed
  qed
qed

lemma mmu_invD:
  assumes "mmu_inv mem st"
  shows "PhysicalMemory_size mem < 2 ^ 32" "mmu_view_ok (PhysicalMemory_size mem) st (pages st)"
    "frames_ok (all_frames (PhysicalMemory_size mem)) (freeFrames st) (frameOwners st) (vmap st) (swapSpace st) (pages st)"
  using assms unfolding mmu_inv_def mmu_view_ok_def by blast+

lemma inv_resident:
  assumes "mmu_inv mem st" "vmap st pv = Some f"
  shows "f \<in> all_frames (PhysicalMemory_size mem)" "unat f < PhysicalMemory_size mem"
    "\<exists>b. PhysicalMemory_read mem f = Ok b \<and> content mem st pv = Some b"
proof -
  note i = mmu_invD [OF assms(1)]
  show fr: "f \<in> all_frames (PhysicalMemory_size mem)" by (rule frames_ok_range [OF i(3) assms(2)])
  show "unat f < PhysicalMemory_size mem" by (rule all_frames_bound [OF fr i(1)])
  show "\<exists>b. PhysicalMemory_read mem f = Ok b \<and> content mem st pv = Some b"
    using read_frame [OF fr i(1)] assms(2) by (auto simp: content_def)
qed

text \<open>Every page of every process holds data, in a frame or in swap space.\<close>

lemma inv_content: "mmu_inv mem st \<Longrightarrow> content mem st pv \<noteq> None \<longleftrightarrow> pv \<in> pages st"
proof (cases "vmap st pv")
  case None
  assume i: "mmu_inv mem st"
  have "dom (swapSpace st) = pages st - dom (vmap st)" by (rule frames_okD(7) [OF mmu_invD(3) [OF i]])
  then have "swapSpace st pv \<noteq> None \<longleftrightarrow> pv \<in> pages st" using None by (metis DiffD1 DiffI domIff)
  then show ?thesis using None by (simp add: content_def)
next
  case (Some f)
  assume i: "mmu_inv mem st"
  have "pv \<in> pages st" using frames_okD(6) [OF mmu_invD(3) [OF i]] Some by blast
  then show ?thesis using inv_resident(3) [OF i Some] by auto
qed

lemma translate_vmap:
  "pageTables st p = Some pt \<Longrightarrow> PageTable_translate pt v =
    (case vmap st (p, v) of Some f \<Rightarrow> Ok f | None \<Rightarrow> Error (if v < length pt then SegmentationFault else InvalidAddress))"
  by (simp add: translate_pt_map vmap_def)

text \<open>Operations that only touch flags and the policy's history keep the view.\<close>

lemma touch_view:
  assumes i: "mmu_inv mem st" and pt: "pageTables st p = Some pt" and f: "f \<in> all_frames (PhysicalMemory_size mem)"
    and same: "pt_map pt' = pt_map pt" "length pt' = length pt"
    and st': "st' = st\<lparr>pageTables := (pageTables st)(p \<mapsto> pt'), replacementPolicy := policy_onAccess (replacementPolicy st) f\<rparr>"
    and mem': "PhysicalMemory_size mem' = PhysicalMemory_size mem"
  shows "mmu_inv mem' st' \<and> vmap st' = vmap st \<and> shape st' = shape st \<and> swapSpace st' = swapSpace st"
proof -
  have vm: "vmap st' = vmap st" using pt same by (auto simp: st' vmap_def fun_eq_iff)
  have sh: "shape st' = shape st" using pt same by (auto simp: st' shape_def fun_eq_iff)
  then have "pages st' = pages st" by (simp add: pages_shape)
  then have "mmu_inv mem' st'"
    using i pr.access_in [OF view_okD(2,3) [OF mmu_invD(2) [OF i]] f] vm mem'
      subset_trans [OF view_okD(5) [OF mmu_invD(2) [OF i]] pr.access_keeps [OF view_okD(2) [OF mmu_invD(2) [OF i]], of f]]
    unfolding mmu_inv_def mmu_view_ok_def by (simp add: st')
  then show ?thesis using vm sh by (simp add: st')
qed

lemma read_view:
  assumes i: "mmu_inv mem st" and rd: "Mmu_read st mem p va = (st', r)"
  shows "mmu_inv mem st' \<and> shape st' = shape st \<and> vmap st' = vmap st \<and> content mem st' = content mem st
    \<and> r = (case shape st p of None \<Rightarrow> Error InvalidPid
           | Some n \<Rightarrow> if unat va \<ge> n then Error InvalidAddress
                     else if vmap st (p, unat va) = None then Error SegmentationFault
                     else Ok (the (content mem st (p, unat va))))"
proof (cases "pageTables st p")
  case None
  then show ?thesis using i rd by (simp add: Mmu_read_def shape_def)
next
  case (Some pt)
  show ?thesis
  proof (cases "vmap st (p, unat va)")
    case None
    then show ?thesis using i rd Some translate_vmap [OF Some] by (auto simp: Mmu_read_def shape_def)
  next
    case (Some f)
    note pt = \<open>pageTables st p = Some pt\<close>
    note r = inv_resident [OF i Some]
    have lt: "unat va < length pt" using Some pt by (auto simp: vmap_def pt_map_def split: if_splits)
    have st': "st' = st\<lparr>pageTables := (pageTables st)(p \<mapsto> fst (PageTable_setReferenced pt (unat va) True)),
        replacementPolicy := policy_onAccess (replacementPolicy st) f\<rparr>" "r = PhysicalMemory_read mem f"
      using rd pt Some translate_vmap [OF pt] by (auto simp: Mmu_read_def)
    note t = touch_view [OF i pt r(1) _ _ st'(1) refl, simplified]
    then have "content mem st' = content mem st" by (intro ext content_cong) simp_all
    then show ?thesis using t lt pt Some r(3) st'(2) by (auto simp: shape_def)
  qed
qed

lemma write_view:
  assumes i: "mmu_inv mem st" and wr: "Mmu_write st mem p va b = ((st', mem'), r)"
  shows "mmu_inv mem' st' \<and> shape st' = shape st \<and> vmap st' = vmap st
    \<and> PhysicalMemory_size mem' = PhysicalMemory_size mem
    \<and> r = (case shape st p of None \<Rightarrow> Error InvalidPid
           | Some n \<Rightarrow> if unat va \<ge> n then Error InvalidAddress
                     else if vmap st (p, unat va) = None then Error SegmentationFault else Ok ())
    \<and> content mem' st' = (if r = Ok () then (content mem st)((p, unat va) \<mapsto> b) else content mem st)"
proof (cases "pageTables st p")
  case None
  then show ?thesis using i wr by (auto simp: Mmu_write_def shape_def)
next
  case (Some pt)
  show ?thesis
  proof (cases "vmap st (p, unat va)")
    case None
    then show ?thesis using i wr Some translate_vmap [OF Some] by (auto simp: Mmu_write_def shape_def)
  next
    case (Some f)
    note pt = \<open>pageTables st p = Some pt\<close>
    note r = inv_resident [OF i Some]
    have lt: "unat va < length pt" using Some pt by (auto simp: vmap_def pt_map_def split: if_splits)
    let ?pt = "fst (PageTable_setDirty (fst (PageTable_setReferenced pt (unat va) True)) (unat va) True)"
    have st': "st' = st\<lparr>pageTables := (pageTables st)(p \<mapsto> ?pt),
        replacementPolicy := policy_onAccess (replacementPolicy st) f\<rparr>" "PhysicalMemory_write mem f b = (mem', r)"
      using wr pt Some translate_vmap [OF pt] by (auto simp: Mmu_write_def Let_def split: prod.splits)
    have m: "PhysicalMemory_size mem' = PhysicalMemory_size mem" "r = Ok ()"
      "PhysicalMemory_read mem' g = (if g = f then Ok b else PhysicalMemory_read mem g)" for g
      using pm.sz_wr [of mem f b] pm.wr_ok [OF r(2), of b] pm.rd_wr [OF r(2), of b] st'(2) by auto
    have t: "mmu_inv mem' st' \<and> vmap st' = vmap st \<and> shape st' = shape st \<and> swapSpace st' = swapSpace st"
      by (rule touch_view [OF i pt r(1) _ _ st'(1) m(1)]) simp_all
    have "content mem' st' qv = ((content mem st)((p, unat va) \<mapsto> b)) qv" for qv
    proof (cases "qv = (p, unat va)")
      case False
      then have "vmap st qv \<noteq> Some f" using frames_okD(4) [OF mmu_invD(3) [OF i]] Some by blast
      then show ?thesis using False t m(3) by (auto simp: content_def split: option.splits)
    qed (use t m(3) Some in \<open>simp add: content_def\<close>)
    then show ?thesis using t m lt pt Some by (auto simp: shape_def)
  qed
qed

lemma page_backed_inv:
  assumes i: "mmu_inv mem st" and pv: "pv \<in> pages st"
    and b: "page_backed mem st pv (pages st) mem' st'"
  shows "mmu_inv mem' st' \<and> shape st' = shape st \<and> vmap st' pv \<noteq> None \<and> PhysicalMemory_size mem' = PhysicalMemory_size mem
    \<and> (vmap st pv = None \<longrightarrow> content mem' st' = content mem st)"
proof -
  note p = b [unfolded page_backed_def]
  have "pages st' = pages st" using p by (simp add: pages_shape)
  then have "mmu_inv mem' st'"
    using p mmu_invD(1) [OF i] insert_absorb [OF pv] by (simp add: mmu_inv_def)
  moreover have "swapSpace st pv \<noteq> None" if "vmap st pv = None"
    using inv_content [OF i, of pv] that pv by (simp add: content_def)
  ultimately show ?thesis using p by (auto simp: fun_eq_iff)
qed

lemma swapIn_absent:
  assumes i: "mmu_inv mem st" and it: "iter_ok iter" and pt: "pageTables st p = Some pt" "unat va < length pt" "vmap st (p, unat va) = None"
    and sw: "Mmu_swapIn iter st mem p va = ((st', mem'), r)"
  shows "mmu_inv mem' st' \<and> shape st' = shape st \<and> PhysicalMemory_size mem' = PhysicalMemory_size mem \<and> content mem' st' = content mem st
    \<and> r = (if all_frames (PhysicalMemory_size mem) = {} then Error OutOfMemory else Ok ()) \<and> (r = Ok () \<longrightarrow> vmap st' (p, unat va) \<noteq> None)"
proof -
  note ok = mmu_invD(2) [OF i] and n = mmu_invD(1) [OF i]
  let ?n = "PhysicalMemory_size mem" and ?v = "unat va"
  have ab: "\<not> present (pt ! ?v)" using pt by (auto simp: vmap_def pt_map_def split: if_splits)
  have pv: "(p, ?v) \<in> pages st" using pt by (simp add: pages_def)
  note sw' = sw [unfolded Mmu_swapIn_def, simplified pt(1) PageTable_getEntry_def, simplified pt(2) ab, simplified]
  note backed = page_backed_inv [OF i pv, of mem' st']
  show ?thesis
  proof (cases "freeFrames st = {}")
    case False
    obtain st1 f where a: "Mmu_allocateFrame iter st p = (st1, f)" by fastforce
    note g = grab_backs_page [OF ok n it False pt a refl refl]
    have e: "st' = Mmu_install (fst (Mmu_restore st1 mem p ?v f)) p ?v f" "mem' = snd (Mmu_restore st1 mem p ?v f)" "r = Ok ()"
      using sw' pt(2) ab g by (auto simp: a split: prod.splits)
    have "all_frames ?n \<noteq> {}" using False frames_okD(1) [OF mmu_invD(3) [OF i]] by blast
    then show ?thesis using backed g pt e by simp
  next
    case True
    note a = allocateFrame_none [OF True, of iter p]
    obtain policy f where sel: "policy_selectVictim iter (replacementPolicy st) = (policy, f)" by fastforce
    show ?thesis
    proof (cases "f = INVALID_FRAME")
      case inv: True
      have "policy_frames (replacementPolicy st) = all_frames ?n"
        using True frames_okD(1) [OF mmu_invD(3) [OF i]] view_okD(3,5) [OF ok] by blast
      then have "all_frames ?n = {}" using pr.select_some [OF it view_okD(2) [OF ok] _ _ sel] inv INVALID_not_frame [OF n] by auto
      moreover have "st' = st\<lparr>replacementPolicy := policy\<rparr>" "mem' = mem" "r = Error OutOfMemory"
        using sw' pt(2) ab inv by (auto simp: a sel Let_def)
      moreover have "mmu_view_ok ?n (st\<lparr>replacementPolicy := policy\<rparr>) (pages st)" by (rule refused_victim [OF ok n it sel]) (simp add: inv)
      ultimately show ?thesis using i by (simp add: mmu_inv_def fun_eq_iff)
    next
      case False
      let ?st2 = "Mmu_evict (st\<lparr>replacementPolicy := policy\<rparr>) mem f p"
      note g = evict_backs_page [OF ok n it True pt sel False refl refl refl]
      have e: "st' = Mmu_install (fst (Mmu_restore ?st2 mem p ?v f)) p ?v f" "mem' = snd (Mmu_restore ?st2 mem p ?v f)" "r = Ok ()"
        using sw' pt(2) ab False by (auto simp: a sel Let_def split: prod.splits)
      have "all_frames ?n \<noteq> {}" using pr.victim_in(1) [OF it view_okD(2,3) [OF ok] sel False] by blast
      then show ?thesis using backed g pt e by simp
    qed
  qed
qed

text \<open>
  A page of a process can always be swapped in: when no frame is free, some frame is owned, the
  policy knows it, and its victim is evicted.
\<close>

lemma swapIn_view:
  assumes i: "mmu_inv mem st" and it: "iter_ok iter"
    and sw: "Mmu_swapIn iter st mem p va = ((st', mem'), r)"
  shows "mmu_inv mem' st' \<and> shape st' = shape st \<and> PhysicalMemory_size mem' = PhysicalMemory_size mem
    \<and> content mem' st' = content mem st
    \<and> r = (case shape st p of None \<Rightarrow> Error InvalidPid
           | Some n \<Rightarrow> if unat va \<ge> n then Error InvalidAddress
                     else if all_frames (PhysicalMemory_size mem) = {} then Error OutOfMemory else Ok ())
    \<and> (r = Ok () \<longrightarrow> vmap st' (p, unat va) \<noteq> None)"
proof -
  consider (none) "pageTables st p = None"
    | (out) pt where "pageTables st p = Some pt" "unat va \<ge> length pt"
    | (resident) pt where "pageTables st p = Some pt" "unat va < length pt" "vmap st (p, unat va) \<noteq> None"
    | (absent) pt where "pageTables st p = Some pt" "unat va < length pt" "vmap st (p, unat va) = None"
    by (metis linorder_not_le option.exhaust)
  then show ?thesis
  proof cases
    case none
    then show ?thesis using sw i by (auto simp: Mmu_swapIn_def shape_def)
  next
    case (out pt)
    then show ?thesis using sw i by (auto simp: Mmu_swapIn_def shape_def PageTable_getEntry_def)
  next
    case (resident pt)
    then have "present (pt ! unat va)" by (auto simp: vmap_def pt_map_def split: if_splits)
    moreover have "all_frames (PhysicalMemory_size mem) \<noteq> {}" using inv_resident(1) [OF i] resident(3) by blast
    ultimately show ?thesis using sw i resident by (simp add: Mmu_swapIn_def shape_def PageTable_getEntry_def)
  next
    case (absent pt)
    then show ?thesis using swapIn_absent [OF i it absent sw] by (simp add: shape_def)
  qed
qed

lemma swapOut_view:
  assumes i: "mmu_inv mem st" and sw: "Mmu_swapOut st mem p va = (st', r)"
  shows "mmu_inv mem st' \<and> shape st' = shape st \<and> content mem st' = content mem st
    \<and> r = (case shape st p of None \<Rightarrow> Error InvalidPid
           | Some n \<Rightarrow> if unat va \<ge> n then Error InvalidAddress else Ok ())
    \<and> (r = Ok () \<longrightarrow> vmap st' (p, unat va) = None)"
proof -
  let ?pv = "(p, unat va)"
  consider (none) "pageTables st p = None"
    | (out) pt where "pageTables st p = Some pt" "unat va \<ge> length pt"
    | (absent) pt where "pageTables st p = Some pt" "unat va < length pt" "vmap st ?pv = None"
    | (resident) pt f where "pageTables st p = Some pt" "unat va < length pt" "vmap st ?pv = Some f"
    by (metis linorder_not_le option.exhaust)
  then show ?thesis
  proof cases
    case none
    then show ?thesis using sw i by (auto simp: Mmu_swapOut_def shape_def)
  next
    case (out pt)
    then show ?thesis using sw i by (auto simp: Mmu_swapOut_def shape_def PageTable_getEntry_def)
  next
    case (absent pt)
    then have "\<not> present (pt ! unat va)" by (auto simp: vmap_def pt_map_def split: if_splits)
    then show ?thesis using sw i absent by (auto simp: Mmu_swapOut_def shape_def PageTable_getEntry_def)
  next
    case (resident pt f)
    have pf: "present (pt ! unat va)" "frameId (pt ! unat va) = f"
      using resident by (auto simp: vmap_def pt_map_def split: if_splits)
    obtain b where b: "PhysicalMemory_read mem f = Ok b" "content mem st ?pv = Some b"
      using inv_resident(3) [OF i resident(3)] by blast
    have st': "st' = st\<lparr>swapSpace := (swapSpace st)(?pv \<mapsto> b), pageTables := (pageTables st)(p \<mapsto> fst (PageTable_unmap pt (unat va))),
        frameOwners := (frameOwners st)(f := None), freeFrames := insert f (freeFrames st)\<rparr>" "r = Ok ()"
      using sw resident pf b by (auto simp: Mmu_swapOut_def PageTable_getEntry_def Mmu_freeFrame_def Let_def)
    have vm: "vmap st' = (vmap st)(?pv := None)"
      using resident(1) by (auto simp: st' vmap_def pt_map_unmap fun_eq_iff)
    have sh: "shape st' = shape st" using resident(1) by (auto simp: st' shape_def fun_eq_iff)
    have "frames_ok (all_frames (PhysicalMemory_size mem)) (freeFrames st') (frameOwners st') (vmap st') (swapSpace st') (pages st)"
      using frames_ok_release [OF mmu_invD(3) [OF i] resident(3), of b] vm by (simp add: st')
    moreover have "dom (frameOwners st') \<subseteq> dom (frameOwners st)" by (auto simp: st')
    ultimately have "mmu_inv mem st'"
      using i sh unfolding mmu_inv_def mmu_view_ok_def pages_shape by (simp add: st') blast
    moreover have "content mem st' qv = content mem st qv" for qv
    proof (cases "qv = ?pv")
      case True
      then show ?thesis using b vm by (simp add: content_def st')
    next
      case False
      then show ?thesis by (intro content_cong) (simp_all add: vm, simp add: st')
    qed
    ultimately show ?thesis using sh st'(2) vm resident by (auto simp: shape_def fun_eq_iff)
  qed
qed

lemma deallocate_view:
  assumes i: "mmu_inv mem st" and d: "Mmu_deallocate st p = (st', r)"
  shows "mmu_inv mem st' \<and> shape st' = (shape st)(p := None)
    \<and> r = (if shape st p = None then Error InvalidPid else Ok ())
    \<and> (\<forall>qv. fst qv \<noteq> p \<longrightarrow> content mem st' qv = content mem st qv)"
proof (cases "pageTables st p")
  case None
  then show ?thesis using d i by (auto simp: Mmu_deallocate_def shape_def fun_eq_iff)
next
  case (Some pt)
  let ?sw = "\<lambda>pv. if fst pv = p then None else swapSpace st pv"
  have eq: "(\<lambda>(q, v). if q = p then None else m (q, v)) = (\<lambda>pv. if fst pv = p then None else m pv)"
    for m :: "process_id \<times> nat \<Rightarrow> block option" by (simp add: fun_eq_iff)
  have st': "st' = (Mmu_freePages pt (length pt) st)\<lparr>pageTables := (pageTables st)(p := None), swapSpace := ?sw\<rparr>" "r = Ok ()"
    using d Some by (auto simp: Mmu_deallocate_def freePages_view PageTable_pageCount_def Let_def eq cong: if_cong)
  have "v < length pt" if "pt_map pt v = Some f" for v f
    using that by (auto simp: pt_map_def split: if_splits)
  note v = drop_process_view [OF mmu_invD(2) [OF i] Some this st'(1) refl]
  then have "{pv \<in> pages st. fst pv \<noteq> p} = pages st'" by (auto simp: pages_shape split: if_splits)
  then show ?thesis using v st'(2) Some mmu_invD(1) [OF i] by (simp add: mmu_inv_def shape_def)
qed

lemma allocate_view:
  assumes i: "mmu_inv mem st" and it: "\<forall>k. iter_ok (iter k)"
    and al: "Mmu_allocate iter st mem p cnt = (st', r)"
  shows "mmu_inv mem st' \<and> (\<forall>qv. fst qv \<noteq> p \<or> isError r \<longrightarrow> content mem st' qv = content mem st qv)
    \<and> shape st' = (if r = Ok 0 then (shape st)(p \<mapsto> cnt) else shape st)
    \<and> (r = Ok 0 \<longrightarrow> (\<forall>v < cnt. vmap st' (p, v) \<noteq> None))
    \<and> (if cnt = 0 then r = Error InvalidAddress else if shape st p \<noteq> None then r = Error InvalidPid
       else r = Ok 0 \<or> r = Error OutOfMemory)"
proof (cases "cnt = 0 \<or> pageTables st p \<noteq> None")
  case True
  then show ?thesis using al i by (auto simp: Mmu_allocate_def shape_def split: if_splits)
next
  case False
  let ?s = "st\<lparr>pageTables := (pageTables st)(p \<mapsto> PageTable_new cnt)\<rparr>"
  have vm: "vmap ?s = vmap st" using False by (auto simp: vmap_def fun_eq_iff)
  have sp: "shape st p = None" using False by (simp add: shape_def)
  have o: "\<forall>pv \<in> pages st. fst pv \<noteq> p" using sp by (auto simp: pages_shape)
  have ct: "content mem ?s = content mem st"
    by (intro ext content_cong) (simp_all add: vm)
  have sh: "shape ?s = (shape st)(p \<mapsto> cnt)" by (auto simp: shape_def fun_eq_iff)
  have "allocating mem p (pages st) cnt 0 ?s"
    using mmu_invD(2) [OF i] o False sh vm unfolding allocating_def mmu_view_ok_def by (simp add: vmap_def)
  from allocate_loop_view [OF mmu_invD(1) [OF i] it this, of st' r]
  have res: "(r = Ok 0 \<and> allocating mem p (pages st) cnt cnt st' \<and> shape st' = (shape st)(p \<mapsto> cnt)
      \<or> r = Error OutOfMemory \<and> mmu_view_ok (PhysicalMemory_size mem) st' (pages st) \<and> shape st' = shape st)"
    and oth: "\<forall>qv. fst qv \<noteq> p \<longrightarrow> content mem st' qv = content mem st qv"
    using al False sp by (auto simp: Mmu_allocate_def sh ct fun_upd_idem)
  have inv: "mmu_inv mem st'"
    using res
  proof
    assume a: "r = Ok 0 \<and> allocating mem p (pages st) cnt cnt st' \<and> shape st' = (shape st)(p \<mapsto> cnt)"
    then have "pages st' = pages st \<union> {p} \<times> {..<cnt}"
      using sp by (auto simp: pages_shape split: if_splits)
    then show ?thesis using a mmu_invD(1) [OF i] by (simp add: mmu_inv_def allocating_def)
  next
    assume "r = Error OutOfMemory \<and> mmu_view_ok (PhysicalMemory_size mem) st' (pages st) \<and> shape st' = shape st"
    then show ?thesis using mmu_invD(1) [OF i] by (simp add: mmu_inv_def pages_shape)
  qed
  have "content mem st' (p, v) = content mem st (p, v)" if "isError r" for v
  proof -
    have "(p, v) \<notin> pages st'" "(p, v) \<notin> pages st" using that res sp by (auto simp: pages_shape)
    then show ?thesis using inv_content [OF inv, of "(p, v)"] inv_content [OF i, of "(p, v)"] by simp
  qed
  then have "\<forall>qv. fst qv \<noteq> p \<or> isError r \<longrightarrow> content mem st' qv = content mem st qv"
    using oth by auto (metis fst_conv)
  moreover have "\<forall>v < cnt. vmap st' (p, v) \<noteq> None" if "r = Ok 0"
    using that res by (auto simp: allocating_def)
  ultimately show ?thesis using inv res False sp by auto
qed

text \<open>With enough free frames an allocation never evicts and succeeds.\<close>

lemma allocate_loop_enough:
  assumes "\<forall>k. iter_ok (iter k)" "finite (freeFrames st)" "INVALID_FRAME \<notin> freeFrames st"
    "cnt - page \<le> card (freeFrames st)" "page \<le> cnt"
  shows "\<exists>st'. Mmu_allocate_loop iter mem pid [page..<cnt] st = (st', Ok 0)
    \<and> card (freeFrames st') = card (freeFrames st) - (cnt - page)"
  using assms(5,2-4)
proof (induction page arbitrary: st rule: inc_induct)
  case base
  then show ?case by simp
next
  case (step page)
  let ?f = "hd (iter page (freeFrames st))"
  let ?st = "st\<lparr>freeFrames := freeFrames st - {?f}, frameOwners := (frameOwners st)(?f \<mapsto> pid)\<rparr>"
  let ?st2 = "Mmu_install ?st pid page ?f"
  have ne: "freeFrames st \<noteq> {}" using step by auto
  have "iter_ok (iter page)" using assms(1) by blast
  then have f: "?f \<in> freeFrames st" using iter_ok_hd step.prems(1) ne by blast
  have ff: "freeFrames ?st2 = freeFrames st - {?f}" by (simp add: Mmu_install_def)
  then have c: "card (freeFrames ?st2) = card (freeFrames st) - 1" using f step.prems(1) by simp
  have upt: "[page..<cnt] = page # [Suc page..<cnt]" using step.hyps by (simp add: upt_rec)
  have "Mmu_allocate_loop iter mem pid [page..<cnt] st = Mmu_allocate_loop iter mem pid [Suc page..<cnt] ?st2"
    using ne f step.prems(2) unfolding upt by (auto simp: Mmu_allocateFrame_def Let_def)
  moreover have "\<exists>st'. Mmu_allocate_loop iter mem pid [Suc page..<cnt] ?st2 = (st', Ok 0)
      \<and> card (freeFrames st') = card (freeFrames ?st2) - (cnt - Suc page)"
    by (rule step.IH) (use step.prems ff c in auto)
  ultimately show ?case using c step.hyps by auto
qed

section \<open>Sequences of operations\<close>

datatype mmu_op =
    OpRead process_id memory_address
  | OpWrite process_id memory_address block
  | OpAllocate process_id nat
  | OpDeallocate process_id
  | OpSwapIn process_id memory_address
  | OpSwapOut process_id memory_address

fun mmu_exec :: "(nat \<Rightarrow> frame_id set \<Rightarrow> frame_id list) \<times> mmu_op \<Rightarrow> mmu \<times> physical_memory \<Rightarrow> mmu \<times> physical_memory" where
  "mmu_exec (iter, OpRead p va) (st, mem) = (fst (Mmu_read st mem p va), mem)"
| "mmu_exec (iter, OpWrite p va b) (st, mem) = fst (Mmu_write st mem p va b)"
| "mmu_exec (iter, OpAllocate p n) (st, mem) = (fst (Mmu_allocate iter st mem p n), mem)"
| "mmu_exec (iter, OpDeallocate p) (st, mem) = (fst (Mmu_deallocate st p), mem)"
| "mmu_exec (iter, OpSwapIn p va) (st, mem) = fst (Mmu_swapIn (iter 0) st mem p va)"
| "mmu_exec (iter, OpSwapOut p va) (st, mem) = (fst (Mmu_swapOut st mem p va), mem)"

lemma mmu_exec_inv:
  assumes "mmu_inv mem st" "\<forall>k. iter_ok (iter k)" "mmu_exec (iter, oper) (st, mem) = (st', mem')"
  shows "mmu_inv mem' st' \<and> PhysicalMemory_size mem' = PhysicalMemory_size mem"
proof (cases oper)
  case (OpRead p va)
  then show ?thesis using assms read_view [OF assms(1), of p va] by (cases "Mmu_read st mem p va") auto
next
  case (OpWrite p va b)
  then show ?thesis using assms write_view [OF assms(1), of p va b st' mem'] by (cases "Mmu_write st mem p va b") auto
next
  case (OpAllocate p n)
  then show ?thesis using assms allocate_view [OF assms(1,2), of p n] by (cases "Mmu_allocate iter st mem p n") auto
next
  case (OpDeallocate p)
  then show ?thesis using assms deallocate_view [OF assms(1), of p] by (cases "Mmu_deallocate st p") auto
next
  case (OpSwapIn p va)
  have "iter_ok (iter 0)" using assms(2) by blast
  then show ?thesis
    using OpSwapIn assms swapIn_view [OF assms(1), of "iter 0" p va st' mem'] by (cases "Mmu_swapIn (iter 0) st mem p va") auto
next
  case (OpSwapOut p va)
  then show ?thesis using assms swapOut_view [OF assms(1), of p va] by (cases "Mmu_swapOut st mem p va") auto
qed

lemma mmu_new_inv:
  assumes "PhysicalMemory_size mem < 2 ^ 32" "policy_wf policy" "policy_frames policy = {}"
  shows "mmu_inv mem (Mmu_new mem policy)"
  using assms
  by (simp add: mmu_inv_def mmu_view_ok_def frames_ok_def Mmu_new_def vmap_def pages_def all_frames_def split_def)

lemma mmu_run_inv:
  assumes "mmu_inv mem st" "\<forall>(iter, oper) \<in> set ops. \<forall>k. iter_ok (iter k)"
    "fold mmu_exec ops (st, mem) = (st', mem')"
  shows "mmu_inv mem' st' \<and> PhysicalMemory_size mem' = PhysicalMemory_size mem"
  using assms
proof (induction ops arbitrary: st mem)
  case (Cons io ops)
  obtain iter oper where io: "io = (iter, oper)" by fastforce
  obtain st1 mem1 where e: "mmu_exec (iter, oper) (st, mem) = (st1, mem1)" by fastforce
  have "mmu_inv mem1 st1 \<and> PhysicalMemory_size mem1 = PhysicalMemory_size mem"
    using mmu_exec_inv [OF Cons.prems(1) _ e] Cons.prems(2) io by simp
  then show ?case using Cons.IH [of mem1 st1] Cons.prems e io by simp
qed simp

lemma inv_frame_count:
  assumes "mmu_inv mem st"
  shows "Mmu_freeFrames st + card (dom (vmap st)) = Mmu_totalFrames st"
proof -
  note i = mmu_invD [OF assms]
  note fo = frames_okD [OF i(3)]
  have "bij_betw (\<lambda>pv. the (vmap st pv)) (dom (vmap st)) (dom (frameOwners st))"
    unfolding bij_betw_def
  proof
    show "inj_on (\<lambda>pv. the (vmap st pv)) (dom (vmap st))"
      using fo(4) by (intro inj_onI) (metis domIff option.collapse)
    show "(\<lambda>pv. the (vmap st pv)) ` dom (vmap st) = dom (frameOwners st)"
    proof
      show "(\<lambda>pv. the (vmap st pv)) ` dom (vmap st) \<subseteq> dom (frameOwners st)" using fo(3) by fastforce
      show "dom (frameOwners st) \<subseteq> (\<lambda>pv. the (vmap st pv)) ` dom (vmap st)"
      proof
        fix f
        assume "f \<in> dom (frameOwners st)"
        then obtain p v where "vmap st (p, v) = Some f" using fo(5) by blast
        then show "f \<in> (\<lambda>pv. the (vmap st pv)) ` dom (vmap st)" by (intro image_eqI [of _ _ "(p, v)"]) auto
      qed
    qed
  qed
  then have "card (dom (vmap st)) = card (dom (frameOwners st))" by (rule bij_betw_same_card)
  moreover have "card (freeFrames st) + card (dom (frameOwners st)) = card (all_frames (PhysicalMemory_size mem))"
    using fo(1,2) card_Un_disjoint by (metis finite_Un finite_all_frames)
  ultimately show ?thesis
    using card_all_frames [OF i(1)] view_okD(4) [OF i(2)] by (simp add: Mmu_freeFrames_def Mmu_totalFrames_def)
qed

lemma inv_finite: "mmu_inv mem st \<Longrightarrow> finite (dom (vmap st))"
  by (rule inj_on_finite [of "\<lambda>pv. the (vmap st pv)" _ "all_frames (PhysicalMemory_size mem)"])
    (auto simp: inj_on_def dest: inv_resident(1) frames_okD(4) [OF mmu_invD(3)])

lemma deallocate_vmap:
  assumes "Mmu_deallocate st p = (st', r)"
  shows "vmap st' = (\<lambda>pv. if fst pv = p then None else vmap st pv)"
  using assms by (auto simp: Mmu_deallocate_def vmap_def freePages_view Let_def fun_eq_iff split: option.splits)

lemma allocate_enough:
  assumes "mmu_inv mem st" "\<forall>k. iter_ok (iter k)" "Mmu_allocate iter st mem p n = (st', r)"
    "0 < n" "shape st p = None" "n \<le> Mmu_freeFrames st"
  shows "r = Ok 0 \<and> Mmu_freeFrames st' = Mmu_freeFrames st - n"
proof -
  let ?s = "st\<lparr>pageTables := (pageTables st)(p \<mapsto> PageTable_new n)\<rparr>"
  have f: "finite (freeFrames st)" "INVALID_FRAME \<notin> freeFrames st"
    using frames_okD(1) [OF mmu_invD(3) [OF assms(1)]] INVALID_not_frame [OF mmu_invD(1) [OF assms(1)]]
      finite_all_frames by (metis finite_Un, blast)
  have "Mmu_allocate_loop iter mem p [0..<n] ?s = (st', r)"
    using assms(3-5) by (simp add: Mmu_allocate_def shape_def)
  then show ?thesis
    using allocate_loop_enough [OF assms(2), of ?s n 0 mem p] f assms(6) by (simp add: Mmu_freeFrames_def)
qed

section \<open>Properties\<close>

text \<open>
  C2: Frame accounting. After any sequence of reads, writes, allocations (with evictions and
  rollbacks), deallocations and swaps on a new unit, for every replacement policy and every iteration
  order: the free frames and the resident pages account for every physical frame, no two pages
  share a frame, every resident page is in a frame its own process owns, and every page of every
  process has its data in exactly one of memory and swap space.
\<close>

theorem mmu_reachable_inv:
  assumes "PhysicalMemory_size mem < 2 ^ 32" "policy_wf policy" "policy_frames policy = {}"
    "\<forall>(iter, oper) \<in> set ops. \<forall>k. iter_ok (iter k)"
    "fold mmu_exec ops (Mmu_new mem policy, mem) = (st, mem')"
  shows "Mmu_freeFrames st + card (dom (vmap st)) = PhysicalMemory_size mem
    \<and> (\<forall>pv qv f. vmap st pv = Some f \<longrightarrow> vmap st qv = Some f \<longrightarrow> pv = qv)
    \<and> (\<forall>pv f. vmap st pv = Some f \<longrightarrow> frameOwners st f = Some (fst pv) \<and> f \<notin> freeFrames st)
    \<and> dom (swapSpace st) = pages st - dom (vmap st) \<and> dom (vmap st) \<subseteq> pages st"
proof -
  have inv: "mmu_inv mem' st" and sz: "PhysicalMemory_size mem' = PhysicalMemory_size mem"
    using mmu_run_inv [OF mmu_new_inv [OF assms(1-3)] assms(4,5)] by auto
  note fo = frames_okD [OF mmu_invD(3) [OF inv]]
  have "Mmu_totalFrames st = PhysicalMemory_size mem"
    using view_okD(4) [OF mmu_invD(2) [OF inv]] sz by (simp add: Mmu_totalFrames_def)
  moreover have "f \<notin> freeFrames st" if "vmap st pv = Some f" for pv f
    using fo(2) fo(3) [OF that] by blast
  ultimately show ?thesis
    using inv_frame_count [OF inv] fo(3,4,6,7) by auto
qed

text \<open>A run on two frames: process 1 takes both, process 2 evicts, process 1 swaps back in.\<close>

theorem mmu_reachable_inv_witness:
  "\<exists>st mem'. fold mmu_exec
     [(\<lambda>_. sorted_list_of_set, OpAllocate 1 2), (\<lambda>_. sorted_list_of_set, OpAllocate 2 1), (\<lambda>_. sorted_list_of_set, OpSwapIn 1 0)]
     (Mmu_new (PhysicalMemory_new 2) (FifoReplacement Fifo_new), PhysicalMemory_new 2) = (st, mem')
   \<and> Mmu_freeFrames st + card (dom (vmap st)) = 2"
proof -
  let ?ops = "[(\<lambda>_. sorted_list_of_set, OpAllocate 1 2), (\<lambda>_. sorted_list_of_set, OpAllocate 2 1), (\<lambda>_. sorted_list_of_set, OpSwapIn 1 0)]"
  obtain st mem' where r: "fold mmu_exec ?ops (Mmu_new (PhysicalMemory_new 2) (FifoReplacement Fifo_new), PhysicalMemory_new 2) = (st, mem')"
    by (metis surj_pair)
  have "PhysicalMemory_size (PhysicalMemory_new 2) = 2" by (simp add: PhysicalMemory_size_def PhysicalMemory_new_def)
  then have "Mmu_freeFrames st + card (dom (vmap st)) = 2"
    using mmu_reachable_inv [OF _ _ _ _ r] by (simp add: Fifo_new_def iter_ok_sorted)
  then show ?thesis using r by blast
qed

text \<open>
  Reads. A read returns what the address holds, \<^verbatim>\<open>SegmentationFault\<close> when the page is swapped out,
  \<^verbatim>\<open>InvalidAddress\<close> past the process's pages and \<^verbatim>\<open>InvalidPid\<close> for an unknown process; it changes the
  content of no address and moves no page, although it updates reference bits and the policy.
\<close>

theorem mmu_read_content:
  assumes "mmu_inv mem st" "Mmu_read st mem p va = (st', r)"
  shows "mmu_inv mem st' \<and> vmap st' = vmap st \<and> content mem st' = content mem st
    \<and> r = (case shape st p of None \<Rightarrow> Error InvalidPid
           | Some n \<Rightarrow> if unat va \<ge> n then Error InvalidAddress
                     else if vmap st (p, unat va) = None then Error SegmentationFault
                     else Ok (the (content mem st (p, unat va))))"
  using read_view [OF assms] by blast

theorem mmu_read_content_witness:
  "snd (Mmu_read (Mmu_new (PhysicalMemory_new 2) (FifoReplacement Fifo_new)) (PhysicalMemory_new 2) 7 0) = Error InvalidPid"
proof -
  let ?m = "PhysicalMemory_new 2" and ?st = "Mmu_new (PhysicalMemory_new 2) (FifoReplacement Fifo_new)"
  have inv: "mmu_inv ?m ?st"
    by (rule mmu_new_inv) (auto simp: PhysicalMemory_size_def PhysicalMemory_new_def Fifo_new_def)
  obtain st' r where r: "Mmu_read ?st ?m 7 0 = (st', r)" by fastforce
  show ?thesis using mmu_read_content [OF inv r] r by (simp add: shape_def Mmu_new_def)
qed

text \<open>
  C21: Writes are isolated. A successful write changes the content of the written address of that
  process to the written block and of no other address of any process, and a later read of the
  address returns the block; a failing write changes no content.
\<close>

theorem mmu_write_isolated:
  assumes "mmu_inv mem st" "Mmu_write st mem p va b = ((st', mem'), r)"
  shows "mmu_inv mem' st'
    \<and> (r = Ok () \<longrightarrow> content mem' st' = (content mem st)((p, unat va) \<mapsto> b) \<and> snd (Mmu_read st' mem' p va) = Ok b)
    \<and> (r \<noteq> Ok () \<longrightarrow> content mem' st' = content mem st)"
proof -
  note w = write_view [OF assms]
  obtain st2 r2 where rd: "Mmu_read st' mem' p va = (st2, r2)" by fastforce
  have i: "mmu_inv mem' st'" using w by blast
  have "r2 = Ok b" if "r = Ok ()"
    using that w read_view [OF i rd] by (auto split: option.splits if_splits)
  then show ?thesis using w rd by auto
qed

text \<open>
  The state of the witnesses: two frames, both taken by process 1.
\<close>

definition demo_memory :: physical_memory where
  "demo_memory = PhysicalMemory_new 2"

definition demo_mmu :: mmu where
  "demo_mmu = fst (Mmu_allocate (\<lambda>_. sorted_list_of_set)
     (Mmu_new demo_memory (FifoReplacement Fifo_new)) demo_memory 1 2)"

lemma demo_inv: "mmu_inv demo_memory demo_mmu"
proof -
  have "mmu_inv demo_memory (Mmu_new demo_memory (FifoReplacement Fifo_new))"
    by (rule mmu_new_inv) (auto simp: demo_memory_def PhysicalMemory_size_def PhysicalMemory_new_def Fifo_new_def)
  then show ?thesis
    using allocate_view iter_ok_sorted unfolding demo_mmu_def by (metis prod.collapse)
qed

theorem mmu_write_isolated_witness:
  "\<exists>st' mem'. Mmu_write demo_mmu demo_memory 1 1 (Block Add 3 4 0) = ((st', mem'), Ok ())
    \<and> snd (Mmu_read st' mem' 1 1) = Ok (Block Add 3 4 0)"
proof -
  have ok: "snd (Mmu_write demo_mmu demo_memory 1 1 (Block Add 3 4 0)) = Ok ()" by code_simp
  obtain st' mem' r where r: "Mmu_write demo_mmu demo_memory 1 1 (Block Add 3 4 0) = ((st', mem'), r)"
    by (metis surj_pair)
  show ?thesis using mmu_write_isolated [OF demo_inv r] r ok by simp
qed

text \<open>
  C8: Swapping is transparent. Swapping a page in or out changes the content of no address of any
  process, even when swapping in evicts a page of another process; a page that is swapped in is
  resident afterwards, so that a read returns its content, and swapping in a page of a process always
  succeeds when there is a frame at all.
\<close>

theorem mmu_swap_transparent:
  assumes "mmu_inv mem st" "iter_ok iter"
    "Mmu_swapOut st mem p va = (st1, r1)" "Mmu_swapIn iter st1 mem q vb = ((st2, mem2), r2)"
  shows "mmu_inv mem2 st2 \<and> content mem st1 = content mem st \<and> content mem2 st2 = content mem st
    \<and> (PhysicalMemory_size mem > 0 \<longrightarrow> (q, unat vb) \<in> pages st \<longrightarrow>
        r2 = Ok () \<and> snd (Mmu_read st2 mem2 q vb) = Ok (the (content mem st (q, unat vb))))"
proof -
  note o = swapOut_view [OF assms(1,3)]
  have i1: "mmu_inv mem st1" using o by blast
  note n = swapIn_view [OF i1 assms(2,4)]
  have i2: "mmu_inv mem2 st2" using n by blast
  obtain st3 r3 where rd: "Mmu_read st2 mem2 q vb = (st3, r3)" by fastforce
  have "r2 = Ok () \<and> r3 = Ok (the (content mem st (q, unat vb)))"
    if sz: "PhysicalMemory_size mem > 0" and pg: "(q, unat vb) \<in> pages st"
  proof -
    have "all_frames (PhysicalMemory_size mem) \<noteq> {}" using sz by (auto simp: all_frames_def)
    moreover obtain k where "shape st q = Some k" "unat vb < k" using pg by (auto simp: pages_shape)
    ultimately show ?thesis using n o read_view [OF i2 rd] by auto
  qed
  then show ?thesis using o n i2 rd by simp
qed

theorem mmu_swap_transparent_witness:
  "\<exists>st1 st2 mem2. Mmu_swapOut demo_mmu demo_memory 1 1 = (st1, Ok ())
    \<and> Mmu_swapIn sorted_list_of_set st1 demo_memory 1 1 = ((st2, mem2), Ok ())
    \<and> content mem2 st2 (1, 1) = content demo_memory demo_mmu (1, 1)"
proof -
  have ok: "snd (Mmu_swapOut demo_mmu demo_memory 1 1) = Ok ()" by code_simp
  obtain st1 r1 where r1: "Mmu_swapOut demo_mmu demo_memory 1 1 = (st1, r1)" by fastforce
  obtain st2 mem2 r2 where r2: "Mmu_swapIn sorted_list_of_set st1 demo_memory 1 1 = ((st2, mem2), r2)"
    by (metis surj_pair)
  have "shape demo_mmu 1 = Some 2" by code_simp
  then have "(1, unat (1 :: memory_address)) \<in> pages demo_mmu" by (simp add: pages_shape)
  moreover have "PhysicalMemory_size demo_memory > 0" by code_simp
  ultimately show ?thesis
    using mmu_swap_transparent [OF demo_inv iter_ok_sorted r1 r2] r1 r2 ok by simp
qed

text \<open>
  Allocation. Whatever its outcome, an allocation keeps the content of every page of every other
  process, although it may move their pages to swap space. On success every page of the new process
  is resident; on failure the process has no pages and nothing else changed in content, however far the
  loop had come. It succeeds when there are enough free frames.
\<close>

theorem mmu_allocate_isolated:
  assumes "mmu_inv mem st" "\<forall>k. iter_ok (iter k)" "Mmu_allocate iter st mem p n = (st', r)"
  shows "mmu_inv mem st' \<and> (\<forall>qv. fst qv \<noteq> p \<or> isError r \<longrightarrow> content mem st' qv = content mem st qv)
    \<and> (r = Ok 0 \<longrightarrow> (\<forall>v < n. vmap st' (p, v) \<noteq> None) \<and> shape st' = (shape st)(p \<mapsto> n))
    \<and> (r \<noteq> Ok 0 \<longrightarrow> shape st' = shape st)
    \<and> (0 < n \<longrightarrow> shape st p = None \<longrightarrow> n \<le> Mmu_freeFrames st \<longrightarrow>
        r = Ok 0 \<and> Mmu_freeFrames st' = Mmu_freeFrames st - n)"
  using allocate_view [OF assms] allocate_enough [OF assms] by auto

theorem mmu_allocate_isolated_witness:
  "\<exists>st'. Mmu_allocate (\<lambda>_. sorted_list_of_set) demo_mmu demo_memory 2 1 = (st', Ok 0)
    \<and> vmap st' (2, 0) \<noteq> None \<and> vmap st' (1, 0) = None
    \<and> content demo_memory st' (1, 0) = content demo_memory demo_mmu (1, 0)"
proof -
  let ?r = "Mmu_allocate (\<lambda>_. sorted_list_of_set) demo_mmu demo_memory 2 1"
  have ok: "snd ?r = Ok 0" "vmap (fst ?r) (1, 0) = None" by code_simp+
  obtain st' r where r: "?r = (st', r)" by fastforce
  have "\<forall>k :: nat. iter_ok (sorted_list_of_set :: frame_id set \<Rightarrow> _)" by (simp add: iter_ok_sorted)
  from mmu_allocate_isolated [OF demo_inv this r] show ?thesis using r ok by simp
qed

text \<open>
  Deallocation. It removes exactly the pages of that process, in memory and in swap space, gives
  their frames back and keeps the content of every other process.
\<close>

theorem mmu_deallocate_exact:
  assumes "mmu_inv mem st" "Mmu_deallocate st p = (st', r)"
  shows "mmu_inv mem st' \<and> r = (if shape st p = None then Error InvalidPid else Ok ())
    \<and> (\<forall>q v. content mem st' (q, v) = (if q = p then None else content mem st (q, v)))
    \<and> Mmu_freeFrames st' = Mmu_freeFrames st + card {v. vmap st (p, v) \<noteq> None}"
proof -
  note d = deallocate_view [OF assms]
  have i': "mmu_inv mem st'" using d by blast
  have "(p, v) \<notin> pages st'" for v using d by (simp add: pages_shape)
  then have "content mem st' (p, v) = None" for v using inv_content [OF i', of "(p, v)"] by simp
  moreover have "Mmu_freeFrames st' = Mmu_freeFrames st + card {v. vmap st (p, v) \<noteq> None}"
  proof -
    let ?A = "Pair p ` {v. vmap st (p, v) \<noteq> None}"
    have vm: "vmap st' = (\<lambda>pv. if fst pv = p then None else vmap st pv)"
      by (rule deallocate_vmap [OF assms(2)])
    have fin: "finite (dom (vmap st))" by (rule inv_finite [OF assms(1)])
    have "dom (vmap st) = dom (vmap st') \<union> ?A" "dom (vmap st') \<inter> ?A = {}"
      unfolding vm dom_drop by auto
    moreover have "card ?A = card {v. vmap st (p, v) \<noteq> None}" by (simp add: card_image inj_on_def)
    ultimately have "card (dom (vmap st)) = card (dom (vmap st')) + card {v. vmap st (p, v) \<noteq> None}"
      using fin card_Un_disjoint by (metis finite_Un)
    moreover have "Mmu_totalFrames st' = Mmu_totalFrames st"
      using view_okD(4) mmu_invD(2) assms(1) i' by (metis Mmu_totalFrames_def)
    ultimately show ?thesis using inv_frame_count [OF assms(1)] inv_frame_count [OF i'] by simp
  qed
  ultimately show ?thesis using d by auto
qed


theorem mmu_deallocate_exact_witness:
  "\<exists>st'. Mmu_deallocate demo_mmu 1 = (st', Ok ()) \<and> content demo_memory st' (1, 0) = None"
proof -
  have ok: "snd (Mmu_deallocate demo_mmu 1) = Ok ()" by code_simp
  obtain st' r where r: "Mmu_deallocate demo_mmu 1 = (st', r)" by fastforce
  show ?thesis using mmu_deallocate_exact [OF demo_inv r] r ok by simp
qed

end
