(* ===== verification/Virtual_Memory.thy ===== *)
theory Virtual_Memory
  imports Mmu
begin

text \<open>
  The slot manager \<^verbatim>\<open>memory/virtual_memory.cpp\<close>: one slot per process, backed by the MMU. It keeps a
  reference to the MMU, which is an argument of its operations together with the memory below it.
\<close>

section \<open>State and operations\<close>

record slot_info =
  si_processId :: process_id
  si_size :: nat

record virtual_memory =
  maxSlots :: nat
  slots :: "process_id \<rightharpoonup> slot_info"

definition VirtualMemory_new :: "nat \<Rightarrow> virtual_memory" where
  "VirtualMemory_new n = \<lparr>maxSlots = n, slots = Map.empty\<rparr>"

definition VirtualMemory_allocateSlot ::
  "(nat \<Rightarrow> frame_id set \<Rightarrow> frame_id list) \<Rightarrow> virtual_memory \<Rightarrow> mmu \<Rightarrow> physical_memory \<Rightarrow> process_id \<Rightarrow> nat
    \<Rightarrow> (virtual_memory \<times> mmu) \<times> memory_address result" where
  "VirtualMemory_allocateSlot iter vm mmu mem pid sz =
     (if sz = 0 then ((vm, mmu), Error InvalidAddress)
      else if card (dom (slots vm)) \<ge> maxSlots vm then ((vm, mmu), Error OutOfMemory)
      else if slots vm pid \<noteq> None then ((vm, mmu), Error InvalidPid)
      else
        (case Mmu_allocate iter mmu mem pid sz of
           (mmu', Error e) \<Rightarrow> ((vm, mmu'), Error e)
         | (mmu', Ok a) \<Rightarrow>
             ((vm\<lparr>slots := (slots vm)(pid \<mapsto> \<lparr>si_processId = pid, si_size = sz\<rparr>)\<rparr>, mmu'), Ok a)))"

definition VirtualMemory_freeSlot ::
  "virtual_memory \<Rightarrow> mmu \<Rightarrow> process_id \<Rightarrow> (virtual_memory \<times> mmu) \<times> unit result" where
  "VirtualMemory_freeSlot vm mmu pid =
     (case slots vm pid of
        None \<Rightarrow> ((vm, mmu), Error InvalidPid)
      | Some _ \<Rightarrow>
          (case Mmu_deallocate mmu pid of
             (mmu', Error e) \<Rightarrow> ((vm, mmu'), Error e)
           | (mmu', Ok _) \<Rightarrow> ((vm\<lparr>slots := (slots vm)(pid := None)\<rparr>, mmu'), Ok ())))"

text \<open>The loop writes block \<open>i\<close> to virtual address \<open>i\<close> and stops at the first error.\<close>

fun loadSegment_loop ::
  "process_id \<Rightarrow> nat \<Rightarrow> block list \<Rightarrow> mmu \<Rightarrow> physical_memory \<Rightarrow> (mmu \<times> physical_memory) \<times> unit result" where
  "loadSegment_loop pid i [] mmu mem = ((mmu, mem), Ok ())"
| "loadSegment_loop pid i (b # bs) mmu mem =
     (case Mmu_write mmu mem pid (word_of_nat i) b of
        ((mmu', mem'), Error e) \<Rightarrow> ((mmu', mem'), Error e)
      | ((mmu', mem'), Ok _) \<Rightarrow> loadSegment_loop pid (Suc i) bs mmu' mem')"

definition VirtualMemory_loadSegment ::
  "virtual_memory \<Rightarrow> mmu \<Rightarrow> physical_memory \<Rightarrow> process_id \<Rightarrow> block list \<Rightarrow> (mmu \<times> physical_memory) \<times> unit result" where
  "VirtualMemory_loadSegment vm mmu mem pid data =
     (case slots vm pid of
        None \<Rightarrow> ((mmu, mem), Error InvalidPid)
      | Some si \<Rightarrow>
          if length data > si_size si then ((mmu, mem), Error OutOfMemory)
          else loadSegment_loop pid 0 data mmu mem)"

fun readSegment_loop ::
  "process_id \<Rightarrow> nat list \<Rightarrow> block list \<Rightarrow> mmu \<Rightarrow> physical_memory \<Rightarrow> mmu \<times> block list result" where
  "readSegment_loop pid [] acc mmu mem = (mmu, Ok acc)"
| "readSegment_loop pid (i # is) acc mmu mem =
     (case Mmu_read mmu mem pid (word_of_nat i) of
        (mmu', Error e) \<Rightarrow> (mmu', Error e)
      | (mmu', Ok b) \<Rightarrow> readSegment_loop pid is (acc @ [b]) mmu' mem)"

definition VirtualMemory_readSegment ::
  "virtual_memory \<Rightarrow> mmu \<Rightarrow> physical_memory \<Rightarrow> process_id \<Rightarrow> mmu \<times> block list result" where
  "VirtualMemory_readSegment vm mmu mem pid =
     (case slots vm pid of
        None \<Rightarrow> (mmu, Error InvalidPid)
      | Some si \<Rightarrow> readSegment_loop pid [0..<si_size si] [] mmu mem)"

definition VirtualMemory_totalSlots :: "virtual_memory \<Rightarrow> nat" where
  "VirtualMemory_totalSlots vm = maxSlots vm"

definition VirtualMemory_freeSlots :: "virtual_memory \<Rightarrow> nat" where
  "VirtualMemory_freeSlots vm = maxSlots vm - card (dom (slots vm))"

definition VirtualMemory_hasSlot :: "virtual_memory \<Rightarrow> process_id \<Rightarrow> bool" where
  "VirtualMemory_hasSlot vm pid \<longleftrightarrow> slots vm pid \<noteq> None"

definition VirtualMemory_slotSize :: "virtual_memory \<Rightarrow> process_id \<Rightarrow> nat" where
  "VirtualMemory_slotSize vm pid = (case slots vm pid of None \<Rightarrow> 0 | Some si \<Rightarrow> si_size si)"

section \<open>The invariant\<close>

text \<open>Slots and page tables agree, and there are never more than \<^verbatim>\<open>maxSlots\<close> of them.\<close>

definition vm_inv :: "virtual_memory \<Rightarrow> mmu \<Rightarrow> bool" where
  "vm_inv vm mmu \<longleftrightarrow>
     (\<forall>p. shape mmu p = map_option si_size (slots vm p)) \<and> finite (dom (slots vm))
     \<and> card (dom (slots vm)) \<le> maxSlots vm
     \<and> (\<forall>p si. slots vm p = Some si \<longrightarrow> si_processId si = p \<and> 0 < si_size si)"

lemma allocateSlot_inv:
  assumes "vm_inv vm mmu" "mmu_inv mem mmu" "\<forall>k. iter_ok (iter k)"
    "VirtualMemory_allocateSlot iter vm mmu mem p n = ((vm', mmu'), r)"
  shows "vm_inv vm' mmu' \<and> mmu_inv mem mmu'
    \<and> (\<forall>qv. fst qv \<noteq> p \<longrightarrow> content mem mmu' qv = content mem mmu qv)
    \<and> (isOk r \<longrightarrow> slots vm' = (slots vm)(p \<mapsto> \<lparr>si_processId = p, si_size = n\<rparr>) \<and> (\<forall>v < n. vmap mmu' (p, v) \<noteq> None))
    \<and> (isError r \<longrightarrow> slots vm' = slots vm) \<and> maxSlots vm' = maxSlots vm"
proof (cases "n = 0 \<or> card (dom (slots vm)) \<ge> maxSlots vm \<or> slots vm p \<noteq> None")
  case True
  then have "vm' = vm" "mmu' = mmu" "isError r"
    using assms(4) by (auto simp: VirtualMemory_allocateSlot_def split: if_splits)
  then show ?thesis using assms(1,2) by (cases r) auto
next
  case False
  obtain m r1 where a: "Mmu_allocate iter mmu mem p n = (m, r1)" by fastforce
  have "shape mmu p = None" using assms(1) False by (simp add: vm_inv_def)
  with allocate_view [OF assms(2,3) a] False have
    v: "mmu_inv mem m" "\<forall>qv. fst qv \<noteq> p \<longrightarrow> content mem m qv = content mem mmu qv"
    "shape m = (if r1 = Ok 0 then (shape mmu)(p \<mapsto> n) else shape mmu)"
    "r1 = Ok 0 \<longrightarrow> (\<forall>v < n. vmap m (p, v) \<noteq> None)" "r1 = Ok 0 \<or> r1 = Error OutOfMemory"
    by auto
  show ?thesis
  proof (cases "r1 = Ok 0")
    case True
    then have "mmu' = m" "r = Ok 0" "vm' = vm\<lparr>slots := (slots vm)(p \<mapsto> \<lparr>si_processId = p, si_size = n\<rparr>)\<rparr>"
      using assms(4) False a by (auto simp: VirtualMemory_allocateSlot_def)
    moreover have "card (insert p (dom (slots vm))) \<le> maxSlots vm"
      using False assms(1) by (simp add: vm_inv_def card_insert_if)
    ultimately show ?thesis using v True assms(1) False by (auto simp: vm_inv_def)
  next
    case err: False
    then have "mmu' = m" "vm' = vm" "isError r"
      using assms(4) False a v(5) by (auto simp: VirtualMemory_allocateSlot_def)
    then show ?thesis using v err assms(1) by (cases r) (auto simp: vm_inv_def)
  qed
qed

lemma freeSlot_inv:
  assumes "vm_inv vm mmu" "mmu_inv mem mmu" "VirtualMemory_freeSlot vm mmu p = ((vm', mmu'), r)"
  shows "vm_inv vm' mmu' \<and> mmu_inv mem mmu' \<and> slots vm' = (slots vm)(p := None) \<and> maxSlots vm' = maxSlots vm
    \<and> (\<forall>qv. fst qv \<noteq> p \<longrightarrow> content mem mmu' qv = content mem mmu qv)
    \<and> r = (if slots vm p = None then Error InvalidPid else Ok ())"
proof (cases "slots vm p")
  case None
  then show ?thesis using assms by (auto simp: VirtualMemory_freeSlot_def fun_upd_idem)
next
  case (Some si)
  obtain m r1 where a: "Mmu_deallocate mmu p = (m, r1)" by fastforce
  have "shape mmu p \<noteq> None" using assms(1) Some by (simp add: vm_inv_def)
  with deallocate_view [OF assms(2) a] have
    v: "mmu_inv mem m" "shape m = (shape mmu)(p := None)" "r1 = Ok ()"
    "\<forall>qv. fst qv \<noteq> p \<longrightarrow> content mem m qv = content mem mmu qv" by auto
  have "mmu' = m" "vm' = vm\<lparr>slots := (slots vm)(p := None)\<rparr>" "r = Ok ()"
    using assms(3) Some a v(3) by (auto simp: VirtualMemory_freeSlot_def)
  moreover have "card (dom (slots vm) - {p}) \<le> maxSlots vm"
    using assms(1) card_Diff1_le [of "dom (slots vm)" p] by (auto simp: vm_inv_def intro: order_trans)
  ultimately show ?thesis using v Some assms(1) by (auto simp: vm_inv_def)
qed

section \<open>Segments\<close>

lemma loadSegment_loop_view:
  assumes "mmu_inv mem st" "i + length bs \<le> 2 ^ 32" "loadSegment_loop p i bs st mem = ((st', mem'), r)"
  shows "mmu_inv mem' st' \<and> shape st' = shape st \<and> vmap st' = vmap st
    \<and> (\<forall>q v. q \<noteq> p \<or> v < i \<longrightarrow> content mem' st' (q, v) = content mem st (q, v))
    \<and> (r = Ok () \<longrightarrow> (\<forall>k < length bs. content mem' st' (p, i + k) = Some (bs ! k) \<and> vmap st' (p, i + k) \<noteq> None)
        \<and> (\<forall>v. i + length bs \<le> v \<longrightarrow> content mem' st' (p, v) = content mem st (p, v)))"
  using assms
proof (induction bs arbitrary: i st mem)
  case Nil
  then show ?case by auto
next
  case (Cons b bs)
  obtain st1 mem1 r1 where w: "Mmu_write st mem p (word_of_nat i) b = ((st1, mem1), r1)" by (metis surj_pair)
  have ui: "unat (word_of_nat i :: memory_address) = i"
    using Cons.prems(2) by (simp add: unat_of_nat)
  note wv = write_view [OF Cons.prems(1) w, unfolded ui]
  show ?case
  proof (cases "r1 = Ok ()")
    case False
    then obtain e where "r1 = Error e" by (cases r1) auto
    then show ?thesis using Cons.prems(3) w wv False by simp
  next
    case True
    have l: "loadSegment_loop p (Suc i) bs st1 mem1 = ((st', mem'), r)"
      using Cons.prems(3) w True by simp
    have i1: "mmu_inv mem1 st1" using wv by blast
    note IH = Cons.IH [OF i1 _ l]
    have c1: "content mem1 st1 = (content mem st)((p, i) \<mapsto> b)" "vmap st1 = vmap st" "shape st1 = shape st"
      using wv True by auto
    have vi: "vmap st (p, i) \<noteq> None" using wv True by (auto split: option.splits if_splits)
    have IH': "mmu_inv mem' st'" "shape st' = shape st" "vmap st' = vmap st"
      "\<forall>q v. q \<noteq> p \<or> v < Suc i \<longrightarrow> content mem' st' (q, v) = content mem1 st1 (q, v)"
      "r = Ok () \<longrightarrow> (\<forall>k < length bs. content mem' st' (p, Suc i + k) = Some (bs ! k) \<and> vmap st' (p, Suc i + k) \<noteq> None)
        \<and> (\<forall>v. Suc i + length bs \<le> v \<longrightarrow> content mem' st' (p, v) = content mem1 st1 (p, v))"
      using IH Cons.prems(2) c1 by auto
    have "content mem' st' (p, i + k) = Some ((b # bs) ! k) \<and> vmap st' (p, i + k) \<noteq> None"
      if "r = Ok ()" "k < length (b # bs)" for k
      using that IH' c1 vi by (cases k) auto
    moreover have "content mem' st' (q, v) = content mem st (q, v)" if "q \<noteq> p \<or> v < i" for q v
      using that IH'(4) c1(1) by auto
    moreover have "content mem' st' (p, v) = content mem st (p, v)" if "r = Ok ()" "i + length (b # bs) \<le> v" for v
      using that IH'(5) c1(1) by auto
    ultimately show ?thesis using IH' by blast
  qed
qed

lemma readSegment_loop_view:
  assumes "mmu_inv mem st" "\<forall>i \<in> set is. i < 2 ^ 32 \<and> vmap st (p, i) \<noteq> None"
  shows "\<exists>st'. readSegment_loop p is acc st mem = (st', Ok (acc @ map (\<lambda>i. the (content mem st (p, i))) is))"
  using assms
proof (induction "is" arbitrary: st acc)
  case Nil
  then show ?case by simp
next
  case (Cons i "is")
  obtain st1 r1 where rd: "Mmu_read st mem p (word_of_nat i) = (st1, r1)" by fastforce
  have ui: "unat (word_of_nat i :: memory_address) = i"
    using Cons.prems(2) by (simp add: unat_of_nat)
  note v = read_view [OF Cons.prems(1) rd, unfolded ui]
  have "(p, i) \<in> pages st" using Cons.prems frames_okD(6) [OF mmu_invD(3) [OF Cons.prems(1)]] by fastforce
  then obtain n where "shape st p = Some n" "i < n" by (auto simp: pages_shape)
  then have r1: "r1 = Ok (the (content mem st (p, i)))" using v Cons.prems(2) by auto
  have i1: "mmu_inv mem st1" using v by blast
  obtain st2 where "readSegment_loop p is (acc @ [the (content mem st (p, i))]) st1 mem
      = (st2, Ok ((acc @ [the (content mem st (p, i))]) @ map (\<lambda>i. the (content mem st1 (p, i))) is))"
    using Cons.IH [OF i1, of "acc @ [the (content mem st (p, i))]"] Cons.prems(2) v by auto
  then show ?case using rd r1 v by simp
qed

lemma loadSegment_view:
  assumes "mmu_inv mem st" "length data \<le> 2 ^ 32" "VirtualMemory_loadSegment vm st mem p data = ((st', mem'), r)"
  shows "mmu_inv mem' st' \<and> shape st' = shape st \<and> (\<forall>q v. q \<noteq> p \<longrightarrow> content mem' st' (q, v) = content mem st (q, v))"
proof (cases "slots vm p = None \<or> si_size (the (slots vm p)) < length data")
  case True
  then show ?thesis using assms by (auto simp: VirtualMemory_loadSegment_def split: option.splits if_splits)
next
  case False
  then have "loadSegment_loop p 0 data st mem = ((st', mem'), r)"
    using assms(3) by (auto simp: VirtualMemory_loadSegment_def split: option.splits if_splits)
  from loadSegment_loop_view [OF assms(1) _ this] assms(2) show ?thesis by auto
qed

lemma Mmu_write_size: "PhysicalMemory_size (snd (fst (Mmu_write st mem p va b))) = PhysicalMemory_size mem"
  using pm.sz_wr [of mem] by (auto simp: Mmu_write_def Let_def split: option.splits result.splits prod.splits) (metis fst_conv)

lemma loadSegment_size:
  "PhysicalMemory_size (snd (fst (VirtualMemory_loadSegment vm st mem p data))) = PhysicalMemory_size mem"
proof -
  have "PhysicalMemory_size (snd (fst (loadSegment_loop p i bs st mem))) = PhysicalMemory_size mem" for i bs
  proof (induction bs arbitrary: i st mem)
    case (Cons b bs)
    obtain st1 mem1 r where w: "Mmu_write st mem p (word_of_nat i) b = ((st1, mem1), r)" by (metis prod.collapse)
    then have "PhysicalMemory_size mem1 = PhysicalMemory_size mem" using Mmu_write_size [of st mem p "word_of_nat i" b] by simp
    then show ?case using w Cons by (cases r) auto
  qed simp
  then show ?thesis by (auto simp: VirtualMemory_loadSegment_def split: option.splits)
qed

lemma loadSegment_loop_ok:
  assumes "mmu_inv mem st" "i + length bs \<le> 2 ^ 32" "\<forall>k < length bs. vmap st (p, i + k) \<noteq> None"
  shows "snd (loadSegment_loop p i bs st mem) = Ok ()"
  using assms
proof (induction bs arbitrary: i st mem)
  case (Cons b bs)
  obtain st1 mem1 r1 where w: "Mmu_write st mem p (word_of_nat i) b = ((st1, mem1), r1)" by (metis surj_pair)
  have ui: "unat (word_of_nat i :: memory_address) = i" using Cons.prems(2) by (simp add: unat_of_nat)
  note wv = write_view [OF Cons.prems(1) w, unfolded ui]
  have v: "vmap st (p, i) \<noteq> None" using Cons.prems(3) by (metis add_0_right length_greater_0_conv list.distinct(1))
  then have "(p, i) \<in> pages st"
    using frames_okD(6) [OF mmu_invD(3) [OF Cons.prems(1)]] by blast
  then obtain n where "shape st p = Some n" "i < n" by (auto simp: pages_shape)
  then have ok: "r1 = Ok ()" using wv v by simp
  have vm: "vmap st1 = vmap st" and i1: "mmu_inv mem1 st1" using wv by simp_all
  have "snd (loadSegment_loop p (Suc i) bs st1 mem1) = Ok ()"
  proof (rule Cons.IH [OF i1])
    show "\<forall>k < length bs. vmap st1 (p, Suc i + k) \<noteq> None"
      using Cons.prems(3) vm by (metis add_Suc_shift length_Cons not_less_eq)
  qed (use Cons.prems(2) in simp)
  with ok show ?case using w by simp
qed simp

lemma loadSegment_ok:
  assumes "mmu_inv mem st" "length data \<le> 2 ^ 32" "\<forall>v < length data. vmap st (p, v) \<noteq> None"
    "slots vm p = Some si" "length data \<le> si_size si"
  shows "snd (VirtualMemory_loadSegment vm st mem p data) = Ok ()"
  using loadSegment_loop_ok [OF assms(1), of 0 data p] assms(2-5) by (simp add: VirtualMemory_loadSegment_def)

text \<open>A new slot is given out when one is left and there are enough free frames.\<close>

lemma allocateSlot_result:
  assumes "vm_inv vm mmu" "mmu_inv mem mmu" "\<forall>k. iter_ok (iter k)" "0 < n" "slots vm p = None"
    "VirtualMemory_allocateSlot iter vm mmu mem p n = ((vm', mmu'), r)"
  shows "(r = Ok 0 \<or> r = Error OutOfMemory)
    \<and> (0 < VirtualMemory_freeSlots vm \<and> n \<le> Mmu_freeFrames mmu \<longrightarrow> r = Ok 0)"
proof -
  obtain m r1 where a: "Mmu_allocate iter mmu mem p n = (m, r1)" by fastforce
  have sh: "shape mmu p = None" using assms(1,5) by (simp add: vm_inv_def)
  have "r1 = Ok 0 \<or> r1 = Error OutOfMemory" using allocate_view [OF assms(2,3) a] sh assms(4) by auto
  then show ?thesis
    using allocate_enough [OF assms(2,3) a assms(4) sh] assms(4-6) a
    by (auto simp: VirtualMemory_allocateSlot_def VirtualMemory_freeSlots_def split: if_splits)
qed

lemma segment_readback:
  assumes "mmu_inv mem st" "VirtualMemory_slotSize vm p = length data" "length data \<le> 2 ^ 32"
    "VirtualMemory_loadSegment vm st mem p data = ((st', mem'), Ok ())"
  shows "snd (VirtualMemory_readSegment vm st' mem' p) = Ok data"
proof -
  obtain si where si: "slots vm p = Some si" "si_size si = length data"
    using assms(2,4) by (auto simp: VirtualMemory_loadSegment_def VirtualMemory_slotSize_def split: option.splits)
  have "loadSegment_loop p 0 data st mem = ((st', mem'), Ok ())"
    using assms(4) si by (simp add: VirtualMemory_loadSegment_def)
  with loadSegment_loop_view [OF assms(1), of 0 data p st' mem' "Ok ()"] assms(3)
  have l: "mmu_inv mem' st'"
    "\<forall>k < length data. content mem' st' (p, k) = Some (data ! k) \<and> vmap st' (p, k) \<noteq> None"
    by auto
  have "\<forall>i \<in> set [0..<length data]. i < 2 ^ 32 \<and> vmap st' (p, i) \<noteq> None" using l(2) assms(3) by auto
  from readSegment_loop_view [OF l(1) this, of "[]"]
  have "snd (VirtualMemory_readSegment vm st' mem' p) = Ok (map (\<lambda>i. the (content mem' st' (p, i))) [0..<length data])"
    using si by (auto simp: VirtualMemory_readSegment_def)
  also have "map (\<lambda>i. the (content mem' st' (p, i))) [0..<length data] = data"
    using l(2) by (intro nth_equalityI) auto
  finally show ?thesis .
qed

section \<open>Properties\<close>

text \<open>
  Segment round trip. A segment that was loaded successfully and fills its slot is read back
  unchanged, and loading it changes the memory of no other process.
\<close>

theorem segment_roundtrip:
  assumes "vm_inv vm st" "mmu_inv mem st" "VirtualMemory_slotSize vm p = length data" "length data \<le> 2 ^ 32"
    "VirtualMemory_loadSegment vm st mem p data = ((st', mem'), Ok ())"
  shows "snd (VirtualMemory_readSegment vm st' mem' p) = Ok data
    \<and> vm_inv vm st' \<and> mmu_inv mem' st'
    \<and> (\<forall>q v. q \<noteq> p \<longrightarrow> content mem' st' (q, v) = content mem st (q, v))"
  using segment_readback [OF assms(2-5)] loadSegment_view [OF assms(2,4,5)] assms(1) by (simp add: vm_inv_def)

definition demo_vm :: virtual_memory where
  "demo_vm = \<lparr>maxSlots = 4, slots = [1 \<mapsto> \<lparr>si_processId = 1, si_size = 2\<rparr>]\<rparr>"

lemma demo_vm_inv: "vm_inv demo_vm demo_mmu"
proof -
  have "shape (Mmu_new demo_memory (FifoReplacement Fifo_new)) = Map.empty"
    by (simp add: shape_def Mmu_new_def fun_eq_iff)
  moreover have "mmu_inv demo_memory (Mmu_new demo_memory (FifoReplacement Fifo_new))"
    by (rule mmu_new_inv) (auto simp: demo_memory_def PhysicalMemory_size_def PhysicalMemory_new_def Fifo_new_def)
  moreover have "snd (Mmu_allocate (\<lambda>_. sorted_list_of_set) (Mmu_new demo_memory (FifoReplacement Fifo_new)) demo_memory 1 2) = Ok 0"
    by code_simp
  moreover have "\<forall>k :: nat. iter_ok (sorted_list_of_set :: frame_id set \<Rightarrow> _)" by (simp add: iter_ok_sorted)
  ultimately have "shape demo_mmu = [1 \<mapsto> 2]"
    using allocate_view [of demo_memory _ "\<lambda>_. sorted_list_of_set" 1 2 demo_mmu "Ok 0"]
    unfolding demo_mmu_def by (metis prod.collapse)
  then show ?thesis by (auto simp: vm_inv_def demo_vm_def)
qed

theorem segment_roundtrip_witness:
  "\<exists>st' mem'. VirtualMemory_loadSegment demo_vm demo_mmu demo_memory 1 [Block Add 1 2 0, Block Halt 0 0 0] = ((st', mem'), Ok ())
    \<and> snd (VirtualMemory_readSegment demo_vm st' mem' 1) = Ok [Block Add 1 2 0, Block Halt 0 0 0]"
proof -
  let ?d = "[Block Add 1 2 0, Block Halt 0 0 0]"
  have ok: "snd (VirtualMemory_loadSegment demo_vm demo_mmu demo_memory 1 ?d) = Ok ()" by code_simp
  obtain st' mem' r where r: "VirtualMemory_loadSegment demo_vm demo_mmu demo_memory 1 ?d = ((st', mem'), r)"
    by (metis surj_pair)
  have sz: "VirtualMemory_slotSize demo_vm 1 = length ?d"
    by (simp add: VirtualMemory_slotSize_def demo_vm_def)
  show ?thesis
    using segment_roundtrip [OF demo_vm_inv demo_inv sz, of st' mem'] r ok by simp
qed

end
