(* ===== verification/Sched_Policy.thy ===== *)
theory Sched_Policy
  imports Complex_Main Process "HOL-Library.Product_Lexorder"
begin

text \<open>
  The scheduling policies (\<^verbatim>\<open>scheduling/*_policy.cpp\<close>) behind \<^verbatim>\<open>scheduling/i_scheduling_policy.h\<close>, and
  the burst predictor (\<^verbatim>\<open>scheduling/statistics.cpp\<close>). The virtual dispatch is the datatype
  \<open>scheduling_policy\<close>; a policy's own data are the arguments of its constructor.

  Two of them compute with \<^verbatim>\<open>double\<close>. A double is a rational here, and every arithmetic operation
  rounds its exact result to 53 significant bits, ties to even (IEEE 754 binary64 without the
  range limits, which no value reaches), by \<open>fl\<close>.
\<close>

section \<open>Double arithmetic\<close>

fun bit_count :: "nat \<Rightarrow> nat" where
  "bit_count n = (if n = 0 then 0 else Suc (bit_count (n div 2)))"

declare bit_count.simps [simp del]

text \<open>The exponent \<open>b\<close> with \<open>2 ^ (b - 1) \<le> x < 2 ^ b\<close> of a positive number.\<close>

definition exponent :: "rat \<Rightarrow> int" where
  "exponent x =
     (if x \<ge> 1 then int (bit_count (nat \<lfloor>x\<rfloor>)) else 1 - int (bit_count (nat (\<lceil>1 / x\<rceil> - 1))))"

definition pow2 :: "int \<Rightarrow> rat" where
  "pow2 k = (if k \<ge> 0 then 2 ^ nat k else 1 / 2 ^ nat (- k))"

definition round_even :: "rat \<Rightarrow> int" where
  "round_even y =
     (let n = \<lfloor>y\<rfloor>; d = y - of_int n
      in if d < 1 / 2 then n else if d > 1 / 2 then n + 1 else if even n then n else n + 1)"

definition fl :: "rat \<Rightarrow> rat" where
  "fl x = (if x \<le> 0 then 0 else of_int (round_even (x * pow2 (53 - exponent x))) * pow2 (exponent x - 53))"

section \<open>Snapshots\<close>

record scheduling_snapshot =
  sn_pid :: process_id
  sn_arrivalTime :: tick
  sn_lastStateChange :: tick
  sn_estimatedBurst :: tick
  sn_remainingBurst :: tick
  sn_totalWaitTime :: tick
  sn_effectivePriority :: priority_level
  sn_nice :: "32 word"

section \<open>The policies\<close>

definition fcfs_before :: "scheduling_snapshot \<Rightarrow> scheduling_snapshot \<Rightarrow> bool" where
  "fcfs_before a b =
     (if sn_arrivalTime a \<noteq> sn_arrivalTime b then sn_arrivalTime a < sn_arrivalTime b else sn_pid a < sn_pid b)"

definition Fcfs_selectNext :: "scheduling_snapshot list \<Rightarrow> process_id" where
  "Fcfs_selectNext q = (case min_element fcfs_before q of None \<Rightarrow> INVALID_PID | Some s \<Rightarrow> sn_pid s)"

definition RoundRobin_new :: "nat \<Rightarrow> nat" where
  "RoundRobin_new timeSlice = (if timeSlice = 0 then 1 else timeSlice)"

definition rr_before :: "scheduling_snapshot \<Rightarrow> scheduling_snapshot \<Rightarrow> bool" where
  "rr_before a b =
     (if sn_lastStateChange a \<noteq> sn_lastStateChange b then sn_lastStateChange a < sn_lastStateChange b
      else sn_pid a < sn_pid b)"

definition RoundRobin_selectNext :: "scheduling_snapshot list \<Rightarrow> process_id" where
  "RoundRobin_selectNext q = (case min_element rr_before q of None \<Rightarrow> INVALID_PID | Some s \<Rightarrow> sn_pid s)"

definition RoundRobin_shouldPreempt :: "nat \<Rightarrow> scheduling_snapshot \<Rightarrow> tick \<Rightarrow> bool" where
  "RoundRobin_shouldPreempt timeSlice running now \<longleftrightarrow> unat (now - sn_lastStateChange running) \<ge> timeSlice"

definition serviceTime :: "scheduling_snapshot \<Rightarrow> tick" where
  "serviceTime s = (if sn_estimatedBurst s = 0 then 1 else sn_estimatedBurst s)"

definition spn_before :: "scheduling_snapshot \<Rightarrow> scheduling_snapshot \<Rightarrow> bool" where
  "spn_before a b =
     (if serviceTime a \<noteq> serviceTime b then serviceTime a < serviceTime b else sn_pid a < sn_pid b)"

definition Spn_selectNext :: "scheduling_snapshot list \<Rightarrow> process_id" where
  "Spn_selectNext q = (case min_element spn_before q of None \<Rightarrow> INVALID_PID | Some s \<Rightarrow> sn_pid s)"

definition remaining :: "scheduling_snapshot \<Rightarrow> tick" where
  "remaining s =
     (if sn_remainingBurst s > 0 then sn_remainingBurst s
      else if sn_estimatedBurst s > 0 then sn_estimatedBurst s else 1)"

definition srt_before :: "scheduling_snapshot \<Rightarrow> scheduling_snapshot \<Rightarrow> bool" where
  "srt_before a b = (if remaining a \<noteq> remaining b then remaining a < remaining b else sn_pid a < sn_pid b)"

definition Srt_selectNext :: "scheduling_snapshot list \<Rightarrow> process_id" where
  "Srt_selectNext q = (case min_element srt_before q of None \<Rightarrow> INVALID_PID | Some s \<Rightarrow> sn_pid s)"

definition Srt_shouldPreempt :: "scheduling_snapshot \<Rightarrow> scheduling_snapshot \<Rightarrow> bool" where
  "Srt_shouldPreempt running candidate \<longleftrightarrow> remaining candidate < remaining running"

definition responseRatio :: "scheduling_snapshot \<Rightarrow> rat" where
  "responseRatio s =
     (let service = fl (of_nat (unat (if sn_estimatedBurst s = 0 then 1 else sn_estimatedBurst s)));
          wait = fl (of_nat (unat (sn_totalWaitTime s)))
      in fl (fl (wait + service) / service))"

definition hrrn_less :: "scheduling_snapshot \<Rightarrow> scheduling_snapshot \<Rightarrow> bool" where
  "hrrn_less a b =
     (if responseRatio a \<noteq> responseRatio b then responseRatio a < responseRatio b else sn_pid a > sn_pid b)"

definition Hrrn_selectNext :: "scheduling_snapshot list \<Rightarrow> process_id" where
  "Hrrn_selectNext q = (case max_element hrrn_less q of None \<Rightarrow> INVALID_PID | Some s \<Rightarrow> sn_pid s)"

definition betterPriority :: "scheduling_snapshot \<Rightarrow> scheduling_snapshot \<Rightarrow> bool" where
  "betterPriority lhs rhs =
     (if sn_effectivePriority lhs \<noteq> sn_effectivePriority rhs
      then level_value (sn_effectivePriority lhs) < level_value (sn_effectivePriority rhs)
      else if sn_nice lhs \<noteq> sn_nice rhs then sn_nice lhs <s sn_nice rhs
      else sn_pid lhs < sn_pid rhs)"

definition Priority_selectNext :: "scheduling_snapshot list \<Rightarrow> process_id" where
  "Priority_selectNext q = (case min_element betterPriority q of None \<Rightarrow> INVALID_PID | Some s \<Rightarrow> sn_pid s)"

definition Priority_shouldPreempt :: "scheduling_snapshot \<Rightarrow> scheduling_snapshot \<Rightarrow> bool" where
  "Priority_shouldPreempt running candidate \<longleftrightarrow> betterPriority candidate running"

definition priorityToLevel :: "scheduling_snapshot \<Rightarrow> nat \<Rightarrow> nat" where
  "priorityToLevel s levelCount =
     (let level = level_value (sn_effectivePriority s)
      in if levelCount = 0 then 0 else if level \<ge> levelCount then levelCount - 1 else level)"

definition Mlfq_new :: "nat list \<Rightarrow> nat list" where
  "Mlfq_new slices = map (\<lambda>v. if v = 0 then 1 else v) (if slices = [] then [1] else slices)"

definition mlfq_before :: "nat list \<Rightarrow> scheduling_snapshot \<Rightarrow> scheduling_snapshot \<Rightarrow> bool" where
  "mlfq_before slices a b =
     (let levelA = priorityToLevel a (length slices); levelB = priorityToLevel b (length slices)
      in if levelA \<noteq> levelB then levelA < levelB
         else if sn_lastStateChange a \<noteq> sn_lastStateChange b then sn_lastStateChange a < sn_lastStateChange b
         else sn_pid a < sn_pid b)"

definition Mlfq_selectNext :: "nat list \<Rightarrow> scheduling_snapshot list \<Rightarrow> process_id" where
  "Mlfq_selectNext slices q =
     (case min_element (mlfq_before slices) q of None \<Rightarrow> INVALID_PID | Some s \<Rightarrow> sn_pid s)"

definition Mlfq_shouldPreempt ::
  "nat list \<Rightarrow> scheduling_snapshot \<Rightarrow> scheduling_snapshot \<Rightarrow> tick \<Rightarrow> bool" where
  "Mlfq_shouldPreempt slices running candidate now =
     (let runningLevel = priorityToLevel running (length slices);
          candidateLevel = priorityToLevel candidate (length slices)
      in if candidateLevel < runningLevel then True
         else unat (now - sn_lastStateChange running) \<ge> slices ! runningLevel)"

section \<open>ISchedulingPolicy\<close>

datatype scheduling_policy =
    FcfsPolicy
  | RoundRobinPolicy nat
  | SpnPolicy
  | SrtPolicy
  | HrrnPolicy
  | PriorityPolicy
  | MlfqPolicy "nat list"

fun policy_selectNext :: "scheduling_policy \<Rightarrow> scheduling_snapshot list \<Rightarrow> tick \<Rightarrow> process_id" where
  "policy_selectNext FcfsPolicy q now = Fcfs_selectNext q"
| "policy_selectNext (RoundRobinPolicy ts) q now = RoundRobin_selectNext q"
| "policy_selectNext SpnPolicy q now = Spn_selectNext q"
| "policy_selectNext SrtPolicy q now = Srt_selectNext q"
| "policy_selectNext HrrnPolicy q now = Hrrn_selectNext q"
| "policy_selectNext PriorityPolicy q now = Priority_selectNext q"
| "policy_selectNext (MlfqPolicy slices) q now = Mlfq_selectNext slices q"

fun policy_shouldPreempt ::
  "scheduling_policy \<Rightarrow> scheduling_snapshot \<Rightarrow> scheduling_snapshot \<Rightarrow> tick \<Rightarrow> bool" where
  "policy_shouldPreempt FcfsPolicy running candidate now = False"
| "policy_shouldPreempt (RoundRobinPolicy ts) running candidate now = RoundRobin_shouldPreempt ts running now"
| "policy_shouldPreempt SpnPolicy running candidate now = False"
| "policy_shouldPreempt SrtPolicy running candidate now = Srt_shouldPreempt running candidate"
| "policy_shouldPreempt HrrnPolicy running candidate now = False"
| "policy_shouldPreempt PriorityPolicy running candidate now = Priority_shouldPreempt running candidate"
| "policy_shouldPreempt (MlfqPolicy slices) running candidate now = Mlfq_shouldPreempt slices running candidate now"

fun policy_name :: "scheduling_policy \<Rightarrow> string" where
  "policy_name FcfsPolicy = ''FCFS''"
| "policy_name (RoundRobinPolicy ts) = ''RoundRobin''"
| "policy_name SpnPolicy = ''SPN''"
| "policy_name SrtPolicy = ''SRT''"
| "policy_name HrrnPolicy = ''HRRN''"
| "policy_name PriorityPolicy = ''Priority''"
| "policy_name (MlfqPolicy slices) = ''MLFQ''"

section \<open>Statistics\<close>

record statistics =
  predictions :: "process_id \<rightharpoonup> tick"
  stat_alpha :: rat

definition Statistics_new :: "rat \<Rightarrow> statistics" where
  "Statistics_new alpha =
     \<lparr>predictions = Map.empty, stat_alpha = (if alpha < fl (1 / 100) then fl (1 / 100) else if alpha > 1 then 1 else alpha)\<rparr>"

text \<open>The conversion of a double that is too large for \<^verbatim>\<open>Tick\<close> is undefined.\<close>

definition tick_of_double :: "rat \<Rightarrow> tick" where
  "tick_of_double x = (if \<lfloor>x\<rfloor> < 2 ^ 64 then word_of_int \<lfloor>x\<rfloor> else undefined)"

definition Statistics_recordBurst :: "statistics \<Rightarrow> process_id \<Rightarrow> tick \<Rightarrow> statistics" where
  "Statistics_recordBurst st pid burst =
     (case predictions st pid of
        None \<Rightarrow> st\<lparr>predictions := (predictions st)(pid \<mapsto> burst)\<rparr>
      | Some old \<Rightarrow>
          let oldValue = fl (of_nat (unat old));
              newValue = fl (of_nat (unat burst));
              predicted = fl (fl (stat_alpha st * newValue) + fl (fl (1 - stat_alpha st) * oldValue))
          in st\<lparr>predictions := (predictions st)(pid \<mapsto> tick_of_double (fl (predicted + 1 / 2)))\<rparr>)"

definition Statistics_predictedBurst :: "statistics \<Rightarrow> process_id \<Rightarrow> tick" where
  "Statistics_predictedBurst st pid = (case predictions st pid of None \<Rightarrow> 0 | Some t \<Rightarrow> t)"

definition Statistics_hasPrediction :: "statistics \<Rightarrow> process_id \<Rightarrow> bool" where
  "Statistics_hasPrediction st pid \<longleftrightarrow> predictions st pid \<noteq> None"

definition Statistics_clear :: "statistics \<Rightarrow> process_id \<Rightarrow> statistics" where
  "Statistics_clear st pid = st\<lparr>predictions := (predictions st)(pid := None)\<rparr>"

definition Statistics_reset :: "statistics \<Rightarrow> statistics" where
  "Statistics_reset st = st\<lparr>predictions := Map.empty\<rparr>"

section \<open>What a policy selects\<close>

text \<open>
  The key each policy minimises: its criterion, then its tie breaker, then the process id. The
  highest response ratio is the smallest negated one.
\<close>

fun policy_key :: "scheduling_policy \<Rightarrow> scheduling_snapshot \<Rightarrow> rat \<times> int \<times> nat" where
  "policy_key FcfsPolicy s = (of_nat (unat (sn_arrivalTime s)), 0, unat (sn_pid s))"
| "policy_key (RoundRobinPolicy ts) s = (of_nat (unat (sn_lastStateChange s)), 0, unat (sn_pid s))"
| "policy_key SpnPolicy s = (of_nat (unat (serviceTime s)), 0, unat (sn_pid s))"
| "policy_key SrtPolicy s = (of_nat (unat (remaining s)), 0, unat (sn_pid s))"
| "policy_key HrrnPolicy s = (- responseRatio s, 0, unat (sn_pid s))"
| "policy_key PriorityPolicy s = (of_nat (level_value (sn_effectivePriority s)), sint (sn_nice s), unat (sn_pid s))"
| "policy_key (MlfqPolicy slices) s =
     (of_nat (priorityToLevel s (length slices)), int (unat (sn_lastStateChange s)), unat (sn_pid s))"

text \<open>Each comparator is the order of the keys.\<close>

lemma better_key: "betterPriority a b \<longleftrightarrow> policy_key PriorityPolicy a < policy_key PriorityPolicy b"
proof -
  have "sn_effectivePriority a = sn_effectivePriority b
      \<longleftrightarrow> level_value (sn_effectivePriority a) = level_value (sn_effectivePriority b)"
    by (simp add: level_value_inj)
  moreover have "sn_nice a = sn_nice b \<longleftrightarrow> sint (sn_nice a) = sint (sn_nice b)"
    by (simp add: word_eq_iff_signed)
  ultimately show ?thesis
    by (auto simp: betterPriority_def word_sless_alt word_less_nat_alt)
qed

lemma before_key:
  "fcfs_before a b \<longleftrightarrow> policy_key FcfsPolicy a < policy_key FcfsPolicy b"
  "rr_before a b \<longleftrightarrow> policy_key (RoundRobinPolicy ts) a < policy_key (RoundRobinPolicy ts) b"
  "spn_before a b \<longleftrightarrow> policy_key SpnPolicy a < policy_key SpnPolicy b"
  "srt_before a b \<longleftrightarrow> policy_key SrtPolicy a < policy_key SrtPolicy b"
  "hrrn_less b a \<longleftrightarrow> policy_key HrrnPolicy a < policy_key HrrnPolicy b"
  "betterPriority a b \<longleftrightarrow> policy_key PriorityPolicy a < policy_key PriorityPolicy b"
  "mlfq_before slices a b \<longleftrightarrow> policy_key (MlfqPolicy slices) a < policy_key (MlfqPolicy slices) b"
  unfolding better_key
  by (auto simp: fcfs_before_def rr_before_def spn_before_def srt_before_def hrrn_less_def
      mlfq_before_def Let_def word_less_nat_alt word_unat_eq_iff simp del: of_nat_unat)

interpretation policy_order: strict_weak_order "\<lambda>a b. policy_key p a < policy_key p b" for p
  by (rule strict_weak_order_key)

text \<open>Every policy takes the first smallest element for its key.\<close>

lemma selectNext_min:
  "policy_selectNext p q now =
    (case min_element (\<lambda>a b. policy_key p a < policy_key p b) q of None \<Rightarrow> INVALID_PID | Some s \<Rightarrow> sn_pid s)"
proof (cases p)
  case HrrnPolicy
  have "max_element hrrn_less q = min_element (\<lambda>a b. hrrn_less b a) q"
    by (cases q) simp_all
  then show ?thesis using HrrnPolicy by (simp add: Hrrn_selectNext_def before_key)
next
  case (RoundRobinPolicy ts)
  have "rr_before = (\<lambda>a b. policy_key (RoundRobinPolicy ts) a < policy_key (RoundRobinPolicy ts) b)"
    by (intro ext) (rule before_key)
  then show ?thesis unfolding RoundRobinPolicy by (simp only: policy_selectNext.simps RoundRobin_selectNext_def)
qed (simp_all add: Fcfs_selectNext_def Spn_selectNext_def Srt_selectNext_def
    Priority_selectNext_def Mlfq_selectNext_def before_key [abs_def])

lemma selectNext_best:
  assumes "q \<noteq> []"
  shows "\<exists>s \<in> set q. policy_selectNext p q now = sn_pid s \<and> (\<forall>t \<in> set q. policy_key p s \<le> policy_key p t)"
proof -
  let ?lt = "\<lambda>a b. policy_key p a < policy_key p b"
  obtain m where m: "min_element ?lt q = Some m"
    using assms by (metis min_element_None not_None_eq)
  have "\<forall>t \<in> set q. \<not> ?lt t m"
    using policy_order.minimal [OF m] by blast
  then show ?thesis
    using m min_element_mem [OF m] by (intro bexI [of _ m]) (auto simp: selectNext_min not_less)
qed

section \<open>The interface\<close>

text \<open>What the scheduler relies on: a policy selects a process of the queue it is given.\<close>

locale scheduling =
  fixes select :: "'p \<Rightarrow> scheduling_snapshot list \<Rightarrow> tick \<Rightarrow> process_id"
  assumes select_empty: "select p [] now = INVALID_PID"
    and select_in: "q \<noteq> [] \<Longrightarrow> select p q now \<in> sn_pid ` set q"
begin

lemma select_valid: "q \<noteq> [] \<Longrightarrow> INVALID_PID \<notin> sn_pid ` set q \<Longrightarrow> select p q now \<noteq> INVALID_PID"
  using select_in by metis

lemma select_known: "select p q now \<noteq> INVALID_PID \<Longrightarrow> select p q now \<in> sn_pid ` set q"
  using select_in select_empty by metis

end

interpretation spol: scheduling policy_selectNext
proof
  show "policy_selectNext p [] now = INVALID_PID" for p now by (simp add: selectNext_min)
  show "q \<noteq> [] \<Longrightarrow> policy_selectNext p q now \<in> sn_pid ` set q" for p q now
    using selectNext_best [of q p now] by auto
qed

section \<open>Exactness of the double arithmetic\<close>

lemma bit_count_small [simp]: "bit_count 0 = 0" "bit_count (Suc 0) = 1"
  by (simp_all add: bit_count.simps [of "Suc 0"] bit_count.simps [of 0])

lemma bit_count_bounds: "0 < n \<Longrightarrow> 2 ^ (bit_count n - 1) \<le> n \<and> n < 2 ^ bit_count n \<and> 0 < bit_count n"
proof (induction n rule: less_induct)
  case (less n)
  show ?case
  proof (cases "n = 1")
    case True
    then show ?thesis by simp
  next
    case False
    then have h: "0 < n div 2" "n div 2 < n" using less.prems by auto
    have b: "bit_count n = Suc (bit_count (n div 2))" using less.prems by (simp add: bit_count.simps [of n])
    note IH = less.IH [OF h(2,1)]
    obtain k where k: "bit_count (n div 2) = Suc k" using IH gr0_implies_Suc by blast
    have "2 ^ k \<le> n div 2" "n div 2 < 2 ^ Suc k" using IH k by auto
    then show ?thesis by (simp add: b k) linarith
  qed
qed

lemma round_even_of_int [simp]: "round_even (of_int k) = k"
  by (simp add: round_even_def Let_def)

lemma round_even_numeral [simp]: "round_even (numeral k) = numeral k"
  using round_even_of_int [of "numeral k"] by simp

lemma pow2_inverse: "pow2 k * pow2 (- k) = 1"
  by (cases "k = 0"; cases "k > 0") (auto simp: pow2_def)

text \<open>A positive half-integer of at most 53 bits is represented exactly.\<close>

lemma fl_half_exact:
  assumes "n < 2 ^ 53"
  shows "fl (of_nat n / 2) = of_nat n / 2"
proof (cases "n \<le> 1")
  case True
  then consider "n = 0" | "n = 1" by linarith
  then show ?thesis
  proof cases
    case 2
    have "exponent (1 / 2) = 0" by (simp add: exponent_def)
    moreover have "(1 / 2 :: rat) * pow2 53 = of_int (2 ^ 52)" by (simp add: pow2_def)
    ultimately show ?thesis using 2 by (simp add: fl_def pow2_def)
  qed (simp add: fl_def)
next
  case False
  let ?x = "of_nat n / 2 :: rat" and ?m = "n div 2"
  have f: "\<lfloor>?x\<rfloor> = int ?m" by (metis floor_divide_of_nat_eq of_nat_numeral)
  have m: "0 < ?m" "?m < 2 ^ 52" using False assms by auto
  have x1: "?x \<ge> 1" using False by simp
  let ?b = "bit_count ?m"
  note bb = bit_count_bounds [OF m(1)]
  have "2 ^ (?b - 1) < (2 :: nat) ^ 52" using bb m(2) by linarith
  then have "?b - 1 < 52" by (rule power_less_imp_less_exp [rotated]) simp
  then have b: "?b \<le> 52" by simp
  have e: "exponent ?x = int ?b" using x1 f by (simp add: exponent_def)
  have "?x * pow2 (53 - int ?b) = of_int (int n * 2 ^ (52 - ?b))"
  proof -
    have "nat (53 - int ?b) = Suc (52 - ?b)" using b by linarith
    then have "pow2 (53 - int ?b) = 2 * 2 ^ (52 - ?b)" using b by (simp add: pow2_def)
    then show ?thesis by simp
  qed
  then have "fl ?x = ?x * pow2 (53 - int ?b) * pow2 (int ?b - 53)"
    using x1 by (simp only: fl_def e round_even_of_int) simp
  also have "\<dots> = ?x" using pow2_inverse [of "53 - int ?b"] by (simp add: mult.assoc)
  finally show ?thesis .
qed

lemma fl_nat_exact: "n < 2 ^ 52 \<Longrightarrow> fl (of_nat n) = of_nat n"
  using fl_half_exact [of "2 * n"] by simp

section \<open>Properties\<close>


definition snap :: "process_id \<Rightarrow> tick \<Rightarrow> tick \<Rightarrow> priority_level \<Rightarrow> scheduling_snapshot" where
  "snap p arrival burst lvl =
     \<lparr>sn_pid = p, sn_arrivalTime = arrival, sn_lastStateChange = arrival, sn_estimatedBurst = burst,
      sn_remainingBurst = 0, sn_totalWaitTime = 6, sn_effectivePriority = lvl, sn_nice = 0\<rparr>"


text \<open>
  Preemption. Shortest-remaining-time and priority scheduling preempt only for a candidate that
  is strictly better for their key, so that two processes never preempt each other at the same
  tick; first-come, shortest-process and response-ratio scheduling never preempt; round robin preempts
  exactly when the running process has used its slice; and multilevel feedback exactly when the
  candidate is on a better level or the slice of the running level is used up.
\<close>

theorem preempt_criteria:
  "(p \<in> {SrtPolicy, PriorityPolicy} \<longrightarrow> policy_shouldPreempt p r c now \<longrightarrow>
      policy_key p c < policy_key p r \<and> \<not> policy_shouldPreempt p c r now)
   \<and> (p \<in> {FcfsPolicy, SpnPolicy, HrrnPolicy} \<longrightarrow> \<not> policy_shouldPreempt p r c now)
   \<and> policy_shouldPreempt (RoundRobinPolicy (RoundRobin_new ts)) r c now
      = (max 1 ts \<le> unat (now - sn_lastStateChange r))
   \<and> policy_shouldPreempt (MlfqPolicy (Mlfq_new sl)) r c now
      = (let n = max 1 (length sl); lv = (\<lambda>s. min (level_value (sn_effectivePriority s)) (n - 1))
         in lv c < lv r \<or> max 1 ((sl @ [1]) ! lv r) \<le> unat (now - sn_lastStateChange r))"
proof -
  have "policy_shouldPreempt (MlfqPolicy (Mlfq_new sl)) r c now
      = (let n = max 1 (length sl); lv = (\<lambda>s. min (level_value (sn_effectivePriority s)) (n - 1))
         in lv c < lv r \<or> max 1 ((sl @ [1]) ! lv r) \<le> unat (now - sn_lastStateChange r))"
  proof -
    obtain n where n_def: "n = max 1 (length sl)" by blast
    have len: "length (Mlfq_new sl) = n" by (cases sl) (simp_all add: Mlfq_new_def n_def)
    have lv: "priorityToLevel s n = min (level_value (sn_effectivePriority s)) (n - 1)" for s
      by (auto simp: priorityToLevel_def Let_def n_def)
    have "Mlfq_new sl ! k = max 1 ((sl @ [1]) ! k)" if "k < n" for k
    proof (cases "sl = []")
      case True
      then show ?thesis using that by (simp add: Mlfq_new_def n_def)
    next
      case False
      then have "k < length sl" using that by (cases sl) (auto simp: n_def)
      then show ?thesis using False by (simp add: Mlfq_new_def nth_append)
    qed
    moreover have "min (level_value (sn_effectivePriority r)) (n - 1) < n" by (simp add: n_def min_less_iff_disj)
    ultimately show ?thesis
      unfolding policy_shouldPreempt.simps Mlfq_shouldPreempt_def Let_def len lv n_def [symmetric] by auto
  qed
  moreover have "policy_shouldPreempt p r c now \<Longrightarrow> policy_key p c < policy_key p r \<and> \<not> policy_shouldPreempt p c r now"
    if "p \<in> {SrtPolicy, PriorityPolicy}"
    using that by (auto simp: Srt_shouldPreempt_def Priority_shouldPreempt_def before_key word_less_nat_alt
        simp del: of_nat_unat)
  ultimately show ?thesis
    by (auto simp: RoundRobin_new_def RoundRobin_shouldPreempt_def)
qed

theorem preempt_criteria_witness:
  "policy_shouldPreempt PriorityPolicy (snap 1 0 9 Normal) (snap 3 2 3 High) 10
   \<and> \<not> policy_shouldPreempt PriorityPolicy (snap 3 2 3 High) (snap 1 0 9 Normal) 10"
proof -
  have "policy_shouldPreempt PriorityPolicy (snap 1 0 9 Normal) (snap 3 2 3 High) 10" by code_simp
  then show ?thesis
    using preempt_criteria [of PriorityPolicy "snap 1 0 9 Normal" "snap 3 2 3 High" 10] by blast
qed

text \<open>
  Burst prediction. With the smoothing factor 0.5 the scheduler uses, and burst lengths of
  less than 2^51 ticks, the double arithmetic of \<^verbatim>\<open>recordBurst\<close> is exact up to its final rounding: the
  new prediction is the mean of the old one and the burst, rounded half up, so it lies between the two;
  the predictions of other processes stay.
\<close>

theorem prediction_is_mean:
  assumes "stat_alpha st = 1 / 2" "predictions st pid = Some old" "unat old < 2 ^ 51" "unat burst < 2 ^ 51"
  shows "unat (Statistics_predictedBurst (Statistics_recordBurst st pid burst) pid) = (unat old + unat burst + 1) div 2
    \<and> (\<forall>q. q \<noteq> pid \<longrightarrow> Statistics_predictedBurst (Statistics_recordBurst st pid burst) q = Statistics_predictedBurst st q)"
proof -
  let ?o = "unat old" and ?n = "unat burst"
  have h: "fl (1 / 2) = (1 / 2 :: rat)" using fl_half_exact [of 1] by simp
  have o: "fl (of_nat ?o) = of_nat ?o" "fl (of_nat ?n) = of_nat ?n"
    using fl_nat_exact [of ?o] fl_nat_exact [of ?n] assms(3,4) by simp_all
  have p: "fl (of_nat ?n / 2) = of_nat ?n / 2" "fl (of_nat ?o / 2) = of_nat ?o / 2"
    using fl_half_exact [of ?n] fl_half_exact [of ?o] assms(3,4) by simp_all
  have sum: "?n + ?o < 2 ^ 53" "?n + ?o + 1 < 2 ^ 53" using assms(3,4) by simp_all
  have "of_nat ?n / 2 + of_nat ?o / 2 = (of_nat (?n + ?o) / 2 :: rat)" by (simp add: add_divide_distrib)
  then have s: "fl (of_nat ?n / 2 + of_nat ?o / 2) = of_nat (?n + ?o) / 2"
    using fl_half_exact [of "?n + ?o"] sum by (simp only:)
  have "of_nat (?n + ?o) / 2 + 1 / 2 = (of_nat (?n + ?o + 1) / 2 :: rat)" by (simp add: add_divide_distrib)
  then have t: "fl (of_nat (?n + ?o) / 2 + 1 / 2) = of_nat (?n + ?o + 1) / 2"
    using fl_half_exact [of "?n + ?o + 1"] sum by (simp only:)
  have f: "\<lfloor>of_nat (?n + ?o + 1) / 2 :: rat\<rfloor> = int ((?n + ?o + 1) div 2)"
    by (metis floor_divide_of_nat_eq of_nat_numeral)
  have lt: "(?n + ?o + 1) div 2 < 2 ^ 64" using assms(3,4) by simp
  then have tk: "tick_of_double (of_nat (?n + ?o + 1) / 2) = word_of_nat ((?n + ?o + 1) div 2)"
    unfolding tick_of_double_def f by simp
  have q: "1 / 2 * of_nat k = (of_nat k / 2 :: rat)" "1 - 1 / 2 = (1 / 2 :: rat)" for k :: nat by simp_all
  have r: "Statistics_recordBurst st pid burst = st\<lparr>predictions := (predictions st)(pid \<mapsto> word_of_nat ((?n + ?o + 1) div 2))\<rparr>"
    by (simp only: Statistics_recordBurst_def assms(1,2) option.case Let_def q h o p s t tk)
  have "unat (word_of_nat ((?n + ?o + 1) div 2) :: tick) = (?n + ?o + 1) div 2"
    using lt by (simp add: unat_of_nat)
  then show ?thesis by (simp add: r Statistics_predictedBurst_def add.commute)
qed

theorem prediction_is_mean_witness:
  "unat (Statistics_predictedBurst (Statistics_recordBurst (Statistics_recordBurst (Statistics_new (1 / 2)) 3 5) 3 8) 3) = 7"
proof -
  have "stat_alpha (Statistics_new (1 / 2)) = 1 / 2" by code_simp
  then show ?thesis
    using prediction_is_mean [of "Statistics_recordBurst (Statistics_new (1 / 2)) 3 5" 3 5 8]
    by (simp add: Statistics_recordBurst_def Statistics_new_def)
qed

end
