(* ===== verification/Scheduler.thy ===== *)
theory Scheduler
  imports Sched_Policy
begin

text \<open>
  The scheduler: \<^verbatim>\<open>scheduling/scheduler.cpp\<close>. Every public operation holds the scheduler's mutex for its
  whole body, so an operation is one step.

  The scheduler keeps references to process control blocks that live elsewhere. A reference is
  the id of the block here, and the blocks are an argument \<open>store\<close> of the operations, returned
  updated; the invariant says that the block of an id carries that id. The state of a process is
  changed through \<^verbatim>\<open>PCB::setState\<close> only, so the life-cycle automaton decides which operations succeed.
\<close>

section \<open>State\<close>

type_synonym pcb_store = "process_id \<Rightarrow> pcb"

record scheduler =
  sch_policy :: "scheduling_policy option"
  sch_statistics :: statistics
  processes :: "process_id set"
  processLane :: "process_id \<rightharpoonup> nat"
  runStart :: "process_id \<rightharpoonup> tick"
  readyByLane :: "process_id list list"
  sch_blocked :: "process_id list"
  runningByLane :: "process_id option list"

definition Scheduler_new :: "scheduling_policy option \<Rightarrow> scheduler" where
  "Scheduler_new policy =
     \<lparr>sch_policy = policy, sch_statistics = Statistics_new (1 / 2), processes = {}, processLane = Map.empty,
      runStart = Map.empty, readyByLane = [[]], sch_blocked = [], runningByLane = [None]\<rparr>"

section \<open>Helpers\<close>

definition toSnapshot :: "pcb \<Rightarrow> scheduling_snapshot" where
  "toSnapshot p =
     \<lparr>sn_pid = pcb_id p, sn_arrivalTime = arrivalTime (pcb_timing p), sn_lastStateChange = lastStateChange (pcb_timing p),
      sn_estimatedBurst = estimatedBurst (pcb_timing p), sn_remainingBurst = remainingBurst (pcb_timing p),
      sn_totalWaitTime = totalWaitTime (pcb_timing p), sn_effectivePriority = pr_effective (pcb_priority p),
      sn_nice = pr_nice (pcb_priority p)\<rparr>"

definition asConst :: "pcb_store \<Rightarrow> process_id list \<Rightarrow> scheduling_snapshot list" where
  "asConst store q = map (\<lambda>p. toSnapshot (store p)) q"

definition removeFrom :: "process_id list \<Rightarrow> process_id \<Rightarrow> process_id list" where
  "removeFrom q pid = filter (\<lambda>p. p \<noteq> pid) q"

definition findIn :: "process_id list \<Rightarrow> process_id \<Rightarrow> bool" where
  "findIn q pid \<longleftrightarrow> pid \<in> set q"

definition store_setState :: "pcb_store \<Rightarrow> process_id \<Rightarrow> process_state \<Rightarrow> tick \<Rightarrow> pcb_store \<times> bool" where
  "store_setState store pid s now =
     (let (p, ok) = PCB_setState (store pid) s now in (store(pid := p), ok))"

definition recordRunningBurst :: "scheduler \<Rightarrow> process_id \<Rightarrow> tick \<Rightarrow> scheduler" where
  "recordRunningBurst sch pid now =
     (case runStart sch pid of
        None \<Rightarrow> sch
      | Some started \<Rightarrow>
          let sch1 = (if now \<ge> started
                      then sch\<lparr>sch_statistics := Statistics_recordBurst (sch_statistics sch) pid (now - started)\<rparr>
                      else sch)
          in sch1\<lparr>runStart := (runStart sch1)(pid := None)\<rparr>)"

definition findRunningLane :: "scheduler \<Rightarrow> process_id \<Rightarrow> nat option" where
  "findRunningLane sch pid = List.find (\<lambda>lane. runningByLane sch ! lane = Some pid) [0..<length (runningByLane sch)]"

definition removeFromAllReady :: "scheduler \<Rightarrow> process_id \<Rightarrow> scheduler" where
  "removeFromAllReady sch pid = sch\<lparr>readyByLane := map (\<lambda>q. removeFrom q pid) (readyByLane sch)\<rparr>"

section \<open>Selection\<close>

text \<open>The end of a selection: the candidate leaves the ready queue and runs.\<close>

definition start_candidate ::
  "scheduler \<Rightarrow> pcb_store \<Rightarrow> nat \<Rightarrow> process_id \<Rightarrow> tick \<Rightarrow> (scheduler \<times> pcb_store) \<times> process_id result" where
  "start_candidate sch store lane cand now =
     (let sch1 = sch\<lparr>readyByLane := (readyByLane sch)[lane := removeFrom (readyByLane sch ! lane) cand]\<rparr>;
          (store1, ok) = store_setState store cand Running now
      in if \<not> ok then ((sch1, store1), Error InvalidState)
         else ((sch1\<lparr>runningByLane := (runningByLane sch1)[lane := Some cand],
                     processLane := (processLane sch1)(cand \<mapsto> lane),
                     runStart := (runStart sch1)(cand \<mapsto> now)\<rparr>, store1), Ok cand))"

definition selectNextForLane_nolock ::
  "scheduler \<Rightarrow> pcb_store \<Rightarrow> nat \<Rightarrow> tick \<Rightarrow> (scheduler \<times> pcb_store) \<times> process_id result" where
  "selectNextForLane_nolock sch store lane now =
     (if lane \<ge> length (readyByLane sch) then ((sch, store), Error InvalidArgument)
      else (case sch_policy sch of
        None \<Rightarrow> ((sch, store), Error InvalidState)
      | Some policy \<Rightarrow>
          (let ready = readyByLane sch ! lane; running = runningByLane sch ! lane in
           case (ready, running) of
             ([], Some r) \<Rightarrow> ((sch, store), Ok r)
           | ([], None) \<Rightarrow> ((sch, store), Error NotFound)
           | (_ # _, _) \<Rightarrow>
               let cand = policy_selectNext policy (asConst store ready) now in
               if cand = INVALID_PID \<or> \<not> findIn ready cand then ((sch, store), Error InvalidState)
               else
                 (case running of
                    None \<Rightarrow> start_candidate sch store lane cand now
                  | Some r \<Rightarrow>
                      if \<not> policy_shouldPreempt policy (toSnapshot (store r)) (toSnapshot (store cand)) now
                      then ((sch, store), Ok r)
                      else
                        let sch1 = recordRunningBurst sch r now;
                            (store1, ok) = store_setState store r Ready now
                        in if \<not> ok then ((sch1, store1), Error InvalidState)
                           else start_candidate
                                  (sch1\<lparr>readyByLane := (readyByLane sch1)[lane := ready @ [r]],
                                        processLane := (processLane sch1)(r \<mapsto> lane),
                                        runningByLane := (runningByLane sch1)[lane := None]\<rparr>)
                                  store1 lane cand now))))"

section \<open>Public operations\<close>

definition Scheduler_enqueueToLane ::
  "scheduler \<Rightarrow> pcb_store \<Rightarrow> process_id \<Rightarrow> nat \<Rightarrow> tick \<Rightarrow> (scheduler \<times> pcb_store) \<times> unit result" where
  "Scheduler_enqueueToLane sch store pid lane now =
     (if lane \<ge> length (readyByLane sch) then ((sch, store), Error InvalidArgument)
      else if pid = INVALID_PID then ((sch, store), Error InvalidPid)
      else
        let sch1 = sch\<lparr>processes := insert pid (processes sch)\<rparr> in
        if \<exists>q \<in> set (readyByLane sch1). findIn q pid then ((sch1, store), Ok ())
        else if findRunningLane sch1 pid \<noteq> None then ((sch1, store), Ok ())
        else if pcb_state (store pid) = Running then ((sch1, store), Error InvalidState)
        else
          let (store1, ok) = store_setState store pid Ready now in
          if \<not> ok then ((sch1, store1), Error InvalidState)
          else
            let store2 = (if Statistics_hasPrediction (sch_statistics sch1) pid
                          then store1(pid := (store1 pid)\<lparr>pcb_timing := (pcb_timing (store1 pid))
                                 \<lparr>estimatedBurst := Statistics_predictedBurst (sch_statistics sch1) pid\<rparr>\<rparr>)
                          else store1)
            in ((sch1\<lparr>readyByLane := (readyByLane sch1)[lane := readyByLane sch1 ! lane @ [pid]],
                      processLane := (processLane sch1)(pid \<mapsto> lane)\<rparr>, store2), Ok ()))"

definition Scheduler_enqueue ::
  "scheduler \<Rightarrow> pcb_store \<Rightarrow> process_id \<Rightarrow> tick \<Rightarrow> (scheduler \<times> pcb_store) \<times> unit result" where
  "Scheduler_enqueue sch store pid now = Scheduler_enqueueToLane sch store pid 0 now"

definition Scheduler_dequeue :: "scheduler \<Rightarrow> process_id \<Rightarrow> scheduler \<times> unit result" where
  "Scheduler_dequeue sch pid =
     (if pid \<notin> processes sch then (sch, Error NotFound)
      else
        let sch1 = sch\<lparr>runningByLane := map (\<lambda>r. if r = Some pid then None else r) (runningByLane sch)\<rparr>;
            sch2 = removeFromAllReady sch1 pid
        in (sch2\<lparr>sch_blocked := removeFrom (sch_blocked sch2) pid,
                 processLane := (processLane sch2)(pid := None),
                 runStart := (runStart sch2)(pid := None),
                 sch_statistics := Statistics_clear (sch_statistics sch2) pid,
                 processes := processes sch2 - {pid}\<rparr>, Ok ()))"

definition Scheduler_selectNext ::
  "scheduler \<Rightarrow> pcb_store \<Rightarrow> tick \<Rightarrow> (scheduler \<times> pcb_store) \<times> process_id result" where
  "Scheduler_selectNext sch store now = selectNextForLane_nolock sch store 0 now"

definition Scheduler_selectNextForLane ::
  "scheduler \<Rightarrow> pcb_store \<Rightarrow> nat \<Rightarrow> tick \<Rightarrow> (scheduler \<times> pcb_store) \<times> process_id result" where
  "Scheduler_selectNextForLane sch store lane now = selectNextForLane_nolock sch store lane now"

text \<open>The lane with the largest ready queue other than the thief's, the first one among equals.\<close>

fun victim_scan :: "process_id list list \<Rightarrow> nat \<Rightarrow> nat list \<Rightarrow> nat option \<Rightarrow> nat \<Rightarrow> nat option" where
  "victim_scan qs thief [] victim size' = victim"
| "victim_scan qs thief (lane # lanes) victim size' =
     (if lane = thief then victim_scan qs thief lanes victim size'
      else if length (qs ! lane) > size' then victim_scan qs thief lanes (Some lane) (length (qs ! lane))
      else victim_scan qs thief lanes victim size')"

definition Scheduler_stealNextForLane ::
  "scheduler \<Rightarrow> pcb_store \<Rightarrow> nat \<Rightarrow> tick \<Rightarrow> (scheduler \<times> pcb_store) \<times> process_id result" where
  "Scheduler_stealNextForLane sch store thief now =
     (if thief \<ge> length (readyByLane sch) then ((sch, store), Error InvalidArgument)
      else (case victim_scan (readyByLane sch) thief [0..<length (readyByLane sch)] None 0 of
              None \<Rightarrow> ((sch, store), Error NotFound)
            | Some victim \<Rightarrow>
                let stolen = hd (readyByLane sch ! victim);
                    qs = (readyByLane sch)[victim := tl (readyByLane sch ! victim)]
                in selectNextForLane_nolock
                     (sch\<lparr>readyByLane := qs[thief := qs ! thief @ [stolen]],
                          processLane := (processLane sch)(stolen \<mapsto> thief)\<rparr>) store thief now))"

text \<open>The body shared by \<^verbatim>\<open>blockRunning\<close> and \<^verbatim>\<open>blockProcess\<close> for a running process.\<close>

definition block_lane ::
  "scheduler \<Rightarrow> pcb_store \<Rightarrow> nat \<Rightarrow> process_id \<Rightarrow> tick \<Rightarrow> (scheduler \<times> pcb_store) \<times> unit result" where
  "block_lane sch store lane pid now =
     (let sch1 = recordRunningBurst sch pid now;
          (store1, ok) = store_setState store pid Blocked now
      in if \<not> ok then ((sch1, store1), Error InvalidState)
         else ((sch1\<lparr>sch_blocked := sch_blocked sch1 @ [pid],
                     runningByLane := (runningByLane sch1)[lane := None]\<rparr>, store1), Ok ()))"

definition Scheduler_blockRunning ::
  "scheduler \<Rightarrow> pcb_store \<Rightarrow> tick \<Rightarrow> (scheduler \<times> pcb_store) \<times> unit result" where
  "Scheduler_blockRunning sch store now =
     (case List.find (\<lambda>lane. runningByLane sch ! lane \<noteq> None) [0..<length (runningByLane sch)] of
        None \<Rightarrow> ((sch, store), Error NotFound)
      | Some lane \<Rightarrow> block_lane sch store lane (the (runningByLane sch ! lane)) now)"

definition Scheduler_blockProcess ::
  "scheduler \<Rightarrow> pcb_store \<Rightarrow> process_id \<Rightarrow> tick \<Rightarrow> (scheduler \<times> pcb_store) \<times> unit result" where
  "Scheduler_blockProcess sch store pid now =
     (if pid \<notin> processes sch then ((sch, store), Error NotFound)
      else (case findRunningLane sch pid of
        Some lane \<Rightarrow> block_lane sch store lane pid now
      | None \<Rightarrow>
          (case List.find (\<lambda>lane. findIn (readyByLane sch ! lane) pid) [0..<length (readyByLane sch)] of
             None \<Rightarrow> ((sch, store), Error NotFound)
           | Some lane \<Rightarrow>
               let (store1, ok) = store_setState store pid Blocked now in
               if \<not> ok then ((sch, store1), Error InvalidState)
               else ((sch\<lparr>readyByLane := (readyByLane sch)[lane := removeFrom (readyByLane sch ! lane) pid],
                          sch_blocked := sch_blocked sch @ [pid]\<rparr>, store1), Ok ()))))"

definition Scheduler_unblock ::
  "scheduler \<Rightarrow> pcb_store \<Rightarrow> process_id \<Rightarrow> tick \<Rightarrow> (scheduler \<times> pcb_store) \<times> unit result" where
  "Scheduler_unblock sch store pid now =
     (if \<not> findIn (sch_blocked sch) pid then ((sch, store), Error NotFound)
      else
        let (store1, ok) = store_setState store pid Ready now in
        if \<not> ok then ((sch, store1), Error InvalidState)
        else
          let lane0 = (case processLane sch pid of Some l \<Rightarrow> l | None \<Rightarrow> 0);
              lane = (if lane0 \<ge> length (readyByLane sch) then 0 else lane0)
          in ((sch\<lparr>sch_blocked := removeFrom (sch_blocked sch) pid,
                   readyByLane := (readyByLane sch)[lane := readyByLane sch ! lane @ [pid]],
                   processLane := (processLane sch)(pid \<mapsto> lane)\<rparr>, store1), Ok ()))"

definition Scheduler_terminate ::
  "scheduler \<Rightarrow> pcb_store \<Rightarrow> process_id \<Rightarrow> tick \<Rightarrow> (scheduler \<times> pcb_store) \<times> unit result" where
  "Scheduler_terminate sch store pid now =
     (if pid \<notin> processes sch then ((sch, store), Error NotFound)
      else
        let sch1 =
              (case findRunningLane sch pid of
                 Some lane \<Rightarrow>
                   (let s = recordRunningBurst sch pid now
                    in s\<lparr>runningByLane := (runningByLane s)[lane := None]\<rparr>)
               | None \<Rightarrow>
                   (let s = removeFromAllReady sch pid
                    in s\<lparr>sch_blocked := removeFrom (sch_blocked s) pid\<rparr>));
            (store1, ok) = store_setState store pid Terminated now
        in if \<not> ok then ((sch1, store1), Error InvalidState)
           else ((sch1\<lparr>runStart := (runStart sch1)(pid := None),
                       processLane := (processLane sch1)(pid := None),
                       sch_statistics := Statistics_clear (sch_statistics sch1) pid,
                       processes := processes sch1 - {pid}\<rparr>, store1), Ok ()))"

definition Scheduler_getQueueSnapshot :: "scheduler \<Rightarrow> process_id list" where
  "Scheduler_getQueueSnapshot sch = concat (readyByLane sch)"

definition Scheduler_getPerLaneQueueSnapshot :: "scheduler \<Rightarrow> process_id list list" where
  "Scheduler_getPerLaneQueueSnapshot sch = readyByLane sch"

definition Scheduler_getBlockedSnapshot :: "scheduler \<Rightarrow> process_id list" where
  "Scheduler_getBlockedSnapshot sch = sch_blocked sch"

definition Scheduler_runningProcesses :: "scheduler \<Rightarrow> process_id list" where
  "Scheduler_runningProcesses sch = map the (filter (\<lambda>r. r \<noteq> None) (runningByLane sch))"

definition Scheduler_configureLanes :: "scheduler \<Rightarrow> nat \<Rightarrow> scheduler \<times> unit result" where
  "Scheduler_configureLanes sch laneCount =
     (if laneCount = 0 then (sch, Error InvalidArgument)
      else if processes sch \<noteq> {} then (sch, Error InvalidState)
      else (sch\<lparr>readyByLane := replicate laneCount [], runningByLane := replicate laneCount None,
                processLane := Map.empty\<rparr>, Ok ()))"

definition Scheduler_laneCount :: "scheduler \<Rightarrow> nat" where
  "Scheduler_laneCount sch = length (readyByLane sch)"

definition Scheduler_setPolicy :: "scheduler \<Rightarrow> scheduling_policy option \<Rightarrow> scheduler \<times> unit result" where
  "Scheduler_setPolicy sch policy =
     (if policy = None then (sch, Error InvalidState) else (sch\<lparr>sch_policy := policy\<rparr>, Ok ()))"

definition Scheduler_policyName :: "scheduler \<Rightarrow> string" where
  "Scheduler_policyName sch = (case sch_policy sch of None \<Rightarrow> ''Unconfigured'' | Some p \<Rightarrow> policy_name p)"

section \<open>The invariant\<close>

text \<open>
  Where a process is queued is determined by its state and its lane: a ready queue holds processes
  in state \<open>Ready\<close> of that lane, a lane runs a process in state \<open>Running\<close> of that lane, and the blocked list
  holds processes in state \<open>Blocked\<close>. Hence no process is queued twice.
\<close>

definition sched_inv :: "scheduler \<Rightarrow> pcb_store \<Rightarrow> bool" where
  "sched_inv sch store \<longleftrightarrow>
     readyByLane sch \<noteq> [] \<and> length (runningByLane sch) = length (readyByLane sch)
     \<and> INVALID_PID \<notin> processes sch
     \<and> (\<forall>p. pcb_id (store p) = p)
     \<and> (\<forall>l < length (readyByLane sch). distinct (readyByLane sch ! l))
     \<and> (\<forall>l < length (readyByLane sch). \<forall>p \<in> set (readyByLane sch ! l).
          p \<in> processes sch \<and> pcb_state (store p) = Ready \<and> processLane sch p = Some l)
     \<and> (\<forall>l < length (readyByLane sch). \<forall>p. runningByLane sch ! l = Some p \<longrightarrow>
          p \<in> processes sch \<and> pcb_state (store p) = Running \<and> processLane sch p = Some l)
     \<and> distinct (sch_blocked sch)
     \<and> (\<forall>p \<in> set (sch_blocked sch). p \<in> processes sch \<and> pcb_state (store p) = Blocked)"

section \<open>Lemmas on the helpers\<close>

lemma set_removeFrom [simp]: "set (removeFrom q pid) = set q - {pid}"
  by (auto simp: removeFrom_def)

lemma distinct_removeFrom [simp]: "distinct q \<Longrightarrow> distinct (removeFrom q pid)"
  by (simp add: removeFrom_def)

lemma removeFrom_notin: "pid \<notin> set q \<Longrightarrow> removeFrom q pid = q"
  by (simp add: removeFrom_def filter_neq_id)

lemma store_setState_ok:
  assumes "store_setState store p s now = (store', ok)"
  shows "ok \<longleftrightarrow> isValidTransition (pcb_state (store p)) s" "q \<noteq> p \<Longrightarrow> store' q = store q"
    "pcb_id (store' q) = pcb_id (store q)" "ok \<Longrightarrow> pcb_state (store' p) = s" "\<not> ok \<Longrightarrow> store' = store"
    "pcb_priority (store' q) = pcb_priority (store q)"
proof -
  have e: "store' = store(p := fst (PCB_setState (store p) s now))" "ok = snd (PCB_setState (store p) s now)"
    using assms by (auto simp: store_setState_def split: prod.splits)
  show ok: "ok \<longleftrightarrow> isValidTransition (pcb_state (store p)) s" by (simp add: e setState_False)
  show "q \<noteq> p \<Longrightarrow> store' q = store q" "pcb_id (store' q) = pcb_id (store q)" by (simp_all add: e)
  show "ok \<Longrightarrow> pcb_state (store' p) = s" using ok setState_valid(2) by (simp add: e)
  show "\<not> ok \<Longrightarrow> store' = store" using ok by (simp add: e)
  show "pcb_priority (store' q) = pcb_priority (store q)"
    using setState_valid(4) [of "store p" s now] by (cases "isValidTransition (pcb_state (store p)) s") (simp_all add: e)
qed

lemma recordRunningBurst_fields [simp]:
  "readyByLane (recordRunningBurst sch p now) = readyByLane sch"
  "runningByLane (recordRunningBurst sch p now) = runningByLane sch"
  "sch_blocked (recordRunningBurst sch p now) = sch_blocked sch"
  "processes (recordRunningBurst sch p now) = processes sch"
  "processLane (recordRunningBurst sch p now) = processLane sch"
  "sch_policy (recordRunningBurst sch p now) = sch_policy sch"
  by (simp_all add: recordRunningBurst_def Let_def split: option.splits)

lemma findRunningLane_Some:
  "findRunningLane sch p = Some l \<Longrightarrow> l < length (runningByLane sch) \<and> runningByLane sch ! l = Some p"
  by (auto simp: findRunningLane_def find_Some_iff)

lemma findRunningLane_None: "findRunningLane sch p = None \<longleftrightarrow> Some p \<notin> set (runningByLane sch)"
  by (auto simp: findRunningLane_def find_None_iff in_set_conv_nth)

lemma asConst_pids: "\<forall>p. pcb_id (store p) = p \<Longrightarrow> sn_pid ` set (asConst store q) = set q"
  by (force simp: asConst_def toSnapshot_def)

section \<open>The invariant unfolded\<close>

lemma sched_invD:
  assumes "sched_inv sch store"
  shows "readyByLane sch \<noteq> []" "length (runningByLane sch) = length (readyByLane sch)"
    "INVALID_PID \<notin> processes sch" "\<And>p. pcb_id (store p) = p"
    "\<And>l. l < length (readyByLane sch) \<Longrightarrow> distinct (readyByLane sch ! l)"
    "\<And>l p. l < length (readyByLane sch) \<Longrightarrow> p \<in> set (readyByLane sch ! l) \<Longrightarrow>
       p \<in> processes sch \<and> pcb_state (store p) = Ready \<and> processLane sch p = Some l"
    "\<And>l p. l < length (readyByLane sch) \<Longrightarrow> runningByLane sch ! l = Some p \<Longrightarrow>
       p \<in> processes sch \<and> pcb_state (store p) = Running \<and> processLane sch p = Some l"
    "distinct (sch_blocked sch)"
    "\<And>p. p \<in> set (sch_blocked sch) \<Longrightarrow> p \<in> processes sch \<and> pcb_state (store p) = Blocked"
  using assms unfolding sched_inv_def by blast+

lemma inv_not_both:
  assumes "sched_inv sch store" "l < length (readyByLane sch)"
  shows "p \<in> set (readyByLane sch ! l) \<Longrightarrow> p \<notin> set (sch_blocked sch)"
    "p \<in> set (readyByLane sch ! l) \<Longrightarrow> runningByLane sch ! k = Some p \<Longrightarrow> k < length (readyByLane sch) \<Longrightarrow> False"
    "runningByLane sch ! l = Some p \<Longrightarrow> p \<notin> set (sch_blocked sch)"
    "p \<in> set (readyByLane sch ! l) \<Longrightarrow> p \<in> set (readyByLane sch ! k) \<Longrightarrow> k < length (readyByLane sch) \<Longrightarrow> k = l"
    "runningByLane sch ! l = Some p \<Longrightarrow> runningByLane sch ! k = Some p \<Longrightarrow> k < length (readyByLane sch) \<Longrightarrow> k = l"
  using sched_invD(6) [OF assms] sched_invD(7) [OF assms] sched_invD(9) [OF assms(1)]
    sched_invD(6) [OF assms(1), of k p] sched_invD(7) [OF assms(1), of k p]
  by fastforce+

section \<open>Moves between queues\<close>

text \<open>The moves the operations are made of, each of which keeps the invariant.\<close>

lemma sched_inv_cong:
  "\<lbrakk>readyByLane s = readyByLane t; runningByLane s = runningByLane t; sch_blocked s = sch_blocked t;
    processes s = processes t; processLane s = processLane t\<rbrakk> \<Longrightarrow> sched_inv s store = sched_inv t store"
  by (simp add: sched_inv_def)

lemma inv_record [simp]: "sched_inv (recordRunningBurst sch p now) store = sched_inv sch store"
  by (simp add: sched_inv_def)

lemma inv_other_fields [simp]:
  "sched_inv (sch\<lparr>runStart := a\<rparr>) store = sched_inv sch store"
  "sched_inv (sch\<lparr>sch_statistics := b\<rparr>) store = sched_inv sch store"
  "sched_inv (sch\<lparr>sch_policy := c\<rparr>) store = sched_inv sch store"
  by (simp_all add: sched_inv_def)

lemma move_ready_to_running:
  assumes i: "sched_inv sch store" and l: "l < length (readyByLane sch)" and p: "p \<in> set (readyByLane sch ! l)"
    and r: "runningByLane sch ! l = None" and st: "store_setState store p Running now = (store', ok)"
  shows "ok \<and> sched_inv (sch\<lparr>readyByLane := (readyByLane sch)[l := removeFrom (readyByLane sch ! l) p],
      runningByLane := (runningByLane sch)[l := Some p], processLane := (processLane sch)(p \<mapsto> l)\<rparr>) store'"
proof -
  note d = sched_invD [OF i] and s = store_setState_ok [OF st]
  have ok: ok using s(1) d(6) [OF l p] by simp
  have st': "pcb_state (store' q) = (if q = p then Running else pcb_state (store q))" for q
    using s(2) s(4) [OF ok] by auto
  have pl: "(processLane sch)(p \<mapsto> l) = processLane sch" using d(6) [OF l p] by (simp add: fun_upd_idem)
  show ?thesis
    unfolding sched_inv_def pl using ok d l p s(3) inv_not_both [OF i]
    by (auto simp: nth_list_update st' split: if_splits)
qed

lemma move_running_to_ready:
  assumes i: "sched_inv sch store" and l: "l < length (readyByLane sch)"
    and r: "runningByLane sch ! l = Some p" and st: "store_setState store p Ready now = (store', ok)"
  shows "ok \<and> sched_inv (sch\<lparr>readyByLane := (readyByLane sch)[l := readyByLane sch ! l @ [p]],
      processLane := (processLane sch)(p \<mapsto> l), runningByLane := (runningByLane sch)[l := None]\<rparr>) store'"
proof -
  note d = sched_invD [OF i] and s = store_setState_ok [OF st]
  have ok: ok using s(1) d(7) [OF l r] by simp
  have st': "pcb_state (store' q) = (if q = p then Ready else pcb_state (store q))" for q
    using s(2) s(4) [OF ok] by auto
  have pl: "(processLane sch)(p \<mapsto> l) = processLane sch" using d(7) [OF l r] by (simp add: fun_upd_idem)
  have nr: "p \<notin> set (readyByLane sch ! k)" if "k < length (readyByLane sch)" for k
    using inv_not_both(2) [OF i that _ r] l by blast
  show ?thesis
    unfolding sched_inv_def pl using ok d l r s(3) nr inv_not_both [OF i]
    by (auto simp: nth_list_update st' split: if_splits)
qed

lemma move_running_to_blocked:
  assumes i: "sched_inv sch store" and l: "l < length (readyByLane sch)"
    and r: "runningByLane sch ! l = Some p" and st: "store_setState store p Blocked now = (store', ok)"
  shows "ok \<and> sched_inv (sch\<lparr>sch_blocked := sch_blocked sch @ [p], runningByLane := (runningByLane sch)[l := None]\<rparr>) store'"
proof -
  note d = sched_invD [OF i] and s = store_setState_ok [OF st]
  have ok: ok using s(1) d(7) [OF l r] by simp
  have st': "pcb_state (store' q) = (if q = p then Blocked else pcb_state (store q))" for q
    using s(2) s(4) [OF ok] by auto
  have nr: "p \<notin> set (readyByLane sch ! k)" if "k < length (readyByLane sch)" for k
    using inv_not_both(2) [OF i that _ r] l by blast
  show ?thesis
    unfolding sched_inv_def using ok d l r s(3) nr inv_not_both [OF i]
    by (auto simp: nth_list_update st' split: if_splits)
qed

lemma move_new_to_ready:
  assumes i: "sched_inv sch store" and l: "l < length (readyByLane sch)" and p: "p \<noteq> INVALID_PID"
    and nr: "\<forall>k < length (readyByLane sch). p \<notin> set (readyByLane sch ! k)"
    and nn: "\<forall>k < length (readyByLane sch). runningByLane sch ! k \<noteq> Some p"
    and nb: "p \<notin> set (sch_blocked sch)" and st: "pcb_state (store' p) = Ready" "pcb_id (store' p) = p" "\<And>q. q \<noteq> p \<Longrightarrow> store' q = store q"
  shows "sched_inv (sch\<lparr>processes := insert p (processes sch), readyByLane := (readyByLane sch)[l := readyByLane sch ! l @ [p]],
      processLane := (processLane sch)(p \<mapsto> l)\<rparr>) store'"
proof -
  note d = sched_invD [OF i]
  have id': "pcb_id (store' q) = q" for q using d(4) st(2,3) by (cases "q = p") auto
  have st': "pcb_state (store' q) = (if q = p then Ready else pcb_state (store q))" for q
    using st by auto
  show ?thesis
    unfolding sched_inv_def using d l nr nn nb p id' by (auto simp: nth_list_update st' split: if_splits)
qed

lemma move_blocked_to_ready:
  assumes i: "sched_inv sch store" and l: "l < length (readyByLane sch)" and p: "p \<in> set (sch_blocked sch)"
    and st: "store_setState store p Ready now = (store', ok)"
  shows "ok \<and> sched_inv (sch\<lparr>sch_blocked := removeFrom (sch_blocked sch) p,
      readyByLane := (readyByLane sch)[l := readyByLane sch ! l @ [p]], processLane := (processLane sch)(p \<mapsto> l)\<rparr>) store'"
proof -
  note d = sched_invD [OF i] and s = store_setState_ok [OF st]
  have ok: ok using s(1) d(9) [OF p] by simp
  have st': "pcb_state (store' q) = (if q = p then Ready else pcb_state (store q))" for q
    using s(2) s(4) [OF ok] by auto
  have nr: "p \<notin> set (readyByLane sch ! k)" "runningByLane sch ! k \<noteq> Some p" if "k < length (readyByLane sch)" for k
    using inv_not_both(1,3) [OF i that] p by blast+
  show ?thesis
    unfolding sched_inv_def using ok d l p s(3) nr by (auto simp: nth_list_update st' split: if_splits)
qed

lemma move_ready_lane:
  assumes i: "sched_inv sch store" and l: "l < length (readyByLane sch)" "k < length (readyByLane sch)" "k \<noteq> l"
    and p: "readyByLane sch ! l = p # q"
  shows "sched_inv (sch\<lparr>readyByLane := ((readyByLane sch)[l := q])[k := readyByLane sch ! k @ [p]],
      processLane := (processLane sch)(p \<mapsto> k)\<rparr>) store"
proof -
  note d = sched_invD [OF i]
  have pr: "p \<in> set (readyByLane sch ! l)" using p by simp
  have nk: "p \<notin> set (readyByLane sch ! j)" if "j < length (readyByLane sch)" "j \<noteq> l" for j
    using inv_not_both(4) [OF i l(1) pr] that by blast
  have nr: "runningByLane sch ! j \<noteq> Some p" if "j < length (readyByLane sch)" for j
    using inv_not_both(2) [OF i l(1) pr] that by blast
  have dq: "p \<notin> set q" "distinct q" using d(5) [OF l(1)] p by auto
  have ql: "x \<in> set (readyByLane sch ! l)" if "x \<in> set q" for x using that p by simp
  show ?thesis
    unfolding sched_inv_def using d l pr nk nr dq ql by (auto simp: nth_list_update split: if_splits)
qed

text \<open>A process that is taken out of every queue may be forgotten or kept, in any state.\<close>

lemma remove_everywhere:
  assumes i: "sched_inv sch store"
    and l: "length rd = length (readyByLane sch)" "length rn = length (readyByLane sch)"
    and rd: "\<And>k. k < length rd \<Longrightarrow> rd ! k = removeFrom (readyByLane sch ! k) p"
    and rn: "\<And>k q. k < length rd \<Longrightarrow> rn ! k = Some q \<longleftrightarrow> runningByLane sch ! k = Some q \<and> q \<noteq> p"
    and bl: "bl = removeFrom (sch_blocked sch) p"
    and ps: "processes sch - {p} \<subseteq> ps" "ps \<subseteq> processes sch"
    and pl: "\<And>q. q \<noteq> p \<Longrightarrow> pl q = processLane sch q"
    and st: "\<And>q. q \<noteq> p \<Longrightarrow> store' q = store q" "pcb_id (store' p) = p"
  shows "sched_inv (sch\<lparr>readyByLane := rd, runningByLane := rn, sch_blocked := bl, processes := ps, processLane := pl\<rparr>) store'"
proof -
  note d = sched_invD [OF i]
  have "pcb_id (store' q) = q" for q using d(4) st by (cases "q = p") auto
  moreover have "rd \<noteq> []" using d(1) l(1) by auto
  moreover have "p \<notin> set bl" "q \<in> set bl \<Longrightarrow> q \<in> set (sch_blocked sch)" "distinct bl" for q
    using bl d(8) by auto
  moreover have "INVALID_PID \<notin> ps" using d(3) ps(2) by blast
  moreover have "distinct (rd ! k)" if "k < length rd" for k using rd [OF that] d(5) that l by simp
  moreover have "q \<in> ps \<and> pcb_state (store' q) = Ready \<and> pl q = Some k" if "k < length rd" "q \<in> set (rd ! k)" for k q
  proof -
    have "q \<noteq> p" "q \<in> set (readyByLane sch ! k)" using that rd by auto
    then show ?thesis using d(6) [of k q] that(1) l(1) ps st pl by auto
  qed
  moreover have "q \<in> ps \<and> pcb_state (store' q) = Running \<and> pl q = Some k" if "k < length rd" "rn ! k = Some q" for k q
  proof -
    have "q \<noteq> p" "runningByLane sch ! k = Some q" using that rn by auto
    then show ?thesis using d(7) [of k q] that(1) l(1) ps st pl by auto
  qed
  moreover have "q \<in> ps \<and> pcb_state (store' q) = Blocked" if "q \<in> set bl" for q
  proof -
    have "q \<noteq> p" "q \<in> set (sch_blocked sch)" using that bl by auto
    then show ?thesis using d(9) [of q] ps st by auto
  qed
  ultimately show ?thesis using l unfolding sched_inv_def by simp
qed

section \<open>The operations\<close>

text \<open>
  A selection on a configured lane: which process it yields, and that it moves processes only
  between the ready queue of the lane and the lane itself.
\<close>

definition selected :: "scheduling_policy \<Rightarrow> scheduler \<Rightarrow> pcb_store \<Rightarrow> nat \<Rightarrow> tick \<Rightarrow> process_id result" where
  "selected pol sch store l now =
     (let ready = readyByLane sch ! l; best = policy_selectNext pol (asConst store ready) now in
      case runningByLane sch ! l of
        None \<Rightarrow> if ready = [] then Error NotFound else Ok best
      | Some r \<Rightarrow> if ready \<noteq> [] \<and> policy_shouldPreempt pol (toSnapshot (store r)) (toSnapshot (store best)) now
                  then Ok best else Ok r)"

definition on_lane :: "scheduler \<Rightarrow> nat \<Rightarrow> process_id set" where
  "on_lane sch l = set (readyByLane sch ! l) \<union> set_option (runningByLane sch ! l)"

lemma start_candidate_view:
  assumes i: "sched_inv sch store" and l: "l < length (readyByLane sch)" and p: "p \<in> set (readyByLane sch ! l)"
    and r: "runningByLane sch ! l = None" and e: "start_candidate sch store l p now = ((sch', store'), res)"
  shows "res = Ok p \<and> sched_inv sch' store'
    \<and> readyByLane sch' = (readyByLane sch)[l := removeFrom (readyByLane sch ! l) p]
    \<and> runningByLane sch' = (runningByLane sch)[l := Some p]
    \<and> sch_blocked sch' = sch_blocked sch \<and> processes sch' = processes sch \<and> sch_policy sch' = sch_policy sch
    \<and> store' = fst (store_setState store p Running now)"
proof -
  obtain st ok where st: "store_setState store p Running now = (st, ok)" by fastforce
  note m = move_ready_to_running [OF i l p r st]
  then have ok by blast
  have sch': "sch' = sch\<lparr>readyByLane := (readyByLane sch)[l := removeFrom (readyByLane sch ! l) p],
      runningByLane := (runningByLane sch)[l := Some p], processLane := (processLane sch)(p \<mapsto> l),
      runStart := (runStart sch)(p \<mapsto> now)\<rparr>" "store' = st" "res = Ok p"
    using e \<open>ok\<close> by (auto simp: start_candidate_def Let_def st)
  have "sched_inv (sch\<lparr>readyByLane := (readyByLane sch)[l := removeFrom (readyByLane sch ! l) p],
      runningByLane := (runningByLane sch)[l := Some p], processLane := (processLane sch)(p \<mapsto> l)\<rparr>) st"
    using m by blast
  then have "sched_inv sch' store'" unfolding sch' by (subst inv_other_fields(1)) simp
  then show ?thesis using st unfolding sch' by simp
qed

lemma best_ready:
  fixes pol :: scheduling_policy and now :: tick
  assumes i: "sched_inv sch store" and l: "l < length (readyByLane sch)" and ne: "readyByLane sch ! l \<noteq> []"
  defines "best \<equiv> policy_selectNext pol (asConst store (readyByLane sch ! l)) now"
  shows "best \<in> set (readyByLane sch ! l)" "best \<noteq> INVALID_PID" "findIn (readyByLane sch ! l) best"
proof -
  note d = sched_invD [OF i]
  have "asConst store (readyByLane sch ! l) \<noteq> []" using ne by (simp add: asConst_def)
  then have "best \<in> sn_pid ` set (asConst store (readyByLane sch ! l))" unfolding best_def by (rule spol.select_in)
  then show b: "best \<in> set (readyByLane sch ! l)" using asConst_pids d(4) by blast
  then show "best \<noteq> INVALID_PID" using d(6) [OF l b] d(3) by metis
  show "findIn (readyByLane sch ! l) best" using b by (simp add: findIn_def)
qed

text \<open>The ways a selection can go: nothing to run, the running process stays, a ready one starts, or it replaces the running one.\<close>

lemma select_cases:
  assumes i: "sched_inv sch store" and l: "l < length (readyByLane sch)" and pol: "sch_policy sch = Some pol"
    and e: "selectNextForLane_nolock sch store l now = ((sch', store'), res)"
  obtains (idle) "readyByLane sch ! l = []" "runningByLane sch ! l = None" "sch' = sch" "store' = store" "res = Error NotFound"
  | (keep) r where "runningByLane sch ! l = Some r" "sch' = sch" "store' = store" "res = Ok r"
      "readyByLane sch ! l = [] \<or> \<not> policy_shouldPreempt pol (toSnapshot (store r))
         (toSnapshot (store (policy_selectNext pol (asConst store (readyByLane sch ! l)) now))) now"
  | (start) best where "best = policy_selectNext pol (asConst store (readyByLane sch ! l)) now" "best \<in> set (readyByLane sch ! l)"
      "runningByLane sch ! l = None" "res = Ok best" "sched_inv sch' store'"
      "readyByLane sch' = (readyByLane sch)[l := removeFrom (readyByLane sch ! l) best]"
      "runningByLane sch' = (runningByLane sch)[l := Some best]"
      "sch_blocked sch' = sch_blocked sch" "processes sch' = processes sch" "sch_policy sch' = sch_policy sch"
      "store' = fst (store_setState store best Running now)"
  | (preempt) best r where "best = policy_selectNext pol (asConst store (readyByLane sch ! l)) now" "best \<in> set (readyByLane sch ! l)"
      "runningByLane sch ! l = Some r" "policy_shouldPreempt pol (toSnapshot (store r)) (toSnapshot (store best)) now"
      "res = Ok best" "sched_inv sch' store'"
      "readyByLane sch' = (readyByLane sch)[l := removeFrom (readyByLane sch ! l @ [r]) best]"
      "runningByLane sch' = (runningByLane sch)[l := Some best]"
      "sch_blocked sch' = sch_blocked sch" "processes sch' = processes sch" "sch_policy sch' = sch_policy sch"
      "store' = fst (store_setState (fst (store_setState store r Ready now)) best Running now)"
proof (cases "readyByLane sch ! l = []")
  case True
  show thesis
  proof (cases "runningByLane sch ! l")
    case None
    have "sch' = sch" "store' = store" "res = Error NotFound"
      using e l pol True None by (simp_all add: selectNextForLane_nolock_def)
    from idle [OF True None this] show thesis .
  next
    case (Some r)
    have "sch' = sch" "store' = store" "res = Ok r"
      using e l pol True Some by (simp_all add: selectNextForLane_nolock_def)
    then show thesis using keep [OF Some] True by simp
  qed
next
  case ne: False
  let ?ready = "readyByLane sch ! l"
  let ?best = "policy_selectNext pol (asConst store ?ready) now"
  note best = best_ready [OF i l ne, of pol now]
  obtain x xs where xs: "?ready = x # xs" using ne by (cases ?ready) auto
  have len: "l < length (runningByLane sch)" using l sched_invD(2) [OF i] by simp
  show thesis
  proof (cases "runningByLane sch ! l")
    case None
    have "start_candidate sch store l ?best now = ((sch', store'), res)"
      using e l pol None best(2,3) xs by (simp add: selectNextForLane_nolock_def Let_def)
    from start_candidate_view [OF i l best(1) None this] show thesis using start [OF refl best(1) None] by blast
  next
    case (Some r)
    show thesis
    proof (cases "policy_shouldPreempt pol (toSnapshot (store r)) (toSnapshot (store ?best)) now")
      case False
      then have "sch' = sch" "store' = store" "res = Ok r"
        using e l pol Some best(2,3) xs by (simp_all add: selectNextForLane_nolock_def)
      then show thesis using keep [OF Some] False by simp
    next
      case True
      obtain st ok where st: "store_setState store r Ready now = (st, ok)" by fastforce
      let ?s = "recordRunningBurst sch r now"
      let ?s1 = "?s\<lparr>readyByLane := (readyByLane ?s)[l := readyByLane ?s ! l @ [r]],
          processLane := (processLane ?s)(r \<mapsto> l), runningByLane := (runningByLane ?s)[l := None]\<rparr>"
      have "sched_inv ?s store" using i by simp
      from move_running_to_ready [OF this _ _ st, of l] have m: "ok" "sched_inv ?s1 st" using l Some by auto
      have "start_candidate ?s1 st l ?best now = ((sch', store'), res)"
        using e l pol Some best(2,3) xs True st m(1) by (simp add: selectNextForLane_nolock_def Let_def)
      moreover have "l < length (readyByLane ?s1)" "runningByLane ?s1 ! l = None" "?best \<in> set (readyByLane ?s1 ! l)"
        using l len best(1) by simp_all
      ultimately have v: "res = Ok ?best" "sched_inv sch' store'"
        "readyByLane sch' = (readyByLane ?s1)[l := removeFrom (readyByLane ?s1 ! l) ?best]"
        "runningByLane sch' = (runningByLane ?s1)[l := Some ?best]"
        "sch_blocked sch' = sch_blocked ?s1" "processes sch' = processes ?s1" "sch_policy sch' = sch_policy ?s1"
        "store' = fst (store_setState st ?best Running now)"
        using start_candidate_view [OF m(2), of l ?best now sch' store' res] by blast+
      show thesis by (rule preempt [OF refl best(1) Some True v(1,2)]) (use v(3-) l len st in simp_all)
    qed
  qed
qed

lemma store_setState_other: "q \<noteq> p \<Longrightarrow> fst (store_setState store p s now) q = store q"
  using store_setState_ok(2) [of store p s now] by (metis prod.collapse)

lemma select_view:
  assumes i: "sched_inv sch store" and l: "l < length (readyByLane sch)" and pol: "sch_policy sch = Some pol"
    and e: "selectNextForLane_nolock sch store l now = ((sch', store'), res)"
  shows "sched_inv sch' store' \<and> res = selected pol sch store l now
    \<and> on_lane sch' l = on_lane sch l \<and> length (readyByLane sch') = length (readyByLane sch)
    \<and> (\<forall>k. k \<noteq> l \<longrightarrow> readyByLane sch' ! k = readyByLane sch ! k \<and> runningByLane sch' ! k = runningByLane sch ! k)
    \<and> (\<forall>p. res = Ok p \<longrightarrow> runningByLane sch' ! l = Some p \<and> p \<in> on_lane sch l)
    \<and> (isError res \<longrightarrow> sch' = sch \<and> store' = store)
    \<and> sch_blocked sch' = sch_blocked sch \<and> processes sch' = processes sch \<and> sch_policy sch' = sch_policy sch
    \<and> (\<forall>q. q \<notin> on_lane sch l \<longrightarrow> store' q = store q)"
  using i l pol e
proof (cases rule: select_cases)
  case (start best)
  have "l < length (runningByLane sch)" using l sched_invD(2) [OF i] by simp
  moreover have "store' q = store q" if "q \<notin> on_lane sch l" for q
    using that start(2,11) store_setState_other [of q best] by (auto simp: on_lane_def)
  moreover have "readyByLane sch ! l \<noteq> []" using start(2) by auto
  moreover have "on_lane sch' l = on_lane sch l" using calculation(1) start(2,3,6,7) l by (auto simp: on_lane_def)
  ultimately show ?thesis
    using start(2-10) l unfolding selected_def by (simp add: Let_def start(1) [symmetric] on_lane_def)
next
  case (preempt best r)
  have "l < length (runningByLane sch)" using l sched_invD(2) [OF i] by simp
  moreover have "store' q = store q" if "q \<notin> on_lane sch l" for q
  proof -
    have "q \<noteq> best" "q \<noteq> r" using that preempt(2,3) by (auto simp: on_lane_def)
    then show ?thesis by (simp add: preempt(12) store_setState_other)
  qed
  moreover have "readyByLane sch ! l \<noteq> []" using preempt(2) by auto
  moreover have "on_lane sch' l = on_lane sch l" using calculation(1) preempt(2,3,7,8) l by (auto simp: on_lane_def)
  ultimately show ?thesis
    using preempt(2-11) l unfolding selected_def by (simp add: Let_def preempt(1) [symmetric] on_lane_def)
qed (use i in \<open>auto simp: selected_def on_lane_def Let_def\<close>)

lemma select_inv:
  assumes "sched_inv sch store" "selectNextForLane_nolock sch store l now = ((sch', store'), res)"
  shows "sched_inv sch' store'"
proof (cases "l < length (readyByLane sch) \<and> sch_policy sch \<noteq> None")
  case True
  then obtain pol where "sch_policy sch = Some pol" by blast
  then show ?thesis using select_view [OF assms(1) _ _ assms(2)] True by blast
next
  case False
  then show ?thesis using assms by (auto simp: selectNextForLane_nolock_def split: if_splits)
qed

lemma inv_insert_process: "sched_inv sch store \<Longrightarrow> p \<noteq> INVALID_PID
  \<Longrightarrow> sched_inv (sch\<lparr>processes := insert p (processes sch)\<rparr>) store"
  by (simp add: sched_inv_def)

text \<open>
  Enqueueing keeps the invariant unless the process is in the blocked list; the operation does not
  look there.
\<close>

lemma enqueue_inv:
  assumes i: "sched_inv sch store" and nb: "pid \<notin> set (sch_blocked sch)"
    and e: "Scheduler_enqueueToLane sch store pid l now = ((sch', store'), res)"
  shows "sched_inv sch' store'"
proof -
  note d = sched_invD [OF i]
  let ?s1 = "sch\<lparr>processes := insert pid (processes sch)\<rparr>"
  consider "l \<ge> length (readyByLane sch) \<or> pid = INVALID_PID"
    | "l < length (readyByLane sch)" "pid \<noteq> INVALID_PID"
      "(\<exists>q \<in> set (readyByLane sch). findIn q pid) \<or> findRunningLane ?s1 pid \<noteq> None \<or> pcb_state (store pid) = Running"
    | "l < length (readyByLane sch)" "pid \<noteq> INVALID_PID"
      "\<forall>q \<in> set (readyByLane sch). \<not> findIn q pid" "findRunningLane ?s1 pid = None" "pcb_state (store pid) \<noteq> Running"
    by force
  then show ?thesis
  proof cases
    case 1
    then show ?thesis using e i by (auto simp: Scheduler_enqueueToLane_def split: if_splits)
  next
    case 2
    then have "sch' = ?s1" "store' = store"
      using e by (auto simp: Scheduler_enqueueToLane_def Let_def split: if_splits)
    then show ?thesis using inv_insert_process [OF i 2(2)] by simp
  next
    case 3
    obtain st ok where st: "store_setState store pid Ready now = (st, ok)" by fastforce
    note s = store_setState_ok [OF st]
    show ?thesis
    proof (cases ok)
      case False
      then have "sch' = ?s1" "store' = store"
        using e 3 st s(5) by (auto simp: Scheduler_enqueueToLane_def Let_def)
      then show ?thesis using inv_insert_process [OF i 3(2)] by simp
    next
      case True
      have sch': "sch' = ?s1\<lparr>readyByLane := (readyByLane sch)[l := readyByLane sch ! l @ [pid]],
          processLane := (processLane sch)(pid \<mapsto> l)\<rparr>"
        using e 3 st True by (auto simp: Scheduler_enqueueToLane_def Let_def)
      have store': "store' = (if Statistics_hasPrediction (sch_statistics sch) pid
          then st(pid := (st pid)\<lparr>pcb_timing := (pcb_timing (st pid))
             \<lparr>estimatedBurst := Statistics_predictedBurst (sch_statistics sch) pid\<rparr>\<rparr>) else st)"
        using e 3 st True by (auto simp: Scheduler_enqueueToLane_def Let_def)
      have "pcb_state (store' pid) = Ready" "pcb_id (store' pid) = pid" "q \<noteq> pid \<Longrightarrow> store' q = store q" for q
        using s(2-4) True d(4) unfolding store' by auto
      moreover have "\<forall>k < length (readyByLane sch). pid \<notin> set (readyByLane sch ! k)"
        using 3(3) by (auto simp: findIn_def)
      moreover have "\<forall>k < length (readyByLane sch). runningByLane sch ! k \<noteq> Some pid"
        using 3(4) d(2) by (auto simp: findRunningLane_None in_set_conv_nth)
      ultimately show ?thesis
        using move_new_to_ready [OF i 3(1,2) _ _ nb] unfolding sch' by simp
    qed
  qed
qed

lemma dequeue_inv:
  assumes i: "sched_inv sch store" and e: "Scheduler_dequeue sch pid = (sch', res)"
  shows "sched_inv sch' store"
proof (cases "pid \<in> processes sch")
  case False
  then show ?thesis using e i by (auto simp: Scheduler_dequeue_def)
next
  case True
  note d = sched_invD [OF i]
  let ?rd = "map (\<lambda>q. removeFrom q pid) (readyByLane sch)"
  let ?rn = "map (\<lambda>r. if r = Some pid then None else r) (runningByLane sch)"
  have "sched_inv (sch\<lparr>readyByLane := ?rd, runningByLane := ?rn, sch_blocked := removeFrom (sch_blocked sch) pid,
      processes := processes sch - {pid}, processLane := (processLane sch)(pid := None)\<rparr>) store"
    by (rule remove_everywhere [OF i, of _ _ pid]) (use d in auto)
  moreover have "sch' = fst (Scheduler_dequeue sch pid)" using e by simp
  ultimately show ?thesis
    by (subst sched_inv_cong) (use True in \<open>simp_all add: Scheduler_dequeue_def Let_def removeFromAllReady_def\<close>)
qed

lemma block_lane_inv:
  assumes i: "sched_inv sch store" and l: "l < length (readyByLane sch)" "runningByLane sch ! l = Some p"
    and e: "block_lane sch store l p now = ((sch', store'), res)"
  shows "sched_inv sch' store' \<and> res = Ok () \<and> pcb_state (store' p) = Blocked
    \<and> sch_blocked sch' = sch_blocked sch @ [p] \<and> runningByLane sch' = (runningByLane sch)[l := None]
    \<and> readyByLane sch' = readyByLane sch \<and> processes sch' = processes sch"
proof -
  let ?s = "recordRunningBurst sch p now"
  obtain st ok where st: "store_setState store p Blocked now = (st, ok)" by fastforce
  have "sched_inv ?s store" using i by simp
  from move_running_to_blocked [OF this _ _ st, of l] l
  have m: ok "sched_inv (?s\<lparr>sch_blocked := sch_blocked ?s @ [p], runningByLane := (runningByLane ?s)[l := None]\<rparr>) st"
    by auto
  then show ?thesis using e store_setState_ok(4) [OF st] by (auto simp: block_lane_def Let_def st)
qed

text \<open>Blocking a process in a ready queue never succeeds: \<open>Ready\<close> has no transition to \<open>Blocked\<close>.\<close>

lemma blockProcess_cases:
  assumes i: "sched_inv sch store"
    and e: "Scheduler_blockProcess sch store p now = ((sch', store'), res)"
  shows "if p \<in> processes sch \<and> Some p \<in> set (runningByLane sch)
    then \<exists>l < length (readyByLane sch). runningByLane sch ! l = Some p \<and> block_lane sch store l p now = ((sch', store'), res)
    else sch' = sch \<and> store' = store
      \<and> res = Error (if p \<in> processes sch \<and> (\<exists>q \<in> set (readyByLane sch). p \<in> set q) then InvalidState else NotFound)"
proof -
  note d = sched_invD [OF i]
  consider (unknown) "p \<notin> processes sch" | (run) l where "p \<in> processes sch" "findRunningLane sch p = Some l"
    | (idle) "p \<in> processes sch" "findRunningLane sch p = None" by fastforce
  then show ?thesis
  proof cases
    case unknown
    then show ?thesis using e by (auto simp: Scheduler_blockProcess_def)
  next
    case (run l)
    have "Some p \<in> set (runningByLane sch)" using findRunningLane_Some [OF run(2)] nth_mem by metis
    then show ?thesis using e run findRunningLane_Some [OF run(2)] d(2) by (auto simp: Scheduler_blockProcess_def)
  next
    case idle
    have nr: "Some p \<notin> set (runningByLane sch)" using idle(2) by (simp add: findRunningLane_None)
    let ?f = "List.find (\<lambda>lane. findIn (readyByLane sch ! lane) p) [0..<length (readyByLane sch)]"
    show ?thesis
    proof (cases ?f)
      case None
      then have "\<not> (\<exists>q \<in> set (readyByLane sch). p \<in> set q)"
        by (auto simp: find_None_iff findIn_def in_set_conv_nth [of _ "readyByLane sch"])
      then show ?thesis using e idle nr None by (auto simp: Scheduler_blockProcess_def)
    next
      case (Some l)
      then have l: "l < length (readyByLane sch)" "p \<in> set (readyByLane sch ! l)"
        by (auto simp: find_Some_iff findIn_def)
      then have "\<exists>q \<in> set (readyByLane sch). p \<in> set q" using nth_mem by blast
      moreover obtain st ok where st: "store_setState store p Blocked now = (st, ok)" by fastforce
      moreover have "\<not> ok" using store_setState_ok(1) [OF st] d(6) [OF l] by simp
      ultimately show ?thesis using e idle nr Some store_setState_ok(5) [OF st]
        by (auto simp: Scheduler_blockProcess_def Let_def)
    qed
  qed
qed

lemma blockProcess_inv:
  assumes "sched_inv sch store" "Scheduler_blockProcess sch store p now = ((sch', store'), res)"
  shows "sched_inv sch' store'"
proof (cases "p \<in> processes sch \<and> Some p \<in> set (runningByLane sch)")
  case True
  then obtain l where "l < length (readyByLane sch)" "runningByLane sch ! l = Some p"
    "block_lane sch store l p now = ((sch', store'), res)"
    using blockProcess_cases [OF assms] by auto
  then show ?thesis using block_lane_inv [OF assms(1)] by blast
next
  case False
  then show ?thesis using blockProcess_cases [OF assms] assms(1) by presburger
qed

lemma blockRunning_inv:
  assumes i: "sched_inv sch store" and e: "Scheduler_blockRunning sch store now = ((sch', store'), res)"
  shows "sched_inv sch' store'"
proof (cases "List.find (\<lambda>lane. runningByLane sch ! lane \<noteq> None) [0..<length (runningByLane sch)]")
  case None
  then show ?thesis using e i by (auto simp: Scheduler_blockRunning_def)
next
  case (Some l)
  then obtain p where l: "l < length (readyByLane sch)" "runningByLane sch ! l = Some p"
    using sched_invD(2) [OF i] by (auto simp: find_Some_iff)
  then have "block_lane sch store l p now = ((sch', store'), res)" using e Some by (simp add: Scheduler_blockRunning_def)
  then show ?thesis using block_lane_inv [OF i l] by blast
qed

lemma unblock_inv:
  assumes i: "sched_inv sch store" and e: "Scheduler_unblock sch store p now = ((sch', store'), res)"
  shows "sched_inv sch' store'
    \<and> (if p \<in> set (sch_blocked sch) then res = Ok () \<and> p \<notin> set (sch_blocked sch') \<and> pcb_state (store' p) = Ready
         \<and> (\<exists>l < length (readyByLane sch'). last (readyByLane sch' ! l) = p \<and> p \<in> set (readyByLane sch' ! l))
       else res = Error NotFound \<and> sch' = sch \<and> store' = store)"
proof (cases "p \<in> set (sch_blocked sch)")
  case False
  then show ?thesis using e i by (auto simp: Scheduler_unblock_def findIn_def)
next
  case True
  define l0 where "l0 = (case processLane sch p of Some l \<Rightarrow> l | None \<Rightarrow> 0)"
  define l where "l = (if l0 \<ge> length (readyByLane sch) then 0 else l0)"
  have ll: "l < length (readyByLane sch)" using sched_invD(1) [OF i] by (simp add: l_def)
  obtain st ok where st: "store_setState store p Ready now = (st, ok)" by fastforce
  note m = move_blocked_to_ready [OF i ll True st]
  then have ok by blast
  then have r: "sch' = sch\<lparr>sch_blocked := removeFrom (sch_blocked sch) p,
      readyByLane := (readyByLane sch)[l := readyByLane sch ! l @ [p]], processLane := (processLane sch)(p \<mapsto> l)\<rparr>"
    "store' = st" "res = Ok ()"
    using e True st by (auto simp: Scheduler_unblock_def findIn_def Let_def l0_def [symmetric] l_def [symmetric])
  have "pcb_state (store' p) = Ready" using store_setState_ok(4) [OF st \<open>ok\<close>] r by simp
  then show ?thesis using m r True ll by (auto intro!: exI [of _ l])
qed

lemma terminate_inv:
  assumes i: "sched_inv sch store" and e: "Scheduler_terminate sch store p now = ((sch', store'), res)"
  shows "sched_inv sch' store'
    \<and> (if p \<notin> processes sch then res = Error NotFound \<and> sch' = sch \<and> store' = store
       else if Some p \<in> set (runningByLane sch)
       then res = Ok () \<and> p \<notin> processes sch' \<and> pcb_state (store' p) = Terminated \<and> Some p \<notin> set (runningByLane sch')
       else if pcb_state (store p) = Running
       then res = Ok () \<and> p \<notin> processes sch' \<and> pcb_state (store' p) = Terminated
       else res = Error InvalidState \<and> store' = store \<and> p \<in> processes sch')
    \<and> (p \<in> processes sch \<longrightarrow> Some p \<notin> set (runningByLane sch') \<and> p \<notin> set (sch_blocked sch')
         \<and> (\<forall>q \<in> set (readyByLane sch'). p \<notin> set q))"
proof (cases "p \<in> processes sch")
  case False
  then show ?thesis using e i by (auto simp: Scheduler_terminate_def)
next
  case True
  note d = sched_invD [OF i]
  obtain st ok where st: "store_setState store p Terminated now = (st, ok)" by fastforce
  note s = store_setState_ok [OF st]
  have ok: "ok \<longleftrightarrow> pcb_state (store p) = Running" using s(1) by (cases "pcb_state (store p)") simp_all
  have idp: "pcb_id (st p) = p" using s(3) d(4) by simp
  show ?thesis
  proof (cases "findRunningLane sch p")
    case (Some l)
    note fl = findRunningLane_Some [OF Some]
    have l: "l < length (readyByLane sch)" using fl d(2) by simp
    have run: "runningByLane sch ! l = Some p" using fl by blast
    have "pcb_state (store p) = Running" using d(7) [OF l run] by blast
    then have "ok" using ok by blast
    have nr: "p \<notin> set (readyByLane sch ! k)" if "k < length (readyByLane sch)" for k
      using inv_not_both(2) [OF i that _ run l] by blast
    have nb: "p \<notin> set (sch_blocked sch)" using inv_not_both(3) [OF i l run] .
    have rn: "((runningByLane sch)[l := None]) ! k = Some q \<longleftrightarrow> runningByLane sch ! k = Some q \<and> q \<noteq> p"
      if "k < length (readyByLane sch)" for k q
      using inv_not_both(5) [OF i l run, of k] that l d(2) run by (auto simp: nth_list_update)
    have "sched_inv (sch\<lparr>readyByLane := readyByLane sch, runningByLane := (runningByLane sch)[l := None],
        sch_blocked := sch_blocked sch, processes := processes sch - {p}, processLane := (processLane sch)(p := None)\<rparr>) st"
      by (rule remove_everywhere [OF i, of _ _ p]) (use d(2) nr nb rn s(2) idp in \<open>auto simp: removeFrom_notin\<close>)
    moreover have f: "sch' = fst (fst (Scheduler_terminate sch store p now))" "store' = st" "res = Ok ()"
      using e True Some st \<open>ok\<close> by (auto simp: Scheduler_terminate_def Let_def)
    moreover have g: "readyByLane sch' = readyByLane sch" "runningByLane sch' = (runningByLane sch)[l := None]"
      "sch_blocked sch' = sch_blocked sch" "processes sch' = processes sch - {p}"
      "processLane sch' = (processLane sch)(p := None)"
      unfolding f(1) using True Some st \<open>ok\<close> by (simp_all add: Scheduler_terminate_def Let_def)
    ultimately have "sched_inv sch' store'" by (subst sched_inv_cong) simp_all
    moreover have "Some p \<notin> set (runningByLane sch')" using rn d(2) unfolding g by (auto simp: in_set_conv_nth)
    moreover have "\<forall>q \<in> set (readyByLane sch). p \<notin> set q" using nr by (metis in_set_conv_nth)
    moreover have "Some p \<in> set (runningByLane sch)" using fl nth_mem by metis
    ultimately show ?thesis using f g True nb s(4) [OF \<open>ok\<close>] by auto
  next
    case None
    then have nrun: "Some p \<notin> set (runningByLane sch)" by (simp add: findRunningLane_None)
    let ?rd = "map (\<lambda>q. removeFrom q p) (readyByLane sch)" and ?bl = "removeFrom (sch_blocked sch) p"
    let ?ps = "if ok then processes sch - {p} else processes sch"
    let ?pl = "if ok then (processLane sch)(p := None) else processLane sch"
    have rn: "runningByLane sch ! k \<noteq> Some p" if "k < length (readyByLane sch)" for k
      using nrun that d(2) by (metis nth_mem)
    have "sched_inv (sch\<lparr>readyByLane := ?rd, runningByLane := runningByLane sch, sch_blocked := ?bl,
        processes := ?ps, processLane := ?pl\<rparr>) st"
      by (rule remove_everywhere [OF i, of _ _ p]) (use d(2) rn s(2) idp in auto)
    moreover have f: "sch' = fst (fst (Scheduler_terminate sch store p now))" "store' = st"
      "res = (if ok then Ok () else Error InvalidState)"
      using e True None st by (auto simp: Scheduler_terminate_def Let_def split: if_splits)
    moreover have g: "readyByLane sch' = ?rd" "runningByLane sch' = runningByLane sch" "sch_blocked sch' = ?bl"
      "processes sch' = ?ps" "processLane sch' = ?pl"
      unfolding f(1) using True None st by (simp_all add: Scheduler_terminate_def Let_def removeFromAllReady_def)
    ultimately have "sched_inv sch' store'" by (subst sched_inv_cong) simp_all
    then show ?thesis using f g True nrun ok s(4,5) by auto
  qed
qed

lemma victim_scan_Some:
  assumes "victim_scan qs thief ls v n = Some k" "\<forall>j. v = Some j \<longrightarrow> j \<noteq> thief \<and> length (qs ! j) = n \<and> n > 0"
  shows "k \<noteq> thief \<and> (v = Some k \<or> k \<in> set ls) \<and> length (qs ! k) > 0 \<and> n \<le> length (qs ! k)
    \<and> (\<forall>j \<in> set ls. j \<noteq> thief \<longrightarrow> length (qs ! j) \<le> length (qs ! k))"
  using assms
proof (induction qs thief ls v n rule: victim_scan.induct)
  case (2 qs thief lane lanes v n)
  consider "lane = thief" | "lane \<noteq> thief" "length (qs ! lane) > n" | "lane \<noteq> thief" "length (qs ! lane) \<le> n"
    by linarith
  then show ?case
  proof cases
    case 1
    then show ?thesis using "2.IH"(1) [OF 1] "2.prems" by simp
  next
    case b: 2
    have e: "victim_scan qs thief lanes (Some lane) (length (qs ! lane)) = Some k" using "2.prems"(1) b by simp
    have "\<forall>j. Some lane = Some j \<longrightarrow> j \<noteq> thief \<and> length (qs ! j) = length (qs ! lane) \<and> length (qs ! lane) > 0"
      using b by auto
    note IH = "2.IH"(2) [OF b e this]
    have "j = lane \<or> j \<in> set lanes" if "j \<in> set (lane # lanes)" for j using that by simp
    then show ?thesis using IH b by (auto intro: order_trans less_imp_le)
  next
    case c: 3
    have e: "victim_scan qs thief lanes v n = Some k" using "2.prems"(1) c by simp
    note IH = "2.IH"(3) [OF c(1) _ e "2.prems"(2)]
    then show ?thesis using c by (auto intro: order_trans)
  qed
qed auto

lemma victim_scan_None:
  "victim_scan qs thief ls v n = None \<longleftrightarrow> v = None \<and> (\<forall>j \<in> set ls. j \<noteq> thief \<longrightarrow> length (qs ! j) \<le> n)"
  by (induction qs thief ls v n rule: victim_scan.induct) (auto split: if_splits)

text \<open>The state in which a thief selects: the front of the longest other queue is at the end of its own.\<close>

lemma steal_view:
  assumes i: "sched_inv sch store" and t: "thief < length (readyByLane sch)"
    and v: "victim_scan (readyByLane sch) thief [0..<length (readyByLane sch)] None 0 = Some l"
    and s1: "s1 = sch\<lparr>readyByLane := ((readyByLane sch)[l := tl (readyByLane sch ! l)])[thief :=
        ((readyByLane sch)[l := tl (readyByLane sch ! l)]) ! thief @ [hd (readyByLane sch ! l)]],
        processLane := (processLane sch)(hd (readyByLane sch ! l) \<mapsto> thief)\<rparr>"
  shows "sched_inv s1 store \<and> l < length (readyByLane sch) \<and> l \<noteq> thief \<and> readyByLane sch ! l \<noteq> []
    \<and> (\<forall>j < length (readyByLane sch). j \<noteq> thief \<longrightarrow> length (readyByLane sch ! j) \<le> length (readyByLane sch ! l))
    \<and> readyByLane s1 = ((readyByLane sch)[l := tl (readyByLane sch ! l)])[thief := readyByLane sch ! thief @ [hd (readyByLane sch ! l)]]"
proof -
  have l: "l \<noteq> thief" "l < length (readyByLane sch)" "readyByLane sch ! l \<noteq> []"
    "\<forall>j < length (readyByLane sch). j \<noteq> thief \<longrightarrow> length (readyByLane sch ! j) \<le> length (readyByLane sch ! l)"
    using victim_scan_Some [OF v] by auto
  obtain p q where pq: "readyByLane sch ! l = p # q" using l(3) by (cases "readyByLane sch ! l") auto
  have "sched_inv s1 store"
    using move_ready_lane [OF i l(2) t _ pq] l(1) t unfolding s1 by (simp add: pq)
  then show ?thesis using l unfolding s1 by simp
qed

lemma steal_inv:
  assumes i: "sched_inv sch store" and e: "Scheduler_stealNextForLane sch store thief now = ((sch', store'), res)"
  shows "sched_inv sch' store'"
proof (cases "thief < length (readyByLane sch)")
  case False
  then show ?thesis using e i by (auto simp: Scheduler_stealNextForLane_def)
next
  case True
  show ?thesis
  proof (cases "victim_scan (readyByLane sch) thief [0..<length (readyByLane sch)] None 0")
    case None
    then show ?thesis using e i True by (auto simp: Scheduler_stealNextForLane_def)
  next
    case (Some l)
    note v = steal_view [OF i True Some refl]
    then show ?thesis using select_inv e True Some by (auto simp: Scheduler_stealNextForLane_def Let_def)
  qed
qed

lemma configureLanes_inv:
  assumes i: "sched_inv sch store" and e: "Scheduler_configureLanes sch n = (sch', res)"
  shows "sched_inv sch' store"
proof (cases "n = 0 \<or> processes sch \<noteq> {}")
  case True
  then show ?thesis using e i by (auto simp: Scheduler_configureLanes_def split: if_splits)
next
  case False
  then have "sch_blocked sch = []" using sched_invD(9) [OF i] by (metis empty_iff list.set_intros(1) neq_Nil_conv)
  then show ?thesis using e False sched_invD(4) [OF i] by (auto simp: Scheduler_configureLanes_def sched_inv_def)
qed

section \<open>Reachable states\<close>

datatype sched_op =
    EnqueueOp process_id nat tick
  | DequeueOp process_id
  | SelectOp nat tick
  | StealOp nat tick
  | BlockRunningOp tick
  | BlockOp process_id tick
  | UnblockOp process_id tick
  | TerminateOp process_id tick
  | LanesOp nat
  | PolicyOp "scheduling_policy option"

fun sched_exec :: "sched_op \<Rightarrow> scheduler \<times> pcb_store \<Rightarrow> scheduler \<times> pcb_store" where
  "sched_exec (EnqueueOp p l t) (sch, store) = fst (Scheduler_enqueueToLane sch store p l t)"
| "sched_exec (DequeueOp p) (sch, store) = (fst (Scheduler_dequeue sch p), store)"
| "sched_exec (SelectOp l t) (sch, store) = fst (Scheduler_selectNextForLane sch store l t)"
| "sched_exec (StealOp l t) (sch, store) = fst (Scheduler_stealNextForLane sch store l t)"
| "sched_exec (BlockRunningOp t) (sch, store) = fst (Scheduler_blockRunning sch store t)"
| "sched_exec (BlockOp p t) (sch, store) = fst (Scheduler_blockProcess sch store p t)"
| "sched_exec (UnblockOp p t) (sch, store) = fst (Scheduler_unblock sch store p t)"
| "sched_exec (TerminateOp p t) (sch, store) = fst (Scheduler_terminate sch store p t)"
| "sched_exec (LanesOp n) (sch, store) = (fst (Scheduler_configureLanes sch n), store)"
| "sched_exec (PolicyOp pol) (sch, store) = (fst (Scheduler_setPolicy sch pol), store)"

fun sched_op_ok :: "sched_op \<Rightarrow> scheduler \<Rightarrow> bool" where
  "sched_op_ok (EnqueueOp p l t) sch = (p \<notin> set (sch_blocked sch))"
| "sched_op_ok _ sch = True"

text \<open>
  Any sequence of operations on a new scheduler, with new process control blocks for ids that the
  scheduler does not know. The only restriction is that a blocked process is not enqueued.
\<close>

inductive sched_reachable :: "scheduler \<Rightarrow> pcb_store \<Rightarrow> bool" where
  init: "\<forall>p. pcb_id (store p) = p \<Longrightarrow> sched_reachable (Scheduler_new pol) store"
| create: "\<lbrakk>sched_reachable sch store; p \<notin> processes sch; pcb_id b = p\<rbrakk> \<Longrightarrow> sched_reachable sch (store(p := b))"
| step: "\<lbrakk>sched_reachable sch store; sched_op_ok oper sch; sched_exec oper (sch, store) = (sch', store')\<rbrakk>
    \<Longrightarrow> sched_reachable sch' store'"

lemma sched_exec_inv:
  assumes "sched_inv sch store" "sched_op_ok oper sch" "sched_exec oper (sch, store) = (sch', store')"
  shows "sched_inv sch' store'"
proof (cases oper)
  case (EnqueueOp p l t)
  then show ?thesis using assms enqueue_inv by (cases "Scheduler_enqueueToLane sch store p l t") auto
next
  case (DequeueOp p)
  then show ?thesis using assms dequeue_inv by (cases "Scheduler_dequeue sch p") auto
next
  case (SelectOp l t)
  then show ?thesis using assms select_inv
    by (cases "Scheduler_selectNextForLane sch store l t") (auto simp: Scheduler_selectNextForLane_def)
next
  case (StealOp l t)
  then show ?thesis using assms steal_inv by (cases "Scheduler_stealNextForLane sch store l t") auto
next
  case (BlockRunningOp t)
  then show ?thesis using assms blockRunning_inv by (cases "Scheduler_blockRunning sch store t") auto
next
  case (BlockOp p t)
  then show ?thesis using assms blockProcess_inv by (cases "Scheduler_blockProcess sch store p t") auto
next
  case (UnblockOp p t)
  then show ?thesis using assms unblock_inv by (cases "Scheduler_unblock sch store p t") auto
next
  case (TerminateOp p t)
  then show ?thesis using assms terminate_inv by (cases "Scheduler_terminate sch store p t") auto
next
  case (LanesOp n)
  then show ?thesis using assms configureLanes_inv by (cases "Scheduler_configureLanes sch n") auto
next
  case (PolicyOp pol)
  then show ?thesis using assms by (auto simp: Scheduler_setPolicy_def)
qed

lemma inv_update_unknown:
  assumes i: "sched_inv sch store" and p: "p \<notin> processes sch" and b: "pcb_id b = p"
  shows "sched_inv sch (store(p := b))"
proof -
  note d = sched_invD [OF i]
  have "(store(p := b)) q = store q" if "q \<in> processes sch" for q using that p by auto
  moreover have "pcb_id ((store(p := b)) q) = q" for q using d(4) b by simp
  ultimately show ?thesis
    unfolding sched_inv_def using d(1-3,5,8) d(6,7,9) by simp
qed

lemma reachable_sched_inv: "sched_reachable sch store \<Longrightarrow> sched_inv sch store"
proof (induction rule: sched_reachable.induct)
  case (init store pol)
  then show ?case by (simp add: sched_inv_def Scheduler_new_def)
next
  case (create sch store p b)
  then show ?case using inv_update_unknown by blast
next
  case (step sch store oper sch' store')
  then show ?case using sched_exec_inv by blast
qed

lemma distinct_concatI:
  assumes "\<And>l. l < length xs \<Longrightarrow> distinct (xs ! l)"
    "\<And>l k p. l < length xs \<Longrightarrow> k < length xs \<Longrightarrow> p \<in> set (xs ! l) \<Longrightarrow> p \<in> set (xs ! k) \<Longrightarrow> k = l"
  shows "distinct (concat xs)"
  using assms
proof (induction xs)
  case (Cons x xs)
  have "distinct (concat xs)"
    using Cons.prems by (intro Cons.IH) (metis Suc_less_eq length_Cons nth_Cons_Suc, metis Suc_less_eq length_Cons nth_Cons_Suc Suc_inject)
  moreover have "distinct x" using Cons.prems(1) [of 0] by simp
  moreover have "p \<notin> set y" if p: "p \<in> set x" and y: "y \<in> set xs" for p y
  proof -
    obtain k where "k < length xs" "xs ! k = y" using y by (metis in_set_conv_nth)
    then show ?thesis using Cons.prems(2) [of 0 "Suc k" p] p by auto
  qed
  ultimately show ?case by auto
qed simp

lemma distinct_runningI:
  "(\<And>l k p. l < length rs \<Longrightarrow> k < length rs \<Longrightarrow> rs ! l = Some p \<Longrightarrow> rs ! k = Some p \<Longrightarrow> k = l)
    \<Longrightarrow> distinct (map the (filter (\<lambda>r. r \<noteq> None) rs))"
proof (induction rs)
  case (Cons r rs)
  have IH: "distinct (map the (filter (\<lambda>r. r \<noteq> None) rs))"
    using Cons.prems by (intro Cons.IH) (metis Suc_less_eq length_Cons nth_Cons_Suc Suc_inject)
  have "Some p \<notin> set rs" if p: "r = Some p" for p
  proof
    assume "Some p \<in> set rs"
    then obtain k where "k < length rs" "rs ! k = Some p" by (metis in_set_conv_nth)
    then show False using Cons.prems [of 0 "Suc k" p] p by auto
  qed
  then show ?case using IH by (auto simp: image_iff)
qed simp

lemma sched_inv_queued_once:
  assumes i: "sched_inv sch store"
  shows "distinct (Scheduler_getQueueSnapshot sch @ Scheduler_runningProcesses sch @ Scheduler_getBlockedSnapshot sch)"
proof -
  note d = sched_invD [OF i]
  let ?rs = "runningByLane sch"
  have rd: "distinct (concat (readyByLane sch))"
    by (rule distinct_concatI) (use d(5) inv_not_both(4) [OF i] in blast)+
  have rn: "distinct (map the (filter (\<lambda>r. r \<noteq> None) ?rs))"
    by (rule distinct_runningI) (use d(2) inv_not_both(5) [OF i] in metis)
  have st: "pcb_state (store p) = Ready" if pc: "p \<in> set (concat (readyByLane sch))" for p
  proof -
    obtain q where "q \<in> set (readyByLane sch)" "p \<in> set q" using pc by auto
    then show ?thesis using d(6) by (metis in_set_conv_nth)
  qed
  have sr: "pcb_state (store p) = Running" if "p \<in> set (map the (filter (\<lambda>r. r \<noteq> None) ?rs))" for p
  proof -
    have "Some p \<in> set ?rs" using that by auto
    then show ?thesis using d(2,7) by (metis in_set_conv_nth)
  qed
  have sb: "pcb_state (store p) = Blocked" if "p \<in> set (sch_blocked sch)" for p using d(9) [OF that] by blast
  show ?thesis
    unfolding Scheduler_getQueueSnapshot_def Scheduler_runningProcesses_def Scheduler_getBlockedSnapshot_def distinct_append
    using rd rn d(8) st sr sb by (fastforce simp del: set_map set_concat)
qed

section \<open>Properties\<close>


definition new_store :: pcb_store where
  "new_store p = PCB_new p ''p'' Priority_default 0"

lemma new_store_id: "\<forall>p. pcb_id (new_store p) = p"
  by (simp add: new_store_def PCB_new_def)

text \<open>Two lanes under round robin: three processes, two of them dispatched, one blocked.\<close>

definition demo_ops :: "sched_op list" where
  "demo_ops = [LanesOp 2, EnqueueOp 1 0 1, EnqueueOp 2 0 2, EnqueueOp 3 0 3, SelectOp 0 4, StealOp 1 4, BlockOp 1 6]"

definition demo_sched :: "scheduler \<times> pcb_store" where
  "demo_sched = fold sched_exec demo_ops (Scheduler_new (Some (RoundRobinPolicy 4)), new_store)"

fun sched_ops_ok :: "sched_op list \<Rightarrow> scheduler \<times> pcb_store \<Rightarrow> bool" where
  "sched_ops_ok [] s = True"
| "sched_ops_ok (oper # ops) s = (sched_op_ok oper (fst s) \<and> sched_ops_ok ops (sched_exec oper s))"

lemma reachable_run:
  "sched_reachable (fst s) (snd s) \<Longrightarrow> sched_ops_ok ops s
    \<Longrightarrow> sched_reachable (fst (fold sched_exec ops s)) (snd (fold sched_exec ops s))"
proof (induction ops arbitrary: s)
  case (Cons oper ops)
  have "sched_reachable (fst (sched_exec oper s)) (snd (sched_exec oper s))"
    by (rule sched_reachable.step [OF Cons.prems(1), of oper]) (use Cons.prems(2) in simp_all)
  then show ?case using Cons.IH Cons.prems(2) by simp
qed simp

lemma demo_sched_reachable: "sched_reachable (fst demo_sched) (snd demo_sched)"
  unfolding demo_sched_def
proof (rule reachable_run)
  show "sched_ops_ok demo_ops (Scheduler_new (Some (RoundRobinPolicy 4)), new_store)" by code_simp
qed (simp add: sched_reachable.init [OF new_store_id])




text \<open>
  Work stealing. A thief takes the front of the longest ready queue among the other lanes, which
  then belongs to its own lane, and selects there; it fails with \<^verbatim>\<open>NotFound\<close>, changing nothing, exactly when
  all other queues are empty. No process is lost or duplicated: every other lane keeps its
  processes.
\<close>

theorem sched_steal:
  assumes "sched_inv sch store" "thief < Scheduler_laneCount sch" "sch_policy sch = Some pol"
    "Scheduler_stealNextForLane sch store thief now = ((sch', store'), res)"
  shows "sched_inv sch' store' \<and>
    (if \<forall>k < Scheduler_laneCount sch. k \<noteq> thief \<longrightarrow> readyByLane sch ! k = []
     then res = Error NotFound \<and> sch' = sch \<and> store' = store
     else \<exists>l p q. l < Scheduler_laneCount sch \<and> l \<noteq> thief \<and> readyByLane sch ! l = p # q
       \<and> (\<forall>k < Scheduler_laneCount sch. k \<noteq> thief \<longrightarrow> length (readyByLane sch ! k) \<le> length (p # q))
       \<and> isOk res \<and> on_lane sch' thief = insert p (on_lane sch thief)
       \<and> readyByLane sch' ! l = q \<and> runningByLane sch' ! l = runningByLane sch ! l
       \<and> (\<forall>k < Scheduler_laneCount sch. k \<noteq> thief \<longrightarrow> k \<noteq> l \<longrightarrow> on_lane sch' k = on_lane sch k))"
proof (cases "victim_scan (readyByLane sch) thief [0..<length (readyByLane sch)] None 0")
  case None
  then have "\<forall>k < Scheduler_laneCount sch. k \<noteq> thief \<longrightarrow> readyByLane sch ! k = []"
    by (auto simp: victim_scan_None Scheduler_laneCount_def)
  then show ?thesis using assms None by (auto simp: Scheduler_stealNextForLane_def Scheduler_laneCount_def)
next
  case (Some l)
  have t: "thief < length (readyByLane sch)" using assms(2) by (simp add: Scheduler_laneCount_def)
  obtain s1 where s1: "s1 = sch\<lparr>readyByLane := ((readyByLane sch)[l := tl (readyByLane sch ! l)])[thief :=
        ((readyByLane sch)[l := tl (readyByLane sch ! l)]) ! thief @ [hd (readyByLane sch ! l)]],
        processLane := (processLane sch)(hd (readyByLane sch ! l) \<mapsto> thief)\<rparr>" by blast
  note v = steal_view [OF assms(1) t Some s1]
  obtain p q where pq: "readyByLane sch ! l = p # q" using v by (cases "readyByLane sch ! l") auto
  have i1: "sched_inv s1 store" using v by blast
  have rd: "readyByLane s1 = ((readyByLane sch)[l := q])[thief := readyByLane sch ! thief @ [p]]"
    using v unfolding pq by simp
  have rn: "runningByLane s1 = runningByLane sch" "sch_policy s1 = Some pol" using assms(3) unfolding s1 by simp_all
  have sel: "selectNextForLane_nolock s1 store thief now = ((sch', store'), res)"
    using assms(4) t Some unfolding s1 by (simp add: Scheduler_stealNextForLane_def Let_def)
  have t1: "thief < length (readyByLane s1)" using t rd by simp
  note w = select_view [OF i1 t1 rn(2) sel]
  have o1: "on_lane s1 thief = insert p (on_lane sch thief)" using t by (auto simp: on_lane_def rd rn(1))
  have ok: "isOk res"
    using w t by (simp add: selected_def rd Let_def split: option.splits if_splits)
  have l: "l < length (readyByLane sch)" "l \<noteq> thief" using v by auto
  have keep: "on_lane sch' k = on_lane sch k" if "k \<noteq> thief" "k \<noteq> l" for k
    using w that by (simp add: on_lane_def rd rn(1))
  have rl: "readyByLane sch' ! l = q" "runningByLane sch' ! l = runningByLane sch ! l" using w l by (simp_all add: rd rn(1))
  have mx: "\<forall>k < Scheduler_laneCount sch. k \<noteq> thief \<longrightarrow> length (readyByLane sch ! k) \<le> length (p # q)"
    using v unfolding pq Scheduler_laneCount_def by blast
  have "\<not> (\<forall>k < Scheduler_laneCount sch. k \<noteq> thief \<longrightarrow> readyByLane sch ! k = [])"
    using l pq by (auto simp: Scheduler_laneCount_def)
  moreover have "on_lane sch' thief = insert p (on_lane sch thief)" using w o1 by simp
  ultimately show ?thesis
    using w ok keep rl mx l pq unfolding Scheduler_laneCount_def by auto
qed

theorem sched_steal_witness:
  "\<exists>sch' store'. Scheduler_stealNextForLane (fst demo_sched) (snd demo_sched) 1 9 = ((sch', store'), Ok 3)
    \<and> 3 \<in> on_lane sch' 1 \<and> readyByLane sch' ! 0 = []"
proof -
  let ?r = "Scheduler_stealNextForLane (fst demo_sched) (snd demo_sched) 1 9"
  have ok: "snd ?r = Ok 3" by code_simp
  have pol: "sch_policy (fst demo_sched) = Some (RoundRobinPolicy 4)" "1 < Scheduler_laneCount (fst demo_sched)"
    "Scheduler_laneCount (fst demo_sched) = 2" "readyByLane (fst demo_sched) ! 0 = [3]"
    by code_simp+
  obtain sch' store' res where r: "?r = ((sch', store'), res)" by (metis surj_pair)
  have "\<not> (\<forall>k < Scheduler_laneCount (fst demo_sched). k \<noteq> 1 \<longrightarrow> readyByLane (fst demo_sched) ! k = [])"
    using pol by (auto intro!: exI [of _ 0])
  then have "\<exists>l p q. l < 2 \<and> l \<noteq> 1 \<and> readyByLane (fst demo_sched) ! l = p # q
    \<and> on_lane sch' 1 = insert p (on_lane (fst demo_sched) 1) \<and> readyByLane sch' ! l = q"
    using sched_steal [OF reachable_sched_inv [OF demo_sched_reachable] pol(2,1) r] unfolding pol(3)
    by (simp only: if_False simp_thms) blast
  then obtain l p q where l: "l < 2" "l \<noteq> 1" "readyByLane (fst demo_sched) ! l = p # q"
    "on_lane sch' 1 = insert p (on_lane (fst demo_sched) 1)" "readyByLane sch' ! l = q"
    by blast
  have l0: "l = 0" using l(1,2) by linarith
  have "p = 3" "q = []" using l(3) pol(4) unfolding l0 by simp_all
  then show ?thesis using l(4,5) r ok unfolding l0 by simp
qed

text \<open>
  The blocking operations. Blocking a running process succeeds, moves it to the blocked list and
  frees its lane; unblocking brings a blocked process to the end of a ready queue in state \<open>Ready\<close>.
  Blocking a process that waits in a ready queue is refused with \<^verbatim>\<open>InvalidState\<close> and changes nothing, although
  the code means to block a process \<^emph>\<open>regardless of which queue it lives in\<close>.
\<close>

theorem sched_block_unblock:
  assumes "sched_inv sch store" "p \<in> processes sch"
    "Scheduler_blockProcess sch store p now = ((sch1, store1), res1)"
    "Scheduler_unblock sch1 store1 p later = ((sch2, store2), res2)"
  shows "(Some p \<in> set (runningByLane sch) \<longrightarrow>
      res1 = Ok () \<and> last (sch_blocked sch1) = p \<and> pcb_state (store1 p) = Blocked \<and> Some p \<notin> set (runningByLane sch1)
      \<and> res2 = Ok () \<and> pcb_state (store2 p) = Ready \<and> p \<notin> set (sch_blocked sch2)
      \<and> (\<exists>l < Scheduler_laneCount sch2. last (readyByLane sch2 ! l) = p \<and> p \<in> set (readyByLane sch2 ! l)))
    \<and> ((\<exists>q \<in> set (readyByLane sch). p \<in> set q) \<longrightarrow> res1 = Error InvalidState \<and> sch1 = sch \<and> store1 = store)"
proof (cases "Some p \<in> set (runningByLane sch)")
  case True
  note d = sched_invD [OF assms(1)]
  obtain l where l: "l < length (readyByLane sch)" "runningByLane sch ! l = Some p"
    "block_lane sch store l p now = ((sch1, store1), res1)"
    using blockProcess_cases [OF assms(1,3)] assms(2) True by auto
  note b = block_lane_inv [OF assms(1) l]
  have i1: "sched_inv sch1 store1" "p \<in> set (sch_blocked sch1)" "res1 = Ok ()" "last (sch_blocked sch1) = p" using b by auto
  have nr: "Some p \<notin> set (runningByLane sch1)"
    using sched_invD(2,7) [OF i1(1)] b by (metis in_set_conv_nth process_state.distinct(19))
  have "\<not> (\<exists>q \<in> set (readyByLane sch). p \<in> set q)"
    using inv_not_both(2) [OF assms(1)] l(1,2) by (metis in_set_conv_nth)
  then show ?thesis using i1 nr b unblock_inv [OF i1(1) assms(4)] by (auto simp: Scheduler_laneCount_def)
next
  case False
  then show ?thesis using blockProcess_cases [OF assms(1,3)] assms(2) by (auto split: if_splits)
qed

theorem sched_block_unblock_witness:
  "\<exists>sch1 store1. Scheduler_blockProcess (fst demo_sched) (snd demo_sched) 3 8 = ((sch1, store1), Error InvalidState)
    \<and> sch1 = fst demo_sched"
proof -
  let ?r = "Scheduler_blockProcess (fst demo_sched) (snd demo_sched) 3 8"
  obtain sch1 store1 res1 where r: "?r = ((sch1, store1), res1)" by (metis surj_pair)
  obtain sch2 store2 res2 where r2: "Scheduler_unblock sch1 store1 3 9 = ((sch2, store2), res2)" by (metis surj_pair)
  have k: "3 \<in> processes (fst demo_sched)" "\<exists>q \<in> set (readyByLane (fst demo_sched)). 3 \<in> set q" by code_simp+
  show ?thesis
    using sched_block_unblock [OF reachable_sched_inv [OF demo_sched_reachable] k(1) r r2] k(2) r by blast
qed

text \<open>
  Termination. A running process is terminated: it ends in state \<open>Terminated\<close>, its lane becomes
  idle and the scheduler forgets it. A process that waits in a ready queue or is blocked is taken
  out of its queue all the same, but the life cycle has no transition from there to \<open>Terminated\<close>: the
  operation reports \<^verbatim>\<open>InvalidState\<close> and leaves the process known, in its old state and in no queue.
\<close>

theorem sched_terminate_orphans:
  assumes "sched_inv sch store" "p \<in> processes sch" "Scheduler_terminate sch store p now = ((sch', store'), res)"
  shows "(Some p \<in> set (runningByLane sch) \<longrightarrow>
        res = Ok () \<and> pcb_state (store' p) = Terminated \<and> p \<notin> processes sch')
    \<and> (pcb_state (store p) \<noteq> Running \<longrightarrow> res = Error InvalidState \<and> store' = store \<and> p \<in> processes sch')
    \<and> p \<notin> set (Scheduler_getQueueSnapshot sch' @ Scheduler_runningProcesses sch' @ Scheduler_getBlockedSnapshot sch')"
proof -
  note t = terminate_inv [OF assms(1,3)]
  have "Some p \<in> set (runningByLane sch) \<Longrightarrow> pcb_state (store p) = Running"
    using sched_invD(2,7) [OF assms(1)] by (metis in_set_conv_nth)
  then show ?thesis
    using t assms(2)
    by (auto simp: Scheduler_getQueueSnapshot_def Scheduler_runningProcesses_def Scheduler_getBlockedSnapshot_def
        split: if_splits)
qed

theorem sched_terminate_orphans_witness:
  "\<exists>sch' store'. Scheduler_terminate (fst demo_sched) (snd demo_sched) 3 8 = ((sch', store'), Error InvalidState)
    \<and> 3 \<in> processes sch' \<and> 3 \<notin> set (Scheduler_getQueueSnapshot sch')"
proof -
  let ?r = "Scheduler_terminate (fst demo_sched) (snd demo_sched) 3 8"
  obtain sch' store' res where r: "?r = ((sch', store'), res)" by (metis surj_pair)
  have k: "3 \<in> processes (fst demo_sched)" "pcb_state (snd demo_sched 3) \<noteq> Running" by code_simp+
  show ?thesis
    using sched_terminate_orphans [OF reachable_sched_inv [OF demo_sched_reachable] k(1) r] k(2) r by auto
qed

text \<open>
  Enqueueing a blocked process succeeds without taking it out of the blocked list, so that it is
  queued twice: process 1 of the example is blocked, is enqueued again and is then in a ready queue
  and in the blocked list.
\<close>

theorem enqueue_blocked_twice:
  "(let ((sch', store'), res) = Scheduler_enqueue (fst demo_sched) (snd demo_sched) 1 7
    in res = Ok () \<and> 1 \<in> set (Scheduler_getQueueSnapshot sch') \<and> 1 \<in> set (Scheduler_getBlockedSnapshot sch'))"
  by code_simp

end
