(* ===== verification/Dispatcher.thy ===== *)
theory Dispatcher
  imports Execution_Engine Virtual_Memory Scheduler
begin

text \<open>
  The dispatcher: \<^verbatim>\<open>dispatch/dispatcher.cpp\<close>. It owns the process images and keeps references to the
  scheduler, the execution engine, the virtual memory and the clock; its state is the record
  \<open>machine\<close> of all of them, with the CPU, the memory and the MMU they refer to.

  The scheduler's references to process control blocks are references into the images: the blocks
  the scheduler sees are \<open>store_of\<close> the images, and what it changes is written back by \<open>commit\<close>.
\<close>

section \<open>State\<close>

record machine =
  m_sched :: scheduler
  m_engine :: engine
  m_cpu :: cpu
  m_mem :: physical_memory
  m_mmu :: mmu
  m_vm :: virtual_memory
  m_clock :: clock
  m_images :: "process_id \<rightharpoonup> process_image"

definition store_of :: "(process_id \<rightharpoonup> process_image) \<Rightarrow> pcb_store" where
  "store_of images p = (case images p of Some im \<Rightarrow> im_pcb im | None \<Rightarrow> PCB_new p '''' Priority_default 0)"

definition commit :: "(process_id \<rightharpoonup> process_image) \<Rightarrow> pcb_store \<Rightarrow> (process_id \<rightharpoonup> process_image)" where
  "commit images store p = map_option (\<lambda>im. im\<lparr>im_pcb := store p\<rparr>) (images p)"

section \<open>Operations\<close>

definition advanceClock :: "clock \<Rightarrow> nat \<Rightarrow> clock" where
  "advanceClock c n = (Clock_tick ^^ n) c"

definition set_address_info :: "process_image \<Rightarrow> memory_address \<Rightarrow> process_image" where
  "set_address_info im base =
     im\<lparr>im_pcb := (im_pcb im)\<lparr>pcb_addressInfo :=
       \<lparr>virtualBase = base, codeStart = base, codeSize = word_of_nat (ProcessImage_codeSize im), slot = base\<rparr>\<rparr>\<rparr>"

definition Dispatcher_createProcess ::
  "(nat \<Rightarrow> frame_id set \<Rightarrow> frame_id list) \<Rightarrow> machine \<Rightarrow> process_image option \<Rightarrow> tick \<Rightarrow> machine \<times> unit result" where
  "Dispatcher_createProcess iter d process now =
     (case process of
        None \<Rightarrow> (d, Error InvalidArgument)
      | Some im \<Rightarrow>
          let pid = ProcessImage_id im in
          if pid = INVALID_PID then (d, Error InvalidPid)
          else if m_images d pid \<noteq> None then (d, Error AlreadyExists)
          else
            let slotSize = max 1 (ProcessImage_codeSize im);
                ((vm1, mmu1), alloc) = VirtualMemory_allocateSlot iter (m_vm d) (m_mmu d) (m_mem d) pid slotSize
            in (case alloc of
                  Error e \<Rightarrow> (d\<lparr>m_vm := vm1, m_mmu := mmu1\<rparr>, Error e)
                | Ok base \<Rightarrow>
                    let ((mmu2, mem2), load) = VirtualMemory_loadSegment vm1 mmu1 (m_mem d) pid (im_code im)
                    in (case load of
                          Error e \<Rightarrow>
                            let ((vm3, mmu3), _) = VirtualMemory_freeSlot vm1 mmu2 pid
                            in (d\<lparr>m_vm := vm3, m_mmu := mmu3, m_mem := mem2\<rparr>, Error e)
                        | Ok _ \<Rightarrow>
                            let im1 = set_address_info im base;
                                ((sch, store), enq) =
                                  Scheduler_enqueue (m_sched d) ((store_of (m_images d))(pid := im_pcb im1)) pid now
                            in (case enq of
                                  Error e \<Rightarrow>
                                    let ((vm3, mmu3), _) = VirtualMemory_freeSlot vm1 mmu2 pid
                                    in (d\<lparr>m_sched := sch, m_vm := vm3, m_mmu := mmu3, m_mem := mem2,
                                          m_images := commit (m_images d) store\<rparr>, Error e)
                                | Ok _ \<Rightarrow>
                                    (d\<lparr>m_sched := sch, m_vm := vm1, m_mmu := mmu2, m_mem := mem2,
                                       m_images := (commit (m_images d) store)(pid \<mapsto> im1\<lparr>im_pcb := store pid\<rparr>)\<rparr>,
                                     Ok ())))))"

text \<open>The reaction to a burst that stopped, after the clock has advanced.\<close>

definition dispatch_stop :: "machine \<Rightarrow> process_id \<Rightarrow> stop_reason \<Rightarrow> machine \<times> unit result" where
  "dispatch_stop d pid reason =
     (case reason of
        BudgetExhausted \<Rightarrow> (d, Ok ())
      | Interrupted \<Rightarrow>
          (let ((sch, store), r) = Scheduler_blockProcess (m_sched d) (store_of (m_images d)) pid (Clock_now (m_clock d))
           in (d\<lparr>m_sched := sch, m_images := commit (m_images d) store\<rparr>, r))
      | _ \<Rightarrow>
          (let ((sch, store), r) = Scheduler_terminate (m_sched d) (store_of (m_images d)) pid (Clock_now (m_clock d));
               d1 = d\<lparr>m_sched := sch, m_images := commit (m_images d) store\<rparr>
           in (case r of
                 Error e \<Rightarrow> (d1, Error e)
               | Ok _ \<Rightarrow>
                   let ((vm, mmu), _) = VirtualMemory_freeSlot (m_vm d1) (m_mmu d1) pid
                   in (d1\<lparr>m_vm := vm, m_mmu := mmu, m_images := (m_images d1)(pid := None)\<rparr>, Ok ()))))"

definition dispatch_run :: "machine \<Rightarrow> process_id \<Rightarrow> process_image \<Rightarrow> nat \<Rightarrow> machine \<times> execution_result" where
  "dispatch_run d pid im budget =
     (case InterpreterEngine_execute (m_engine d) (m_cpu d) (m_mem d) im budget of
        (e, c, m, im', r) \<Rightarrow>
          (d\<lparr>m_engine := e, m_cpu := c, m_mem := m, m_images := (m_images d)(pid \<mapsto> im'),
             m_clock := advanceClock (m_clock d) (er_ticks r)\<rparr>, r))"

definition Dispatcher_dispatch :: "machine \<Rightarrow> nat \<Rightarrow> machine \<times> unit result" where
  "Dispatcher_dispatch d budget =
     (if dom (m_images d) = {} then (d, Error NotFound)
      else
        let ((sch, store), selected) =
              Scheduler_selectNext (m_sched d) (store_of (m_images d)) (Clock_now (m_clock d));
            d1 = d\<lparr>m_sched := sch, m_images := commit (m_images d) store\<rparr>
        in (case selected of
              Error e \<Rightarrow> (d1, Error e)
            | Ok pid \<Rightarrow>
                (case m_images d1 pid of
                   None \<Rightarrow> (d1, Error InvalidState)
                 | Some im \<Rightarrow>
                     let (d2, r) = dispatch_run d1 pid im budget in dispatch_stop d2 pid (er_reason r))))"

definition Dispatcher_terminateProcess :: "machine \<Rightarrow> process_id \<Rightarrow> tick \<Rightarrow> machine \<times> unit result" where
  "Dispatcher_terminateProcess d pid now =
     (case m_images d pid of
        None \<Rightarrow> (d, Error NotFound)
      | Some im \<Rightarrow>
          let d1 = d\<lparr>m_engine := InterpreterEngine_halt (m_engine d) pid\<rparr>;
              (sch, removed) = Scheduler_dequeue (m_sched d1) pid;
              d2 = d1\<lparr>m_sched := sch\<rparr>
          in (if isError removed \<and> removed \<noteq> Error NotFound then (d2, removed)
              else
                let d3 = d2\<lparr>m_images := (m_images d2)(pid \<mapsto> im\<lparr>im_pcb := fst (PCB_setState (im_pcb im) Terminated now)\<rparr>)\<rparr>;
                    ((vm, mmu), _) = VirtualMemory_freeSlot (m_vm d3) (m_mmu d3) pid
                in (d3\<lparr>m_vm := vm, m_mmu := mmu, m_images := (m_images d3)(pid := None)\<rparr>, Ok ())))"

definition Dispatcher_tick :: "machine \<Rightarrow> machine" where
  "Dispatcher_tick d = d\<lparr>m_clock := Clock_tick (m_clock d)\<rparr>"

definition Dispatcher_processCount :: "machine \<Rightarrow> nat" where
  "Dispatcher_processCount d = card (dom (m_images d))"

definition Dispatcher_hasProcess :: "machine \<Rightarrow> process_id \<Rightarrow> bool" where
  "Dispatcher_hasProcess d pid \<longleftrightarrow> m_images d pid \<noteq> None"

section \<open>The invariant\<close>

text \<open>Every process the scheduler knows is in a queue.\<close>

definition queued :: "scheduler \<Rightarrow> process_id set" where
  "queued sch = (\<Union>l < length (readyByLane sch). on_lane sch l) \<union> set (sch_blocked sch)"

text \<open>
  The tables of all components agree: the images, the processes the scheduler knows, the slots of
  the virtual memory and (by \<open>vm_inv\<close>) the page tables are indexed by the same processes, each of
  which is in exactly one queue.
\<close>

definition machine_inv :: "machine \<Rightarrow> bool" where
  "machine_inv d \<longleftrightarrow>
     sched_inv (m_sched d) (store_of (m_images d)) \<and> queued (m_sched d) = processes (m_sched d)
     \<and> processes (m_sched d) = dom (m_images d)
     \<and> dom (slots (m_vm d)) = dom (m_images d)
     \<and> vm_inv (m_vm d) (m_mmu d) \<and> mmu_inv (m_mem d) (m_mmu d)"

section \<open>The scheduler's operations on the queued processes\<close>

lemma sched_inv_store:
  assumes i: "sched_inv sch store" and same: "\<And>p. p \<in> processes sch \<Longrightarrow> store' p = store p"
    and ids: "\<And>p. pcb_id (store' p) = p"
  shows "sched_inv sch store'"
proof -
  note d = sched_invD [OF i]
  show ?thesis
    unfolding sched_inv_def using d(1-3,5,8) d(6,7,9) same ids by simp
qed

lemma queued_select:
  assumes "sched_inv sch store" "selectNextForLane_nolock sch store l now = ((sch', store'), res)"
    "l < length (readyByLane sch)" "sch_policy sch = Some pol"
  shows "queued sch' = queued sch"
proof -
  note v = select_view [OF assms(1,3,4,2)]
  have "on_lane sch' k = on_lane sch k" for k using v by (cases "k = l") (auto simp: on_lane_def)
  then show ?thesis using v by (simp add: queued_def)
qed

lemma select_noop:
  assumes "\<not> (l < length (readyByLane sch) \<and> sch_policy sch \<noteq> None)"
    "selectNextForLane_nolock sch store l now = ((sch', store'), res)"
  shows "sch' = sch \<and> store' = store \<and> isError res"
  using assms by (auto simp: selectNextForLane_nolock_def split: if_splits)

lemma union_insert:
  assumes "i < (n::nat)" "f i = insert p (g i)" "\<And>k. k \<noteq> i \<Longrightarrow> f k = g k"
  shows "(\<Union>l < n. f l) = insert p (\<Union>l < n. g l)"
proof -
  have "{..<n} = insert i ({..<n} - {i})" using assms(1) by auto
  moreover have "(\<Union>l \<in> {..<n} - {i}. f l) = (\<Union>l \<in> {..<n} - {i}. g l)" using assms(3) by simp
  ultimately show ?thesis using assms(2) by (metis UN_insert Un_insert_left)
qed

text \<open>A new process is accepted and goes to the end of the queue of lane 0.\<close>

lemma enqueue_new:
  assumes i: "sched_inv sch store" and p: "p \<notin> processes sch" "p \<noteq> INVALID_PID" "pcb_state (store p) = New"
    and e: "Scheduler_enqueue sch store p now = ((sch', store'), res)"
  shows "res = Ok () \<and> processes sch' = insert p (processes sch)
    \<and> readyByLane sch' = (readyByLane sch)[0 := readyByLane sch ! 0 @ [p]]
    \<and> runningByLane sch' = runningByLane sch \<and> sch_blocked sch' = sch_blocked sch
    \<and> (\<forall>q. q \<noteq> p \<longrightarrow> store' q = store q) \<and> pcb_state (store' p) = Ready
    \<and> lastStateChange (pcb_timing (store' p)) = now \<and> queued sch' = insert p (queued sch) \<and> sched_inv sch' store'"
proof -
  note d = sched_invD [OF i]
  obtain st ok where st: "store_setState store p Ready now = (st, ok)" by fastforce
  note s = store_setState_ok [OF st]
  have ok: ok using s(1) p(3) by simp
  have now: "lastStateChange (pcb_timing (st p)) = now"
    using st s(1) ok setState_valid(3) [of "store p" Ready now] by (auto simp: store_setState_def split: prod.splits)
  have n0: "0 < length (readyByLane sch)" using d(1) by simp
  have nr: "\<forall>q \<in> set (readyByLane sch). \<not> findIn q p"
    using d(6) p(1) unfolding findIn_def by (metis in_set_conv_nth)
  have nn: "findRunningLane (sch\<lparr>processes := insert p (processes sch)\<rparr>) p = None"
    using d(2,7) p(1) by (fastforce simp: findRunningLane_None in_set_conv_nth)
  have nb: "p \<notin> set (sch_blocked sch)" using d(9) p(1) by blast
  have f: "sch' = sch\<lparr>processes := insert p (processes sch), readyByLane := (readyByLane sch)[0 := readyByLane sch ! 0 @ [p]],
      processLane := (processLane sch)(p \<mapsto> 0)\<rparr>" "res = Ok ()"
    "store' = (if Statistics_hasPrediction (sch_statistics sch) p
          then st(p := (st p)\<lparr>pcb_timing := (pcb_timing (st p))
             \<lparr>estimatedBurst := Statistics_predictedBurst (sch_statistics sch) p\<rparr>\<rparr>) else st)"
    using e p n0 nr nn st ok by (auto simp: Scheduler_enqueue_def Scheduler_enqueueToLane_def Let_def)
  have "queued sch' = insert p (queued sch)"
  proof -
    have o0: "on_lane sch' 0 = insert p (on_lane sch 0)" using n0 by (auto simp: f on_lane_def)
    have ok': "on_lane sch' k = on_lane sch k" if "k \<noteq> 0" for k using that by (simp add: f on_lane_def)
    have "(\<Union>l < length (readyByLane sch). on_lane sch' l) = insert p (\<Union>l < length (readyByLane sch). on_lane sch l)"
      by (rule union_insert [of 0]) (use n0 o0 ok' in auto)
    then show ?thesis by (simp add: queued_def f)
  qed
  moreover have "sched_inv sch' store'"
    using enqueue_inv [OF i nb] e by (auto simp: Scheduler_enqueue_def)
  ultimately show ?thesis using f s(2) s(4) [OF ok] now by auto
qed

text \<open>The lane of a running process after it is taken off.\<close>

lemma off_union:
  assumes "U' = U - {p}" "p \<notin> B" "E \<subseteq> {p}" "{p} \<union> U = U"
  shows "U' \<union> (B \<union> E) = U \<union> B - ({p} - E)"
  using assms by auto

lemma queued_off_lane:
  assumes i: "sched_inv sch store" and l: "l < length (readyByLane sch)" and r: "runningByLane sch ! l = Some p"
    and s: "readyByLane sch' = readyByLane sch" "runningByLane sch' = (runningByLane sch)[l := None]"
      "sch_blocked sch' = sch_blocked sch @ ex" "set ex \<subseteq> {p}"
  shows "queued sch' = queued sch - ({p} - set ex)"
proof -
  have len: "l < length (runningByLane sch)" using l sched_invD(2) [OF i] by simp
  have nr: "p \<notin> set (readyByLane sch ! k)" if "k < length (readyByLane sch)" for k
    using inv_not_both(2) [OF i that _ r l] by blast
  have nb: "p \<notin> set (sch_blocked sch)" using inv_not_both(3) [OF i l r] .
  have n5: "k = l" if "runningByLane sch ! k = Some p" "k < length (readyByLane sch)" for k
    using inv_not_both(5) [OF i l r that] .
  have on: "on_lane sch' k = on_lane sch k - {p}" if "k < length (readyByLane sch)" for k
  proof (cases "k = l")
    case True
    then show ?thesis using nr [OF that] len r by (simp add: on_lane_def s)
  next
    case False
    then have "runningByLane sch ! k \<noteq> Some p" using n5 that by blast
    then show ?thesis using False nr [OF that] by (simp add: on_lane_def s)
  qed
  have "(\<Union>k < length (readyByLane sch). on_lane sch' k) = (\<Union>k < length (readyByLane sch). on_lane sch k - {p})"
    by (rule SUP_cong) (simp_all add: on)
  also have "\<dots> = (\<Union>k < length (readyByLane sch). on_lane sch k) - {p}" by blast
  finally have "(\<Union>k < length (readyByLane sch). on_lane sch' k) = (\<Union>k < length (readyByLane sch). on_lane sch k) - {p}" .
  moreover have "p \<in> on_lane sch l" using r by (simp add: on_lane_def)
  moreover have "{p} \<union> (\<Union>k < length (readyByLane sch). on_lane sch k) = (\<Union>k < length (readyByLane sch). on_lane sch k)"
    using calculation(2) l by blast
  ultimately show ?thesis using nb s(4) unfolding queued_def s set_append by (metis off_union)
qed

lemma terminate_running_view:
  assumes i: "sched_inv sch store" and r: "p \<in> processes sch" "Some p \<in> set (runningByLane sch)"
    and e: "Scheduler_terminate sch store p now = ((sch', store'), res)"
  shows "res = Ok () \<and> processes sch' = processes sch - {p} \<and> queued sch' = queued sch - {p}
    \<and> sched_inv sch' store' \<and> (\<forall>q. q \<noteq> p \<longrightarrow> store' q = store q) \<and> pcb_state (store' p) = Terminated"
proof -
  note d = sched_invD [OF i]
  obtain l where fl: "findRunningLane sch p = Some l" using r(2) findRunningLane_None [of sch p] by fastforce
  have l: "l < length (readyByLane sch)" "runningByLane sch ! l = Some p" using findRunningLane_Some [OF fl] d(2) by auto
  obtain st ok where st: "store_setState store p Terminated now = (st, ok)" by fastforce
  note s = store_setState_ok [OF st]
  have ok: ok using s(1) d(7) [OF l] by simp
  have f: "sch' = fst (fst (Scheduler_terminate sch store p now))" "store' = st"
    using e r(1) fl st ok by (auto simp: Scheduler_terminate_def Let_def)
  have g: "readyByLane sch' = readyByLane sch" "runningByLane sch' = (runningByLane sch)[l := None]"
    "sch_blocked sch' = sch_blocked sch @ []" "processes sch' = processes sch - {p}"
    unfolding f(1) using r(1) fl st ok by (simp_all add: Scheduler_terminate_def Let_def)
  have "queued sch' = queued sch - {p}" using queued_off_lane [OF i l g(1-3)] by simp
  then show ?thesis using terminate_inv [OF i e] r g(4) f(2) s(2) by auto
qed

lemma block_running_view:
  assumes i: "sched_inv sch store" and r: "p \<in> processes sch" "Some p \<in> set (runningByLane sch)"
    and e: "Scheduler_blockProcess sch store p now = ((sch', store'), res)"
  shows "res = Ok () \<and> processes sch' = processes sch \<and> queued sch' = queued sch
    \<and> sched_inv sch' store' \<and> (\<forall>q. q \<noteq> p \<longrightarrow> store' q = store q) \<and> pcb_state (store' p) = Blocked"
proof -
  obtain l where l: "l < length (readyByLane sch)" "runningByLane sch ! l = Some p"
    "block_lane sch store l p now = ((sch', store'), res)"
    using blockProcess_cases [OF i e] r by auto
  note b = block_lane_inv [OF i l]
  have "queued sch' = queued sch - ({p} - set [p])"
    by (rule queued_off_lane [OF i l(1,2)]) (use b in auto)
  moreover obtain st ok where st: "store_setState store p Blocked now = (st, ok)" by fastforce
  moreover have "store' = st" using l(3) st by (auto simp: block_lane_def Let_def split: if_splits)
  ultimately show ?thesis using b store_setState_ok(2) [OF st] by auto
qed

lemma queued_dequeue:
  assumes i: "sched_inv sch store" and p: "p \<in> processes sch" and e: "Scheduler_dequeue sch p = (sch', res)"
  shows "res = Ok () \<and> processes sch' = processes sch - {p} \<and> queued sch' = queued sch - {p} \<and> sched_inv sch' store"
proof -
  have f: "sch' = fst (Scheduler_dequeue sch p)" "res = Ok ()" using e p by (auto simp: Scheduler_dequeue_def Let_def)
  have g: "readyByLane sch' = map (\<lambda>q. removeFrom q p) (readyByLane sch)" "processes sch' = processes sch - {p}"
    "runningByLane sch' = map (\<lambda>r. if r = Some p then None else r) (runningByLane sch)"
    "sch_blocked sch' = removeFrom (sch_blocked sch) p"
    unfolding f(1) using p by (simp_all add: Scheduler_dequeue_def Let_def removeFromAllReady_def)
  have "on_lane sch' k = on_lane sch k - {p}" if "k < length (readyByLane sch)" for k
    using that sched_invD(2) [OF i] by (auto simp: on_lane_def g)
  then have "queued sch' = queued sch - {p}" by (auto simp: queued_def g)
  then show ?thesis using f g dequeue_inv [OF i e] by simp
qed

section \<open>The images and the scheduler's view of them\<close>

lemma dom_commit [simp]: "dom (commit images store) = dom images"
  by (auto simp: commit_def)

lemma commit_store: "p \<in> dom images \<Longrightarrow> store_of (commit images store) p = store p"
  by (auto simp: store_of_def commit_def)

lemma store_of_id: "(\<And>p im. images p = Some im \<Longrightarrow> pcb_id (im_pcb im) = p) \<Longrightarrow> pcb_id (store_of images p) = p"
  by (auto simp: store_of_def PCB_new_def split: option.splits)

lemma sched_inv_commit:
  assumes "sched_inv sch store" "processes sch \<subseteq> dom images"
  shows "sched_inv sch (store_of (commit images store))"
proof (rule sched_inv_store [OF assms(1)])
  show "p \<in> processes sch \<Longrightarrow> store_of (commit images store) p = store p" for p
    using assms(2) commit_store by blast
  show "pcb_id (store_of (commit images store) p) = p" for p
    by (rule store_of_id) (use sched_invD(4) [OF assms(1)] in \<open>auto simp: commit_def\<close>)
qed

lemma sched_inv_drop:
  assumes "sched_inv sch store" "p \<notin> processes sch" "processes sch \<subseteq> dom images"
  shows "sched_inv sch (store_of ((commit images store)(p := None)))"
proof (rule sched_inv_store [OF assms(1)])
  show "q \<in> processes sch \<Longrightarrow> store_of ((commit images store)(p := None)) q = store q" for q
    using assms(2,3) commit_store [of q images store] by (cases "q = p") (auto simp: store_of_def)
  show "pcb_id (store_of ((commit images store)(p := None)) q) = q" for q
    by (rule store_of_id) (use sched_invD(4) [OF assms(1)] in \<open>auto simp: commit_def split: if_splits\<close>)
qed

lemma commit_same: "(\<And>q im. images q = Some im \<Longrightarrow> store q = im_pcb im) \<Longrightarrow> commit images store = images"
  by (auto simp: commit_def fun_eq_iff map_option_case split: option.splits)

lemma commit_store_of [simp]: "commit images (store_of images) = images"
  by (rule commit_same) (simp add: store_of_def)

lemma store_of_upd: "store_of (images(p \<mapsto> im)) = (store_of images)(p := im_pcb im)"
  by (simp add: store_of_def fun_eq_iff)

lemma mmu_inv_size: "mmu_inv mem st \<Longrightarrow> PhysicalMemory_size mem' = PhysicalMemory_size mem \<Longrightarrow> mmu_inv mem' st"
  by (simp add: mmu_inv_def)

lemma machine_invD:
  assumes "machine_inv d"
  shows "sched_inv (m_sched d) (store_of (m_images d))" "queued (m_sched d) = processes (m_sched d)"
    "processes (m_sched d) = dom (m_images d)" "dom (slots (m_vm d)) = dom (m_images d)"
    "vm_inv (m_vm d) (m_mmu d)" "mmu_inv (m_mem d) (m_mmu d)"
  using assms by (simp_all add: machine_inv_def)

section \<open>createProcess\<close>

lemma set_address_info_simps [simp]:
  "pcb_id (im_pcb (set_address_info im base)) = pcb_id (im_pcb im)"
  "pcb_state (im_pcb (set_address_info im base)) = pcb_state (im_pcb im)"
  "im_code (set_address_info im base) = im_code im"
  "im_registers (set_address_info im base) = im_registers im"
  by (simp_all add: set_address_info_def)

lemma enqueue_created:
  assumes i: "machine_inv d" and p: "m_images d pid = None" "pid \<noteq> INVALID_PID"
    and im: "pcb_id (im_pcb im) = pid" "pcb_state (im_pcb im) = New"
    and e: "Scheduler_enqueue (m_sched d) ((store_of (m_images d))(pid := im_pcb im)) pid now = ((sch, store), r)"
  defines "images \<equiv> (commit (m_images d) store)(pid \<mapsto> im\<lparr>im_pcb := store pid\<rparr>)"
  shows "r = Ok () \<and> sched_inv sch (store_of images) \<and> queued sch = processes sch \<and> processes sch = dom images
    \<and> images = (m_images d)(pid \<mapsto> im\<lparr>im_pcb := store pid\<rparr>) \<and> pcb_state (store pid) = Ready
    \<and> lastStateChange (pcb_timing (store pid)) = now
    \<and> readyByLane sch = (readyByLane (m_sched d))[0 := readyByLane (m_sched d) ! 0 @ [pid]]"
proof -
  note d = machine_invD [OF i]
  let ?st = "(store_of (m_images d))(pid := im_pcb im)"
  have np: "pid \<notin> processes (m_sched d)" using d(3) p by auto
  have "sched_inv (m_sched d) ?st"
    by (rule sched_inv_store [OF d(1)]) (use np im sched_invD(4) [OF d(1)] in auto)
  note v = enqueue_new [OF this np p(2) _ e]
  then have v: "r = Ok ()" "processes sch = insert pid (processes (m_sched d))" "queued sch = insert pid (queued (m_sched d))"
    "sched_inv sch store" "\<And>q. q \<noteq> pid \<Longrightarrow> store q = ?st q" "pcb_state (store pid) = Ready"
    "lastStateChange (pcb_timing (store pid)) = now"
    "readyByLane sch = (readyByLane (m_sched d))[0 := readyByLane (m_sched d) ! 0 @ [pid]]"
    using im by auto
  have c: "commit (m_images d) store = m_images d"
  proof (rule commit_same)
    show "store q = im_pcb im'" if s: "m_images d q = Some im'" for q im'
    proof -
      have "q \<noteq> pid" using p(1) s by auto
      then show ?thesis using v(5) s by (simp add: store_of_def)
    qed
  qed
  have "sched_inv sch (store_of images)"
  proof (rule sched_inv_store [OF v(4)])
    show "store_of images q = store q" if "q \<in> processes sch" for q
      using v(5) by (cases "q = pid") (auto simp: images_def c store_of_upd)
    show "pcb_id (store_of images q) = q" for q
      using sched_invD(4) [OF v(4)] sched_invD(4) [OF d(1)] by (simp add: images_def c store_of_upd)
  qed
  then show ?thesis using v d c by (auto simp: images_def)
qed


lemma createProcess_view:
  assumes i: "machine_inv d" and it: "\<forall>k. iter_ok (iter k)"
    and im: "pcb_state (im_pcb im) = New" "length (im_code im) \<le> 2 ^ 32"
    and e: "Dispatcher_createProcess iter d (Some im) now = (d', r)"
  shows "machine_inv d'
    \<and> (\<forall>q v. q \<noteq> ProcessImage_id im \<longrightarrow> content (m_mem d') (m_mmu d') (q, v) = content (m_mem d) (m_mmu d) (q, v))
    \<and> (if ProcessImage_id im = INVALID_PID then r = Error InvalidPid
       else if m_images d (ProcessImage_id im) \<noteq> None then r = Error AlreadyExists
       else (r = Ok () \<or> r = Error OutOfMemory)
         \<and> (0 < VirtualMemory_freeSlots (m_vm d) \<and> max 1 (length (im_code im)) \<le> Mmu_freeFrames (m_mmu d) \<longrightarrow> r = Ok ()))
    \<and> (r \<noteq> Ok () \<longrightarrow> m_images d' = m_images d \<and> m_sched d' = m_sched d \<and> slots (m_vm d') = slots (m_vm d))
    \<and> (r = Ok () \<longrightarrow> m_images d (ProcessImage_id im) = None
        \<and> (\<exists>im'. m_images d' = (m_images d)(ProcessImage_id im \<mapsto> im') \<and> im_code im' = im_code im
             \<and> im_registers im' = im_registers im \<and> pcb_state (im_pcb im') = Ready
             \<and> lastStateChange (pcb_timing (im_pcb im')) = now)
        \<and> readyByLane (m_sched d') = (readyByLane (m_sched d))[0 := readyByLane (m_sched d) ! 0 @ [ProcessImage_id im]]
        \<and> (im_code im \<noteq> [] \<longrightarrow>
             snd (VirtualMemory_readSegment (m_vm d') (m_mmu d') (m_mem d') (ProcessImage_id im)) = Ok (im_code im)))"
proof (cases "ProcessImage_id im = INVALID_PID \<or> m_images d (ProcessImage_id im) \<noteq> None")
  case True
  then have "d' = d" "r = Error (if ProcessImage_id im = INVALID_PID then InvalidPid else AlreadyExists)"
    using e by (auto simp: Dispatcher_createProcess_def Let_def split: if_splits)
  then show ?thesis using i True by auto
next
  case new: False
  note d = machine_invD [OF i]
  let ?p = "ProcessImage_id im"
  let ?n = "max 1 (ProcessImage_codeSize im)"
  have old: "slots (m_vm d) ?p = None" using d(4) new by auto
  obtain vm1 mmu1 al where al: "VirtualMemory_allocateSlot iter (m_vm d) (m_mmu d) (m_mem d) ?p ?n = ((vm1, mmu1), al)"
    by (metis prod.collapse)
  note a0 = allocateSlot_inv [OF d(5,6) it al] and ar = allocateSlot_result [OF d(5,6) it _ old al]
  show ?thesis
  proof (cases al)
    case (Error x)
    then have f: "d' = d\<lparr>m_vm := vm1, m_mmu := mmu1\<rparr>" "r = Error x"
      using e new al by (auto simp: Dispatcher_createProcess_def Let_def)
    then have "machine_inv d'" using d a0 Error by (simp add: machine_inv_def)
    then show ?thesis using f a0 Error ar new by (auto simp: ProcessImage_codeSize_def)
  next
    case (Ok base)
    have a: "vm_inv vm1 mmu1" "mmu_inv (m_mem d) mmu1" "slots vm1 = (slots (m_vm d))(?p \<mapsto> \<lparr>si_processId = ?p, si_size = ?n\<rparr>)"
      "\<And>qv. fst qv \<noteq> ?p \<Longrightarrow> content (m_mem d) mmu1 qv = content (m_mem d) (m_mmu d) qv"
      "\<forall>v < ?n. vmap mmu1 (?p, v) \<noteq> None"
      using a0 Ok by auto
    obtain mmu2 mem2 ld where ld: "VirtualMemory_loadSegment vm1 mmu1 (m_mem d) ?p (im_code im) = ((mmu2, mem2), ld)"
      by (metis prod.collapse)
    note l = loadSegment_view [OF a(2) im(2) ld]
    have l1: "vm_inv vm1 mmu2" using l a(1) by (simp add: vm_inv_def)
    have lok: "ld = Ok ()"
      using loadSegment_ok [OF a(2) im(2), of ?p vm1] a(3,5) ld by (simp add: ProcessImage_codeSize_def)
    obtain sch store enq where enq: "Scheduler_enqueue (m_sched d)
        ((store_of (m_images d))(?p := im_pcb (set_address_info im base))) ?p now = ((sch, store), enq)" by (metis prod.collapse)
    have "m_images d ?p = None" "?p \<noteq> INVALID_PID" using new by auto
    note q = enqueue_created [OF i this _ _ enq]
    have f: "d' = d\<lparr>m_sched := sch, m_vm := vm1, m_mmu := mmu2, m_mem := mem2,
        m_images := (commit (m_images d) store)(?p \<mapsto> (set_address_info im base)\<lparr>im_pcb := store ?p\<rparr>)\<rparr>" "r = Ok ()"
      using e new al Ok ld lok enq q im
      by (auto simp: Dispatcher_createProcess_def Let_def ProcessImage_id_def split: result.splits)
    have inv: "machine_inv d'" unfolding machine_inv_def
      using f q im l1 l a(3) d(4) by (auto simp: ProcessImage_id_def)
    have "snd (VirtualMemory_readSegment vm1 mmu2 mem2 ?p) = Ok (im_code im)" if ne: "im_code im \<noteq> []"
    proof -
      have "?n = length (im_code im)" using ne by (cases "im_code im") (auto simp: ProcessImage_codeSize_def)
      then have "VirtualMemory_slotSize vm1 ?p = length (im_code im)" using a(3) by (simp add: VirtualMemory_slotSize_def)
      from segment_readback [OF a(2) this im(2)] ld lok show ?thesis by simp
    qed
    then show ?thesis using inv f q im l a(4) new by (auto simp: ProcessImage_id_def)
  qed
qed

text \<open>How much memory a process takes.\<close>

lemma loadSegment_free: "Mmu_freeFrames (fst (fst (VirtualMemory_loadSegment vm st mem p data))) = Mmu_freeFrames st"
proof -
  have "Mmu_freeFrames (fst (fst (loadSegment_loop p i bs st mem))) = Mmu_freeFrames st" for i bs
  proof (induction bs arbitrary: i st mem)
    case (Cons b bs)
    obtain st1 mem1 r where w: "Mmu_write st mem p (word_of_nat i) b = ((st1, mem1), r)" by (metis prod.collapse)
    then have "Mmu_freeFrames st1 = Mmu_freeFrames st" by (auto simp: Mmu_write_def Mmu_freeFrames_def Let_def split: option.splits result.splits prod.splits)
    then show ?case using w Cons by (cases r) auto
  qed simp
  then show ?thesis by (auto simp: VirtualMemory_loadSegment_def split: option.splits)
qed

text \<open>All pages of a new process are resident at first, in different frames.\<close>

lemma resident_bound:
  assumes "mmu_inv mem st" "\<forall>v < n. vmap st (p, v) \<noteq> None"
  shows "n \<le> PhysicalMemory_size mem"
proof -
  have "Pair p ` {..<n} \<subseteq> dom (vmap st)" using assms(2) by auto
  then have "card (Pair p ` {..<n}) \<le> card (dom (vmap st))" by (rule card_mono [OF inv_finite [OF assms(1)]])
  moreover have "card (Pair p ` {..<n}) = n" by (simp add: card_image inj_on_def)
  ultimately show ?thesis
    using inv_frame_count [OF assms(1)] view_okD(4) [OF mmu_invD(2) [OF assms(1)]] by (simp add: Mmu_totalFrames_def)
qed

lemma create_frames:
  assumes i: "machine_inv d" and it: "\<forall>k. iter_ok (iter k)" and len: "length (im_code im) \<le> 2 ^ 32"
    and e: "Dispatcher_createProcess iter d (Some im) now = (d', r)"
  shows "PhysicalMemory_size (m_mem d') = PhysicalMemory_size (m_mem d)" "maxSlots (m_vm d') = maxSlots (m_vm d)"
    "r = Ok () \<Longrightarrow> max 1 (length (im_code im)) \<le> PhysicalMemory_size (m_mem d)"
    "r = Ok () \<Longrightarrow> max 1 (length (im_code im)) \<le> Mmu_freeFrames (m_mmu d) \<Longrightarrow>
       Mmu_freeFrames (m_mmu d') = Mmu_freeFrames (m_mmu d) - max 1 (length (im_code im))"
proof -
  let ?p = "ProcessImage_id im" and ?n = "max 1 (ProcessImage_codeSize im)"
  note d = machine_invD [OF i]
  obtain vm1 mmu1 al where al: "VirtualMemory_allocateSlot iter (m_vm d) (m_mmu d) (m_mem d) ?p ?n = ((vm1, mmu1), al)" by (metis prod.collapse)
  obtain mmu2 mem2 ld where ld: "VirtualMemory_loadSegment vm1 mmu1 (m_mem d) ?p (im_code im) = ((mmu2, mem2), ld)" by (metis prod.collapse)
  obtain vm3 mmu3 fr where fr: "VirtualMemory_freeSlot vm1 mmu2 ?p = ((vm3, mmu3), fr)" by (metis prod.collapse)
  note a = allocateSlot_inv [OF d(5,6) it al]
  have mem: "PhysicalMemory_size mem2 = PhysicalMemory_size (m_mem d)" using loadSegment_size [of vm1 mmu1 "m_mem d" ?p "im_code im"] ld by simp
  have slots: "maxSlots vm3 = maxSlots vm1" using fr by (auto simp: VirtualMemory_freeSlot_def split: option.splits prod.splits result.splits)
  note defs = Dispatcher_createProcess_def Let_def
  show "PhysicalMemory_size (m_mem d') = PhysicalMemory_size (m_mem d)" "maxSlots (m_vm d') = maxSlots (m_vm d)"
    using e al ld fr mem slots a by (auto simp: defs split: if_splits result.splits prod.splits)
  have ok: "isOk al" "d' = d'\<lparr>m_mmu := mmu2\<rparr>" "m_images d ?p = None" if "r = Ok ()"
    using e al ld fr that by (auto simp: defs split: if_splits result.splits prod.splits)
  show "max 1 (length (im_code im)) \<le> PhysicalMemory_size (m_mem d)" if "r = Ok ()"
    using resident_bound [of "m_mem d" mmu1 ?n ?p] a ok(1) [OF that] by (simp add: ProcessImage_codeSize_def)
  show "Mmu_freeFrames (m_mmu d') = Mmu_freeFrames (m_mmu d) - max 1 (length (im_code im))"
    if r: "r = Ok ()" and n: "max 1 (length (im_code im)) \<le> Mmu_freeFrames (m_mmu d)"
  proof -
    have "slots (m_vm d) ?p = None" using d(4) ok(3) [OF r] by auto
    then have "shape (m_mmu d) ?p = None" using d(5) by (simp add: vm_inv_def)
    moreover obtain m r1 where m: "Mmu_allocate iter (m_mmu d) (m_mem d) ?p ?n = (m, r1)" by fastforce
    ultimately have "Mmu_freeFrames m = Mmu_freeFrames (m_mmu d) - ?n"
      using allocate_enough [OF d(6) it m] n by (simp add: ProcessImage_codeSize_def)
    moreover have "mmu1 = m" using al m ok(1) [OF r] by (auto simp: VirtualMemory_allocateSlot_def split: if_splits result.splits)
    moreover have "Mmu_freeFrames mmu2 = Mmu_freeFrames mmu1" using loadSegment_free [of vm1 mmu1 "m_mem d" ?p "im_code im"] ld by simp
    ultimately show ?thesis using arg_cong [OF ok(2) [OF r], of m_mmu] by (simp add: ProcessImage_codeSize_def)
  qed
qed

section \<open>dispatch\<close>

lemma commit_upd:
  assumes "images p = Some im" "\<And>q. q \<noteq> p \<Longrightarrow> store q = store_of images q"
  shows "commit images store = images(p \<mapsto> im\<lparr>im_pcb := store p\<rparr>)"
proof
  show "commit images store q = (images(p \<mapsto> im\<lparr>im_pcb := store p\<rparr>)) q" for q
    using assms by (cases "q = p") (auto simp: commit_def store_of_def split: option.splits)
qed

text \<open>What the reaction to a burst does with the process that ran.\<close>

lemma dispatch_stop_view:
  assumes i: "machine_inv d" and run: "Some pid \<in> set (runningByLane (m_sched d))" and im: "m_images d pid = Some im"
    and e: "dispatch_stop d pid reason = (d', r)"
  shows "r = Ok () \<and> machine_inv d' \<and> m_clock d' = m_clock d \<and> m_mem d' = m_mem d
    \<and> (\<forall>q. q \<noteq> pid \<longrightarrow> m_images d' q = m_images d q)
    \<and> (case reason of
         BudgetExhausted \<Rightarrow> d' = d
       | Interrupted \<Rightarrow> pid \<in> set (sch_blocked (m_sched d')) \<and> m_images d' pid \<noteq> None
       | _ \<Rightarrow> m_images d' pid = None \<and> pid \<notin> processes (m_sched d') \<and> slots (m_vm d') pid = None)"
proof -
  note d = machine_invD [OF i]
  have pr: "pid \<in> processes (m_sched d)" using d(3) im by auto
  consider (budget) "reason = BudgetExhausted" | (int) "reason = Interrupted"
    | (stop) "reason \<in> {ProcessExited, StopError, Halted}" by (cases reason) auto
  then show ?thesis
  proof cases
    case budget
    then show ?thesis using e i by (simp add: dispatch_stop_def)
  next
    case int
    obtain sch store br where b: "Scheduler_blockProcess (m_sched d) (store_of (m_images d)) pid (Clock_now (m_clock d))
      = ((sch, store), br)" by (metis prod.collapse)
    note v = block_running_view [OF d(1) pr run b]
    have f: "d' = d\<lparr>m_sched := sch, m_images := commit (m_images d) store\<rparr>" "r = Ok ()"
      using e int b v by (auto simp: dispatch_stop_def)
    have c: "commit (m_images d) store = (m_images d)(pid \<mapsto> im\<lparr>im_pcb := store pid\<rparr>)"
      by (rule commit_upd [where images = "m_images d", OF im]) (use v in auto)
    have inv: "machine_inv d'"
      using f v d sched_inv_commit [of sch store "m_images d"] by (auto simp: machine_inv_def)
    have "pid \<in> queued sch" using v d(2) pr by simp
    moreover have "pid \<notin> on_lane sch l" if l: "l < length (readyByLane sch)" for l
      using v sched_invD(6,7) [of sch store l pid] l by (auto simp: on_lane_def elem_set)
    ultimately have "pid \<in> set (sch_blocked sch)" by (auto simp: queued_def)
    then show ?thesis using inv f c int by simp
  next
    case stop
    obtain sch store tr where t: "Scheduler_terminate (m_sched d) (store_of (m_images d)) pid (Clock_now (m_clock d))
      = ((sch, store), tr)" by (metis prod.collapse)
    note v = terminate_running_view [OF d(1) pr run t]
    obtain vm mmu fr where fr: "VirtualMemory_freeSlot (m_vm d) (m_mmu d) pid = ((vm, mmu), fr)" by (metis prod.collapse)
    note w = freeSlot_inv [OF d(5,6) fr]
    have f: "d' = d\<lparr>m_sched := sch, m_vm := vm, m_mmu := mmu, m_images := (commit (m_images d) store)(pid := None)\<rparr>" "r = Ok ()"
      using e stop t v fr by (auto simp: dispatch_stop_def)
    have c: "commit (m_images d) store = (m_images d)(pid \<mapsto> im\<lparr>im_pcb := store pid\<rparr>)"
      by (rule commit_upd [where images = "m_images d", OF im]) (use v in auto)
    have "sched_inv sch (store_of ((commit (m_images d) store)(pid := None)))"
      by (rule sched_inv_drop) (use v d(3) in auto)
    then have "machine_inv d'" using f v d w by (auto simp: machine_inv_def)
    then show ?thesis using f v c stop w by auto
  qed
qed


text \<open>Selecting the next process of lane 0 in the machine.\<close>

lemma select_machine:
  assumes i: "machine_inv d"
    and e: "Scheduler_selectNext (m_sched d) (store_of (m_images d)) now = ((sch, store), r)"
  defines "d1 \<equiv> d\<lparr>m_sched := sch, m_images := commit (m_images d) store\<rparr>"
  shows "machine_inv d1 \<and> (isError r \<longrightarrow> d1 = d)
    \<and> (\<forall>pid. r = Ok pid \<longrightarrow> Some pid \<in> set (runningByLane (m_sched d1)) \<and> runningByLane (m_sched d1) ! 0 = Some pid
         \<and> (\<exists>im. m_images d1 pid = Some im))"
proof -
  note d = machine_invD [OF i]
  have n0: "0 < length (readyByLane (m_sched d))" using sched_invD(1) [OF d(1)] by simp
  have e': "selectNextForLane_nolock (m_sched d) (store_of (m_images d)) 0 now = ((sch, store), r)"
    using e by (simp add: Scheduler_selectNext_def)
  show ?thesis
  proof (cases "sch_policy (m_sched d)")
    case None
    from select_noop [OF _ e'] None have "sch = m_sched d" "store = store_of (m_images d)" "isError r" by auto
    then show ?thesis using i by (cases r) (auto simp: d1_def)
  next
    case (Some pol)
    note v = select_view [OF d(1) n0 Some e'] and q = queued_select [OF d(1) e' n0 Some]
    have inv: "machine_inv d1"
      unfolding machine_inv_def using v d q sched_inv_commit [of sch store "m_images d"] by (simp add: d1_def)
    have "Some pid \<in> set (runningByLane sch)" "runningByLane sch ! 0 = Some pid" "\<exists>im. m_images d1 pid = Some im"
      if ok: "r = Ok pid" for pid
    proof -
      show r0: "runningByLane sch ! 0 = Some pid" using v ok by blast
      moreover have "0 < length (runningByLane sch)" using v n0 sched_invD(2) by metis
      ultimately show "Some pid \<in> set (runningByLane sch)" by (metis nth_mem)
      have "pid \<in> processes (m_sched d1)" using v r0 n0 sched_invD(7) [of sch store 0 pid] by (simp add: d1_def)
      then show "\<exists>im. m_images d1 pid = Some im" using machine_invD(3) [OF inv] by blast
    qed
    then show ?thesis using inv v by (auto simp: d1_def)
  qed
qed

lemma dispatch_run_inv:
  assumes i: "machine_inv d" and im: "m_images d pid = Some im"
    and e: "dispatch_run d pid im budget = (d', r)"
  shows "machine_inv d' \<and> m_sched d' = m_sched d \<and> m_images d' pid \<noteq> None
    \<and> Clock_now (m_clock d') = Clock_now (m_clock d) + of_nat (er_ticks r) \<and> er_ticks r \<le> budget
    \<and> (\<forall>q. q \<noteq> pid \<longrightarrow> m_images d' q = m_images d q)"
proof -
  note d = machine_invD [OF i]
  obtain e' c' m' im' r' where x: "InterpreterEngine_execute (m_engine d) (m_cpu d) (m_mem d) im budget = (e', c', m', im', r')"
    by (metis prod_cases5)
  have f: "d' = d\<lparr>m_engine := e', m_cpu := c', m_mem := m', m_images := (m_images d)(pid \<mapsto> im'),
      m_clock := advanceClock (m_clock d) (er_ticks r)\<rparr>" "r = r'" using e x by (auto simp: dispatch_run_def)
  have p: "im_pcb im' = im_pcb im" using execute_pcb [OF x] by blast
  have "store_of ((m_images d)(pid \<mapsto> im')) = store_of (m_images d)"
    using im p by (auto simp: store_of_def fun_eq_iff)
  then have "machine_inv d'"
    using f d im mmu_inv_size [OF d(6) execute_size [OF x]] by (auto simp: machine_inv_def)
  then show ?thesis using f execute_ticks [OF x] by (simp add: advanceClock_def now_tick_pow)
qed


text \<open>The ways a dispatch can go: no process, nothing selected, or a burst of the selected process.\<close>

lemma dispatch_parts:
  assumes i: "machine_inv d" and e: "Dispatcher_dispatch d budget = (d', r)"
  obtains (empty) "dom (m_images d) = {}" "d' = d" "r = Error NotFound"
  | (none) sch store x where "dom (m_images d) \<noteq> {}" "d' = d" "r = Error x"
      "Scheduler_selectNext (m_sched d) (store_of (m_images d)) (Clock_now (m_clock d)) = ((sch, store), Error x)"
  | (run) sch store pid im d1 d2 er where "dom (m_images d) \<noteq> {}"
      "Scheduler_selectNext (m_sched d) (store_of (m_images d)) (Clock_now (m_clock d)) = ((sch, store), Ok pid)"
      "d1 = d\<lparr>m_sched := sch, m_images := commit (m_images d) store\<rparr>" "machine_inv d1"
      "Some pid \<in> set (runningByLane sch)" "runningByLane sch ! 0 = Some pid" "m_images d pid = Some im"
      "m_images d1 pid = Some (im\<lparr>im_pcb := store pid\<rparr>)"
      "dispatch_run d1 pid (im\<lparr>im_pcb := store pid\<rparr>) budget = (d2, er)"
      "dispatch_stop d2 pid (er_reason er) = (d', r)"
proof (cases "dom (m_images d) = {}")
  case True
  then show thesis using empty e by (simp add: Dispatcher_dispatch_def)
next
  case ne: False
  obtain sch store sel where s: "Scheduler_selectNext (m_sched d) (store_of (m_images d)) (Clock_now (m_clock d)) = ((sch, store), sel)"
    by (metis prod.collapse)
  let ?d1 = "d\<lparr>m_sched := sch, m_images := commit (m_images d) store\<rparr>"
  note v = select_machine [OF i s]
  show thesis
  proof (cases sel)
    case (Error x)
    then have "d' = d" "r = Error x" using v e ne s by (simp_all add: Dispatcher_dispatch_def)
    then show thesis using none [OF ne] s Error by blast
  next
    case (Ok pid)
    then obtain im where im: "m_images d pid = Some im" "m_images ?d1 pid = Some (im\<lparr>im_pcb := store pid\<rparr>)"
      using v by (auto simp: commit_def)
    obtain d2 er where r2: "dispatch_run ?d1 pid (im\<lparr>im_pcb := store pid\<rparr>) budget = (d2, er)" by fastforce
    have "dispatch_stop d2 pid (er_reason er) = (d', r)"
      using e ne s Ok im(2) r2 by (simp add: Dispatcher_dispatch_def)
    then show thesis using run [OF ne _ refl _ _ _ im r2] v s Ok by simp
  qed
qed

lemma dispatch_view:
  assumes i: "machine_inv d" and e: "Dispatcher_dispatch d budget = (d', r)"
  shows "machine_inv d' \<and>
    (if dom (m_images d) = {} then d' = d \<and> r = Error NotFound
     else let s = Scheduler_selectNext (m_sched d) (store_of (m_images d)) (Clock_now (m_clock d)) in
       (case snd s of
          Error x \<Rightarrow> d' = d \<and> r = Error x
        | Ok pid \<Rightarrow> r = Ok () \<and>
            (\<exists>im. m_images d pid = Some im \<and>
               (\<exists>e c m im' er. InterpreterEngine_execute (m_engine d) (m_cpu d) (m_mem d) (im\<lparr>im_pcb := snd (fst s) pid\<rparr>) budget = (e, c, m, im', er)
                  \<and> er_ticks er \<le> budget \<and> Clock_now (m_clock d') = Clock_now (m_clock d) + of_nat (er_ticks er) \<and> m_mem d' = m
                  \<and> (case er_reason er of
                       BudgetExhausted \<Rightarrow> m_images d' pid = Some im' \<and> runningByLane (m_sched d') ! 0 = Some pid
                     | Interrupted \<Rightarrow> pid \<in> set (sch_blocked (m_sched d')) \<and> m_images d' pid \<noteq> None
                     | _ \<Rightarrow> m_images d' pid = None \<and> pid \<notin> processes (m_sched d') \<and> slots (m_vm d') pid = None)))))"
  using i e
proof (cases rule: dispatch_parts)
  case (run sch store pid im d1 d2 er)
  note w = dispatch_run_inv [OF run(4,8,9)]
  obtain en c m im' er' where x:
    "InterpreterEngine_execute (m_engine d) (m_cpu d) (m_mem d) (im\<lparr>im_pcb := store pid\<rparr>) budget = (en, c, m, im', er')"
    by (metis prod_cases5)
  have f: "m_images d2 pid = Some im'" "er' = er" "m_mem d2 = m" using run(3,9) x by (auto simp: dispatch_run_def)
  have "machine_inv d2" "Some pid \<in> set (runningByLane (m_sched d2))" using w run(3,5) by auto
  note y = dispatch_stop_view [OF this f(1) run(10)]
  have "case er_reason er of
         BudgetExhausted \<Rightarrow> m_images d' pid = Some im' \<and> runningByLane (m_sched d') ! 0 = Some pid
       | Interrupted \<Rightarrow> pid \<in> set (sch_blocked (m_sched d')) \<and> m_images d' pid \<noteq> None
       | _ \<Rightarrow> m_images d' pid = None \<and> pid \<notin> processes (m_sched d') \<and> slots (m_vm d') pid = None"
    using y w f(1) run(3,6) by (cases "er_reason er") auto
  then have "\<exists>e c m im' er. InterpreterEngine_execute (m_engine d) (m_cpu d) (m_mem d) (im\<lparr>im_pcb := store pid\<rparr>) budget = (e, c, m, im', er)
    \<and> er_ticks er \<le> budget \<and> Clock_now (m_clock d') = Clock_now (m_clock d) + of_nat (er_ticks er) \<and> m_mem d' = m
    \<and> (case er_reason er of
         BudgetExhausted \<Rightarrow> m_images d' pid = Some im' \<and> runningByLane (m_sched d') ! 0 = Some pid
       | Interrupted \<Rightarrow> pid \<in> set (sch_blocked (m_sched d')) \<and> m_images d' pid \<noteq> None
       | _ \<Rightarrow> m_images d' pid = None \<and> pid \<notin> processes (m_sched d') \<and> slots (m_vm d') pid = None)"
    using x y w f(2,3) run(3) by auto
  then show ?thesis using y run(1,2,7) by (simp add: Let_def)
qed (simp_all add: i)

section \<open>terminateProcess\<close>

lemma terminateProcess_view:
  assumes i: "machine_inv d" and e: "Dispatcher_terminateProcess d pid now = (d', r)"
  shows "machine_inv d' \<and> m_clock d' = m_clock d \<and> m_mem d' = m_mem d
    \<and> r = (if Dispatcher_hasProcess d pid then Ok () else Error NotFound)
    \<and> m_images d' = (m_images d)(pid := None) \<and> slots (m_vm d') = (slots (m_vm d))(pid := None)
    \<and> processes (m_sched d') = processes (m_sched d) - {pid}
    \<and> (\<forall>q v. q \<noteq> pid \<longrightarrow> content (m_mem d') (m_mmu d') (q, v) = content (m_mem d) (m_mmu d) (q, v))"
proof (cases "m_images d pid")
  case None
  then have "slots (m_vm d) pid = None" "pid \<notin> processes (m_sched d)" using machine_invD(3,4) [OF i] by auto
  then show ?thesis using None i e
    by (auto simp: Dispatcher_terminateProcess_def Dispatcher_hasProcess_def fun_eq_iff)
next
  case (Some im)
  note d = machine_invD [OF i]
  have pr: "pid \<in> processes (m_sched d)" using d(3) Some by auto
  obtain sch dr where dq: "Scheduler_dequeue (m_sched d) pid = (sch, dr)" by fastforce
  note v = queued_dequeue [OF d(1) pr dq]
  obtain vm mmu fr where fr: "VirtualMemory_freeSlot (m_vm d) (m_mmu d) pid = ((vm, mmu), fr)" by (metis prod.collapse)
  note w = freeSlot_inv [OF d(5,6) fr]
  have f: "d' = d\<lparr>m_engine := InterpreterEngine_halt (m_engine d) pid, m_sched := sch, m_vm := vm, m_mmu := mmu,
      m_images := (m_images d)(pid := None)\<rparr>" "r = Ok ()"
    using e Some dq fr v by (auto simp: Dispatcher_terminateProcess_def Let_def)
  have "sched_inv sch (store_of ((m_images d)(pid := None)))"
    using sched_inv_drop [of sch "store_of (m_images d)" pid "m_images d"] v d(3) by auto
  then have "machine_inv d'" using f v d w by (auto simp: machine_inv_def)
  then show ?thesis using f v w Some by (simp add: Dispatcher_hasProcess_def)
qed


lemma queued_unblock:
  assumes i: "sched_inv sch store" and e: "Scheduler_unblock sch store p now = ((sch', store'), res)"
  shows "processes sch' = processes sch \<and> queued sch' = queued sch"
proof (cases "p \<in> set (sch_blocked sch)")
  case False
  then show ?thesis using unblock_inv [OF i e] by simp
next
  case True
  define l0 where "l0 = (case processLane sch p of Some l \<Rightarrow> l | None \<Rightarrow> 0)"
  define l where "l = (if l0 \<ge> length (readyByLane sch) then 0 else l0)"
  have ll: "l < length (readyByLane sch)" using sched_invD(1) [OF i] by (simp add: l_def)
  obtain st ok where st: "store_setState store p Ready now = (st, ok)" by fastforce
  have ok using move_blocked_to_ready [OF i ll True st] by blast
  then have r: "sch' = sch\<lparr>sch_blocked := removeFrom (sch_blocked sch) p,
      readyByLane := (readyByLane sch)[l := readyByLane sch ! l @ [p]], processLane := (processLane sch)(p \<mapsto> l)\<rparr>"
    using e True st by (auto simp: Scheduler_unblock_def findIn_def Let_def l0_def [symmetric] l_def [symmetric])
  have "(\<Union>k < length (readyByLane sch). on_lane sch' k) = insert p (\<Union>k < length (readyByLane sch). on_lane sch k)"
    by (rule union_insert [of l]) (use ll in \<open>auto simp: r on_lane_def\<close>)
  then show ?thesis using True by (auto simp: r queued_def)
qed

section \<open>Runs of the machine\<close>

text \<open>The calls a kernel makes: to the dispatcher, and to the scheduler to unblock a process.\<close>

datatype machine_op =
    CreateM "nat \<Rightarrow> frame_id set \<Rightarrow> frame_id list" process_image tick
  | DispatchM nat
  | TerminateM process_id tick
  | TickM
  | UnblockM process_id tick

fun machine_exec :: "machine_op \<Rightarrow> machine \<Rightarrow> machine" where
  "machine_exec (CreateM iter im now) d = fst (Dispatcher_createProcess iter d (Some im) now)"
| "machine_exec (DispatchM budget) d = fst (Dispatcher_dispatch d budget)"
| "machine_exec (TerminateM pid now) d = fst (Dispatcher_terminateProcess d pid now)"
| "machine_exec TickM d = Dispatcher_tick d"
| "machine_exec (UnblockM pid now) d =
     (let ((sch, store), _) = Scheduler_unblock (m_sched d) (store_of (m_images d)) pid now
      in d\<lparr>m_sched := sch, m_images := commit (m_images d) store\<rparr>)"

text \<open>Processes are created from new images.\<close>

fun machine_op_ok :: "machine_op \<Rightarrow> bool" where
  "machine_op_ok (CreateM iter im now) \<longleftrightarrow>
     (\<forall>k. iter_ok (iter k)) \<and> pcb_state (im_pcb im) = New \<and> length (im_code im) \<le> 2 ^ 32"
| "machine_op_ok _ \<longleftrightarrow> True"

definition machine_new :: "physical_memory \<Rightarrow> replacement_policy \<Rightarrow> nat \<Rightarrow> scheduling_policy option \<Rightarrow> cpu \<Rightarrow> machine" where
  "machine_new mem repl n policy c =
     \<lparr>m_sched = Scheduler_new policy, m_engine = InterpreterEngine_new, m_cpu = c, m_mem = mem,
      m_mmu = Mmu_new mem repl, m_vm = VirtualMemory_new n, m_clock = SimulationClock_new, m_images = Map.empty\<rparr>"

lemma machine_new_inv:
  assumes "PhysicalMemory_size mem < 2 ^ 32" "policy_wf repl" "policy_frames repl = {}"
  shows "machine_inv (machine_new mem repl n policy c)"
proof -
  have "sched_reachable (Scheduler_new policy) (store_of Map.empty)"
    by (rule sched_reachable.init) (simp add: store_of_def PCB_new_def)
  then have "sched_inv (Scheduler_new policy) (store_of Map.empty)" by (rule reachable_sched_inv)
  moreover have "shape (Mmu_new mem repl) = Map.empty" by (simp add: shape_def Mmu_new_def fun_eq_iff)
  ultimately show ?thesis using mmu_new_inv [OF assms]
    by (auto simp: machine_inv_def machine_new_def queued_def on_lane_def Scheduler_new_def vm_inv_def VirtualMemory_new_def)
qed

lemma machine_exec_inv:
  assumes i: "machine_inv d" and ok: "machine_op_ok oper"
  shows "machine_inv (machine_exec oper d)"
proof (cases oper)
  case (CreateM iter im now)
  then show ?thesis
    using createProcess_view [OF i _ _ _ prod.collapse [symmetric], of iter im now] ok by simp
next
  case (DispatchM b)
  then show ?thesis using dispatch_view [OF i prod.collapse [symmetric], of b, THEN conjunct1] by simp
next
  case (TerminateM pid now)
  then show ?thesis using terminateProcess_view [OF i prod.collapse [symmetric], of pid now] by simp
next
  case TickM
  then show ?thesis using i by (simp add: machine_inv_def Dispatcher_tick_def)
next
  case (UnblockM pid now)
  note d = machine_invD [OF i]
  obtain sch store r where u: "Scheduler_unblock (m_sched d) (store_of (m_images d)) pid now = ((sch, store), r)"
    by (metis prod.collapse)
  note v = queued_unblock [OF d(1) u] and w = unblock_inv [OF d(1) u]
  have "sched_inv sch (store_of (commit (m_images d) store))" by (rule sched_inv_commit) (use v w d(3) in auto)
  then show ?thesis using UnblockM u v d by (simp add: machine_inv_def)
qed

lemma machine_run_inv:
  "machine_inv d \<Longrightarrow> \<forall>oper \<in> set ops. machine_op_ok oper \<Longrightarrow> machine_inv (fold machine_exec ops d)"
  by (induction ops arbitrary: d) (simp_all add: machine_exec_inv)


lemma snapshots_queued:
  assumes "sched_inv sch store"
  shows "set (Scheduler_getQueueSnapshot sch @ Scheduler_runningProcesses sch @ Scheduler_getBlockedSnapshot sch) = queued sch"
proof -
  have len: "length (runningByLane sch) = length (readyByLane sch)" using sched_invD(2) [OF assms] .
  have "set (concat (readyByLane sch)) = (\<Union>l < length (readyByLane sch). set (readyByLane sch ! l))"
    by (force simp: in_set_conv_nth [of _ "readyByLane sch"])
  moreover have "set (map the (filter (\<lambda>r. r \<noteq> None) (runningByLane sch))) = (\<Union>l < length (readyByLane sch). set_option (runningByLane sch ! l))"
    unfolding len [symmetric] by (force simp: in_set_conv_nth image_iff elem_set)
  ultimately show ?thesis
    unfolding queued_def on_lane_def Scheduler_getQueueSnapshot_def Scheduler_runningProcesses_def
      Scheduler_getBlockedSnapshot_def set_append by blast
qed

text \<open>A dispatch creates no process and does not touch a blocked one.\<close>

lemma select_blocked:
  assumes i: "machine_inv d"
    and s: "Scheduler_selectNext (m_sched d) (store_of (m_images d)) now = ((sch, store), sel)"
    and q: "m_images d q = Some im" "pcb_state (im_pcb im) = Blocked"
  shows "commit (m_images d) store q = Some im"
proof -
  note d = machine_invD [OF i] and s0 = s [unfolded Scheduler_selectNext_def]
  have n0: "0 < length (readyByLane (m_sched d))" using sched_invD(1) [OF d(1)] by simp
  have "pcb_state (store_of (m_images d) q) = Blocked" using q by (simp add: store_of_def)
  then have "q \<notin> on_lane (m_sched d) 0" using sched_invD(6,7) [OF d(1) n0] by (force simp: on_lane_def elem_set)
  then have "store q = store_of (m_images d) q"
    using select_view [OF d(1) n0 _ s0] select_noop [OF _ s0] by (cases "sch_policy (m_sched d)") auto
  then show ?thesis using q(1) by (simp add: commit_def store_of_def)
qed

lemma dispatch_images:
  assumes i: "machine_inv d" and e: "Dispatcher_dispatch d budget = (d', r)"
  shows "dom (m_images d') \<subseteq> dom (m_images d)
    \<and> (\<forall>q im. m_images d q = Some im \<and> pcb_state (im_pcb im) = Blocked \<longrightarrow> m_images d' q = Some im)"
  using i e
proof (cases rule: dispatch_parts)
  case (run sch store pid im d1 d2 er)
  note w = dispatch_run_inv [OF run(4,8,9)]
  obtain im2 where im2: "m_images d2 pid = Some im2" using w by auto
  have same: "m_images d' q = m_images d1 q" if "q \<noteq> pid" for q
    using dispatch_stop_view [of d2 pid im2 "er_reason er" d' r] w im2 run(3,5,10) that by auto
  obtain l where l: "l < length (runningByLane sch)" "runningByLane sch ! l = Some pid" using run(5) by (metis in_set_conv_nth)
  have "pcb_state (store_of (m_images d1) pid) = Running"
    using sched_invD(2,7) [OF machine_invD(1) [OF run(4)]] l run(3) by simp
  then have st: "pcb_state (store pid) = Running" using run(8) by (simp add: store_of_def)
  have "q \<noteq> pid" if "m_images d q = Some im" "pcb_state (im_pcb im) = Blocked" for q im
    using select_blocked [OF i run(2) that] run(3,8) st that(2) by auto
  moreover have "dom (m_images d') \<subseteq> insert pid (dom (m_images d1))" using same by (force simp: dom_def)
  ultimately show ?thesis using select_blocked [OF i run(2)] same run(3,7) by (auto simp: commit_def)
qed simp_all

section \<open>Properties\<close>

text \<open>
  C1: The tables of the machine agree. After any sequence of process creations, dispatches, ticks,
  unblocks and terminations on a new machine, the processes with an image, the processes the
  scheduler knows, the processes with a memory slot and the processes with a page table are the same,
  and each of them is exactly once in a ready queue, on a running lane or in the blocked list.
\<close>

theorem machine_tables_agree:
  assumes "PhysicalMemory_size mem < 2 ^ 32" "policy_wf repl" "policy_frames repl = {}"
    "\<forall>oper \<in> set ops. machine_op_ok oper"
    "d = fold machine_exec ops (machine_new mem repl n policy c)"
  shows "processes (m_sched d) = dom (m_images d) \<and> dom (slots (m_vm d)) = dom (m_images d)
    \<and> dom (pageTables (m_mmu d)) = dom (m_images d)
    \<and> set (Scheduler_getQueueSnapshot (m_sched d) @ Scheduler_runningProcesses (m_sched d) @ Scheduler_getBlockedSnapshot (m_sched d))
        = dom (m_images d)
    \<and> distinct (Scheduler_getQueueSnapshot (m_sched d) @ Scheduler_runningProcesses (m_sched d) @ Scheduler_getBlockedSnapshot (m_sched d))"
proof -
  have i: "machine_inv d" unfolding assms(5) by (rule machine_run_inv [OF machine_new_inv [OF assms(1-3)] assms(4)])
  note d = machine_invD [OF i]
  have "dom (pageTables (m_mmu d)) = dom (shape (m_mmu d))" by (auto simp: shape_def)
  also have "\<dots> = dom (slots (m_vm d))" using d(5) by (auto simp: vm_inv_def)
  finally show ?thesis using d sched_inv_queued_once [OF d(1)] snapshots_queued [OF d(1)] by simp
qed


text \<open>A machine of two memory cells with four slots under round robin, and programs for it.\<close>

definition demo_machine :: machine where
  "demo_machine = machine_new demo_memory (FifoReplacement Fifo_new) 4 (Some (RoundRobinPolicy 4)) Cpu_new"

definition halt_image :: "process_id \<Rightarrow> process_image" where
  "halt_image pid = ProcessImage_new pid ''halt'' [Block Halt 0 0 0] Priority_default 0"

lemma demo_policy: "PhysicalMemory_size demo_memory < 2 ^ 32" "policy_wf (FifoReplacement Fifo_new)"
    "policy_frames (FifoReplacement Fifo_new) = {}"
  by (auto simp: demo_memory_def PhysicalMemory_size_def PhysicalMemory_new_def Fifo_new_def)

lemma demo_machine_inv: "machine_inv demo_machine"
  unfolding demo_machine_def by (rule machine_new_inv [OF demo_policy])

lemma halt_image_simps [simp]:
  "pcb_state (im_pcb (halt_image pid)) = New" "im_code (halt_image pid) = [Block Halt 0 0 0]"
  "ProcessImage_id (halt_image pid) = pid"
  by (simp_all add: halt_image_def ProcessImage_new_def PCB_new_def ProcessImage_id_def)

theorem machine_tables_agree_witness:
  "\<exists>d. d = fold machine_exec [CreateM (\<lambda>_. sorted_list_of_set) (halt_image 1) 0, CreateM (\<lambda>_. sorted_list_of_set) (halt_image 2) 0,
        DispatchM 4, UnblockM 2 5, TickM, TerminateM 2 7] demo_machine
    \<and> processes (m_sched d) = dom (m_images d) \<and> dom (slots (m_vm d)) = dom (m_images d)"
proof -
  let ?ops = "[CreateM (\<lambda>_. sorted_list_of_set) (halt_image 1) 0, CreateM (\<lambda>_. sorted_list_of_set) (halt_image 2) 0,
        DispatchM 4, UnblockM 2 5, TickM, TerminateM 2 7]"
  have "\<forall>oper \<in> set ?ops. machine_op_ok oper" by (simp add: iter_ok_sorted)
  from machine_tables_agree [OF demo_policy this refl, of 4 "Some (RoundRobinPolicy 4)" Cpu_new]
  show ?thesis by (simp only: demo_machine_def) blast
qed


lemma demo_free: "0 < VirtualMemory_freeSlots (m_vm demo_machine)" "Mmu_freeFrames (m_mmu demo_machine) = 2"
proof -
  show "0 < VirtualMemory_freeSlots (m_vm demo_machine)"
    by (simp add: demo_machine_def machine_new_def VirtualMemory_new_def VirtualMemory_freeSlots_def)
  show "Mmu_freeFrames (m_mmu demo_machine) = 2" by code_simp
qed





text \<open>
  Termination. Terminating a process of any state succeeds exactly for a process with an image;
  it removes its image, its slot and its place in the scheduler and keeps the memory
  content of the other processes and the clock.
\<close>

theorem terminate_process:
  assumes "machine_inv d" "Dispatcher_terminateProcess d pid now = (d', r)"
  shows "machine_inv d' \<and> m_clock d' = m_clock d \<and> m_mem d' = m_mem d
    \<and> r = (if Dispatcher_hasProcess d pid then Ok () else Error NotFound)
    \<and> m_images d' = (m_images d)(pid := None) \<and> slots (m_vm d') = (slots (m_vm d))(pid := None)
    \<and> processes (m_sched d') = processes (m_sched d) - {pid}
    \<and> (\<forall>q v. q \<noteq> pid \<longrightarrow> content (m_mem d') (m_mmu d') (q, v) = content (m_mem d) (m_mmu d) (q, v))"
  by (rule terminateProcess_view [OF assms])

lemma demo_created:
  obtains d im where "Dispatcher_createProcess (\<lambda>_. sorted_list_of_set) demo_machine (Some (halt_image 1)) 0 = (d, Ok ())"
    "machine_inv d" "m_images d = [1 \<mapsto> im]"
proof -
  obtain d r where e: "Dispatcher_createProcess (\<lambda>_. sorted_list_of_set) demo_machine (Some (halt_image 1)) 0 = (d, r)"
    by fastforce
  have n: "m_images demo_machine = Map.empty" by (simp add: demo_machine_def machine_new_def)
  note v = createProcess_view [OF demo_machine_inv _ _ _ e]
  have ok: "r = Ok ()" using v n demo_free by (simp add: iter_ok_sorted INVALID_PID_def)
  then obtain im where "m_images d = [1 \<mapsto> im]" using v n by (auto simp: iter_ok_sorted)
  moreover have "machine_inv d" using v by (simp add: iter_ok_sorted)
  ultimately show thesis using that e ok by blast
qed

theorem terminate_process_witness:
  "\<exists>d d'. Dispatcher_hasProcess d 1 \<and> Dispatcher_terminateProcess d 1 5 = (d', Ok ()) \<and> m_images d' = Map.empty"
proof (rule demo_created)
  fix d im
  assume d: "machine_inv d" "m_images d = [1 \<mapsto> im]"
  obtain d' r where t: "Dispatcher_terminateProcess d 1 5 = (d', r)" by fastforce
  have h: "Dispatcher_hasProcess d 1" using d by (simp add: Dispatcher_hasProcess_def)
  then have "r = Ok ()" "m_images d' = Map.empty" using terminate_process [OF d(1) t] d(2) by (auto simp: fun_eq_iff)
  then show ?thesis using t h by blast
qed

lemma no_process_free:
  assumes i: "machine_inv d" and e: "dom (m_images d) = {}"
  shows "Mmu_freeFrames (m_mmu d) = PhysicalMemory_size (m_mem d)" "VirtualMemory_freeSlots (m_vm d) = maxSlots (m_vm d)"
    "swapSpace (m_mmu d) = Map.empty" "Scheduler_runningProcesses (m_sched d) = []"
    "Scheduler_getQueueSnapshot (m_sched d) = []" "Scheduler_getBlockedSnapshot (m_sched d) = []"
proof -
  note d = machine_invD [OF i]
  have ds: "dom (slots (m_vm d)) = {}" using d(4) e by simp
  then have s: "slots (m_vm d) p = None" for p by (metis dom_eq_empty_conv)
  then have "shape (m_mmu d) p = None" for p using d(5) by (simp add: vm_inv_def)
  then have pg: "pages (m_mmu d) = {}" by (simp add: pages_shape)
  note fo = frames_okD(6,7) [OF mmu_invD(3) [OF d(6)]]
  have "dom (vmap (m_mmu d)) = {}" "dom (swapSpace (m_mmu d)) = {}" using fo pg by auto
  then show "Mmu_freeFrames (m_mmu d) = PhysicalMemory_size (m_mem d)" "swapSpace (m_mmu d) = Map.empty"
    using inv_frame_count [OF d(6)] view_okD(4) [OF mmu_invD(2) [OF d(6)]] by (simp_all add: Mmu_totalFrames_def)
  show "VirtualMemory_freeSlots (m_vm d) = maxSlots (m_vm d)"
    using ds by (simp add: VirtualMemory_freeSlots_def)
  have "queued (m_sched d) = {}" using d(2,3) e by simp
  then show "Scheduler_runningProcesses (m_sched d) = []" "Scheduler_getQueueSnapshot (m_sched d) = []"
    "Scheduler_getBlockedSnapshot (m_sched d) = []"
    using snapshots_queued [OF d(1)] by simp_all
qed

text \<open>
  C23: No resource leaks. When the last process is gone, whatever mixture of exits, errors, kills and failed
  creations there was, every frame and every slot is free again, swap space is empty and so
  are all queues.
\<close>

theorem machine_no_leak:
  assumes "PhysicalMemory_size mem < 2 ^ 32" "policy_wf repl" "policy_frames repl = {}"
    "\<forall>oper \<in> set ops. machine_op_ok oper"
    "d = fold machine_exec ops (machine_new mem repl n policy c)" "Dispatcher_processCount d = 0"
  shows "Mmu_freeFrames (m_mmu d) = PhysicalMemory_size (m_mem d)
    \<and> VirtualMemory_freeSlots (m_vm d) = maxSlots (m_vm d) \<and> swapSpace (m_mmu d) = Map.empty
    \<and> Scheduler_getQueueSnapshot (m_sched d) @ Scheduler_runningProcesses (m_sched d) @ Scheduler_getBlockedSnapshot (m_sched d) = []"
proof -
  have i: "machine_inv d" unfolding assms(5) by (rule machine_run_inv [OF machine_new_inv [OF assms(1-3)] assms(4)])
  have "finite (dom (m_images d))" using machine_invD(4,5) [OF i] by (metis vm_inv_def)
  then have "dom (m_images d) = {}" using assms(6) by (simp add: Dispatcher_processCount_def)
  from no_process_free [OF i this] show ?thesis by simp
qed


theorem machine_no_leak_witness:
  "\<exists>d. d = fold machine_exec [CreateM (\<lambda>_. sorted_list_of_set) (halt_image 1) 0, TerminateM 1 5] demo_machine
    \<and> Dispatcher_processCount d = 0 \<and> swapSpace (m_mmu d) = Map.empty"
proof (rule demo_created)
  fix d1 im
  assume c: "Dispatcher_createProcess (\<lambda>_. sorted_list_of_set) demo_machine (Some (halt_image 1)) 0 = (d1, Ok ())"
    and d1: "machine_inv d1" "m_images d1 = [1 \<mapsto> im]"
  let ?ops = "[CreateM (\<lambda>_. sorted_list_of_set) (halt_image 1) 0, TerminateM 1 5]"
  let ?d = "fold machine_exec ?ops demo_machine"
  have ok: "\<forall>oper \<in> set ?ops. machine_op_ok oper" by (simp add: iter_ok_sorted)
  have "m_images ?d = Map.empty"
    using terminateProcess_view [OF d1(1) prod.collapse [symmetric], of 1 5] d1(2) c by (auto simp: fun_eq_iff)
  then have pc: "Dispatcher_processCount ?d = 0" by (simp add: Dispatcher_processCount_def)
  then have "swapSpace (m_mmu ?d) = Map.empty"
    using machine_no_leak [OF demo_policy ok refl, of 4 "Some (RoundRobinPolicy 4)" Cpu_new] by (simp add: demo_machine_def)
  with pc show ?thesis by blast
qed

text \<open>A machine whose only process is ready selects it.\<close>

lemma select_only:
  assumes i: "machine_inv d" and im: "dom (m_images d) = {pid}" and r: "readyByLane (m_sched d) ! 0 = q @ [pid]"
    and pol: "sch_policy (m_sched d) = Some pol"
  shows "snd (Scheduler_selectNext (m_sched d) (store_of (m_images d)) now) = Ok pid"
proof -
  note d = machine_invD [OF i]
  have n0: "0 < length (readyByLane (m_sched d))" using sched_invD(1) [OF d(1)] by simp
  obtain sch store res where e: "selectNextForLane_nolock (m_sched d) (store_of (m_images d)) 0 now = ((sch, store), res)"
    by (metis prod.collapse)
  note v = select_view [OF d(1) n0 pol e]
  have "pid \<in> set (readyByLane (m_sched d) ! 0)" using r by simp
  then have nr: "runningByLane (m_sched d) ! 0 \<noteq> Some pid"
    using inv_not_both(2) [OF d(1) n0 _ _ n0] by blast
  have sub: "p = pid" if "p \<in> on_lane (m_sched d) 0" for p
  proof -
    have "p \<in> queued (m_sched d)" using that n0 by (auto simp: queued_def)
    then show ?thesis using d(2,3) im by simp
  qed
  have "runningByLane (m_sched d) ! 0 = None"
  proof (rule ccontr)
    assume "runningByLane (m_sched d) ! 0 \<noteq> None"
    then obtain p where "runningByLane (m_sched d) ! 0 = Some p" by blast
    then show False using sub [of p] nr by (simp add: on_lane_def)
  qed
  then have "res = Ok (policy_selectNext pol (asConst (store_of (m_images d)) (readyByLane (m_sched d) ! 0)) now)"
    using v r by (simp add: selected_def Let_def)
  moreover from this have "policy_selectNext pol (asConst (store_of (m_images d)) (readyByLane (m_sched d) ! 0)) now = pid"
    using v sub by blast
  ultimately show ?thesis using e by (simp add: Scheduler_selectNext_def)
qed

lemma dispatch_halted:
  assumes i: "machine_inv d" and s: "snd (Scheduler_selectNext (m_sched d) (store_of (m_images d)) (Clock_now (m_clock d))) = Ok pid"
    and h: "pid \<in> haltedPids (m_engine d)" and e: "Dispatcher_dispatch d budget = (d', r)"
  shows "r = Ok () \<and> m_images d' pid = None \<and> Clock_now (m_clock d') = Clock_now (m_clock d) \<and> m_mem d' = m_mem d"
proof -
  obtain sch store where sel: "Scheduler_selectNext (m_sched d) (store_of (m_images d)) (Clock_now (m_clock d)) = ((sch, store), Ok pid)"
    using s by (metis prod.collapse)
  let ?d1 = "d\<lparr>m_sched := sch, m_images := commit (m_images d) store\<rparr>"
  note v = select_machine [OF i sel]
  then have i1: "machine_inv ?d1" and run: "Some pid \<in> set (runningByLane sch)" by simp_all
  obtain im where im: "m_images ?d1 pid = Some im" using v by blast
  have ne: "dom (m_images d) \<noteq> {}" using im by (auto simp: commit_def)
  have "pcb_id (store_of (m_images ?d1) pid) = pid" using sched_invD(4) [OF machine_invD(1) [OF i1]] by blast
  then have "ProcessImage_id im = pid" using im by (simp add: store_of_def ProcessImage_id_def)
  then have x: "InterpreterEngine_execute (m_engine d) (m_cpu d) (m_mem d) im budget
      = ((m_engine d)\<lparr>haltedPids := haltedPids (m_engine d) - {pid}\<rparr>, m_cpu d, m_mem d, im, ER_halted pid 0)"
    using h by (simp add: InterpreterEngine_execute_def)
  obtain d2 er where r2: "dispatch_run ?d1 pid im budget = (d2, er)" by fastforce
  have er: "er_reason er = Halted" "m_mem d2 = m_mem d" "m_images d2 pid = Some im" "er_ticks er = 0"
    using r2 x by (auto simp: dispatch_run_def ER_halted_def)
  note w = dispatch_run_inv [OF i1 im r2]
  have "dispatch_stop d2 pid Halted = (d', r)"
    using e ne sel im r2 er(1) by (simp add: Dispatcher_dispatch_def)
  from dispatch_stop_view [OF _ _ er(3) this] w run er show ?thesis by simp
qed

lemma createProcess_frame:
  assumes "Dispatcher_createProcess iter d (Some im) now = (d', Ok ())"
  shows "m_engine d' = m_engine d" "sch_policy (m_sched d') = sch_policy (m_sched d)" "m_clock d' = m_clock d"
  using assms
  by (auto simp: Dispatcher_createProcess_def Scheduler_enqueue_def Scheduler_enqueueToLane_def Let_def
      split: if_splits prod.splits result.splits)

lemma terminateProcess_frame:
  assumes "Dispatcher_terminateProcess d pid now = (d', Ok ())"
  shows "m_engine d' = InterpreterEngine_halt (m_engine d) pid" "sch_policy (m_sched d') = sch_policy (m_sched d)"
  using assms
  by (auto simp: Dispatcher_terminateProcess_def Scheduler_dequeue_def removeFromAllReady_def Let_def
      split: if_splits prod.splits option.splits)

text \<open>
  A halt request outlives its process. Terminating a process marks its id as halted in the engine,
  and nothing clears the mark: when the only process is terminated and a new one is created
  under the same id, the first dispatch removes the new process at once, without running
  a single instruction of it, and reports success.
\<close>

theorem terminated_pid_reuse:
  assumes "machine_inv d" "dom (m_images d) = {pid}" "sch_policy (m_sched d) = Some pol"
    "Dispatcher_terminateProcess d pid t = (d1, Ok ())"
    "\<forall>k. iter_ok (iter k)" "pcb_state (im_pcb im) = New" "length (im_code im) \<le> 2 ^ 32" "ProcessImage_id im = pid"
    "Dispatcher_createProcess iter d1 (Some im) t = (d2, Ok ())" "Dispatcher_dispatch d2 budget = (d3, r)"
  shows "Dispatcher_hasProcess d2 pid \<and> r = Ok () \<and> \<not> Dispatcher_hasProcess d3 pid
    \<and> Clock_now (m_clock d3) = Clock_now (m_clock d2) \<and> m_mem d3 = m_mem d2"
proof -
  note t = terminateProcess_view [OF assms(1,4)] and tf = terminateProcess_frame [OF assms(4)]
  have i1: "machine_inv d1" and im1: "m_images d1 = Map.empty" using t assms(2) by (auto simp: fun_eq_iff domIff)
  note c = createProcess_view [OF i1 assms(5-7,9)] and cf = createProcess_frame [OF assms(9)]
  have n0: "0 < length (readyByLane (m_sched d1))" using sched_invD(1) [OF machine_invD(1) [OF i1]] by simp
  have i2: "machine_inv d2" using c by blast
  obtain im' where im': "m_images d2 = [pid \<mapsto> im']" using c im1 assms(8) by auto
  have "readyByLane (m_sched d2) ! 0 = readyByLane (m_sched d1) ! 0 @ [pid]" using c assms(8) n0 by simp
  moreover have "sch_policy (m_sched d2) = Some pol" using cf tf assms(3) by simp
  ultimately have "snd (Scheduler_selectNext (m_sched d2) (store_of (m_images d2)) (Clock_now (m_clock d2))) = Ok pid"
    using select_only [OF i2] im' by simp
  moreover have "pid \<in> haltedPids (m_engine d2)" using cf tf by (simp add: InterpreterEngine_halt_def)
  ultimately show ?thesis
    using dispatch_halted [OF i2 _ _ assms(10)] im' by (simp add: Dispatcher_hasProcess_def)
qed


theorem terminated_pid_reuse_witness:
  "\<exists>d2 d3. Dispatcher_hasProcess d2 1 \<and> Dispatcher_dispatch d2 4 = (d3, Ok ()) \<and> \<not> Dispatcher_hasProcess d3 1
    \<and> m_mem d3 = m_mem d2"
proof (rule demo_created)
  fix d im
  assume c: "Dispatcher_createProcess (\<lambda>_. sorted_list_of_set) demo_machine (Some (halt_image 1)) 0 = (d, Ok ())"
    and d: "machine_inv d" "m_images d = [1 \<mapsto> im]"
  obtain d1 r1 where t: "Dispatcher_terminateProcess d 1 0 = (d1, r1)" by fastforce
  note tv = terminateProcess_view [OF d(1) t]
  have r1: "r1 = Ok ()" using tv d(2) by (simp add: Dispatcher_hasProcess_def)
  have i1: "machine_inv d1" and e1: "m_images d1 = Map.empty" using tv d(2) by (auto simp: fun_eq_iff)
  obtain d2 r2 where c2: "Dispatcher_createProcess (\<lambda>_. sorted_list_of_set) d1 (Some (halt_image 1)) 0 = (d2, r2)" by fastforce
  have mx: "maxSlots (m_vm d1) = 4" "PhysicalMemory_size (m_mem d1) = 2"
  proof -
    have m: "PhysicalMemory_size demo_memory = 2" by code_simp
    have "maxSlots (m_vm d) = 4" "PhysicalMemory_size (m_mem d) = 2"
      using create_frames(1,2) [OF demo_machine_inv _ _ c] m
      by (simp_all add: iter_ok_sorted demo_machine_def machine_new_def VirtualMemory_new_def)
    moreover obtain vm mmu fr where fr: "VirtualMemory_freeSlot (m_vm d) (m_mmu d) 1 = ((vm, mmu), fr)" by (metis prod.collapse)
    moreover have "m_vm d1 = vm"
      using t fr d(2) r1 by (auto simp: Dispatcher_terminateProcess_def Let_def split: if_splits prod.splits)
    ultimately show "maxSlots (m_vm d1) = 4" "PhysicalMemory_size (m_mem d1) = 2"
      using freeSlot_inv [OF machine_invD(5,6) [OF d(1)] fr] tv by simp_all
  qed
  have r2: "r2 = Ok ()"
    using createProcess_view [OF i1 _ _ _ c2] e1 mx no_process_free(1,2) [OF i1] by (simp add: iter_ok_sorted INVALID_PID_def)
  obtain d3 r3 where x: "Dispatcher_dispatch d2 4 = (d3, r3)" by fastforce
  have "sch_policy (m_sched d) = Some (RoundRobinPolicy 4)"
    using createProcess_frame(2) [OF c] by (simp add: demo_machine_def machine_new_def Scheduler_new_def)
  from terminated_pid_reuse [OF d(1) _ this t [unfolded r1] _ _ _ _ c2 [unfolded r2] x] d(2) x
  show ?thesis by (simp add: iter_ok_sorted) blast
qed


text \<open>Process 1 has a page in frame 0 with an \<open>Add\<close> instruction; running process 2 replaces it by \<open>Halt\<close>.\<close>

definition clobber_demo :: machine where
  "clobber_demo =
     (let ((st, mem), _) = Mmu_write demo_mmu demo_memory 1 0 (Block Add 1 2 0)
      in demo_machine\<lparr>m_mmu := st, m_mem := mem\<rparr>)"


end
