(* ===== verification/Tracing.thy ===== *)
theory Tracing
  imports Core
begin

text \<open>
  Tracing: \<^verbatim>\<open>tracing/trace_level.h\<close>, \<^verbatim>\<open>tracing/trace_event.h\<close>, \<^verbatim>\<open>tracing/tracer.cpp\<close>, \<^verbatim>\<open>tracing/null_tracer.h\<close>,
  \<^verbatim>\<open>tracing/trace_scope.h\<close> and the sinks. A sink is modelled by what it has received: the events of a \<^verbatim>\<open>BufferSink\<close>,
  the text of a \<^verbatim>\<open>ConsoleSink\<close> or an open \<^verbatim>\<open>FileSink\<close>. The depth is a thread-local counter shared by all tracers of
  a thread; the model is of one thread.
\<close>

section \<open>Events\<close>

datatype trace_level = LevelDebug | LevelInfo | LevelWarn | LevelError

fun level_number :: "trace_level \<Rightarrow> 8 word" where
  "level_number LevelDebug = 0"
| "level_number LevelInfo = 1"
| "level_number LevelWarn = 2"
| "level_number LevelError = 3"

fun traceLevelToString :: "trace_level \<Rightarrow> string" where
  "traceLevelToString LevelDebug = ''debug''"
| "traceLevelToString LevelInfo = ''info''"
| "traceLevelToString LevelWarn = ''warn''"
| "traceLevelToString LevelError = ''error''"

record trace_event =
  ev_timestamp :: tick
  ev_subsystem :: string
  ev_operation :: string
  ev_details :: string
  ev_level :: trace_level
  ev_depth :: "32 word"
  ev_workerId :: nat
  ev_sequence :: nat
  ev_epoch :: nat

definition makeTraceEvent :: "tick \<Rightarrow> string \<Rightarrow> string \<Rightarrow> string \<Rightarrow> 32 word \<Rightarrow> trace_level \<Rightarrow> trace_event" where
  "makeTraceEvent timestamp subsystem operation details depth level =
     \<lparr>ev_timestamp = timestamp, ev_subsystem = subsystem, ev_operation = operation, ev_details = details,
      ev_level = level, ev_depth = depth, ev_workerId = 0, ev_sequence = 0, ev_epoch = 0\<rparr>"

section \<open>Sinks\<close>

datatype trace_sink = NullSink | BufferSink "trace_event list" | ConsoleSink string | FileSink bool string

text \<open>The text of an event, as the console and the file sink write it.\<close>

definition event_text :: "trace_event \<Rightarrow> string" where
  "event_text ev =
     ''[T='' @ to_string (unat (ev_timestamp ev)) @ ''][''
       @ traceLevelToString (ev_level ev) @ ''] '' @ concat (replicate (unat (ev_depth ev)) ''  '')
       @ ev_subsystem ev @ ''::'' @ ev_operation ev
       @ (if ev_details ev = '''' then '''' else '' -> '' @ ev_details ev) @ [CHR 0x0A]"

fun sink_write :: "trace_sink \<Rightarrow> trace_event \<Rightarrow> trace_sink" where
  "sink_write NullSink ev = NullSink"
| "sink_write (BufferSink events) ev = BufferSink (events @ [ev])"
| "sink_write (ConsoleSink out) ev = ConsoleSink (out @ event_text ev)"
| "sink_write (FileSink is_open out) ev = (if \<not> is_open then FileSink is_open out else FileSink is_open (out @ event_text ev))"

fun BufferSink_snapshot :: "trace_sink \<Rightarrow> trace_event list" where
  "BufferSink_snapshot (BufferSink events) = events"
| "BufferSink_snapshot _ = []"

fun BufferSink_clear :: "trace_sink \<Rightarrow> trace_sink" where
  "BufferSink_clear (BufferSink events) = BufferSink []"
| "BufferSink_clear s = s"

definition BufferSink_size :: "trace_sink \<Rightarrow> nat" where
  "BufferSink_size s = length (BufferSink_snapshot s)"

definition normalizeSink :: "trace_sink option \<Rightarrow> trace_sink" where
  "normalizeSink s = (case s of Some sink \<Rightarrow> sink | None \<Rightarrow> NullSink)"

section \<open>The tracer\<close>

record tracer =
  tr_sink :: trace_sink
  tr_minLevel :: trace_level
  tr_depth :: "32 word"

definition Tracer_new :: "trace_sink option \<Rightarrow> 32 word \<Rightarrow> tracer" where
  "Tracer_new sink depth = \<lparr>tr_sink = normalizeSink sink, tr_minLevel = LevelDebug, tr_depth = depth\<rparr>"

definition Tracer_trace :: "tracer \<Rightarrow> trace_event \<Rightarrow> tracer" where
  "Tracer_trace t ev =
     (if level_number (ev_level ev) < level_number (tr_minLevel t) then t else t\<lparr>tr_sink := sink_write (tr_sink t) ev\<rparr>)"

definition Tracer_currentDepth :: "tracer \<Rightarrow> 32 word" where
  "Tracer_currentDepth t = tr_depth t"

definition Tracer_pushScope :: "tracer \<Rightarrow> clock \<Rightarrow> string \<Rightarrow> string \<Rightarrow> tracer" where
  "Tracer_pushScope t clk subsystem operation =
     (let t1 = Tracer_trace t (makeTraceEvent (Clock_now clk) subsystem operation ''enter'' (Tracer_currentDepth t) LevelInfo)
      in t1\<lparr>tr_depth := tr_depth t1 + 1\<rparr>)"

definition Tracer_popScope :: "tracer \<Rightarrow> tracer" where
  "Tracer_popScope t = (if tr_depth t = 0 then t else t\<lparr>tr_depth := tr_depth t - 1\<rparr>)"

definition Tracer_setMinLevel :: "tracer \<Rightarrow> trace_level \<Rightarrow> tracer" where
  "Tracer_setMinLevel t l = t\<lparr>tr_minLevel := l\<rparr>"

definition Tracer_minLevel :: "tracer \<Rightarrow> trace_level" where
  "Tracer_minLevel t = tr_minLevel t"

text \<open>The tracer of a build without tracing: it keeps its clock and ignores everything else.\<close>

record null_tracer =
  nt_clock :: clock

definition NullTracer_new :: "clock \<Rightarrow> null_tracer" where "NullTracer_new clk = \<lparr>nt_clock = clk\<rparr>"
definition NullTracer_trace :: "null_tracer \<Rightarrow> trace_event \<Rightarrow> null_tracer" where "NullTracer_trace t ev = t"
definition NullTracer_pushScope :: "null_tracer \<Rightarrow> string \<Rightarrow> string \<Rightarrow> null_tracer" where
  "NullTracer_pushScope t subsystem operation = t"
definition NullTracer_popScope :: "null_tracer \<Rightarrow> null_tracer" where "NullTracer_popScope t = t"
definition NullTracer_currentDepth :: "null_tracer \<Rightarrow> 32 word" where "NullTracer_currentDepth t = 0"
definition NullTracer_setMinLevel :: "null_tracer \<Rightarrow> trace_level \<Rightarrow> null_tracer" where "NullTracer_setMinLevel t l = t"
definition NullTracer_minLevel :: "null_tracer \<Rightarrow> trace_level" where "NullTracer_minLevel t = LevelError"
definition NullTracer_clock :: "null_tracer \<Rightarrow> clock" where "NullTracer_clock t = nt_clock t"

text \<open>A scope object pushes on construction and pops on destruction around what happens within it.\<close>

definition TraceScope_run :: "tracer \<Rightarrow> clock \<Rightarrow> string \<Rightarrow> string \<Rightarrow> (tracer \<Rightarrow> tracer) \<Rightarrow> tracer" where
  "TraceScope_run t clk subsystem operation body = Tracer_popScope (body (Tracer_pushScope t clk subsystem operation))"

section \<open>What tracing preserves\<close>

lemma trace_depth [simp]: "tr_depth (Tracer_trace t ev) = tr_depth t"
  by (simp add: Tracer_trace_def)

lemma trace_minLevel [simp]: "tr_minLevel (Tracer_trace t ev) = tr_minLevel t"
  by (simp add: Tracer_trace_def)

text \<open>
  Scopes are balanced: whatever a body does that itself leaves the depth as it found it, the depth after the scope is
  the depth before it. Without the guard against depth 0 this would fail at the wrap-around of the 32-bit counter, and
  with it the scope entered at depth \<open>2\<^sup>3\<^sup>2 - 1\<close> does not come back.
\<close>

lemma scope_balanced:
  assumes "tr_depth (body (Tracer_pushScope t clk s op)) = tr_depth (Tracer_pushScope t clk s op)" "tr_depth t \<noteq> -1"
  shows "tr_depth (TraceScope_run t clk s op body) = tr_depth t"
proof -
  have "tr_depth t + 1 \<noteq> 0" using assms(2) by (simp add: add_eq_0_iff2)
  then show ?thesis using assms(1) by (simp add: TraceScope_run_def Tracer_popScope_def Tracer_pushScope_def Let_def)
qed

text \<open>A buffer sink holds exactly the events at or above the minimum level, in order.\<close>

lemma trace_filtered:
  "BufferSink_snapshot (tr_sink (fold (\<lambda>ev t. Tracer_trace t ev) evs \<lparr>tr_sink = BufferSink old, tr_minLevel = l, tr_depth = d\<rparr>))
     = old @ filter (\<lambda>ev. level_number l \<le> level_number (ev_level ev)) evs"
proof -
  have "fold (\<lambda>ev t. Tracer_trace t ev) evs \<lparr>tr_sink = BufferSink old, tr_minLevel = l, tr_depth = d\<rparr>
      = \<lparr>tr_sink = BufferSink (old @ filter (\<lambda>ev. level_number l \<le> level_number (ev_level ev)) evs), tr_minLevel = l, tr_depth = d\<rparr>"
    by (induction evs arbitrary: old) (auto simp: Tracer_trace_def not_le not_less)
  then show ?thesis by simp
qed

end
