(* ===== verification/Dispatch_Runtime.thy ===== *)
theory Dispatch_Runtime
  imports Dispatcher Tracing "HOL-Library.Multiset"
begin

text \<open>
  Dispatch over several lanes: \<^verbatim>\<open>dispatch/threading_config.h\<close>, \<^verbatim>\<open>dispatch/serial_dispatch_runtime.cpp\<close>,
  \<^verbatim>\<open>dispatch/mp_dispatcher.cpp\<close> and \<^verbatim>\<open>dispatch/dispatcher_pool.cpp\<close>.

  A lane is a reference to an object with the interface \<^verbatim>\<open>IDispatcher\<close>; lanes may refer to shared objects, so a lane is
  the record of the effects its methods have on one common state. The worker threads of the pool are modelled by a
  step function for each worker, and a run of the pool by the sequence of the workers that make a step (the
  schedule): every interleaving is some schedule. A worker's three actions on a lane are separate steps, so that the
  workers interleave between them. Sizes and counters are natural numbers: they count lanes and calls, and would wrap
  after 2^64 of them.
\<close>

section \<open>Configuration\<close>

record host_threading_config =
  hostThreadCount :: nat
  deterministicMode :: bool
  workStealingEnabled :: bool

definition HostThreadingConfig_isValid :: "host_threading_config \<Rightarrow> bool" where
  "HostThreadingConfig_isValid c \<longleftrightarrow> hostThreadCount c \<ge> 1"

definition HostThreadingConfig_isSingleThreaded :: "host_threading_config \<Rightarrow> bool" where
  "HostThreadingConfig_isSingleThreaded c \<longleftrightarrow> hostThreadCount c = 1"

definition HostThreadingConfig_normalized :: "host_threading_config \<Rightarrow> host_threading_config" where
  "HostThreadingConfig_normalized c =
     (let n = (if hostThreadCount c = 0 then c\<lparr>hostThreadCount := 1\<rparr> else c)
      in if HostThreadingConfig_isSingleThreaded n then n\<lparr>workStealingEnabled := False\<rparr> else n)"

definition normalizePoolConfig :: "host_threading_config \<Rightarrow> host_threading_config" where
  "normalizePoolConfig c =
     (let n = HostThreadingConfig_normalized c;
          n1 = (if hostThreadCount n = 0 then n\<lparr>hostThreadCount := 1\<rparr> else n)
      in if HostThreadingConfig_isSingleThreaded n1 then n1\<lparr>workStealingEnabled := False\<rparr> else n1)"

lemma normalized_valid: "HostThreadingConfig_isValid (HostThreadingConfig_normalized c)"
  by (simp add: HostThreadingConfig_isValid_def HostThreadingConfig_normalized_def Let_def)

lemma normalizePoolConfig_eq: "normalizePoolConfig c = HostThreadingConfig_normalized c"
  using normalized_valid [of c]
  by (auto simp: normalizePoolConfig_def HostThreadingConfig_normalized_def HostThreadingConfig_isValid_def
      HostThreadingConfig_isSingleThreaded_def Let_def)

section \<open>Lanes\<close>

record 's lane =
  lane_createProcess :: "process_image option \<Rightarrow> tick \<Rightarrow> 's \<Rightarrow> 's \<times> unit result"
  lane_dispatch :: "nat \<Rightarrow> 's \<Rightarrow> 's \<times> unit result"
  lane_terminateProcess :: "process_id \<Rightarrow> tick \<Rightarrow> 's \<Rightarrow> 's \<times> unit result"
  lane_tick :: "'s \<Rightarrow> 's"
  lane_processCount :: "'s \<Rightarrow> nat"
  lane_hasProcess :: "'s \<Rightarrow> process_id \<Rightarrow> bool"

text \<open>
  The outcome of a dispatch over all lanes: success if one lane succeeded, otherwise the first error that is not
  \<^verbatim>\<open>NotFound\<close>, otherwise \<^verbatim>\<open>NotFound\<close>. Both runtimes compute it with the same two variables.
\<close>

fun scan_codes :: "error_code list \<Rightarrow> bool \<Rightarrow> error_code \<Rightarrow> bool \<times> error_code" where
  "scan_codes [] anySuccess firstError = (anySuccess, firstError)"
| "scan_codes (c # cs) anySuccess firstError =
     (if c = OkCode then scan_codes cs True firstError
      else if firstError = OkCode \<and> c \<noteq> NotFound then scan_codes cs anySuccess c
      else scan_codes cs anySuccess firstError)"

definition lanes_outcome :: "bool \<times> error_code \<Rightarrow> unit result" where
  "lanes_outcome r = (case r of (anySuccess, firstError) \<Rightarrow>
     if anySuccess then Ok () else if firstError \<noteq> OkCode then Error firstError else Error NotFound)"

section \<open>The serial runtime\<close>

definition SerialDispatchRuntime_new :: "host_threading_config \<Rightarrow> host_threading_config" where
  "SerialDispatchRuntime_new c = (HostThreadingConfig_normalized c)\<lparr>hostThreadCount := 1, workStealingEnabled := False\<rparr>"

definition SerialDispatchRuntime_name :: string where
  "SerialDispatchRuntime_name = ''SerialDispatchRuntime''"

fun serial_loop :: "'s lane list \<Rightarrow> nat \<Rightarrow> 's \<Rightarrow> bool \<Rightarrow> error_code \<Rightarrow> 's \<times> bool \<times> error_code" where
  "serial_loop [] budget s anySuccess firstError = (s, anySuccess, firstError)"
| "serial_loop (d # ds) budget s anySuccess firstError =
     (let (s1, r) = lane_dispatch d budget s
      in (case r of
            Ok _ \<Rightarrow> serial_loop ds budget s1 True firstError
          | Error e \<Rightarrow> serial_loop ds budget s1 anySuccess (if firstError = OkCode \<and> e \<noteq> NotFound then e else firstError)))"

definition SerialDispatchRuntime_dispatch :: "'s lane list \<Rightarrow> nat \<Rightarrow> 's \<Rightarrow> 's \<times> unit result" where
  "SerialDispatchRuntime_dispatch lanes budget s =
     (if lanes = [] then (s, Error InvalidState)
      else let (s1, r) = serial_loop lanes budget s False OkCode in (s1, lanes_outcome r))"

definition SerialDispatchRuntime_tick :: "'s lane list \<Rightarrow> 's \<Rightarrow> 's" where
  "SerialDispatchRuntime_tick lanes s = fold lane_tick lanes s"

section \<open>The multiprocessor dispatcher\<close>

record 's runtime =
  rt_dispatch :: "'s lane list \<Rightarrow> nat \<Rightarrow> 's \<Rightarrow> 's \<times> unit result"
  rt_tick :: "'s lane list \<Rightarrow> 's \<Rightarrow> 's"

definition MPDispatcher_createProcess ::
  "'s lane list \<Rightarrow> process_image option \<Rightarrow> tick \<Rightarrow> 's \<Rightarrow> 's \<times> unit result" where
  "MPDispatcher_createProcess ds process now s =
     (case process of
        None \<Rightarrow> (s, Error InvalidArgument)
      | Some im \<Rightarrow>
          if ds = [] then (s, Error InvalidState)
          else if ProcessImage_id im = INVALID_PID then (s, Error InvalidPid)
          else lane_createProcess (ds ! (unat (ProcessImage_id im) mod length ds)) process now s)"

definition MPDispatcher_dispatch :: "'s runtime \<Rightarrow> 's lane list \<Rightarrow> nat \<Rightarrow> 's \<Rightarrow> 's \<times> unit result" where
  "MPDispatcher_dispatch rt ds budget s = rt_dispatch rt ds budget s"

fun MPDispatcher_terminateProcess :: "'s lane list \<Rightarrow> process_id \<Rightarrow> tick \<Rightarrow> 's \<Rightarrow> 's \<times> unit result" where
  "MPDispatcher_terminateProcess [] pid now s = (s, Error NotFound)"
| "MPDispatcher_terminateProcess (d # ds) pid now s =
     (if lane_hasProcess d s pid then lane_terminateProcess d pid now s else MPDispatcher_terminateProcess ds pid now s)"

definition MPDispatcher_tick :: "'s runtime \<Rightarrow> 's lane list \<Rightarrow> 's \<Rightarrow> 's" where
  "MPDispatcher_tick rt ds s = rt_tick rt ds s"

definition MPDispatcher_processCount :: "'s lane list \<Rightarrow> 's \<Rightarrow> nat" where
  "MPDispatcher_processCount ds s = sum_list (map (\<lambda>d. lane_processCount d s) ds)"

definition MPDispatcher_hasProcess :: "'s lane list \<Rightarrow> 's \<Rightarrow> process_id \<Rightarrow> bool" where
  "MPDispatcher_hasProcess ds s pid \<longleftrightarrow> (\<exists>d \<in> set ds. lane_hasProcess d s pid)"

text \<open>The serial runtime, and the multiprocessor dispatcher as a dispatcher.\<close>

definition serial_runtime :: "'s runtime" where
  "serial_runtime = \<lparr>rt_dispatch = SerialDispatchRuntime_dispatch, rt_tick = SerialDispatchRuntime_tick\<rparr>"

definition mp_lane :: "'s runtime \<Rightarrow> 's lane list \<Rightarrow> 's lane" where
  "mp_lane rt ds =
     \<lparr>lane_createProcess = MPDispatcher_createProcess ds, lane_dispatch = MPDispatcher_dispatch rt ds,
      lane_terminateProcess = MPDispatcher_terminateProcess ds, lane_tick = MPDispatcher_tick rt ds,
      lane_processCount = MPDispatcher_processCount ds, lane_hasProcess = MPDispatcher_hasProcess ds\<rparr>"

section \<open>The worker pool\<close>

datatype job_kind = JobDispatch nat | JobTick

text \<open>
  Where a worker is in its loop: about to take a lane (in static assignment, the index of the next one), holding a lane
  it has not run, having run a lane whose trace event is not yet appended, or done.
\<close>

datatype worker_phase = Taking nat | Holding nat nat | Ran nat nat | Finished

record 's pool_job =
  pj_state :: 's
  pj_laneErrors :: "error_code list"
  pj_traces :: "trace_event list list"
  pj_workers :: "worker_phase list"
  pj_nextLane :: nat
  pj_traceSequence :: nat
  pj_epoch :: nat

definition static_assignment :: "host_threading_config \<Rightarrow> bool" where
  "static_assignment c \<longleftrightarrow> deterministicMode c \<or> \<not> workStealingEnabled c"

text \<open>The state \<^verbatim>\<open>resetJobState\<close> leaves, with the active workers at the start of their loop.\<close>

definition resetJobState :: "nat \<Rightarrow> nat \<Rightarrow> nat \<Rightarrow> nat \<Rightarrow> 's \<Rightarrow> 's pool_job" where
  "resetJobState workers activeWorkers lanes epoch s =
     \<lparr>pj_state = s, pj_laneErrors = replicate lanes NotFound, pj_traces = replicate workers [],
      pj_workers = map Taking [0..<activeWorkers], pj_nextLane = 0, pj_traceSequence = 0, pj_epoch = epoch + 1\<rparr>"

definition lane_event :: "string \<Rightarrow> nat \<Rightarrow> nat \<Rightarrow> nat \<Rightarrow> nat \<Rightarrow> trace_event" where
  "lane_event operation lane worker sequence epoch =
     \<lparr>ev_timestamp = 0, ev_subsystem = ''dispatch.runtime'', ev_operation = operation,
      ev_details = ''lane='' @ to_string lane, ev_level = LevelInfo, ev_depth = 0, ev_workerId = worker,
      ev_sequence = sequence, ev_epoch = epoch\<rparr>"

definition appendTraceEvent :: "host_threading_config \<Rightarrow> string \<Rightarrow> nat \<Rightarrow> nat \<Rightarrow> 's pool_job \<Rightarrow> 's pool_job" where
  "appendTraceEvent c operation worker lane j =
     (let sequence = (if deterministicMode c then lane else pj_traceSequence j);
          j1 = (if deterministicMode c then j else j\<lparr>pj_traceSequence := pj_traceSequence j + 1\<rparr>)
      in j1\<lparr>pj_traces := (pj_traces j1)[worker := pj_traces j1 ! worker @ [lane_event operation lane worker sequence (pj_epoch j1)]]\<rparr>)"

definition run_lane :: "job_kind \<Rightarrow> 's lane \<Rightarrow> nat \<Rightarrow> 's pool_job \<Rightarrow> 's pool_job" where
  "run_lane job d lane j =
     (case job of
        JobDispatch budget \<Rightarrow>
          let (s, r) = lane_dispatch d budget (pj_state j)
          in j\<lparr>pj_state := s, pj_laneErrors := (pj_laneErrors j)[lane := (case r of Ok _ \<Rightarrow> OkCode | Error e \<Rightarrow> e)]\<rparr>
      | JobTick \<Rightarrow> j\<lparr>pj_state := lane_tick d (pj_state j)\<rparr>)"

definition job_operation :: "job_kind \<Rightarrow> string" where
  "job_operation job = (case job of JobDispatch _ \<Rightarrow> ''dispatch'' | JobTick \<Rightarrow> ''tick'')"

text \<open>One step of worker \<open>w\<close>; \<open>None\<close> when the worker is done or not active.\<close>

definition worker_step :: "host_threading_config \<Rightarrow> job_kind \<Rightarrow> 's lane list \<Rightarrow> nat \<Rightarrow> 's pool_job \<Rightarrow> 's pool_job option" where
  "worker_step c job lanes w j =
     (if w \<ge> length (pj_workers j) then None
      else (case pj_workers j ! w of
        Taking pos \<Rightarrow>
          if static_assignment c then
            Some (if pos < length lanes then j\<lparr>pj_workers := (pj_workers j)[w := Holding pos pos]\<rparr>
                  else j\<lparr>pj_workers := (pj_workers j)[w := Finished]\<rparr>)
          else
            let lane = pj_nextLane j; j1 = j\<lparr>pj_nextLane := lane + 1\<rparr>
            in Some (if lane < length lanes then j1\<lparr>pj_workers := (pj_workers j1)[w := Holding pos lane]\<rparr>
                     else j1\<lparr>pj_workers := (pj_workers j1)[w := Finished]\<rparr>)
      | Holding pos lane \<Rightarrow>
          let j1 = run_lane job (lanes ! lane) lane j in Some (j1\<lparr>pj_workers := (pj_workers j1)[w := Ran pos lane]\<rparr>)
      | Ran pos lane \<Rightarrow>
          let j1 = appendTraceEvent c (job_operation job) w lane j
          in Some (j1\<lparr>pj_workers := (pj_workers j1)[w := Taking (pos + length (pj_workers j1))]\<rparr>)
      | Finished \<Rightarrow> None))"

fun run_schedule :: "host_threading_config \<Rightarrow> job_kind \<Rightarrow> 's lane list \<Rightarrow> nat list \<Rightarrow> 's pool_job \<Rightarrow> 's pool_job" where
  "run_schedule c job lanes [] j = j"
| "run_schedule c job lanes (w # ws) j =
     run_schedule c job lanes ws (case worker_step c job lanes w j of None \<Rightarrow> j | Some j1 \<Rightarrow> j1)"

definition all_finished :: "'s pool_job \<Rightarrow> bool" where
  "all_finished j \<longleftrightarrow> (\<forall>p \<in> set (pj_workers j). p = Finished)"

record dispatcher_pool =
  dp_config :: host_threading_config
  dp_started :: bool
  dp_startupFailed :: bool
  dp_epochCounter :: nat
  dp_lastEpoch :: nat
  dp_lastTraceEvents :: "trace_event list"
  dp_lastDeterministicOrder :: "nat list"

definition DispatcherPool_new :: "host_threading_config \<Rightarrow> dispatcher_pool" where
  "DispatcherPool_new c =
     \<lparr>dp_config = normalizePoolConfig c, dp_started = False, dp_startupFailed = False, dp_epochCounter = 0, dp_lastEpoch = 0,
      dp_lastTraceEvents = [], dp_lastDeterministicOrder = []\<rparr>"

text \<open>The traces are merged when all workers have completed. The sequence numbers of one job are distinct, so the order of the sorted events is determined.\<close>

definition mergeWorkerTraces :: "'s pool_job \<Rightarrow> dispatcher_pool \<Rightarrow> dispatcher_pool" where
  "mergeWorkerTraces j p =
     (let events = sort_key ev_sequence (concat (pj_traces j))
      in p\<lparr>dp_epochCounter := dp_epochCounter p + 1, dp_lastEpoch := pj_epoch j, dp_lastTraceEvents := events,
           dp_lastDeterministicOrder := (if deterministicMode (dp_config p) then map ev_sequence events else [])\<rparr>)"

definition aggregateDispatchErrors :: "error_code list \<Rightarrow> unit result" where
  "aggregateDispatchErrors codes = lanes_outcome (scan_codes codes False OkCode)"

text \<open>The threads are started by the first job. Whether the host can start them is an argument; a failed start is final.\<close>

definition ensureWorkersStarted :: "bool \<Rightarrow> dispatcher_pool \<Rightarrow> dispatcher_pool \<times> bool" where
  "ensureWorkersStarted can_start p =
     (if dp_started p then (p, True)
      else if dp_startupFailed p then (p, False)
      else if can_start then (p\<lparr>dp_started := True\<rparr>, True)
      else (p\<lparr>dp_startupFailed := True\<rparr>, False))"

text \<open>A job of the pool under a schedule: \<open>None\<close> while some worker has not completed.\<close>

definition pool_run ::
  "nat list \<Rightarrow> job_kind \<Rightarrow> 's lane list \<Rightarrow> dispatcher_pool \<Rightarrow> 's \<Rightarrow> (dispatcher_pool \<times> 's pool_job) option" where
  "pool_run schedule job lanes p s =
     (let n = hostThreadCount (dp_config p);
          j = run_schedule (dp_config p) job lanes schedule (resetJobState n (min n (length lanes)) (length lanes) (dp_epochCounter p) s)
      in if all_finished j then Some (mergeWorkerTraces j p, j) else None)"

definition DispatcherPool_dispatch ::
  "bool \<Rightarrow> nat list \<Rightarrow> 's lane list \<Rightarrow> nat \<Rightarrow> dispatcher_pool \<Rightarrow> 's \<Rightarrow> (dispatcher_pool \<times> 's \<times> unit result) option" where
  "DispatcherPool_dispatch can_start schedule lanes budget p s =
     (if lanes = [] then Some (p, s, Error InvalidState)
      else let (p0, started) = ensureWorkersStarted can_start p
           in if \<not> started then Some (p0, s, Error InvalidState)
              else map_option (\<lambda>(p1, j). (p1, pj_state j, aggregateDispatchErrors (pj_laneErrors j)))
                     (pool_run schedule (JobDispatch budget) lanes p0 s))"

definition DispatcherPool_tick ::
  "bool \<Rightarrow> nat list \<Rightarrow> 's lane list \<Rightarrow> dispatcher_pool \<Rightarrow> 's \<Rightarrow> (dispatcher_pool \<times> 's) option" where
  "DispatcherPool_tick can_start schedule lanes p s =
     (if lanes = [] then Some (p, s)
      else let (p0, started) = ensureWorkersStarted can_start p
           in if \<not> started then Some (p0, s)
              else map_option (\<lambda>(p1, j). (p1, pj_state j)) (pool_run schedule JobTick lanes p0 s))"

definition DispatcherPool_name :: string where "DispatcherPool_name = ''DispatcherPool''"
definition DispatcherPool_lastEpoch :: "dispatcher_pool \<Rightarrow> nat" where "DispatcherPool_lastEpoch p = dp_lastEpoch p"
definition DispatcherPool_lastDeterministicOrder :: "dispatcher_pool \<Rightarrow> nat list" where
  "DispatcherPool_lastDeterministicOrder p = dp_lastDeterministicOrder p"
definition DispatcherPool_lastTraceEvents :: "dispatcher_pool \<Rightarrow> trace_event list" where
  "DispatcherPool_lastTraceEvents p = dp_lastTraceEvents p"


lemma ensureWorkersStarted_config [simp]:
  "dp_config (fst (ensureWorkersStarted can_start p)) = dp_config p"
  "dp_epochCounter (fst (ensureWorkersStarted can_start p)) = dp_epochCounter p"
  by (simp_all add: ensureWorkersStarted_def)

section \<open>The pool under every schedule\<close>

text \<open>What a job does to one lane, and the code it records (\<^verbatim>\<open>NotFound\<close> stays in place for a tick).\<close>

definition lane_effect :: "job_kind \<Rightarrow> 's lane \<Rightarrow> 's \<Rightarrow> 's \<times> error_code" where
  "lane_effect job d s =
     (case job of
        JobDispatch budget \<Rightarrow> (let (s1, r) = lane_dispatch d budget s in (s1, case r of Ok _ \<Rightarrow> OkCode | Error e \<Rightarrow> e))
      | JobTick \<Rightarrow> (lane_tick d s, NotFound))"

definition run_lanes :: "job_kind \<Rightarrow> 's lane list \<Rightarrow> nat list \<Rightarrow> 's \<Rightarrow> 's" where
  "run_lanes job lanes ord s = fold (\<lambda>l s. fst (lane_effect job (lanes ! l) s)) ord s"

fun held_lanes :: "worker_phase \<Rightarrow> nat list" where
  "held_lanes (Holding pos lane) = [lane]" | "held_lanes _ = []"

fun ran_lanes :: "worker_phase \<Rightarrow> nat list" where
  "ran_lanes (Ran pos lane) = [lane]" | "ran_lanes _ = []"

text \<open>The first lane of a worker's stride that it has not taken.\<close>

fun upto_lane :: "nat \<Rightarrow> worker_phase \<Rightarrow> nat" where
  "upto_lane n (Taking pos) = pos"
| "upto_lane n (Holding pos lane) = pos + 1"
| "upto_lane n (Ran pos lane) = pos + 1"
| "upto_lane n Finished = n"

definition taken :: "host_threading_config \<Rightarrow> nat \<Rightarrow> 's pool_job \<Rightarrow> nat set" where
  "taken c n j = {l. l < n \<and> (if static_assignment c then l < upto_lane n (pj_workers j ! (l mod length (pj_workers j)))
                        else l < pj_nextLane j)}"

text \<open>In static assignment a worker is at a lane of its own stride; otherwise a worker is done only when no lane is left.\<close>

definition phase_ok :: "host_threading_config \<Rightarrow> nat \<Rightarrow> 's pool_job \<Rightarrow> nat \<Rightarrow> worker_phase \<Rightarrow> bool" where
  "phase_ok c n j w p =
     (if static_assignment c
      then (case p of Taking pos \<Rightarrow> pos mod length (pj_workers j) = w
            | Holding pos lane \<Rightarrow> lane = pos \<and> pos < n \<and> pos mod length (pj_workers j) = w
            | Ran pos lane \<Rightarrow> lane = pos \<and> pos < n \<and> pos mod length (pj_workers j) = w
            | Finished \<Rightarrow> True)
      else p = Finished \<longrightarrow> n \<le> pj_nextLane j)"

text \<open>
  The invariant of a job, with the order in which lanes were run as a history: the lanes taken are those run and those
  held, each once; the state is that of running the lanes in this order; the trace has one event for each lane run
  whose event is not pending.
\<close>

definition pool_inv :: "host_threading_config \<Rightarrow> job_kind \<Rightarrow> 's lane list \<Rightarrow> 's \<Rightarrow> nat list \<Rightarrow> 's pool_job \<Rightarrow> bool" where
  "pool_inv c job lanes s0 ord j \<longleftrightarrow>
     0 < length (pj_workers j) \<and> length (pj_workers j) \<le> length (pj_traces j) \<and> length (pj_laneErrors j) = length lanes
     \<and> mset ord + mset (concat (map held_lanes (pj_workers j))) = mset_set (taken c (length lanes) j)
     \<and> pj_state j = run_lanes job lanes ord s0
     \<and> (\<forall>l < length lanes. pj_laneErrors j ! l = (if l \<in> set ord then snd (lane_effect job (lanes ! l) s0) else NotFound))
     \<and> (\<forall>w < length (pj_workers j). phase_ok c (length lanes) j w (pj_workers j ! w))
     \<and> (if deterministicMode c
        then mset (concat (map (map ev_sequence) (pj_traces j))) + mset (concat (map ran_lanes (pj_workers j))) = mset ord
        else mset (concat (map (map ev_sequence) (pj_traces j))) = mset [0..<pj_traceSequence j]
          \<and> pj_traceSequence j + length (concat (map ran_lanes (pj_workers j))) = length ord)"

lemma pool_invD:
  assumes "pool_inv c job lanes s0 ord j"
  shows "0 < length (pj_workers j)" "length (pj_laneErrors j) = length lanes"
    "mset ord + mset (concat (map held_lanes (pj_workers j))) = mset_set (taken c (length lanes) j)"
    "pj_state j = run_lanes job lanes ord s0"
    "\<forall>l < length lanes. pj_laneErrors j ! l = (if l \<in> set ord then snd (lane_effect job (lanes ! l) s0) else NotFound)"
    "\<forall>w < length (pj_workers j). phase_ok c (length lanes) j w (pj_workers j ! w)"
    "if deterministicMode c
      then mset (concat (map (map ev_sequence) (pj_traces j))) + mset (concat (map ran_lanes (pj_workers j))) = mset ord
      else mset (concat (map (map ev_sequence) (pj_traces j))) = mset [0..<pj_traceSequence j]
        \<and> pj_traceSequence j + length (concat (map ran_lanes (pj_workers j))) = length ord"
  using assms unfolding pool_inv_def by simp_all

lemma mset_concat_update:
  assumes "i < length xs"
  shows "mset (concat (map f (xs[i := v]))) + mset (f (xs ! i)) = mset (concat (map f xs)) + mset (f v)"
proof -
  have "mset (concat (map f xs)) = mset (concat (map f (take i xs))) + mset (f (xs ! i)) + mset (concat (map f (drop (Suc i) xs)))"
    by (subst id_take_nth_drop [OF assms]) simp
  moreover have "mset (concat (map f (xs[i := v]))) = mset (concat (map f (take i xs))) + mset (f v) + mset (concat (map f (drop (Suc i) xs)))"
    by (subst upd_conv_take_nth_drop [OF assms]) simp
  ultimately show ?thesis by (simp add: ac_simps)
qed

lemma sum_list_map_update:
  assumes "i < length xs"
  shows "sum_list (map f (xs[i := v])) + f (xs ! i) = sum_list (map f xs) + (f v :: nat)"
proof -
  have "sum_list (map f xs) = sum_list (map f (take i xs)) + f (xs ! i) + sum_list (map f (drop (Suc i) xs))"
    by (subst id_take_nth_drop [OF assms]) simp
  moreover have "sum_list (map f (xs[i := v])) = sum_list (map f (take i xs)) + f v + sum_list (map f (drop (Suc i) xs))"
    by (subst upd_conv_take_nth_drop [OF assms]) simp
  ultimately show ?thesis by simp
qed

lemma run_lane_effect:
  "run_lane job d l j = j\<lparr>pj_state := fst (lane_effect job d (pj_state j)),
     pj_laneErrors := (if job = JobTick then pj_laneErrors j else (pj_laneErrors j)[l := snd (lane_effect job d (pj_state j))])\<rparr>"
  by (cases job) (simp_all add: run_lane_def lane_effect_def split: prod.splits)

lemma same_stride:
  assumes "l mod W = pos mod W" "l < pos + W" "(0 :: nat) < W"
  shows "l \<le> pos"
proof (rule ccontr)
  assume "\<not> l \<le> pos"
  then have "W dvd l - pos" using assms(1) mod_eq_dvd_iff_nat [of pos l W] by simp
  then show False using \<open>\<not> l \<le> pos\<close> assms(2) by (auto dest: dvd_imp_le)
qed

lemma taken_static:
  assumes "static_assignment c" "w < length (pj_workers j)"
  shows "taken c n (j\<lparr>pj_workers := (pj_workers j)[w := p]\<rparr>)
    = {l. l < n \<and> l < upto_lane n (if l mod length (pj_workers j) = w then p else pj_workers j ! (l mod length (pj_workers j)))}"
  using assms by (auto simp: taken_def nth_list_update split: if_splits)

text \<open>The effect of each step on the lanes taken.\<close>

lemma taken_steps:
  assumes w: "w < length (pj_workers j)" and ok: "phase_ok c n j w (pj_workers j ! w)"
  shows "static_assignment c \<Longrightarrow> pj_workers j ! w = Taking pos \<Longrightarrow> pos < n \<Longrightarrow>
      taken c n (j\<lparr>pj_workers := (pj_workers j)[w := Holding pos pos]\<rparr>) = insert pos (taken c n j) \<and> pos \<notin> taken c n j"
    and "static_assignment c \<Longrightarrow> pj_workers j ! w = Taking pos \<Longrightarrow> n \<le> pos \<Longrightarrow>
      taken c n (j\<lparr>pj_workers := (pj_workers j)[w := Finished]\<rparr>) = taken c n j"
    and "pj_workers j ! w = Holding pos lane \<Longrightarrow> taken c n (j\<lparr>pj_workers := (pj_workers j)[w := Ran pos lane]\<rparr>) = taken c n j"
    and "pj_workers j ! w = Ran pos lane \<Longrightarrow>
      taken c n (j\<lparr>pj_workers := (pj_workers j)[w := Taking (pos + length (pj_workers j))]\<rparr>) = taken c n j"
proof -
  let ?W = "length (pj_workers j)"
  assume s: "static_assignment c" and t: "pj_workers j ! w = Taking pos"
  then have pw: "pos mod ?W = w" using ok by (simp add: phase_ok_def)
  show "taken c n (j\<lparr>pj_workers := (pj_workers j)[w := Holding pos pos]\<rparr>) = insert pos (taken c n j) \<and> pos \<notin> taken c n j" if "pos < n"
    unfolding taken_static [OF s w] using s t pw that by (auto simp: taken_def split: if_splits)
  show "taken c n (j\<lparr>pj_workers := (pj_workers j)[w := Finished]\<rparr>) = taken c n j" if "n \<le> pos"
    unfolding taken_static [OF s w] using s t pw that by (auto simp: taken_def split: if_splits)
next
  let ?W = "length (pj_workers j)"
  assume t: "pj_workers j ! w = Holding pos lane"
  show "taken c n (j\<lparr>pj_workers := (pj_workers j)[w := Ran pos lane]\<rparr>) = taken c n j"
  proof (cases "static_assignment c")
    case True
    show ?thesis unfolding taken_static [OF True w] using True t by (auto simp: taken_def split: if_splits)
  qed (simp add: taken_def)
next
  let ?W = "length (pj_workers j)"
  assume t: "pj_workers j ! w = Ran pos lane"
  show "taken c n (j\<lparr>pj_workers := (pj_workers j)[w := Taking (pos + ?W)]\<rparr>) = taken c n j"
  proof (cases "static_assignment c")
    case True
    then have pw: "pos mod ?W = w" using ok t by (simp add: phase_ok_def)
    have "l \<le> pos" if "l mod ?W = w" "l < pos + ?W" for l by (rule same_stride [of l ?W pos]) (use that pw w in auto)
    then show ?thesis unfolding taken_static [OF True w] using True t w by (auto simp: taken_def less_Suc_eq_le split: if_splits)
  qed (simp add: taken_def)
qed

lemma phase_ok_mono:
  "phase_ok c n j w p \<Longrightarrow> length (pj_workers j') = length (pj_workers j) \<Longrightarrow> pj_nextLane j \<le> pj_nextLane j' \<Longrightarrow> phase_ok c n j' w p"
  by (auto simp: phase_ok_def split: if_splits worker_phase.splits)

lemma phase_ok_update:
  assumes "\<forall>v < length (pj_workers j). phase_ok c n j v (pj_workers j ! v)" "phase_ok c n j' w p"
    "pj_workers j' = (pj_workers j)[w := p]" "pj_nextLane j \<le> pj_nextLane j'"
  shows "\<forall>v < length (pj_workers j'). phase_ok c n j' v (pj_workers j' ! v)"
proof (intro allI impI)
  fix v assume "v < length (pj_workers j')"
  then show "phase_ok c n j' v (pj_workers j' ! v)"
    using assms phase_ok_mono [of c n j _ _ j'] by (cases "v = w") simp_all
qed

text \<open>Steps: how many are left at most, and when there is one.\<close>

fun phase_rank :: "worker_phase \<Rightarrow> nat" where
  "phase_rank (Holding pos lane) = 3" | "phase_rank (Ran pos lane) = 2" | "phase_rank (Taking pos) = 1" | "phase_rank Finished = 0"

definition steps_left :: "host_threading_config \<Rightarrow> nat \<Rightarrow> 's pool_job \<Rightarrow> nat" where
  "steps_left c n j = 3 * (n - card (taken c n j)) + sum_list (map phase_rank (pj_workers j))"

lemma run_schedule_epoch: "pj_epoch (run_schedule c job lanes ws j) = pj_epoch j"
proof (induction ws arbitrary: j)
  case (Cons w ws)
  have "pj_epoch j1 = pj_epoch j" if "worker_step c job lanes w j = Some j1" for j1
    using that by (auto simp: worker_step_def run_lane_effect appendTraceEvent_def Let_def split: if_splits worker_phase.splits)
  then show ?case using Cons by (simp split: option.splits)
qed simp

lemma worker_can_step: "w < length (pj_workers j) \<Longrightarrow> worker_step c job lanes w j = None \<longleftrightarrow> pj_workers j ! w = Finished"
  by (cases "pj_workers j ! w") (simp_all add: worker_step_def Let_def)

lemma run_schedule_append: "run_schedule c job lanes (ws @ vs) j = run_schedule c job lanes vs (run_schedule c job lanes ws j)"
  by (induction ws arbitrary: j) simp_all

lemma finished_stays: "all_finished j \<Longrightarrow> run_schedule c job lanes ws j = j"
proof (induction ws)
  case (Cons w ws)
  then have "worker_step c job lanes w j = None"
    by (cases "w < length (pj_workers j)") (simp_all add: worker_can_step all_finished_def, simp add: worker_step_def)
  then show ?case using Cons by simp
qed simp

lemma run_schedule_workers: "length (pj_workers (run_schedule c job lanes ws j)) = length (pj_workers j)"
proof (induction ws arbitrary: j)
  case (Cons w ws)
  have "length (pj_workers j1) = length (pj_workers j)" if "worker_step c job lanes w j = Some j1" for j1
    using that by (auto simp: worker_step_def run_lane_effect appendTraceEvent_def Let_def split: if_splits worker_phase.splits)
  then show ?case using Cons by (simp split: option.splits)
qed simp

text \<open>The serial loop over the lanes, with the codes in the order of the lanes.\<close>

fun codes_seq :: "job_kind \<Rightarrow> 's lane list \<Rightarrow> 's \<Rightarrow> error_code list" where
  "codes_seq job [] s = []"
| "codes_seq job (d # ds) s = snd (lane_effect job d s) # codes_seq job ds (fst (lane_effect job d s))"

lemma serial_loop_codes:
  assumes "\<forall>d \<in> set ds. \<forall>s. snd (lane_dispatch d budget s) \<noteq> Error OkCode"
  shows "serial_loop ds budget s anySuccess firstError
    = (fold (\<lambda>d s. fst (lane_effect (JobDispatch budget) d s)) ds s, scan_codes (codes_seq (JobDispatch budget) ds s) anySuccess firstError)"
  using assms
proof (induction ds arbitrary: s anySuccess firstError)
  case (Cons d ds)
  obtain s1 r where r: "lane_dispatch d budget s = (s1, r)" by fastforce
  have "r \<noteq> Error OkCode" using Cons.prems r by (metis list.set_intros(1) snd_conv)
  then show ?case using Cons r by (cases r) (auto simp: lane_effect_def)
qed simp

text \<open>
  The interface the pool relies on: running one lane neither changes what running another does nor the code it
  returns. Lanes that refer to separate dispatchers promise this; two references to the same dispatcher do not.
\<close>

locale independent_lanes =
  fixes lanes :: "'s lane list" and job :: job_kind
  assumes commute: "i < length lanes \<Longrightarrow> k < length lanes \<Longrightarrow> i \<noteq> k \<Longrightarrow>
      fst (lane_effect job (lanes ! i) (fst (lane_effect job (lanes ! k) s)))
        = fst (lane_effect job (lanes ! k) (fst (lane_effect job (lanes ! i) s)))"
    and stable: "i < length lanes \<Longrightarrow> k < length lanes \<Longrightarrow> i \<noteq> k \<Longrightarrow>
      snd (lane_effect job (lanes ! i) (fst (lane_effect job (lanes ! k) s))) = snd (lane_effect job (lanes ! i) s)"
begin

lemma run_lanes_code:
  "i < length lanes \<Longrightarrow> i \<notin> set ord \<Longrightarrow> set ord \<subseteq> {..<length lanes} \<Longrightarrow>
     snd (lane_effect job (lanes ! i) (run_lanes job lanes ord s)) = snd (lane_effect job (lanes ! i) s)"
  by (induction ord arbitrary: s) (auto simp: run_lanes_def stable)

lemma run_lanes_order:
  assumes "mset ord = mset ord'" "set ord \<subseteq> {..<length lanes}" "distinct ord"
  shows "run_lanes job lanes ord s = run_lanes job lanes ord' s"
proof -
  have "fold (\<lambda>l s. fst (lane_effect job (lanes ! l) s)) ord = fold (\<lambda>l s. fst (lane_effect job (lanes ! l) s)) ord'"
  proof (rule fold_multiset_equiv [OF _ assms(1)])
    fix x y
    assume "x \<in> set ord" "y \<in> set ord"
    then show "(\<lambda>s. fst (lane_effect job (lanes ! x) s)) \<circ> (\<lambda>s. fst (lane_effect job (lanes ! y) s))
        = (\<lambda>s. fst (lane_effect job (lanes ! y) s)) \<circ> (\<lambda>s. fst (lane_effect job (lanes ! x) s))"
      using assms(2) commute [of x y] by (cases "x = y") (auto simp: fun_eq_iff)
  qed
  then show ?thesis by (simp add: run_lanes_def)
qed

end


context independent_lanes
begin

lemma pool_inv_distinct:
  assumes "pool_inv c job lanes s0 ord j"
  shows "distinct ord" "set ord \<subseteq> {..<length lanes}"
    "w < length (pj_workers j) \<Longrightarrow> pj_workers j ! w = Holding pos lane \<Longrightarrow> lane < length lanes \<and> lane \<notin> set ord"
proof -
  let ?T = "taken c (length lanes) j" and ?H = "mset (concat (map held_lanes (pj_workers j)))"
  have e: "mset ord + ?H = mset_set ?T" using assms by (simp add: pool_inv_def)
  have fin: "finite ?T" by (simp add: taken_def)
  have one: "count (mset ord + ?H) l = (if l \<in> ?T then 1 else 0)" for l unfolding e using fin by (simp add: count_mset_set')
  show "distinct ord"
  proof (unfold distinct_count_atmost_1, intro allI)
    show "count (mset ord) l = (if l \<in> set ord then 1 else 0)" for l
    proof (cases "l \<in> set ord")
      case True
      then have "0 < count (mset ord) l" by (metis count_greater_zero_iff set_mset_mset)
      moreover have "count (mset ord) l + count ?H l \<le> 1" using one [of l] by simp
      ultimately have "count (mset ord) l = 1" by linarith
      then show ?thesis using True by simp
    qed (simp add: count_eq_zero_iff)
  qed
  have "set_mset (mset ord + ?H) = ?T" unfolding e using fin by simp
  then have sub: "set ord \<union> set (concat (map held_lanes (pj_workers j))) = ?T" by simp
  then show "set ord \<subseteq> {..<length lanes}" by (auto simp: taken_def)
  assume w: "w < length (pj_workers j)" "pj_workers j ! w = Holding pos lane"
  then have "lane \<in> set (concat (map held_lanes (pj_workers j)))" by (force simp: in_set_conv_nth [of _ "pj_workers j"])
  moreover from this have "count ?H lane \<ge> 1" by (metis One_nat_def Suc_leI count_greater_zero_iff set_mset_mset)
  moreover have "count (mset ord) lane + count ?H lane \<le> 1" using one [of lane] by simp
  ultimately have "count (mset ord) lane = 0" "lane \<in> taken c (length lanes) j" using sub by (linarith, blast)
  then show "lane < length lanes \<and> lane \<notin> set ord" by (simp add: taken_def count_eq_zero_iff)
qed

lemma take_inv:
  assumes i: "pool_inv c job lanes s0 ord j" and w: "w < length (pj_workers j)" and t: "pj_workers j ! w = Taking pos"
    and st: "worker_step c job lanes w j = Some j'"
  shows "pool_inv c job lanes s0 ord j' \<and> (\<exists>p. pj_workers j' = (pj_workers j)[w := p]
    \<and> (p = Finished \<and> taken c (length lanes) j' = taken c (length lanes) j
       \<or> p \<noteq> Finished \<and> (\<exists>l. p = Holding pos l \<and> l \<notin> taken c (length lanes) j \<and> taken c (length lanes) j' = insert l (taken c (length lanes) j))))"
proof -
  let ?n = "length lanes"
  note inv = i [unfolded pool_inv_def]
  have ok: "phase_ok c ?n j w (pj_workers j ! w)" using inv w by blast
  note ts = taken_steps [OF w ok]
  have fin: "finite (taken c ?n j)" by (simp add: taken_def)
  define nl where "nl = (if static_assignment c then pj_nextLane j else pj_nextLane j + 1)"
  define l where "l = (if static_assignment c then pos else pj_nextLane j)"
  define p where "p = (if l < ?n then Holding pos l else Finished)"
  have j': "j' = j\<lparr>pj_nextLane := nl, pj_workers := (pj_workers j)[w := p]\<rparr>"
    using st w t by (auto simp: worker_step_def nl_def l_def p_def Let_def)
  have upd: "taken c ?n j' = (if l < ?n then insert l (taken c ?n j) else taken c ?n j) \<and> (l < ?n \<longrightarrow> l \<notin> taken c ?n j)"
  proof (cases "static_assignment c")
    case True
    then show ?thesis using ts(1,2) [OF True t] by (simp add: j' nl_def l_def p_def)
  next
    case False
    then show ?thesis by (auto simp: j' nl_def l_def taken_def)
  qed
  have held: "mset (concat (map held_lanes ((pj_workers j)[w := p]))) = mset (concat (map held_lanes (pj_workers j))) + mset (held_lanes p)"
    using mset_concat_update [OF w, of held_lanes p] t by simp
  have ran: "mset (concat (map ran_lanes ((pj_workers j)[w := p]))) = mset (concat (map ran_lanes (pj_workers j)))"
    using mset_concat_update [OF w, of ran_lanes p] t by (simp add: p_def split: if_splits)
  have ranl: "length (concat (map ran_lanes ((pj_workers j)[w := p]))) = length (concat (map ran_lanes (pj_workers j)))"
    using arg_cong [OF ran, of size] by simp
  have "mset ord + mset (concat (map held_lanes (pj_workers j'))) = mset_set (taken c ?n j')"
    using inv held upd fin by (auto simp: j' p_def)
  moreover have "\<forall>v < length (pj_workers j'). phase_ok c ?n j' v (pj_workers j' ! v)"
    by (rule phase_ok_update [of j _ _ _ w p])
      (use inv ok t in \<open>auto simp: j' nl_def p_def l_def phase_ok_def split: if_splits\<close>)
  ultimately have "pool_inv c job lanes s0 ord j'"
    using inv ran ranl unfolding pool_inv_def by (simp add: j')
  then show ?thesis using upd by (intro conjI exI [of _ p]) (auto simp: j' p_def)
qed

lemma run_inv:
  assumes i: "pool_inv c job lanes s0 ord j" and w: "w < length (pj_workers j)" and t: "pj_workers j ! w = Holding pos lane"
    and st: "worker_step c job lanes w j = Some j'"
  shows "pool_inv c job lanes s0 (ord @ [lane]) j' \<and> pj_workers j' = (pj_workers j)[w := Ran pos lane]
    \<and> taken c (length lanes) j' = taken c (length lanes) j"
proof -
  let ?n = "length lanes" and ?p = "Ran pos lane"
  note inv = i [unfolded pool_inv_def]
  have ok: "phase_ok c ?n j w (pj_workers j ! w)" using inv w by blast
  have l: "lane < ?n" "lane \<notin> set ord" using pool_inv_distinct(3) [OF i w t] by auto
  have code: "snd (lane_effect job (lanes ! lane) (pj_state j)) = snd (lane_effect job (lanes ! lane) s0)"
    using run_lanes_code [OF l pool_inv_distinct(2) [OF i]] inv by simp
  define errs where "errs = (pj_laneErrors j)[lane := snd (lane_effect job (lanes ! lane) s0)]"
  have errs: "errs = (if job = JobTick then pj_laneErrors j else (pj_laneErrors j)[lane := snd (lane_effect job (lanes ! lane) (pj_state j))])"
    using inv l code by (auto simp: errs_def lane_effect_def list_update_same_conv)
  have j': "j' = j\<lparr>pj_state := fst (lane_effect job (lanes ! lane) (pj_state j)), pj_laneErrors := errs, pj_workers := (pj_workers j)[w := ?p]\<rparr>"
    using st w t by (simp add: worker_step_def run_lane_effect errs)
  have "taken c ?n j' = taken c ?n (j\<lparr>pj_workers := (pj_workers j)[w := ?p]\<rparr>)" by (simp add: taken_def j')
  then have upd: "taken c ?n j' = taken c ?n j" using taken_steps(3) [OF w ok t] by simp
  have held: "mset (concat (map held_lanes (pj_workers j))) = add_mset lane (mset (concat (map held_lanes ((pj_workers j)[w := ?p]))))"
    using mset_concat_update [OF w, of held_lanes ?p] t by simp
  have ran: "mset (concat (map ran_lanes ((pj_workers j)[w := ?p]))) = add_mset lane (mset (concat (map ran_lanes (pj_workers j))))"
    using mset_concat_update [OF w, of ran_lanes ?p] t by simp
  have ranl: "length (concat (map ran_lanes ((pj_workers j)[w := ?p]))) = Suc (length (concat (map ran_lanes (pj_workers j))))"
    using arg_cong [OF ran, of size] by simp
  have ph: "\<forall>v < length (pj_workers j'). phase_ok c ?n j' v (pj_workers j' ! v)"
    by (rule phase_ok_update [of j _ _ _ w ?p]) (use inv ok t in \<open>auto simp: j' phase_ok_def split: if_splits\<close>)
  have err: "\<forall>k < ?n. errs ! k = (if k \<in> set (ord @ [lane]) then snd (lane_effect job (lanes ! k) s0) else NotFound)"
    using inv l by (auto simp: errs_def nth_list_update)
  have "mset (ord @ [lane]) + mset (concat (map held_lanes ((pj_workers j)[w := ?p]))) = mset_set (taken c ?n j')"
    using inv held upd by simp
  moreover have "fst (lane_effect job (lanes ! lane) (pj_state j)) = run_lanes job lanes (ord @ [lane]) s0"
    using inv by (simp add: run_lanes_def)
  ultimately have "pool_inv c job lanes s0 (ord @ [lane]) j'"
    using inv ran ranl ph err unfolding pool_inv_def by (simp add: j' errs_def)
  then show ?thesis using upd by (simp add: j')
qed

lemma record_inv:
  assumes i: "pool_inv c job lanes s0 ord j" and w: "w < length (pj_workers j)" and t: "pj_workers j ! w = Ran pos lane"
    and st: "worker_step c job lanes w j = Some j'"
  shows "pool_inv c job lanes s0 ord j' \<and> pj_workers j' = (pj_workers j)[w := Taking (pos + length (pj_workers j))]
    \<and> taken c (length lanes) j' = taken c (length lanes) j"
proof -
  let ?n = "length lanes" and ?p = "Taking (pos + length (pj_workers j))"
  note inv = i [unfolded pool_inv_def]
  have ok: "phase_ok c ?n j w (pj_workers j ! w)" using inv w by blast
  define q where "q = (if deterministicMode c then lane else pj_traceSequence j)"
  define tq where "tq = (if deterministicMode c then pj_traceSequence j else pj_traceSequence j + 1)"
  define ev where "ev = lane_event (job_operation job) lane w q (pj_epoch j)"
  have wt: "w < length (pj_traces j)" using inv w by simp
  have j': "j' = j\<lparr>pj_traceSequence := tq, pj_traces := (pj_traces j)[w := pj_traces j ! w @ [ev]], pj_workers := (pj_workers j)[w := ?p]\<rparr>"
    using st w t by (auto simp: worker_step_def appendTraceEvent_def q_def tq_def ev_def Let_def)
  have "taken c ?n j' = taken c ?n (j\<lparr>pj_workers := (pj_workers j)[w := ?p]\<rparr>)" by (simp add: taken_def j')
  then have upd: "taken c ?n j' = taken c ?n j" using taken_steps(4) [OF w ok t] by simp
  have held: "mset (concat (map held_lanes ((pj_workers j)[w := ?p]))) = mset (concat (map held_lanes (pj_workers j)))"
    using mset_concat_update [OF w, of held_lanes ?p] t by simp
  have ran: "mset (concat (map ran_lanes (pj_workers j))) = add_mset lane (mset (concat (map ran_lanes ((pj_workers j)[w := ?p]))))"
    using mset_concat_update [OF w, of ran_lanes ?p] t by simp
  have ranl: "length (concat (map ran_lanes (pj_workers j))) = Suc (length (concat (map ran_lanes ((pj_workers j)[w := ?p]))))"
    using arg_cong [OF ran, of size] by simp
  have "ev_sequence ev = q" by (simp add: ev_def lane_event_def)
  then have tr: "mset (concat (map (map ev_sequence) (pj_traces j'))) = add_mset q (mset (concat (map (map ev_sequence) (pj_traces j))))"
    using mset_concat_update [OF wt, of "map ev_sequence" "pj_traces j ! w @ [ev]"] by (simp add: j')
  have ph: "\<forall>v < length (pj_workers j'). phase_ok c ?n j' v (pj_workers j' ! v)"
    by (rule phase_ok_update [of j _ _ _ w ?p]) (use inv ok t in \<open>auto simp: j' phase_ok_def split: if_splits\<close>)
  have "pool_inv c job lanes s0 ord j'"
    using inv held ran ranl tr ph upd unfolding pool_inv_def by (simp add: j' q_def tq_def split: if_splits)
  then show ?thesis using upd by (simp add: j')
qed

lemma worker_step_inv:
  assumes i: "pool_inv c job lanes s0 ord j" and st: "worker_step c job lanes w j = Some j'"
  shows "\<exists>ord'. pool_inv c job lanes s0 ord' j'"
proof -
  have w: "w < length (pj_workers j)" using st by (auto simp: worker_step_def split: if_splits)
  show ?thesis
  proof (cases "pj_workers j ! w")
    case (Taking pos)
    then show ?thesis using take_inv [OF i w Taking st] by blast
  next
    case (Holding pos lane)
    then show ?thesis using run_inv [OF i w Holding st] by blast
  next
    case (Ran pos lane)
    then show ?thesis using record_inv [OF i w Ran st] by blast
  next
    case Finished
    then show ?thesis using st w by (simp add: worker_step_def)
  qed
qed

lemma run_schedule_inv: "pool_inv c job lanes s0 ord j \<Longrightarrow> \<exists>ord'. pool_inv c job lanes s0 ord' (run_schedule c job lanes ws j)"
proof (induction ws arbitrary: ord j)
  case (Cons w ws)
  show ?case
  proof (cases "worker_step c job lanes w j")
    case None
    then show ?thesis using Cons by auto
  next
    case (Some j1)
    then show ?thesis using worker_step_inv [OF Cons.prems Some] Cons.IH by auto
  qed
qed auto

text \<open>When all workers are done every lane has been run exactly once.\<close>

lemma finished_job:
  assumes i: "pool_inv c job lanes s0 ord j" and f: "all_finished j"
  shows "mset ord = mset [0..<length lanes]" "pj_state j = run_lanes job lanes [0..<length lanes] s0"
    "pj_laneErrors j = map (\<lambda>l. snd (lane_effect job (lanes ! l) s0)) [0..<length lanes]"
    "mset (map ev_sequence (concat (pj_traces j))) = mset [0..<length lanes]"
proof -
  let ?n = "length lanes" and ?W = "length (pj_workers j)"
  note inv = pool_invD [OF i]
  have fin: "pj_workers j ! w = Finished" if "w < ?W" for w using f that by (simp add: all_finished_def)
  have all: "map g (pj_workers j) = replicate ?W (g Finished)" for g :: "worker_phase \<Rightarrow> nat list"
    by (rule nth_equalityI) (simp_all add: fin)
  have cc: "concat (replicate k []) = ([] :: nat list)" for k by (induction k) simp_all
  have "l \<in> taken c ?n j" if "l < ?n" for l
  proof -
    have m: "l mod ?W < ?W" using inv(1) by simp
    then show ?thesis using inv(6) [rule_format, OF m] inv(6) [rule_format, OF inv(1)] fin [OF m] fin [OF inv(1)] that
      by (auto simp: taken_def phase_ok_def)
  qed
  then have "taken c ?n j = {..<?n}" by (auto simp: taken_def)
  then have "mset ord = mset_set {..<?n}" using inv(3) by (simp add: all [of held_lanes] cc)
  then show o: "mset ord = mset [0..<?n]" by (simp add: mset_upt lessThan_atLeast0)
  show "pj_state j = run_lanes job lanes [0..<?n] s0"
    unfolding inv(4) by (rule run_lanes_order [OF o pool_inv_distinct(2,1) [OF i]])
  have so: "set ord = {..<?n}" using arg_cong [OF o, of set_mset] unfolding set_mset_mset by (simp add: lessThan_atLeast0)
  show "pj_laneErrors j = map (\<lambda>l. snd (lane_effect job (lanes ! l) s0)) [0..<?n]"
    by (rule nth_equalityI) (simp_all add: inv(2) inv(5) [rule_format] so)
  have "length ord = ?n" using arg_cong [OF o, of size] by simp
  then show "mset (map ev_sequence (concat (pj_traces j))) = mset [0..<?n]"
    using inv(7) unfolding o all [of ran_lanes] by (simp add: map_concat cc split: if_splits)
qed

text \<open>
  Progress: a worker that is not done can always make a step, and every step brings the job nearer to its end.
\<close>

lemma step_progress:
  assumes i: "pool_inv c job lanes s0 ord j" and st: "worker_step c job lanes w j = Some j'"
  shows "steps_left c (length lanes) j' < steps_left c (length lanes) j"
proof -
  let ?n = "length lanes"
  have w: "w < length (pj_workers j)" using st by (auto simp: worker_step_def split: if_splits)
  have sub: "taken c ?n k \<subseteq> {..<?n}" for k :: "'s pool_job" by (auto simp: taken_def)
  have fin: "finite (taken c ?n k)" "card (taken c ?n k) \<le> ?n" for k :: "'s pool_job"
    using card_mono [OF _ sub, of k] finite_subset [OF sub, of k] by simp_all
  have sum: "sum_list (map phase_rank ((pj_workers j)[w := p])) + phase_rank (pj_workers j ! w)
      = sum_list (map phase_rank (pj_workers j)) + phase_rank p" for p
    by (rule sum_list_map_update [OF w])
  show ?thesis
  proof (cases "pj_workers j ! w")
    case (Taking pos)
    then obtain p where p: "pj_workers j' = (pj_workers j)[w := p]" "p = Finished \<and> taken c ?n j' = taken c ?n j
       \<or> p \<noteq> Finished \<and> (\<exists>l. p = Holding pos l \<and> l \<notin> taken c ?n j \<and> taken c ?n j' = insert l (taken c ?n j))"
      using take_inv [OF i w Taking st] by blast
    then consider "p = Finished" "taken c ?n j' = taken c ?n j"
      | l where "p = Holding pos l" "card (taken c ?n j') = Suc (card (taken c ?n j))" using fin by auto
    then show ?thesis using sum [of p] p(1) Taking fin(2) [of j'] by cases (simp_all add: steps_left_def)
  next
    case (Holding pos lane)
    then show ?thesis using run_inv [OF i w Holding st] sum [of "Ran pos lane"] by (simp add: steps_left_def)
  next
    case (Ran pos lane)
    then show ?thesis using record_inv [OF i w Ran st] sum [of "Taking (pos + length (pj_workers j))"] by (simp add: steps_left_def)
  next
    case Finished
    then show ?thesis using st w by (simp add: worker_step_def)
  qed
qed

lemma round_progress:
  assumes "pool_inv c job lanes s0 ord j"
  shows "all_finished (run_schedule c job lanes ws j)
    \<or> steps_left c (length lanes) (run_schedule c job lanes ws j) < steps_left c (length lanes) j
    \<or> run_schedule c job lanes ws j = j \<and> (\<forall>w \<in> set ws. worker_step c job lanes w j = None)"
    "steps_left c (length lanes) (run_schedule c job lanes ws j) \<le> steps_left c (length lanes) j"
proof -
  have "(steps_left c (length lanes) (run_schedule c job lanes ws j) < steps_left c (length lanes) j
    \<or> run_schedule c job lanes ws j = j \<and> (\<forall>w \<in> set ws. worker_step c job lanes w j = None))"
    using assms
  proof (induction ws arbitrary: ord j)
    case (Cons w ws)
    show ?case
    proof (cases "worker_step c job lanes w j")
      case None
      then show ?thesis using Cons by auto
    next
      case (Some j1)
      obtain ord1 where "pool_inv c job lanes s0 ord1 j1" using worker_step_inv [OF Cons.prems Some] by blast
      from Cons.IH [OF this] step_progress [OF Cons.prems Some] show ?thesis using Some by auto
    qed
  qed simp
  then show "all_finished (run_schedule c job lanes ws j)
    \<or> steps_left c (length lanes) (run_schedule c job lanes ws j) < steps_left c (length lanes) j
    \<or> run_schedule c job lanes ws j = j \<and> (\<forall>w \<in> set ws. worker_step c job lanes w j = None)"
    "steps_left c (length lanes) (run_schedule c job lanes ws j) \<le> steps_left c (length lanes) j" by auto
qed

lemma rounds_finish:
  assumes "pool_inv c job lanes s0 ord j" "steps_left c (length lanes) j \<le> k"
  shows "all_finished (run_schedule c job lanes (concat (replicate k [0..<length (pj_workers j)])) j)"
  using assms
proof (induction k arbitrary: ord j)
  case 0
  then have "phase_rank p = 0" if "p \<in> set (pj_workers j)" for p using that by (simp add: steps_left_def)
  then have "p = Finished" if "p \<in> set (pj_workers j)" for p using that by (cases p) fastforce+
  then show ?case by (simp add: all_finished_def)
next
  case (Suc k)
  let ?ws = "[0..<length (pj_workers j)]"
  let ?j = "run_schedule c job lanes ?ws j"
  obtain ord1 where i1: "pool_inv c job lanes s0 ord1 ?j" using run_schedule_inv [OF Suc.prems(1)] by blast
  have len: "length (pj_workers ?j) = length (pj_workers j)" by (rule run_schedule_workers)
  have "all_finished ?j \<or> steps_left c (length lanes) ?j \<le> k"
  proof -
    have "all_finished j" if "\<forall>w \<in> set ?ws. worker_step c job lanes w j = None"
      using that worker_can_step [of _ j c job lanes] by (auto simp: all_finished_def in_set_conv_nth)
    then show ?thesis using round_progress(1) [OF Suc.prems(1), of ?ws] Suc.prems(2) by auto
  qed
  then show ?case
  proof
    assume "all_finished ?j"
    then show ?thesis by (simp add: run_schedule_append finished_stays)
  next
    assume "steps_left c (length lanes) ?j \<le> k"
    from Suc.IH [OF i1 this] show ?thesis by (simp add: run_schedule_append len)
  qed
qed

lemma lanes_in_order:
  "k \<le> length lanes \<Longrightarrow> codes_seq job (drop k lanes) (run_lanes job lanes [0..<k] s) = map (\<lambda>l. snd (lane_effect job (lanes ! l) s)) [k..<length lanes]
    \<and> fold (\<lambda>d s. fst (lane_effect job d s)) (drop k lanes) (run_lanes job lanes [0..<k] s) = run_lanes job lanes [0..<length lanes] s"
proof (induction "length lanes - k" arbitrary: k)
  case (Suc m)
  then have k: "k < length lanes" by simp
  have d: "drop k lanes = lanes ! k # drop (Suc k) lanes" using Cons_nth_drop_Suc [OF k] by simp
  have c: "snd (lane_effect job (lanes ! k) (run_lanes job lanes [0..<k] s)) = snd (lane_effect job (lanes ! k) s)"
    by (rule run_lanes_code) (use k in auto)
  have r: "fst (lane_effect job (lanes ! k) (run_lanes job lanes [0..<k] s)) = run_lanes job lanes [0..<Suc k] s"
    by (simp add: run_lanes_def)
  have u: "[k..<length lanes] = k # [Suc k..<length lanes]" using k by (simp add: upt_rec)
  show ?case using Suc.hyps(1) [of "Suc k"] Suc.hyps(2) k by (simp add: d c r u)
qed simp

lemma serial_in_order:
  "codes_seq job lanes s = map (\<lambda>l. snd (lane_effect job (lanes ! l) s)) [0..<length lanes]"
  "fold (\<lambda>d s. fst (lane_effect job d s)) lanes s = run_lanes job lanes [0..<length lanes] s"
  using lanes_in_order [of 0 s] by (simp_all add: run_lanes_def)

end

section \<open>Separate dispatchers as lanes\<close>

text \<open>The \<open>i\<close>-th of several dispatchers, each with a machine of its own.\<close>

definition machine_at :: "nat \<Rightarrow> (machine \<Rightarrow> machine \<times> 'r) \<Rightarrow> machine list \<Rightarrow> machine list \<times> 'r" where
  "machine_at i f ms = (let (m, r) = f (ms ! i) in (ms[i := m], r))"

definition machine_lane :: "(nat \<Rightarrow> frame_id set \<Rightarrow> frame_id list) \<Rightarrow> nat \<Rightarrow> machine list lane" where
  "machine_lane iter i =
     \<lparr>lane_createProcess = (\<lambda>process now. machine_at i (\<lambda>d. Dispatcher_createProcess iter d process now)),
      lane_dispatch = (\<lambda>budget. machine_at i (\<lambda>d. Dispatcher_dispatch d budget)),
      lane_terminateProcess = (\<lambda>pid now. machine_at i (\<lambda>d. Dispatcher_terminateProcess d pid now)),
      lane_tick = (\<lambda>ms. ms[i := Dispatcher_tick (ms ! i)]),
      lane_processCount = (\<lambda>ms. Dispatcher_processCount (ms ! i)),
      lane_hasProcess = (\<lambda>ms. Dispatcher_hasProcess (ms ! i))\<rparr>"

definition machine_lanes :: "(nat \<Rightarrow> frame_id set \<Rightarrow> frame_id list) \<Rightarrow> nat \<Rightarrow> machine list lane list" where
  "machine_lanes iter n = map (machine_lane iter) [0..<n]"

fun machine_effect :: "job_kind \<Rightarrow> machine \<Rightarrow> machine \<times> error_code" where
  "machine_effect (JobDispatch budget) d = (fst (Dispatcher_dispatch d budget), case snd (Dispatcher_dispatch d budget) of Ok _ \<Rightarrow> OkCode | Error e \<Rightarrow> e)"
| "machine_effect JobTick d = (Dispatcher_tick d, NotFound)"

lemma machine_lane_effect:
  "lane_effect job (machine_lane iter i) ms = (ms[i := fst (machine_effect job (ms ! i))], snd (machine_effect job (ms ! i)))"
  by (cases job) (simp_all add: lane_effect_def machine_lane_def machine_at_def split: prod.splits)

interpretation machines: independent_lanes "machine_lanes iter n" job for iter n job
proof
  fix i k :: nat and s :: "machine list"
  assume l: "i < length (machine_lanes iter n)" "k < length (machine_lanes iter n)" "i \<noteq> k"
  show "fst (lane_effect job (machine_lanes iter n ! i) (fst (lane_effect job (machine_lanes iter n ! k) s)))
      = fst (lane_effect job (machine_lanes iter n ! k) (fst (lane_effect job (machine_lanes iter n ! i) s)))"
    using l by (simp add: machine_lanes_def machine_lane_effect list_update_swap)
  show "snd (lane_effect job (machine_lanes iter n ! i) (fst (lane_effect job (machine_lanes iter n ! k) s)))
      = snd (lane_effect job (machine_lanes iter n ! i) s)"
    using l by (simp add: machine_lanes_def machine_lane_effect)
qed

lemma dispatch_error_code: "snd (Dispatcher_dispatch d budget) \<noteq> Error OkCode"
proof -
  have sel: "r \<noteq> Error OkCode" if "Scheduler_selectNext sch store now = (s, r)" for sch store now s r
    using that by (auto simp: Scheduler_selectNext_def selectNextForLane_nolock_def start_candidate_def Let_def
        split: if_splits option.splits result.splits prod.splits list.splits)
  have stop: "snd (dispatch_stop d pid reason) \<noteq> Error OkCode" for d pid reason
    by (auto simp: dispatch_stop_def Scheduler_blockProcess_def block_lane_def Scheduler_terminate_def Let_def
        split: stop_reason.splits if_splits option.splits result.splits prod.splits)
  show ?thesis
    using stop by (auto simp: Dispatcher_dispatch_def Let_def split: if_splits option.splits result.splits prod.splits dest: sel)
qed


lemma machine_lanes_length [simp]: "length (machine_lanes iter n) = n"
  by (simp add: machine_lanes_def)

lemma machine_serial:
  assumes "0 < n"
  shows "SerialDispatchRuntime_dispatch (machine_lanes iter n) budget ms
    = (run_lanes (JobDispatch budget) (machine_lanes iter n) [0..<n] ms,
       aggregateDispatchErrors (map (\<lambda>l. snd (lane_effect (JobDispatch budget) (machine_lanes iter n ! l) ms)) [0..<n]))"
proof -
  have ne: "machine_lanes iter n \<noteq> []" using assms by (simp add: machine_lanes_def)
  have "\<forall>d \<in> set (machine_lanes iter n). \<forall>s. snd (lane_dispatch d budget s) \<noteq> Error OkCode"
    using dispatch_error_code by (auto simp: machine_lanes_def machine_lane_def machine_at_def split: prod.splits) (metis snd_conv)
  from serial_loop_codes [OF this] show ?thesis
    using ne machines.serial_in_order [of "JobDispatch budget" iter n]
    by (simp add: SerialDispatchRuntime_dispatch_def aggregateDispatchErrors_def)
qed

lemma reset_inv:
  assumes "0 < length lanes" "0 < hostThreadCount c"
  shows "pool_inv c job lanes s [] (resetJobState (hostThreadCount c) (min (hostThreadCount c) (length lanes)) (length lanes) e s)"
proof -
  let ?n = "length lanes" and ?W = "min (hostThreadCount c) (length lanes)"
  let ?j = "resetJobState (hostThreadCount c) ?W ?n e s"
  have W: "0 < ?W" using assms by simp
  have none: "concat (map g (map Taking [0..<k])) = []" if "\<And>p. g (Taking p) = []" for g :: "worker_phase \<Rightarrow> nat list" and k
    using that by (induction k) simp_all
  have tr: "concat (map (map ev_sequence) (replicate k [])) = []" for k by (induction k) simp_all
  have "upto_lane ?n (map Taking [0..<?W] ! (l mod ?W)) \<le> l" for l
  proof -
    have "l mod ?W < ?W" by (rule mod_less_divisor [OF W])
    then show ?thesis by (simp del: min_less_iff_conj)
  qed
  then have "\<not> l < upto_lane ?n (map Taking [0..<?W] ! (l mod ?W))" for l by (simp add: not_less)
  then have "taken c ?n ?j = {}" by (simp add: taken_def resetJobState_def)
  then show ?thesis using assms W none [of held_lanes] none [of ran_lanes] tr
    by (simp add: pool_inv_def resetJobState_def run_lanes_def phase_ok_def)
qed

lemma sort_key_upt:
  assumes "mset (map f xs) = mset [0..<n]"
  shows "map f (sort_key f xs) = [0..<n]"
proof -
  have "sort [0..<n] = map f (sort_key f xs)" by (rule properties_for_sort) (use assms in simp_all)
  then show ?thesis by (simp add: sorted_sort_id)
qed

text \<open>
  C14: The worker pool is equivalent to the serial runtime. For lanes that are separate dispatchers, whenever a dispatch of
  the pool completes, under whatever schedule of its workers, with static or with dynamic assignment of the lanes,
  every machine is in the state the serial runtime gives and the reported result is the same; the trace has one
  event for each lane with the sequence numbers 0, 1, 2, ..., and in deterministic mode the recorded order is that of the
  lanes.
\<close>

theorem pool_equals_serial:
  assumes "DispatcherPool_dispatch can_start schedule (machine_lanes iter n) budget p ms = Some (p', ms', r)"
    and "0 < n" "snd (ensureWorkersStarted can_start p)" "HostThreadingConfig_isValid (dp_config p)"
  shows "(ms', r) = SerialDispatchRuntime_dispatch (machine_lanes iter n) budget ms
    \<and> map ev_sequence (DispatcherPool_lastTraceEvents p') = [0..<n]
    \<and> (deterministicMode (dp_config p) \<longrightarrow> DispatcherPool_lastDeterministicOrder p' = [0..<n])
    \<and> DispatcherPool_lastEpoch p' = Suc (dp_epochCounter p)"
proof -
  let ?lanes = "machine_lanes iter n" and ?c = "dp_config p" and ?job = "JobDispatch budget"
  have ne: "?lanes \<noteq> []" using assms(2) by (simp add: machine_lanes_def)
  have len: "0 < length ?lanes" "0 < hostThreadCount ?c" using assms(2,4) by (simp_all add: HostThreadingConfig_isValid_def)
  let ?p = "fst (ensureWorkersStarted can_start p)"
  obtain j where j: "pool_run schedule ?job ?lanes ?p ms = Some (p', j)" "ms' = pj_state j" "r = aggregateDispatchErrors (pj_laneErrors j)"
    using assms(1,3) ne by (auto simp: DispatcherPool_dispatch_def split_beta Let_def)
  then have f: "all_finished j" and p': "p' = mergeWorkerTraces j ?p"
    and run: "j = run_schedule ?c ?job ?lanes schedule (resetJobState (hostThreadCount ?c) (min (hostThreadCount ?c) (length ?lanes)) (length ?lanes) (dp_epochCounter p) ms)"
    by (auto simp: pool_run_def Let_def split: if_splits)
  obtain ord where i: "pool_inv ?c ?job ?lanes ms ord j"
    using machines.run_schedule_inv [OF reset_inv [OF len]] unfolding run by blast
  note v = machines.finished_job [OF i f]
  have seq: "map ev_sequence (sort_key ev_sequence (concat (pj_traces j))) = [0..<n]"
    by (rule sort_key_upt) (use v(4) in simp)
  have ep: "pj_epoch j = Suc (dp_epochCounter p)" unfolding run by (simp add: run_schedule_epoch resetJobState_def)
  show ?thesis using j(2,3) v(2,3) seq ep machine_serial [OF assms(2)]
    by (simp add: p' mergeWorkerTraces_def Let_def DispatcherPool_lastTraceEvents_def DispatcherPool_lastDeterministicOrder_def DispatcherPool_lastEpoch_def)
qed

lemma pool_rounds:
  assumes "0 < n" "HostThreadingConfig_isValid (dp_config p)"
  shows "DispatcherPool_dispatch can_start
      (prefix @ concat (replicate (3 * n + min (hostThreadCount (dp_config p)) n) [0..<min (hostThreadCount (dp_config p)) n]))
      (machine_lanes iter n) budget p ms \<noteq> None"
proof -
  let ?lanes = "machine_lanes iter n" and ?c = "dp_config p" and ?job = "JobDispatch budget"
  let ?W = "min (hostThreadCount ?c) n"
  let ?init = "resetJobState (hostThreadCount ?c) (min (hostThreadCount ?c) (length ?lanes)) (length ?lanes) (dp_epochCounter p) ms"
  let ?j = "run_schedule ?c ?job ?lanes prefix ?init"
  have len: "0 < length ?lanes" "0 < hostThreadCount ?c" using assms by (simp_all add: HostThreadingConfig_isValid_def)
  note i0 = reset_inv [OF len, of ?job ms "dp_epochCounter p"]
  obtain ord where i: "pool_inv ?c ?job ?lanes ms ord ?j" using machines.run_schedule_inv [OF i0] by blast
  have W: "length (pj_workers ?j) = ?W" by (simp only: run_schedule_workers) (simp add: resetJobState_def)
  have "sum_list (map phase_rank (map Taking [0..<k])) = k" for k by (induction k) simp_all
  then have "steps_left ?c n ?init \<le> 3 * n + ?W" by (simp add: steps_left_def resetJobState_def)
  moreover have "steps_left ?c n ?j \<le> steps_left ?c n ?init" using machines.round_progress(2) [OF i0] by simp
  ultimately have "steps_left ?c (length ?lanes) ?j \<le> 3 * n + ?W" by simp
  from machines.rounds_finish [OF i this, unfolded W] show ?thesis
    by (simp add: DispatcherPool_dispatch_def pool_run_def Let_def run_schedule_append split_beta)
qed


text \<open>
  No deadlock in the worker pool. However the workers have been scheduled so far, going round the active workers
  three times the number of lanes plus once the number of workers completes the dispatch.
\<close>

theorem pool_completes:
  assumes "0 < n" "HostThreadingConfig_isValid (dp_config p)"
  shows "DispatcherPool_dispatch can_start
      (prefix @ concat (replicate (3 * n + min (hostThreadCount (dp_config p)) n) [0..<min (hostThreadCount (dp_config p)) n]))
      (machine_lanes iter n) budget p ms \<noteq> None"
  by (rule pool_rounds [OF assms])

text \<open>Two separate empty machines under a pool of two threads that steal work, and under one schedule of them.\<close>

definition demo_pool :: dispatcher_pool where
  "demo_pool = DispatcherPool_new \<lparr>hostThreadCount = 2, deterministicMode = False, workStealingEnabled = True\<rparr>"

lemma demo_pool_valid: "HostThreadingConfig_isValid (dp_config demo_pool)"
  by (simp add: demo_pool_def DispatcherPool_new_def normalizePoolConfig_eq normalized_valid)

theorem pool_completes_witness:
  "DispatcherPool_dispatch True ([1, 1, 0, 1] @ concat (replicate 8 [0, 1])) (machine_lanes (\<lambda>_. sorted_list_of_set) 2) 4 demo_pool
     [demo_machine, demo_machine] \<noteq> None"
proof -
  have "hostThreadCount (dp_config demo_pool) = 2" by code_simp
  then show ?thesis
    using pool_completes [OF _ demo_pool_valid, of 2 True "[1, 1, 0, 1]" "\<lambda>_. sorted_list_of_set" 4 "[demo_machine, demo_machine]"]
    by (simp add: upt_rec)
qed

theorem pool_equals_serial_witness:
  "\<exists>p'. DispatcherPool_dispatch True ([1, 1, 0, 1] @ concat (replicate 8 [0, 1])) (machine_lanes (\<lambda>_. sorted_list_of_set) 2) 4 demo_pool
     [demo_machine, demo_machine] = Some (p', [demo_machine, demo_machine], Error NotFound)
   \<and> map ev_sequence (DispatcherPool_lastTraceEvents p') = [0, 1]"
proof -
  let ?d = "DispatcherPool_dispatch True ([1, 1, 0, 1] @ concat (replicate 8 [0, 1])) (machine_lanes (\<lambda>_. sorted_list_of_set) 2) 4 demo_pool
     [demo_machine, demo_machine]"
  have h: "hostThreadCount (dp_config demo_pool) = 2" by code_simp
  obtain p' ms' r where d: "?d = Some (p', ms', r)"
    using pool_rounds [OF _ demo_pool_valid, of 2 True "[1, 1, 0, 1]" "\<lambda>_. sorted_list_of_set" 4 "[demo_machine, demo_machine]"] h
    by (auto simp: upt_rec)
  have e: "Dispatcher_dispatch demo_machine 4 = (demo_machine, Error NotFound)"
    by (simp add: Dispatcher_dispatch_def demo_machine_def machine_new_def)
  have "SerialDispatchRuntime_dispatch (machine_lanes (\<lambda>_. sorted_list_of_set) 2) 4 [demo_machine, demo_machine]
      = ([demo_machine, demo_machine], Error NotFound)"
    by (simp add: SerialDispatchRuntime_dispatch_def machine_lanes_def machine_lane_def machine_at_def upt_rec e lanes_outcome_def)
  then show ?thesis using pool_equals_serial [OF d _ _ demo_pool_valid] d
    by (simp add: upt_rec ensureWorkersStarted_def demo_pool_def DispatcherPool_new_def)
qed


section \<open>Routing by process id\<close>

text \<open>Every process is on the lane its id selects.\<close>

definition mp_inv :: "nat \<Rightarrow> machine list \<Rightarrow> bool" where
  "mp_inv n ms \<longleftrightarrow> length ms = n \<and> (\<forall>i < n. machine_inv (ms ! i) \<and> (\<forall>p \<in> dom (m_images (ms ! i)). unat p mod n = i))"

datatype mp_op =
    MpCreate "nat \<Rightarrow> frame_id set \<Rightarrow> frame_id list" "process_image option" tick
  | MpDispatch nat
  | MpTerminate process_id tick
  | MpTick

fun mp_exec :: "mp_op \<Rightarrow> machine list \<Rightarrow> machine list" where
  "mp_exec (MpCreate iter process now) ms = fst (MPDispatcher_createProcess (machine_lanes iter (length ms)) process now ms)"
| "mp_exec (MpDispatch budget) ms = fst (MPDispatcher_dispatch serial_runtime (machine_lanes (\<lambda>_. sorted_list_of_set) (length ms)) budget ms)"
| "mp_exec (MpTerminate pid now) ms = fst (MPDispatcher_terminateProcess (machine_lanes (\<lambda>_. sorted_list_of_set) (length ms)) pid now ms)"
| "mp_exec MpTick ms = MPDispatcher_tick serial_runtime (machine_lanes (\<lambda>_. sorted_list_of_set) (length ms)) ms"

fun mp_op_ok :: "mp_op \<Rightarrow> bool" where
  "mp_op_ok (MpCreate iter process now) \<longleftrightarrow> (\<forall>k. iter_ok (iter k))
     \<and> (\<forall>im. process = Some im \<longrightarrow> pcb_state (im_pcb im) = New \<and> length (im_code im) \<le> 2 ^ 32)"
| "mp_op_ok _ \<longleftrightarrow> True"

lemma mp_invD:
  assumes "mp_inv n ms" "i < n"
  shows "machine_inv (ms ! i)" "p \<in> dom (m_images (ms ! i)) \<Longrightarrow> unat p mod n = i"
  using assms by (simp_all add: mp_inv_def)

lemma mp_inv_update:
  assumes "mp_inv n ms" "i < n" "machine_inv m" "\<forall>p \<in> dom (m_images m). unat p mod n = i"
  shows "mp_inv n (ms[i := m])"
  using assms by (auto simp: mp_inv_def nth_list_update)

text \<open>A list of lanes each of which keeps the invariant.\<close>

lemma mp_run_lanes:
  assumes "mp_inv n ms" "\<forall>l \<in> set ord. l < n"
    and "\<And>m. machine_inv m \<Longrightarrow> machine_inv (fst (machine_effect job m)) \<and> dom (m_images (fst (machine_effect job m))) \<subseteq> dom (m_images m)"
  shows "mp_inv n (run_lanes job (machine_lanes iter n) ord ms)"
  using assms(1,2)
proof (induction ord arbitrary: ms)
  case (Cons l ord)
  have l: "l < n" using Cons.prems by simp
  let ?m = "fst (machine_effect job (ms ! l))"
  have "mp_inv n (ms[l := ?m])"
    by (rule mp_inv_update [OF Cons.prems(1) l]) (use mp_invD [OF Cons.prems(1) l] assms(3) [of "ms ! l"] in blast)+
  from Cons.IH [OF this] show ?case using Cons.prems l
    by (simp add: run_lanes_def machine_lanes_def machine_lane_effect)
qed (simp add: run_lanes_def)

lemma dispatch_effect:
  "machine_inv m \<Longrightarrow> machine_inv (fst (machine_effect (JobDispatch b) m)) \<and> dom (m_images (fst (machine_effect (JobDispatch b) m))) \<subseteq> dom (m_images m)"
  using dispatch_view [OF _ prod.collapse [symmetric], of m b, THEN conjunct1] dispatch_images [OF _ prod.collapse [symmetric], of m b] by auto

lemma tick_effect:
  "machine_inv m \<Longrightarrow> machine_inv (fst (machine_effect JobTick m)) \<and> dom (m_images (fst (machine_effect JobTick m))) \<subseteq> dom (m_images m)"
  by (simp add: Dispatcher_tick_def machine_inv_def)

lemma lane_has: "i < n \<Longrightarrow> lane_hasProcess (machine_lanes iter n ! i) ms p = Dispatcher_hasProcess (ms ! i) p"
  by (simp add: machine_lanes_def machine_lane_def)

lemma mp_home:
  assumes "mp_inv n ms" "i < n" "Dispatcher_hasProcess (ms ! i) p"
  shows "i = unat p mod n"
  using mp_invD(2) [OF assms(1,2), of p] assms(3) by (simp add: Dispatcher_hasProcess_def domIff)

lemma mp_has:
  assumes "mp_inv n ms"
  shows "MPDispatcher_hasProcess (machine_lanes iter n) ms p \<longleftrightarrow> 0 < n \<and> Dispatcher_hasProcess (ms ! (unat p mod n)) p"
proof -
  have "MPDispatcher_hasProcess (machine_lanes iter n) ms p \<longleftrightarrow> (\<exists>i < n. Dispatcher_hasProcess (ms ! i) p)"
    by (force simp: MPDispatcher_hasProcess_def machine_lanes_def machine_lane_def)
  also have "\<dots> \<longleftrightarrow> 0 < n \<and> Dispatcher_hasProcess (ms ! (unat p mod n)) p"
  proof
    assume "\<exists>i < n. Dispatcher_hasProcess (ms ! i) p"
    then obtain i where i: "i < n" "Dispatcher_hasProcess (ms ! i) p" by blast
    have "i = unat p mod n" by (rule mp_home [OF assms i])
    then show "0 < n \<and> Dispatcher_hasProcess (ms ! (unat p mod n)) p" using i by (metis gr_zeroI less_zeroE)
  next
    assume "0 < n \<and> Dispatcher_hasProcess (ms ! (unat p mod n)) p"
    then show "\<exists>i < n. Dispatcher_hasProcess (ms ! i) p" by (intro exI [of _ "unat p mod n"]) simp
  qed
  finally show ?thesis .
qed

text \<open>The search of \<^verbatim>\<open>terminateProcess\<close> ends at the home lane, or finds nothing.\<close>

lemma mp_terminate_search:
  assumes "\<forall>d \<in> set ds. lane_hasProcess d s pid \<longrightarrow> d = h" "h \<in> set ds"
  shows "MPDispatcher_terminateProcess ds pid now s
    = (if lane_hasProcess h s pid then lane_terminateProcess h pid now s else (s, Error NotFound))"
proof -
  have none: "MPDispatcher_terminateProcess ds pid now s = (s, Error NotFound)" if "\<forall>d \<in> set ds. \<not> lane_hasProcess d s pid" for ds
    using that by (induction ds) auto
  have "MPDispatcher_terminateProcess ds pid now s = lane_terminateProcess h pid now s" if "lane_hasProcess h s pid"
    using assms
  proof (induction ds)
    case (Cons d ds)
    show ?case
    proof (cases "lane_hasProcess d s pid")
      case True
      then have "d = h" using Cons.prems(1) by (meson list.set_intros(1))
      then show ?thesis using that by (simp only: MPDispatcher_terminateProcess.simps if_True)
    next
      case False
      then have "h \<in> set ds" using Cons.prems(2) that by (metis set_ConsD)
      moreover have "\<forall>d \<in> set ds. lane_hasProcess d s pid \<longrightarrow> d = h" using Cons.prems(1) by (meson list.set_intros(2))
      ultimately have "MPDispatcher_terminateProcess ds pid now s = lane_terminateProcess h pid now s" by (intro Cons.IH)
      then show ?thesis using False by (simp only: MPDispatcher_terminateProcess.simps if_False)
    qed
  qed simp
  moreover have "\<forall>d \<in> set ds. \<not> lane_hasProcess d s pid" if "\<not> lane_hasProcess h s pid" using assms(1) that by blast
  ultimately show ?thesis using none [of ds] by (cases "lane_hasProcess h s pid") simp_all
qed

lemma mp_terminate:
  assumes i: "mp_inv n ms" and n: "0 < n"
  shows "MPDispatcher_terminateProcess (machine_lanes iter n) pid now ms
    = (let h = unat pid mod n; (m, r) = Dispatcher_terminateProcess (ms ! h) pid now in (ms[h := m], r))"
proof -
  let ?h = "unat pid mod n"
  have h: "?h < n" using n by simp
  have mem: "machine_lanes iter n ! ?h \<in> set (machine_lanes iter n)" using h by simp
  have "d = machine_lanes iter n ! ?h" if d: "d \<in> set (machine_lanes iter n)" "lane_hasProcess d ms pid" for d
  proof -
    obtain k where k: "k < n" "d = machine_lanes iter n ! k" using d(1) by (auto simp: in_set_conv_nth)
    then have "k = ?h" using mp_home [OF i] d(2) lane_has by blast
    then show ?thesis using k by simp
  qed
  then have "MPDispatcher_terminateProcess (machine_lanes iter n) pid now ms
    = (if lane_hasProcess (machine_lanes iter n ! ?h) ms pid then lane_terminateProcess (machine_lanes iter n ! ?h) pid now ms else (ms, Error NotFound))"
    by (intro mp_terminate_search [OF _ mem]) blast
  also have "\<dots> = (let (m, r) = Dispatcher_terminateProcess (ms ! ?h) pid now in (ms[?h := m], r))"
  proof (cases "Dispatcher_hasProcess (ms ! ?h) pid")
    case True
    then show ?thesis using h by (simp add: lane_has) (simp add: machine_lanes_def machine_lane_def machine_at_def)
  next
    case False
    then have "Dispatcher_terminateProcess (ms ! ?h) pid now = (ms ! ?h, Error NotFound)"
      by (simp add: Dispatcher_terminateProcess_def Dispatcher_hasProcess_def)
    then show ?thesis using h False by (simp add: lane_has)
  qed
  finally show ?thesis by (simp add: Let_def)
qed


lemma mp_create:
  assumes i: "mp_inv n ms" and n: "0 < n" and p: "ProcessImage_id im \<noteq> INVALID_PID"
  shows "MPDispatcher_createProcess (machine_lanes iter n) (Some im) now ms
    = (let h = unat (ProcessImage_id im) mod n; (m, r) = Dispatcher_createProcess iter (ms ! h) (Some im) now in (ms[h := m], r))"
  using assms by (simp add: MPDispatcher_createProcess_def machine_lanes_def machine_lane_def machine_at_def Let_def)

lemma mp_create_inv:
  assumes i: "mp_inv n ms" and n: "0 < n" and ok: "mp_op_ok (MpCreate iter process now)"
  shows "mp_inv n (fst (MPDispatcher_createProcess (machine_lanes iter n) process now ms))"
proof (cases "\<exists>im. process = Some im \<and> ProcessImage_id im \<noteq> INVALID_PID")
  case False
  then show ?thesis using i by (auto simp: MPDispatcher_createProcess_def split: option.splits)
next
  case True
  then obtain im where im: "process = Some im" "ProcessImage_id im \<noteq> INVALID_PID" by blast
  let ?h = "unat (ProcessImage_id im) mod n"
  have h: "?h < n" using n by simp
  obtain m r where c: "Dispatcher_createProcess iter (ms ! ?h) (Some im) now = (m, r)" by fastforce
  note v = createProcess_view [OF mp_invD(1) [OF i h] _ _ _ c]
  have mi: "machine_inv m" using v ok im by simp
  have dom: "dom (m_images m) \<subseteq> insert (ProcessImage_id im) (dom (m_images (ms ! ?h)))"
    using v ok im by (cases r) (auto split: if_splits)
  have "mp_inv n (ms[?h := m])"
    by (rule mp_inv_update [OF i h mi]) (use dom mp_invD(2) [OF i h] in blast)
  then show ?thesis using mp_create [OF i n im(2)] im(1) c by simp
qed

lemma mp_exec_inv:
  assumes i: "mp_inv n ms" and n: "0 < n" and ok: "mp_op_ok oper"
  shows "mp_inv n (mp_exec oper ms)"
proof -
  have len: "length ms = n" using i by (simp add: mp_inv_def)
  show ?thesis
  proof (cases oper)
    case (MpCreate iter process now)
    then show ?thesis using mp_create_inv [OF i n] ok by (simp add: len)
  next
    case (MpDispatch b)
    then show ?thesis using mp_run_lanes [OF i _ dispatch_effect, of "[0..<n]"] machine_serial [OF n]
      by (simp add: MPDispatcher_dispatch_def serial_runtime_def len)
  next
    case (MpTerminate pid now)
    let ?h = "unat pid mod n"
    have h: "?h < n" using n by simp
    obtain m r where t: "Dispatcher_terminateProcess (ms ! ?h) pid now = (m, r)" by fastforce
    note v = terminateProcess_view [OF mp_invD(1) [OF i h] t]
    have "mp_inv n (ms[?h := m])" by (rule mp_inv_update [OF i h]) (use v mp_invD(2) [OF i h] in \<open>auto split: if_splits\<close>)
    then show ?thesis using MpTerminate mp_terminate [OF i n] t by (simp add: len)
  next
    case MpTick
    have e: "(\<lambda>d s. fst (lane_effect JobTick d s)) = lane_tick" by (simp add: lane_effect_def fun_eq_iff)
    have "SerialDispatchRuntime_tick (machine_lanes iter n) ms = run_lanes JobTick (machine_lanes iter n) [0..<n] ms" for iter
      using machines.serial_in_order(2) [of JobTick iter n ms] unfolding e by (simp add: SerialDispatchRuntime_tick_def)
    then show ?thesis using MpTick mp_run_lanes [OF i _ tick_effect, of "[0..<n]"]
      by (simp add: MPDispatcher_tick_def serial_runtime_def len)
  qed
qed

lemma mp_run_inv: "mp_inv n ms \<Longrightarrow> 0 < n \<Longrightarrow> \<forall>oper \<in> set ops. mp_op_ok oper \<Longrightarrow> mp_inv n (fold mp_exec ops ms)"
  by (induction ops arbitrary: ms) (simp_all add: mp_exec_inv)

text \<open>
  C17: Routing of the multiprocessor dispatcher. After any sequence of creations, dispatches, ticks and terminations through
  it, over dispatchers with machines of their own that were empty, a process is on the lane its id modulo the number
  of lanes selects and on no other lane. Hence a second creation under the same id is refused wherever the first went,
  termination reaches the process, and the process count of all lanes counts every process once.
\<close>

theorem mp_routing:
  assumes "0 < length ms" "\<forall>m \<in> set ms. machine_inv m \<and> m_images m = Map.empty"
    and "\<forall>oper \<in> set ops. mp_op_ok oper" "ms' = fold mp_exec ops ms" "n = length ms"
  shows "(\<forall>i < n. Dispatcher_hasProcess (ms' ! i) p \<longrightarrow> i = unat p mod n)
    \<and> (MPDispatcher_hasProcess (machine_lanes iter n) ms' p \<longleftrightarrow> Dispatcher_hasProcess (ms' ! (unat p mod n)) p)
    \<and> (MPDispatcher_hasProcess (machine_lanes iter n) ms' p \<and> ProcessImage_id im = p \<and> p \<noteq> INVALID_PID \<longrightarrow>
         MPDispatcher_createProcess (machine_lanes iter n) (Some im) now ms' = (ms', Error AlreadyExists))
    \<and> snd (MPDispatcher_terminateProcess (machine_lanes iter n) p now ms')
        = (if MPDispatcher_hasProcess (machine_lanes iter n) ms' p then Ok () else Error NotFound)
    \<and> MPDispatcher_processCount (machine_lanes iter n) ms' = card {q. MPDispatcher_hasProcess (machine_lanes iter n) ms' q}"
proof -
  have "mp_inv n ms" using assms(2,5) by (auto simp: mp_inv_def)
  then have i: "mp_inv n ms'" unfolding assms(4) using assms(1,3,5) by (intro mp_run_inv) auto
  have n: "0 < n" using assms(1,5) by simp
  let ?h = "unat p mod n"
  have h: "?h < n" using n by simp
  have len: "length ms' = n" using i by (simp add: mp_inv_def)
  have again: "MPDispatcher_createProcess (machine_lanes iter n) (Some im) now ms' = (ms', Error AlreadyExists)"
    if "Dispatcher_hasProcess (ms' ! ?h) p" "ProcessImage_id im = p" "p \<noteq> INVALID_PID"
    using mp_create [OF i n, of im iter now] that h by (simp add: Dispatcher_createProcess_def Dispatcher_hasProcess_def len)
  have tm: "snd (MPDispatcher_terminateProcess (machine_lanes iter n) p now ms') = (if Dispatcher_hasProcess (ms' ! ?h) p then Ok () else Error NotFound)"
    using mp_terminate [OF i n, of iter p now] terminateProcess_view [OF mp_invD(1) [OF i h] prod.collapse [symmetric], of p now]
    by (simp add: Let_def split: prod.splits)
  have "MPDispatcher_processCount (machine_lanes iter n) ms' = (\<Sum>k < n. card (dom (m_images (ms' ! k))))"
    by (simp add: MPDispatcher_processCount_def machine_lanes_def machine_lane_def Dispatcher_processCount_def comp_def
        sum_list_distinct_conv_sum_set lessThan_atLeast0)
  also have "\<dots> = card (\<Union>k < n. dom (m_images (ms' ! k)))"
  proof (rule card_UN_disjoint [symmetric])
    show "\<forall>k \<in> {..<n}. finite (dom (m_images (ms' ! k)))"
      using machine_invD(4,5) mp_invD(1) [OF i] by (metis lessThan_iff vm_inv_def)
    show "\<forall>k \<in> {..<n}. \<forall>l \<in> {..<n}. k \<noteq> l \<longrightarrow> dom (m_images (ms' ! k)) \<inter> dom (m_images (ms' ! l)) = {}"
      using mp_invD(2) [OF i] by blast
  qed simp
  also have "(\<Union>k < n. dom (m_images (ms' ! k))) = {q. MPDispatcher_hasProcess (machine_lanes iter n) ms' q}"
    by (force simp: MPDispatcher_hasProcess_def machine_lanes_def machine_lane_def Dispatcher_hasProcess_def)
  finally show ?thesis using mp_home [OF i] mp_has [OF i] n again tm by simp
qed

theorem mp_routing_witness:
  "MPDispatcher_createProcess (machine_lanes (\<lambda>_. sorted_list_of_set) 2) (Some (halt_image 5)) 0
     (mp_exec (MpCreate (\<lambda>_. sorted_list_of_set) (Some (halt_image 5)) 0) [demo_machine, demo_machine])
   = (mp_exec (MpCreate (\<lambda>_. sorted_list_of_set) (Some (halt_image 5)) 0) [demo_machine, demo_machine], Error AlreadyExists)"
proof -
  let ?ops = "[MpCreate (\<lambda>_. sorted_list_of_set) (Some (halt_image 5)) 0]" and ?ms = "[demo_machine, demo_machine]"
  have img: "m_images demo_machine = Map.empty" by (simp add: demo_machine_def machine_new_def)
  have ok: "\<forall>oper \<in> set ?ops. mp_op_ok oper" by (simp add: iter_ok_sorted)
  have ms: "\<forall>m \<in> set ?ms. machine_inv m \<and> m_images m = Map.empty" using demo_machine_inv img by simp
  have i: "mp_inv 2 ?ms" using ms by (auto simp: mp_inv_def less_2_cases_iff)
  have h: "unat (5 :: process_id) mod 2 = 1" by simp
  obtain m r where c: "Dispatcher_createProcess (\<lambda>_. sorted_list_of_set) demo_machine (Some (halt_image 5)) 0 = (m, r)" by fastforce
  note v = createProcess_view [OF demo_machine_inv _ _ _ c]
  have "r = Ok ()" using v img demo_free by (simp add: iter_ok_sorted INVALID_PID_def)
  then have "\<exists>im. m_images m = [5 \<mapsto> im]" using v img by (auto simp: iter_ok_sorted)
  moreover have len: "length ?ms = 2" by simp
  have "mp_exec (hd ?ops) ?ms = [demo_machine, m]" unfolding list.sel mp_exec.simps len
    using mp_create [OF i _, of "halt_image 5" "\<lambda>_. sorted_list_of_set" 0] c h by (simp add: INVALID_PID_def)
  ultimately have "Dispatcher_hasProcess (mp_exec (hd ?ops) ?ms ! 1) 5" by (auto simp: Dispatcher_hasProcess_def)
  then show ?thesis
    using mp_routing [of ?ms ?ops _ 2 5 "\<lambda>_. sorted_list_of_set" "halt_image 5" 0, OF _ ms ok refl] h by (simp add: INVALID_PID_def)
qed

end
