(* ===== verification/Pool_Protocol.thy ===== *)
theory Pool_Protocol
  imports Dispatch_Runtime
begin

text \<open>
  The threads of \<^verbatim>\<open>dispatch/dispatcher_pool.cpp\<close>: how a job is handed to them, how its completion is awaited and how they are
  stopped (\<^verbatim>\<open>workerLoop\<close>, \<^verbatim>\<open>resetJobState\<close>, \<^verbatim>\<open>waitForJobCompletion\<close>, \<^verbatim>\<open>stopWorkers\<close>). What a worker does with a lane is in the
  theory of the dispatch runtimes; here its work on a job is one step. A section under the mutex is one step, and a wait on a
  condition variable is a step that is possible when its predicate holds, since both waits test it again after a wake-up and both
  notifications follow every change that can make it true. The pool has one caller.
\<close>

section \<open>The monitor\<close>

text \<open>Where a worker is in \<^verbatim>\<open>workerLoop\<close>, with its \<^verbatim>\<open>seenJobToken\<close>.\<close>

datatype worker_loc = Waiting | Working | Reporting | Exited

record pool_worker =
  wk_loc :: worker_loc
  wk_seen :: nat

text \<open>Where the caller is: outside the pool, in \<^verbatim>\<open>waitForJobCompletion\<close>, joining the threads, or done with the pool.\<close>

datatype caller_loc = Outside_Pool | Awaiting | Joining | Destroyed

text \<open>
  The members of \<^verbatim>\<open>Impl\<close> the mutex protects. \<open>mo_lanes\<close> is the number of lanes behind the pointer, \<open>None\<close> for a null pointer. The last two
  are only observed: the jobs posted, with their token and number of active workers, and the work done, by worker and token.
\<close>

record pool_monitor =
  mo_stopping :: bool
  mo_jobToken :: nat
  mo_completed :: nat
  mo_job :: "job_kind option"
  mo_lanes :: "nat option"
  mo_active :: nat
  mo_workers :: "pool_worker list"
  mo_caller :: caller_loc
  mo_posted :: "(nat \<times> nat) list"
  mo_done :: "(nat \<times> nat) list"

definition monitor_new :: pool_monitor where
  "monitor_new = \<lparr>mo_stopping = False, mo_jobToken = 0, mo_completed = 0, mo_job = None, mo_lanes = None, mo_active = 0,
     mo_workers = [], mo_caller = Outside_Pool, mo_posted = [], mo_done = []\<rparr>"

datatype pool_action = StartThreads nat | PostJob job_kind nat | CompleteJob | StopThreads | JoinThreads
  | TakeJob nat | WorkOnJob nat | ReportJob nat | ExitThread nat

definition set_worker :: "nat \<Rightarrow> worker_loc \<Rightarrow> nat \<Rightarrow> pool_monitor \<Rightarrow> pool_monitor" where
  "set_worker w loc seen s = s\<lparr>mo_workers := (mo_workers s)[w := \<lparr>wk_loc = loc, wk_seen = seen\<rparr>]\<rparr>"

definition at_loc :: "pool_monitor \<Rightarrow> nat \<Rightarrow> worker_loc \<Rightarrow> bool" where
  "at_loc s w loc \<longleftrightarrow> w < length (mo_workers s) \<and> wk_loc (mo_workers s ! w) = loc"

definition start_threads :: "nat \<Rightarrow> pool_monitor \<Rightarrow> pool_monitor" where
  "start_threads n s = s\<lparr>mo_workers := replicate n \<lparr>wk_loc = Waiting, wk_seen = 0\<rparr>\<rparr>"

definition post_job :: "job_kind \<Rightarrow> nat \<Rightarrow> pool_monitor \<Rightarrow> pool_monitor" where
  "post_job job lanes s =
     (let active = min (length (mo_workers s)) lanes; token = mo_jobToken s + 1
      in s\<lparr>mo_job := Some job, mo_lanes := Some lanes, mo_active := active, mo_completed := 0, mo_jobToken := token,
           mo_caller := Awaiting, mo_posted := mo_posted s @ [(token, active)]\<rparr>)"

definition complete_job :: "pool_monitor \<Rightarrow> pool_monitor" where
  "complete_job s = s\<lparr>mo_job := None, mo_lanes := None, mo_active := 0, mo_caller := Outside_Pool\<rparr>"

definition stop_threads :: "pool_monitor \<Rightarrow> pool_monitor" where
  "stop_threads s = s\<lparr>mo_stopping := True, mo_jobToken := mo_jobToken s + 1, mo_caller := Joining\<rparr>"

definition take_job :: "nat \<Rightarrow> pool_monitor \<Rightarrow> pool_monitor" where
  "take_job w s =
     set_worker w (if mo_lanes s \<noteq> None \<and> w < mo_active s \<and> mo_job s \<noteq> None then Working else Reporting) (mo_jobToken s) s"

definition seen_by :: "pool_monitor \<Rightarrow> nat \<Rightarrow> nat" where
  "seen_by s w = wk_seen (mo_workers s ! w)"

text \<open>One step of the pool; \<open>None\<close> when the step is not possible.\<close>

fun pool_step :: "pool_action \<Rightarrow> pool_monitor \<Rightarrow> pool_monitor option" where
  "pool_step (StartThreads n) s =
     (if mo_caller s = Outside_Pool \<and> mo_workers s = [] \<and> 0 < n then Some (start_threads n s) else None)"
| "pool_step (PostJob job lanes) s =
     (if mo_caller s = Outside_Pool \<and> mo_workers s \<noteq> [] \<and> 0 < lanes then Some (post_job job lanes s) else None)"
| "pool_step CompleteJob s =
     (if mo_caller s = Awaiting \<and> mo_completed s = length (mo_workers s) then Some (complete_job s) else None)"
| "pool_step StopThreads s = (if mo_caller s = Outside_Pool then Some (stop_threads s) else None)"
| "pool_step JoinThreads s =
     (if mo_caller s = Joining \<and> (\<forall>w \<in> set (mo_workers s). wk_loc w = Exited) then Some (s\<lparr>mo_workers := [], mo_caller := Destroyed\<rparr>) else None)"
| "pool_step (TakeJob w) s =
     (if at_loc s w Waiting \<and> \<not> mo_stopping s \<and> mo_jobToken s \<noteq> seen_by s w then Some (take_job w s) else None)"
| "pool_step (WorkOnJob w) s =
     (if at_loc s w Working then Some ((set_worker w Reporting (seen_by s w) s)\<lparr>mo_done := mo_done s @ [(w, seen_by s w)]\<rparr>) else None)"
| "pool_step (ReportJob w) s =
     (if at_loc s w Reporting then Some ((set_worker w Waiting (seen_by s w) s)\<lparr>mo_completed := mo_completed s + 1\<rparr>) else None)"
| "pool_step (ExitThread w) s =
     (if at_loc s w Waiting \<and> mo_stopping s then Some (set_worker w Exited (seen_by s w) s) else None)"

inductive pool_reachable :: "pool_monitor \<Rightarrow> bool" where
  new: "pool_reachable monitor_new"
| step: "pool_reachable s \<Longrightarrow> pool_step a s = Some s' \<Longrightarrow> pool_reachable s'"

section \<open>The invariant\<close>

text \<open>The workers that have completed the current job, and those that still have to work on it.\<close>

definition reported :: "pool_monitor \<Rightarrow> nat set" where
  "reported s = {w. at_loc s w Waiting \<and> seen_by s w = mo_jobToken s}"

definition pending :: "pool_monitor \<Rightarrow> nat set" where
  "pending s = {w. w < mo_active s \<and> (at_loc s w Working \<or> at_loc s w Waiting \<and> seen_by s w \<noteq> mo_jobToken s)}"

definition assigned :: "pool_monitor \<Rightarrow> (nat \<times> nat) set" where
  "assigned s = {(w, t). \<exists>a. (t, a) \<in> set (mo_posted s) \<and> w < a}"

fun caller_inv :: "caller_loc \<Rightarrow> pool_monitor \<Rightarrow> bool" where
  "caller_inv Outside_Pool s \<longleftrightarrow> \<not> mo_stopping s \<and> mo_lanes s = None \<and> mo_active s = 0
     \<and> (\<forall>w < length (mo_workers s). at_loc s w Waiting \<and> seen_by s w = mo_jobToken s) \<and> (mo_workers s = [] \<longrightarrow> mo_jobToken s = 0)"
| "caller_inv Awaiting s \<longleftrightarrow> \<not> mo_stopping s \<and> mo_lanes s \<noteq> None \<and> mo_job s \<noteq> None \<and> mo_workers s \<noteq> [] \<and> mo_active s \<le> length (mo_workers s)
     \<and> mo_completed s = card (reported s) \<and> (mo_jobToken s, mo_active s) \<in> set (mo_posted s)
     \<and> (\<forall>w < length (mo_workers s). at_loc s w Waiting \<or> (at_loc s w Working \<and> w < mo_active s \<or> at_loc s w Reporting) \<and> seen_by s w = mo_jobToken s)"
| "caller_inv Joining s \<longleftrightarrow> mo_stopping s \<and> mo_active s = 0 \<and> (\<forall>w < length (mo_workers s). at_loc s w Waiting \<or> at_loc s w Exited)"
| "caller_inv Destroyed s \<longleftrightarrow> mo_stopping s \<and> mo_active s = 0 \<and> mo_workers s = []"

definition pool_inv :: "pool_monitor \<Rightarrow> bool" where
  "pool_inv s \<longleftrightarrow> caller_inv (mo_caller s) s \<and> distinct (map fst (mo_posted s)) \<and> (\<forall>(t, a) \<in> set (mo_posted s). t \<le> mo_jobToken s)
     \<and> distinct (mo_done s) \<and> set (mo_done s) = assigned s - {(w, t). w \<in> pending s \<and> t = mo_jobToken s}"

lemma set_worker_simps [simp]:
  "mo_stopping (set_worker w l n s) = mo_stopping s" "mo_jobToken (set_worker w l n s) = mo_jobToken s" "mo_completed (set_worker w l n s) = mo_completed s"
  "mo_job (set_worker w l n s) = mo_job s" "mo_lanes (set_worker w l n s) = mo_lanes s" "mo_active (set_worker w l n s) = mo_active s"
  "mo_caller (set_worker w l n s) = mo_caller s" "mo_posted (set_worker w l n s) = mo_posted s" "mo_done (set_worker w l n s) = mo_done s"
  "length (mo_workers (set_worker w l n s)) = length (mo_workers s)" "mo_workers (set_worker w l n s) = [] \<longleftrightarrow> mo_workers s = []"
  by (simp_all add: set_worker_def)

lemma at_loc_set: "at_loc s w m \<Longrightarrow> at_loc (set_worker w l n s) v k \<longleftrightarrow> (if v = w then k = l else at_loc s v k)"
  by (auto simp: at_loc_def set_worker_def nth_list_update)

lemma seen_by_set: "at_loc s w m \<Longrightarrow> seen_by (set_worker w l n s) v = (if v = w then n else seen_by s v)"
  by (auto simp: at_loc_def seen_by_def set_worker_def nth_list_update)

lemma at_loc_length: "at_loc s w l \<Longrightarrow> w < length (mo_workers s)"
  by (simp add: at_loc_def)

lemma at_loc_fun: "at_loc s w l \<Longrightarrow> at_loc s w k \<Longrightarrow> l = k"
  by (simp add: at_loc_def)

lemma at_loc_upd [simp]:
  "at_loc (s\<lparr>mo_done := d\<rparr>) = at_loc s" "at_loc (s\<lparr>mo_completed := n\<rparr>) = at_loc s"
  "seen_by (s\<lparr>mo_done := d\<rparr>) = seen_by s" "seen_by (s\<lparr>mo_completed := n\<rparr>) = seen_by s"
  by (simp_all add: at_loc_def seen_by_def fun_eq_iff)

lemma finite_reported [simp]: "finite (reported s)"
  by (rule finite_subset [of _ "{..<length (mo_workers s)}"]) (auto simp: reported_def at_loc_def)

lemma new_inv: "pool_inv monitor_new"
  by (simp add: pool_inv_def monitor_new_def assigned_def)

lemma caller_of_worker:
  assumes "pool_inv s" "at_loc s w l" "l \<in> {Working, Reporting} \<or> l = Waiting \<and> \<not> mo_stopping s \<and> mo_jobToken s \<noteq> seen_by s w"
  shows "mo_caller s = Awaiting" "l = Working \<Longrightarrow> w < mo_active s" "l \<noteq> Waiting \<Longrightarrow> seen_by s w = mo_jobToken s"
proof -
  have c: "caller_inv (mo_caller s) s" using assms(1) by (simp add: pool_inv_def)
  have len: "w < length (mo_workers s)" by (rule at_loc_length [OF assms(2)])
  show a: "mo_caller s = Awaiting"
    using c len assms(2,3) at_loc_fun by (cases "mo_caller s") fastforce+
  show "w < mo_active s" if "l = Working" using c a len assms(2) that at_loc_fun by fastforce
  show "seen_by s w = mo_jobToken s" if "l \<noteq> Waiting" using c a len assms(2) that at_loc_fun by fastforce
qed

lemma taken_inv:
  assumes i: "pool_inv s" and w: "at_loc s w Waiting" "\<not> mo_stopping s" "mo_jobToken s \<noteq> seen_by s w"
  shows "pool_inv (take_job w s)"
proof -
  note c = caller_of_worker(1) [OF i w(1)]
  have a: "mo_caller s = Awaiting" using c w by blast
  then have ci: "caller_inv Awaiting s" using i by (simp add: pool_inv_def)
  have r: "reported (take_job w s) = reported s"
    using w by (auto simp: reported_def take_job_def at_loc_set [OF w(1)] seen_by_set [OF w(1)] split: if_splits)
  have p: "pending (take_job w s) = pending s"
    using w ci by (auto simp: pending_def take_job_def at_loc_set [OF w(1)] seen_by_set [OF w(1)] split: if_splits)
  show ?thesis using i a ci r p w
    by (auto simp: pool_inv_def assigned_def take_job_def at_loc_set [OF w(1)] seen_by_set [OF w(1)])
qed

lemma work_inv:
  assumes i: "pool_inv s" and w: "at_loc s w Working"
  shows "pool_inv ((set_worker w Reporting (seen_by s w) s)\<lparr>mo_done := mo_done s @ [(w, seen_by s w)]\<rparr>)" (is "pool_inv ?s")
proof -
  note c = caller_of_worker [OF i w]
  have a: "mo_caller s = Awaiting" "w < mo_active s" "seen_by s w = mo_jobToken s" using c by auto
  then have ci: "caller_inv Awaiting s" using i by (simp add: pool_inv_def)
  have r: "reported ?s = reported s"
    using a(3) w at_loc_fun by (fastforce simp: reported_def at_loc_set [OF w] seen_by_set [OF w] split: if_splits)
  have pw: "w \<in> pending s" using w a by (simp add: pending_def)
  have p: "pending ?s = pending s - {w}"
    using a w by (auto simp: pending_def at_loc_set [OF w] seen_by_set [OF w] split: if_splits)
  have new: "(w, mo_jobToken s) \<in> assigned s" using ci a(2) by (auto simp: assigned_def)
  have "(w, mo_jobToken s) \<notin> set (mo_done s)" using i pw by (auto simp: pool_inv_def)
  moreover have "assigned ?s = assigned s" by (simp add: assigned_def)
  moreover have "caller_inv Awaiting ?s" using ci r a by (auto simp: at_loc_set [OF w] seen_by_set [OF w])
  ultimately show ?thesis using i a p new pw by (auto simp: pool_inv_def)
qed

lemma report_inv:
  assumes i: "pool_inv s" and w: "at_loc s w Reporting"
  shows "pool_inv ((set_worker w Waiting (seen_by s w) s)\<lparr>mo_completed := mo_completed s + 1\<rparr>)" (is "pool_inv ?s")
proof -
  note c = caller_of_worker [OF i w]
  have a: "mo_caller s = Awaiting" "seen_by s w = mo_jobToken s" using c by auto
  then have ci: "caller_inv Awaiting s" using i by (simp add: pool_inv_def)
  have "reported ?s = insert w (reported s)" "w \<notin> reported s"
    using a(2) w at_loc_fun by (fastforce simp: reported_def at_loc_set [OF w] seen_by_set [OF w] split: if_splits)+
  then have r: "card (reported ?s) = Suc (card (reported s))" by simp
  have p: "pending ?s = pending s"
    using a w at_loc_fun by (fastforce simp: pending_def at_loc_set [OF w] seen_by_set [OF w] split: if_splits)
  have "assigned ?s = assigned s" by (simp add: assigned_def)
  moreover have "caller_inv Awaiting ?s" using ci r a by (auto simp: at_loc_set [OF w] seen_by_set [OF w])
  ultimately show ?thesis using i a p by (simp add: pool_inv_def)
qed

lemma idle_pending: "mo_active s = 0 \<Longrightarrow> pending s = {}"
  by (simp add: pending_def)

lemma post_inv:
  assumes i: "pool_inv s" and c: "mo_caller s = Outside_Pool" "mo_workers s \<noteq> []"
  shows "pool_inv (post_job job lanes s)" (is "pool_inv ?s")
proof -
  have ci: "caller_inv Outside_Pool s" using i c by (simp add: pool_inv_def)
  have locs: "at_loc ?s = at_loc s" "seen_by ?s = seen_by s" by (simp_all add: post_job_def at_loc_def seen_by_def Let_def fun_eq_iff)
  have old: "\<forall>(t, a) \<in> set (mo_posted s). t \<le> mo_jobToken s" "set (mo_done s) = assigned s" using i ci by (auto simp: pool_inv_def idle_pending)
  have f: "mo_jobToken ?s = Suc (mo_jobToken s)" "mo_active ?s = min (length (mo_workers s)) lanes" "mo_posted ?s = mo_posted s @ [(mo_jobToken ?s, mo_active ?s)]"
    "mo_workers ?s = mo_workers s" "mo_done ?s = mo_done s" "mo_caller ?s = Awaiting" "mo_completed ?s = 0" "mo_stopping ?s = mo_stopping s"
    "mo_job ?s = Some job" "mo_lanes ?s = Some lanes"
    by (simp_all add: post_job_def Let_def)
  have idle: "at_loc s w Waiting \<and> seen_by s w = mo_jobToken s" if "w < length (mo_workers s)" for w using ci that by simp
  have p: "pending ?s = {..<mo_active ?s}" unfolding pending_def locs f using idle by auto
  have r: "reported ?s = {}" unfolding reported_def locs f using idle at_loc_length by fastforce
  have as: "assigned ?s = assigned s \<union> {(w, t). w < mo_active ?s \<and> t = mo_jobToken ?s}" unfolding assigned_def f(3) by auto
  have "(w, mo_jobToken ?s) \<notin> assigned s" for w using old(1) by (auto simp: assigned_def f(1))
  then have "set (mo_done s) = assigned ?s - {(w, t). w \<in> pending ?s \<and> t = mo_jobToken ?s}" using old(2) as p by auto
  moreover have "caller_inv Awaiting ?s" using ci c(2) idle by (simp add: locs f r)
  moreover have "mo_jobToken ?s \<notin> fst ` set (mo_posted s)" using old(1) by (auto simp: f(1))
  ultimately show ?thesis using i old(1) by (auto simp: pool_inv_def f)
qed

lemma all_reported:
  assumes ci: "caller_inv Awaiting s" and n: "mo_completed s = length (mo_workers s)"
  shows "\<forall>w < length (mo_workers s). at_loc s w Waiting \<and> seen_by s w = mo_jobToken s" "pending s = {}"
proof -
  have "reported s \<subseteq> {..<length (mo_workers s)}" by (auto simp: reported_def at_loc_def)
  moreover have "card (reported s) = card {..<length (mo_workers s)}" using ci n by simp
  ultimately have r: "reported s = {..<length (mo_workers s)}" by (intro card_subset_eq) auto
  then show all: "\<forall>w < length (mo_workers s). at_loc s w Waiting \<and> seen_by s w = mo_jobToken s" by (auto simp: reported_def)
  have "\<not> at_loc s w Working" "at_loc s w Waiting \<Longrightarrow> seen_by s w = mo_jobToken s" for w
    using all at_loc_fun [of s w Waiting Working] at_loc_length [of s w] by auto
  then show "pending s = {}" by (auto simp: pending_def)
qed

lemma complete_inv:
  assumes i: "pool_inv s" and c: "mo_caller s = Awaiting" "mo_completed s = length (mo_workers s)"
  shows "pool_inv (complete_job s)" (is "pool_inv ?s")
proof -
  have ci: "caller_inv Awaiting s" using i c by (simp add: pool_inv_def)
  note r = all_reported [OF ci c(2)]
  have locs: "at_loc ?s = at_loc s" "seen_by ?s = seen_by s" by (simp_all add: complete_job_def at_loc_def seen_by_def fun_eq_iff)
  have f: "mo_workers ?s = mo_workers s" "mo_jobToken ?s = mo_jobToken s" "mo_posted ?s = mo_posted s" "mo_done ?s = mo_done s" "mo_active ?s = 0"
    "mo_caller ?s = Outside_Pool" "mo_stopping ?s = mo_stopping s" "mo_lanes ?s = None" by (simp_all add: complete_job_def)
  have "caller_inv Outside_Pool ?s" using ci r(1) by (simp add: f locs)
  then show ?thesis using i r(2) idle_pending [of ?s] by (simp add: pool_inv_def f assigned_def)
qed

lemma other_inv:
  assumes i: "pool_inv s"
  shows "mo_caller s = Outside_Pool \<Longrightarrow> mo_workers s = [] \<Longrightarrow> pool_inv (start_threads n s)"
    "mo_caller s = Outside_Pool \<Longrightarrow> pool_inv (stop_threads s)"
    "mo_caller s = Joining \<Longrightarrow> pool_inv (s\<lparr>mo_workers := [], mo_caller := Destroyed\<rparr>)"
    "at_loc s w Waiting \<Longrightarrow> mo_stopping s \<Longrightarrow> pool_inv (set_worker w Exited (seen_by s w) s)"
proof -
  have old: "caller_inv (mo_caller s) s" using i by (simp add: pool_inv_def)
  show "pool_inv (start_threads n s)" if c: "mo_caller s = Outside_Pool" "mo_workers s = []"
    using i old c by (auto simp: pool_inv_def start_threads_def assigned_def idle_pending at_loc_def seen_by_def)
  show "pool_inv (stop_threads s)" if c: "mo_caller s = Outside_Pool"
    using i old c by (auto simp: pool_inv_def stop_threads_def assigned_def idle_pending at_loc_def)
  show "pool_inv (s\<lparr>mo_workers := [], mo_caller := Destroyed\<rparr>)" if c: "mo_caller s = Joining"
    using i old c by (auto simp: pool_inv_def assigned_def idle_pending)
  show "pool_inv (set_worker w Exited (seen_by s w) s)" if w: "at_loc s w Waiting" and "mo_stopping s"
  proof -
    have c: "mo_caller s = Joining" using old that at_loc_length [OF w] by (cases "mo_caller s") auto
    then show ?thesis using i old by (auto simp: pool_inv_def assigned_def idle_pending at_loc_set [OF w])
  qed
qed

lemma step_inv: "pool_inv s \<Longrightarrow> pool_step a s = Some s' \<Longrightarrow> pool_inv s'"
  using taken_inv work_inv report_inv post_inv complete_inv other_inv by (cases a) (auto split: if_splits)

lemma reachable_inv: "pool_reachable s \<Longrightarrow> pool_inv s"
  by (induction rule: pool_reachable.induct) (auto intro: new_inv step_inv)

section \<open>Progress\<close>

text \<open>The calls of the owner; the other steps happen by themselves once possible.\<close>

fun pool_call :: "pool_action \<Rightarrow> bool" where
  "pool_call (StartThreads n) = True" | "pool_call (PostJob job lanes) = True" | "pool_call StopThreads = True" | "pool_call _ = False"

fun pool_steps :: "pool_action list \<Rightarrow> pool_monitor \<Rightarrow> pool_monitor option" where
  "pool_steps [] s = Some s"
| "pool_steps (a # as) s = (case pool_step a s of None \<Rightarrow> None | Some s' \<Rightarrow> pool_steps as s')"

text \<open>The steps a worker still has to make, and the pool.\<close>

fun worker_left :: "nat \<Rightarrow> bool \<Rightarrow> pool_worker \<Rightarrow> nat" where
  "worker_left token stopping k =
     (case wk_loc k of Waiting \<Rightarrow> if stopping then 1 else if wk_seen k = token then 0 else 3 | Working \<Rightarrow> 2 | Reporting \<Rightarrow> 1 | Exited \<Rightarrow> 0)"

definition steps_left :: "pool_monitor \<Rightarrow> nat" where
  "steps_left s =
     (if mo_caller s \<in> {Awaiting, Joining} then 1 + sum_list (map (worker_left (mo_jobToken s) (mo_stopping s)) (mo_workers s)) else 0)"

lemma steps_left_bound: "steps_left s \<le> 3 * length (mo_workers s) + 1"
proof -
  have "sum_list (map (worker_left t b) ws) \<le> 3 * length ws" for t b ws
    by (induction ws) (auto split: worker_loc.split)
  then show ?thesis by (simp add: steps_left_def)
qed

lemma set_worker_left:
  assumes "w < length (mo_workers s)" "mo_caller s \<in> {Awaiting, Joining}"
    "worker_left (mo_jobToken s) (mo_stopping s) \<lparr>wk_loc = l, wk_seen = n\<rparr> < worker_left (mo_jobToken s) (mo_stopping s) (mo_workers s ! w)"
  shows "steps_left (set_worker w l n s) < steps_left s"
proof -
  let ?f = "worker_left (mo_jobToken s) (mo_stopping s)"
  let ?ns = "map ?f (mo_workers s)" and ?n = "?f \<lparr>wk_loc = l, wk_seen = n\<rparr>"
  have "map ?f (mo_workers (set_worker w l n s)) = ?ns[w := ?n]" by (simp add: set_worker_def map_update)
  then have left: "steps_left (set_worker w l n s) = 1 + (sum_list ?ns + ?n - ?ns ! w)"
    using assms(1,2) by (simp add: steps_left_def sum_list_update)
  have "?ns ! w \<le> sum_list ?ns" by (rule elem_le_sum_list) (use assms(1) in simp)
  then show ?thesis using assms left by (simp add: steps_left_def)
qed

lemma steps_left_upd [simp]: "steps_left (s\<lparr>mo_done := d\<rparr>) = steps_left s" "steps_left (s\<lparr>mo_completed := n\<rparr>) = steps_left s"
  by (simp_all add: steps_left_def)

lemma step_decreases:
  assumes i: "pool_inv s" and a: "pool_step a s = Some s'" "\<not> pool_call a"
  shows "steps_left s' < steps_left s \<and> length (mo_workers s') \<le> length (mo_workers s)"
proof (cases a)
  case CompleteJob
  then show ?thesis using a by (auto simp: steps_left_def complete_job_def split: if_splits)
next
  case JoinThreads
  then show ?thesis using a by (auto simp: steps_left_def split: if_splits)
next
  case (TakeJob w)
  then have w: "at_loc s w Waiting" "\<not> mo_stopping s" "mo_jobToken s \<noteq> seen_by s w" "s' = take_job w s" using a by (auto split: if_splits)
  then show ?thesis using caller_of_worker(1) [OF i w(1)]
    by (auto simp: take_job_def at_loc_def seen_by_def intro!: set_worker_left)
next
  case (WorkOnJob w)
  then have w: "at_loc s w Working" using a by (auto split: if_splits)
  then have "mo_caller s = Awaiting" using caller_of_worker(1) [OF i w] by simp
  moreover have "s' = (set_worker w Reporting (seen_by s w) s)\<lparr>mo_done := mo_done s @ [(w, seen_by s w)]\<rparr>" using a WorkOnJob by (auto split: if_splits)
  ultimately show ?thesis using w by (auto simp: at_loc_def intro!: set_worker_left)
next
  case (ReportJob w)
  then have w: "at_loc s w Reporting" using a by (auto split: if_splits)
  then have c: "mo_caller s = Awaiting" "seen_by s w = mo_jobToken s" using caller_of_worker [OF i w] by auto
  then have "\<not> mo_stopping s" using i by (simp add: pool_inv_def)
  moreover have "s' = (set_worker w Waiting (seen_by s w) s)\<lparr>mo_completed := mo_completed s + 1\<rparr>" using a ReportJob by (auto split: if_splits)
  ultimately show ?thesis using w c by (auto simp: at_loc_def intro!: set_worker_left)
next
  case (ExitThread w)
  then have w: "at_loc s w Waiting" "mo_stopping s" "s' = set_worker w Exited (seen_by s w) s" using a by (auto split: if_splits)
  have "mo_caller s = Joining" using i w(2) at_loc_length [OF w(1)] by (cases "mo_caller s") (auto simp: pool_inv_def)
  then show ?thesis using w by (auto simp: at_loc_def intro!: set_worker_left)
qed (use a in auto)

lemma step_possible:
  assumes i: "pool_inv s" and c: "mo_caller s \<in> {Awaiting, Joining}"
  shows "\<exists>a s'. \<not> pool_call a \<and> pool_step a s = Some s'"
proof (cases "mo_caller s = Awaiting")
  case True
  then have ci: "caller_inv Awaiting s" using i by (simp add: pool_inv_def)
  show ?thesis
  proof (cases "mo_completed s = length (mo_workers s)")
    case False
    have "reported s \<noteq> {..<length (mo_workers s)}" using ci False by (metis caller_inv.simps(2) card_lessThan)
    then obtain w where w: "w < length (mo_workers s)" "w \<notin> reported s" by (auto simp: reported_def at_loc_def)
    then consider "at_loc s w Waiting" "seen_by s w \<noteq> mo_jobToken s" | "at_loc s w Working" | "at_loc s w Reporting"
      using ci by (auto simp: reported_def)
    then show ?thesis
    proof cases
      case 1
      then show ?thesis using ci by (intro exI [of _ "TakeJob w"]) auto
    next
      case 2
      then show ?thesis by (intro exI [of _ "WorkOnJob w"]) auto
    next
      case 3
      then show ?thesis by (intro exI [of _ "ReportJob w"]) auto
    qed
  qed (use True in \<open>auto intro!: exI [of _ CompleteJob]\<close>)
next
  case False
  then have j: "mo_caller s = Joining" "caller_inv Joining s" using i c by (auto simp: pool_inv_def)
  show ?thesis
  proof (cases "\<forall>w \<in> set (mo_workers s). wk_loc w = Exited")
    case False
    then obtain w where "w < length (mo_workers s)" "\<not> at_loc s w Exited" by (auto simp: in_set_conv_nth at_loc_def)
    then show ?thesis using j(2) by (intro exI [of _ "ExitThread w"]) auto
  qed (use j in \<open>auto intro!: exI [of _ JoinThreads]\<close>)
qed

lemma steps_inv: "pool_inv s \<Longrightarrow> pool_steps as s = Some s' \<Longrightarrow> pool_inv s'"
  by (induction as arbitrary: s) (auto split: option.splits intro: step_inv)

lemma steps_bounded:
  "pool_inv s \<Longrightarrow> pool_steps as s = Some s' \<Longrightarrow> \<forall>a \<in> set as. \<not> pool_call a \<Longrightarrow> length as + steps_left s' \<le> steps_left s"
proof (induction as arbitrary: s)
  case (Cons a as)
  obtain s1 where s1: "pool_step a s = Some s1" "pool_steps as s1 = Some s'" using Cons.prems(2) by (auto split: option.splits)
  have "length as + steps_left s' \<le> steps_left s1" using Cons.IH [OF step_inv [OF Cons.prems(1) s1(1)] s1(2)] Cons.prems(3) by simp
  then show ?case using step_decreases [OF Cons.prems(1) s1(1)] Cons.prems(3) by simp
qed simp

text \<open>
  C18: Every job is done, once, and by nobody else. In every state the threads of the pool can reach, a worker uses the lanes of a job
  only while the caller that owns them waits for this job; no worker works on a job twice, or on one it was not assigned to;
  and whenever the caller is not waiting, or is about to return from waiting, every assigned worker has done every job posted so far.
\<close>

theorem pool_protocol:
  assumes "pool_reachable s"
  shows "(\<forall>w. at_loc s w Working \<longrightarrow> mo_caller s = Awaiting \<and> mo_lanes s \<noteq> None \<and> seen_by s w = mo_jobToken s)
    \<and> distinct (mo_done s) \<and> set (mo_done s) \<subseteq> {(w, t). \<exists>a. (t, a) \<in> set (mo_posted s) \<and> w < a}
    \<and> (mo_caller s \<noteq> Awaiting \<or> pool_step CompleteJob s \<noteq> None \<longrightarrow> set (mo_done s) = {(w, t). \<exists>a. (t, a) \<in> set (mo_posted s) \<and> w < a})"
proof -
  note i = reachable_inv [OF assms]
  have set: "set (mo_done s) = assigned s - {(w, t). w \<in> pending s \<and> t = mo_jobToken s}" "distinct (mo_done s)" and ci: "caller_inv (mo_caller s) s"
    using i by (simp_all add: pool_inv_def)
  have "mo_caller s = Awaiting \<and> mo_lanes s \<noteq> None \<and> seen_by s w = mo_jobToken s" if w: "at_loc s w Working" for w
    using caller_of_worker [OF i w] ci by auto
  moreover have "pending s = {}" if "mo_caller s \<noteq> Awaiting \<or> pool_step CompleteJob s \<noteq> None"
  proof (cases "mo_caller s = Awaiting")
    case True
    then show ?thesis using that ci all_reported(2) by (auto split: if_splits)
  next
    case False
    then have "mo_active s = 0" using ci by (cases "mo_caller s") auto
    then show ?thesis by (rule idle_pending)
  qed
  ultimately show ?thesis using set unfolding assigned_def by blast
qed


lemma run_reachable: "pool_steps as s = Some s' \<Longrightarrow> pool_reachable s \<Longrightarrow> pool_reachable s'"
  by (induction as arbitrary: s) (auto split: option.splits intro: pool_reachable.step)

definition demo_monitor :: pool_monitor where
  "demo_monitor = the (pool_steps [StartThreads 3, PostJob (JobDispatch 4) 2, TakeJob 0, TakeJob 2, WorkOnJob 0, ReportJob 2, TakeJob 1, ReportJob 0] monitor_new)"

lemma demo_monitor_reachable: "pool_reachable demo_monitor"
proof (rule run_reachable [OF _ pool_reachable.new])
  show "pool_steps [StartThreads 3, PostJob (JobDispatch 4) 2, TakeJob 0, TakeJob 2, WorkOnJob 0, ReportJob 2, TakeJob 1, ReportJob 0] monitor_new = Some demo_monitor"
    by code_simp
qed

theorem pool_protocol_witness:
  "at_loc demo_monitor 1 Working \<and> mo_caller demo_monitor = Awaiting \<and> set (mo_done demo_monitor) \<subseteq> {(w, t). \<exists>a. (t, a) \<in> set (mo_posted demo_monitor) \<and> w < a}"
proof -
  have "at_loc demo_monitor 1 Working" by code_simp
  then show ?thesis using pool_protocol [OF demo_monitor_reachable] by blast
qed


end
