(* ===== verification/Block_Store.thy ===== *)
theory Block_Store
  imports Prelude
begin

text \<open>
  What the filesystem is built on: the block allocator of \<^verbatim>\<open>fs/block_allocator.cpp\<close> and the table of open files of
  \<^verbatim>\<open>fs/file_descriptor.cpp\<close>. The locale \<open>block_pool\<close> states what the filesystem relies on of an allocator (a block is
  handed out to one owner at a time, and an allocation fails only when no block is free); it is interpreted on
  \<open>BlockAllocator_allocate\<close> and \<open>BlockAllocator_free\<close>. File descriptors are \<^verbatim>\<open>int32_t\<close> values kept as 32-bit words;
  incrementing the counter past the largest one is the unspecified value of the prelude.
\<close>

section \<open>The block allocator\<close>

record block_allocator =
  freeBitmap :: "bool list"
  freeCount :: nat

definition BlockAllocator_new :: "nat \<Rightarrow> block_allocator" where
  "BlockAllocator_new totalBlocks = \<lparr>freeBitmap = replicate totalBlocks True, freeCount = totalBlocks\<rparr>"

text \<open>The scan for the first free block from an index on.\<close>

fun first_free :: "bool list \<Rightarrow> nat \<Rightarrow> nat option" where
  "first_free [] i = None"
| "first_free (b # bs) i = (if \<not> b then first_free bs (Suc i) else Some i)"

definition BlockAllocator_allocate :: "block_allocator \<Rightarrow> block_allocator \<times> nat result" where
  "BlockAllocator_allocate a =
     (if freeCount a = 0 then (a, Error OutOfMemory)
      else case first_free (freeBitmap a) 0 of
             Some i \<Rightarrow> (a\<lparr>freeBitmap := (freeBitmap a)[i := False], freeCount := freeCount a - 1\<rparr>, Ok i)
           | None \<Rightarrow> (a, Error OutOfMemory))"

definition BlockAllocator_free :: "block_allocator \<Rightarrow> nat \<Rightarrow> block_allocator \<times> unit result" where
  "BlockAllocator_free a blockIndex =
     (if length (freeBitmap a) \<le> blockIndex then (a, Error InvalidAddress)
      else if freeBitmap a ! blockIndex then (a, Error InvalidState)
      else (a\<lparr>freeBitmap := (freeBitmap a)[blockIndex := True], freeCount := freeCount a + 1\<rparr>, Ok ()))"

definition BlockAllocator_isFree :: "block_allocator \<Rightarrow> nat \<Rightarrow> bool" where
  "BlockAllocator_isFree a blockIndex =
     (if length (freeBitmap a) \<le> blockIndex then False else freeBitmap a ! blockIndex)"

definition BlockAllocator_totalBlocks :: "block_allocator \<Rightarrow> nat" where
  "BlockAllocator_totalBlocks a = length (freeBitmap a)"

definition BlockAllocator_freeBlocks :: "block_allocator \<Rightarrow> nat" where
  "BlockAllocator_freeBlocks a = freeCount a"

definition BlockAllocator_reset :: "block_allocator \<Rightarrow> block_allocator" where
  "BlockAllocator_reset a =
     a\<lparr>freeBitmap := replicate (length (freeBitmap a)) True, freeCount := length (freeBitmap a)\<rparr>"

section \<open>File descriptors\<close>

type_synonym file_descriptor = "32 word"
type_synonym open_mode = "8 word"

definition FileDescriptor_valid :: "file_descriptor \<Rightarrow> bool" where
  "FileDescriptor_valid fd \<longleftrightarrow> 0 \<le> sint fd"

definition ModeNone :: open_mode where "ModeNone = 0"
definition ModeRead :: open_mode where "ModeRead = push_bit 0 1"
definition ModeWrite :: open_mode where "ModeWrite = push_bit 1 1"
definition ModeCreate :: open_mode where "ModeCreate = push_bit 2 1"
definition ModeTruncate :: open_mode where "ModeTruncate = push_bit 3 1"
definition ModeAppend :: open_mode where "ModeAppend = push_bit 4 1"

definition hasOpenMode :: "open_mode \<Rightarrow> open_mode \<Rightarrow> bool" where
  "hasOpenMode value flag \<longleftrightarrow> value AND flag \<noteq> 0"

record open_file_state =
  of_inodeId :: inode_id
  of_offset :: nat
  of_mode :: open_mode

record file_descriptor_table =
  fd_entries :: "file_descriptor \<rightharpoonup> open_file_state"
  nextFd :: file_descriptor

definition FileDescriptorTable_new :: file_descriptor_table where
  "FileDescriptorTable_new = \<lparr>fd_entries = Map.empty, nextFd = 0\<rparr>"

text \<open>\<^verbatim>\<open>emplace\<close> keeps an entry that is already there.\<close>

definition FileDescriptorTable_open ::
  "file_descriptor_table \<Rightarrow> open_file_state \<Rightarrow> file_descriptor_table \<times> file_descriptor result" where
  "FileDescriptorTable_open t st =
     (let fd = nextFd t
      in (t\<lparr>nextFd := s_add fd 1,
            fd_entries := (if fd_entries t fd = None then (fd_entries t)(fd \<mapsto> st) else fd_entries t)\<rparr>, Ok fd))"

definition FileDescriptorTable_close ::
  "file_descriptor_table \<Rightarrow> file_descriptor \<Rightarrow> file_descriptor_table \<times> unit result" where
  "FileDescriptorTable_close t fd =
     (if fd_entries t fd = None then (t, Error NotFound)
      else (t\<lparr>fd_entries := (fd_entries t)(fd := None)\<rparr>, Ok ()))"

definition FileDescriptorTable_get :: "file_descriptor_table \<Rightarrow> file_descriptor \<Rightarrow> open_file_state result" where
  "FileDescriptorTable_get t fd = (case fd_entries t fd of None \<Rightarrow> Error NotFound | Some st \<Rightarrow> Ok st)"

definition FileDescriptorTable_set ::
  "file_descriptor_table \<Rightarrow> file_descriptor \<Rightarrow> open_file_state \<Rightarrow> file_descriptor_table \<times> unit result" where
  "FileDescriptorTable_set t fd st =
     (if fd_entries t fd = None then (t, Error NotFound)
      else (t\<lparr>fd_entries := (fd_entries t)(fd \<mapsto> st)\<rparr>, Ok ()))"

definition FileDescriptorTable_contains :: "file_descriptor_table \<Rightarrow> file_descriptor \<Rightarrow> bool" where
  "FileDescriptorTable_contains t fd \<longleftrightarrow> fd_entries t fd \<noteq> None"

definition FileDescriptorTable_openCount :: "file_descriptor_table \<Rightarrow> nat" where
  "FileDescriptorTable_openCount t = card (dom (fd_entries t))"

section \<open>The contract of an allocator\<close>

text \<open>
  \<open>inv\<close> is the provider's invariant, \<open>isFree\<close> the view the client has of a state. A client may rely on: an
  allocated block was free and is the only one that changes, allocation fails only when nothing is free and then changes
  nothing, and a block in use can be returned.
\<close>

locale block_pool =
  fixes allocate :: "'a \<Rightarrow> 'a \<times> nat result"
    and free :: "'a \<Rightarrow> nat \<Rightarrow> 'a \<times> unit result"
    and isFree :: "'a \<Rightarrow> nat \<Rightarrow> bool"
    and total :: "'a \<Rightarrow> nat"
    and inv :: "'a \<Rightarrow> bool"
  assumes allocate_ok: "\<lbrakk>inv a; allocate a = (a', Ok b)\<rbrakk> \<Longrightarrow> inv a' \<and> isFree a b \<and> isFree a' = (isFree a)(b := False) \<and> total a' = total a"
    and allocate_error: "\<lbrakk>inv a; allocate a = (a', Error e)\<rbrakk> \<Longrightarrow> a' = a \<and> e = OutOfMemory \<and> (\<forall>b. \<not> isFree a b)"
    and free_ok: "\<lbrakk>inv a; b < total a; \<not> isFree a b\<rbrakk> \<Longrightarrow> \<exists>a'. free a b = (a', Ok ()) \<and> inv a' \<and> isFree a' = (isFree a)(b := True) \<and> total a' = total a"
    and isFree_bound: "isFree a b \<Longrightarrow> b < total a"
begin

definition used :: "'a \<Rightarrow> nat set" where
  "used a = {b. b < total a \<and> \<not> isFree a b}"

lemma finite_used: "finite (used a)"
  by (simp add: used_def)

lemma allocate_used:
  assumes "inv a" "allocate a = (a', Ok b)"
  shows "b \<notin> used a" "used a' = insert b (used a)"
proof -
  note al = allocate_ok [OF assms]
  show "b \<notin> used a" using al by (simp add: used_def)
  show "used a' = insert b (used a)" using al isFree_bound [of a b] by (auto simp: used_def)
qed

text \<open>An allocation succeeds exactly when some block is not in use.\<close>

lemma allocate_iff:
  assumes "inv a"
  shows "isOk (snd (allocate a)) \<longleftrightarrow> card (used a) < total a"
proof (cases "allocate a")
  case (Pair a' r)
  show ?thesis
  proof (cases r)
    case (Ok b)
    then have "used a \<subset> {..<total a}" using allocate_ok [OF assms, of a' b] isFree_bound [of a b] Pair by (auto simp: used_def)
    from psubset_card_mono [OF _ this] show ?thesis using Ok Pair by simp
  next
    case (Error e)
    then have "used a = {..<total a}" using allocate_error [OF assms, of a' e] Pair by (auto simp: used_def)
    then show ?thesis using Error Pair by simp
  qed
qed

end

section \<open>The allocator provides it\<close>

definition alloc_inv :: "block_allocator \<Rightarrow> bool" where
  "alloc_inv a \<longleftrightarrow> freeCount a = length (filter id (freeBitmap a))"

lemma first_free_Some:
  assumes "first_free bs i = Some k"
  shows "i \<le> k \<and> k - i < length bs \<and> bs ! (k - i) \<and> (\<forall>m < k - i. \<not> bs ! m)"
  using assms
proof (induction bs i rule: first_free.induct)
  case (2 b bs i)
  show ?case
  proof (cases b)
    case False
    then have "Suc i \<le> k \<and> k - Suc i < length bs \<and> bs ! (k - Suc i) \<and> (\<forall>m < k - Suc i. \<not> bs ! m)" using 2 by simp
    moreover from this have "k - i = Suc (k - Suc i)" by linarith
    ultimately show ?thesis using False by (auto simp: nth_Cons split: nat.splits)
  qed (use 2 in simp)
qed simp

lemma first_free_None: "first_free bs i = None \<longleftrightarrow> True \<notin> set bs"
  by (induction bs i rule: first_free.induct) auto

lemma count_update:
  assumes "i < length bs"
  shows "length (filter id (bs[i := v])) + (if bs ! i then 1 else 0) = length (filter id bs) + (if v then 1 else 0)"
  using assms
proof (induction bs arbitrary: i)
  case (Cons b bs)
  then show ?case
  proof (cases i)
    case (Suc k)
    then show ?thesis using Cons.IH [of k] Cons.prems by (cases v; cases "bs ! k") simp_all
  qed simp
qed simp

lemma count_pos: "i < length bs \<Longrightarrow> bs ! i \<Longrightarrow> 0 < length (filter id bs)"
  using count_update [of i bs False] by (cases "filter id bs") auto

lemma isFree_nth: "b < length (freeBitmap a) \<Longrightarrow> BlockAllocator_isFree a b = freeBitmap a ! b"
  by (simp add: BlockAllocator_isFree_def)

lemma alloc_inv_new [simp]: "alloc_inv (BlockAllocator_new n)"
  by (simp add: alloc_inv_def BlockAllocator_new_def)

lemma allocate_cases:
  assumes "alloc_inv a"
  obtains (full) "True \<notin> set (freeBitmap a)" "BlockAllocator_allocate a = (a, Error OutOfMemory)"
  | (got) i where "i < length (freeBitmap a)" "freeBitmap a ! i" "\<forall>m < i. \<not> freeBitmap a ! m"
      "BlockAllocator_allocate a = (a\<lparr>freeBitmap := (freeBitmap a)[i := False], freeCount := freeCount a - 1\<rparr>, Ok i)"
proof (cases "first_free (freeBitmap a) 0")
  case None
  then show ?thesis using that(1) first_free_None [of "freeBitmap a" 0] by (simp add: BlockAllocator_allocate_def)
next
  case (Some i)
  note ff = first_free_Some [OF Some]
  have "0 < freeCount a" using count_pos [of i "freeBitmap a"] ff assms by (simp add: alloc_inv_def)
  then show ?thesis using that(2) [of i] ff Some by (simp add: BlockAllocator_allocate_def)
qed

interpretation blocks: block_pool BlockAllocator_allocate BlockAllocator_free BlockAllocator_isFree BlockAllocator_totalBlocks alloc_inv
proof unfold_locales
  fix a a' b
  assume i: "alloc_inv a" and e: "BlockAllocator_allocate a = (a', Ok b)"
  from i show "alloc_inv a' \<and> BlockAllocator_isFree a b \<and> BlockAllocator_isFree a' = (BlockAllocator_isFree a)(b := False)
      \<and> BlockAllocator_totalBlocks a' = BlockAllocator_totalBlocks a"
  proof (cases rule: allocate_cases)
    case (got i)
    then show ?thesis using e count_update [of i "freeBitmap a" False] \<open>alloc_inv a\<close>
      by (auto simp: alloc_inv_def BlockAllocator_isFree_def BlockAllocator_totalBlocks_def nth_list_update fun_eq_iff)
  qed (use e in simp)
next
  fix a a' e
  assume i: "alloc_inv a" and e: "BlockAllocator_allocate a = (a', Error e)"
  from i show "a' = a \<and> e = OutOfMemory \<and> (\<forall>b. \<not> BlockAllocator_isFree a b)"
    by (cases rule: allocate_cases) (use e in \<open>auto simp: BlockAllocator_isFree_def in_set_conv_nth\<close>)
next
  fix a b
  assume "alloc_inv a" "b < BlockAllocator_totalBlocks a" "\<not> BlockAllocator_isFree a b"
  then show "\<exists>a'. BlockAllocator_free a b = (a', Ok ()) \<and> alloc_inv a' \<and> BlockAllocator_isFree a' = (BlockAllocator_isFree a)(b := True)
      \<and> BlockAllocator_totalBlocks a' = BlockAllocator_totalBlocks a"
    using count_update [of b "freeBitmap a" True]
    by (auto simp: BlockAllocator_free_def alloc_inv_def BlockAllocator_isFree_def BlockAllocator_totalBlocks_def nth_list_update fun_eq_iff split: if_splits)
next
  fix a b
  assume "BlockAllocator_isFree a b"
  then show "b < BlockAllocator_totalBlocks a" by (simp add: BlockAllocator_isFree_def BlockAllocator_totalBlocks_def split: if_splits)
qed

text \<open>The free count is the number of blocks not in use.\<close>

lemma freeBlocks_used:
  assumes "alloc_inv a"
  shows "BlockAllocator_freeBlocks a + card (blocks.used a) = BlockAllocator_totalBlocks a"
proof -
  have "card {b. b < length (freeBitmap a) \<and> freeBitmap a ! b} = freeCount a"
    using assms by (simp add: alloc_inv_def length_filter_conv_card)
  moreover have "{b. b < length (freeBitmap a) \<and> freeBitmap a ! b} \<union> blocks.used a = {..<length (freeBitmap a)}"
    "{b. b < length (freeBitmap a) \<and> freeBitmap a ! b} \<inter> blocks.used a = {}"
    by (auto simp: blocks.used_def BlockAllocator_isFree_def BlockAllocator_totalBlocks_def)
  ultimately show ?thesis
    using card_Un_disjoint [of "{b. b < length (freeBitmap a) \<and> freeBitmap a ! b}" "blocks.used a"] blocks.finite_used [of a]
    by (simp add: BlockAllocator_freeBlocks_def BlockAllocator_totalBlocks_def)
qed

end
