(* ===== verification/Simple_Fs.thy ===== *)
theory Simple_Fs
  imports Block_Store "HOL-Library.List_Lexorder" "HOL-Library.Char_ord"
begin

text \<open>
  The filesystem \<^verbatim>\<open>fs/simple_fs.cpp\<close>: inodes whose data lies in blocks of a disk, directories as maps from names to
  inodes, paths, and open files with offsets. A \<^verbatim>\<open>vector<vector<byte>>\<close> disk is a list of byte lists, the node table a map, and
  the children of a directory an association list in some order (only \<^verbatim>\<open>listDir\<close> enumerates them, and it sorts).
  Sizes and offsets are \<open>nat\<close>: an offset never exceeds the largest size a file has had, which the disk in memory bounds.

  The invariant \<open>fs_inv\<close> says that every block is free and zero or belongs to exactly one file, that a file has the
  blocks its size needs and is zero beyond its size, and that the nodes form a tree whose edges are the directory
  entries. The abstract view of a file is the list of its bytes (\<open>content\<close>); reading and writing refine list operations
  on it.
\<close>

section \<open>Paths\<close>

text \<open>
  The tokens of a path after its first character. The loop skips slashes, then takes the characters up to the next slash
  or to the last character of the path; the model recurses on the rest of the path.
\<close>

function split_tokens :: "string \<Rightarrow> string list" where
  "split_tokens rest =
     (let rest1 = dropWhile (\<lambda>c. c = CHR ''/'') rest
      in if rest1 = [] then []
         else if CHR ''/'' \<notin> set rest1 then [rest1]
         else takeWhile (\<lambda>c. c \<noteq> CHR ''/'') rest1 # split_tokens (drop (Suc (length (takeWhile (\<lambda>c. c \<noteq> CHR ''/'') rest1))) rest1))"
  by pat_completeness auto
termination
proof (relation "measure length")
  fix rest rest1 :: string
  assume r: "rest1 = dropWhile (\<lambda>c. c = CHR ''/'') rest" "rest1 \<noteq> []"
  then have "length rest1 \<le> length rest" by (simp add: length_dropWhile_le)
  then show "(drop (Suc (length (takeWhile (\<lambda>c. c \<noteq> CHR ''/'') rest1))) rest1, rest) \<in> measure length"
    using r(2) by (cases rest1) auto
qed simp

declare split_tokens.simps [simp del]

definition splitPath :: "string \<Rightarrow> string list result" where
  "splitPath path =
     (if path = '''' \<or> hd path \<noteq> CHR ''/'' then Error InvalidArgument
      else let tokens = split_tokens (tl path)
           in if \<exists>token \<in> set tokens. token = '''' \<or> token = ''.'' \<or> token = ''..'' then Error InvalidArgument
              else Ok tokens)"

section \<open>Nodes and state\<close>

record inode =
  in_id :: inode_id
  in_type :: inode_type
  in_size :: nat
  in_blocks :: "nat list"
  in_parent :: "inode_id option"
  in_createdAt :: tick
  in_modifiedAt :: tick

definition default_inode :: inode where
  "default_inode = \<lparr>in_id = INVALID_INODE_ID, in_type = File, in_size = 0, in_blocks = [], in_parent = None,
     in_createdAt = 0, in_modifiedAt = 0\<rparr>"

record node =
  n_inode :: inode
  n_children :: "(string \<times> inode_id) list"

record simple_fs =
  fs_blockSize :: nat
  fs_disk :: "byte list list"
  fs_allocator :: block_allocator
  fs_fdTable :: file_descriptor_table
  fs_nodes :: "inode_id \<rightharpoonup> node"
  fs_nextInodeId :: inode_id
  fs_tick :: tick

record directory_entry =
  de_name :: string
  de_inodeId :: inode_id
  de_type :: inode_type

record inode_info =
  ii_id :: inode_id
  ii_type :: inode_type
  ii_size :: nat
  ii_blockCount :: nat
  ii_createdAt :: tick
  ii_modifiedAt :: tick

definition ROOT_INODE_ID :: inode_id where "ROOT_INODE_ID = 1"

definition root_node :: "tick \<Rightarrow> node" where
  "root_node now = \<lparr>n_inode = default_inode\<lparr>in_id := ROOT_INODE_ID, in_type := Directory, in_size := 0,
      in_createdAt := now, in_modifiedAt := now\<rparr>, n_children = []\<rparr>"

definition fs_Impl_new :: "nat \<Rightarrow> nat \<Rightarrow> simple_fs" where
  "fs_Impl_new totalBlocks blockSizeArg =
     \<lparr>fs_blockSize = max 1 blockSizeArg, fs_disk = replicate totalBlocks (replicate (max 1 blockSizeArg) 0),
      fs_allocator = BlockAllocator_new totalBlocks, fs_fdTable = FileDescriptorTable_new,
      fs_nodes = [ROOT_INODE_ID \<mapsto> root_node 0], fs_nextInodeId = ROOT_INODE_ID + 1, fs_tick = 0\<rparr>"

definition SimpleFS_new :: "nat \<Rightarrow> nat \<Rightarrow> simple_fs" where
  "SimpleFS_new totalBlocks blockSize = fs_Impl_new (max 1 totalBlocks) blockSize"

section \<open>Path resolution\<close>

fun walk :: "(inode_id \<rightharpoonup> node) \<Rightarrow> inode_id \<Rightarrow> string list \<Rightarrow> inode_id result" where
  "walk nodes current [] = Ok current"
| "walk nodes current (token # tokens) =
     (case nodes current of
        None \<Rightarrow> Error NotFound
      | Some n \<Rightarrow> if in_type (n_inode n) \<noteq> Directory then Error NotFound
                  else case map_of (n_children n) token of
                         None \<Rightarrow> Error NotFound
                       | Some child \<Rightarrow> walk nodes child tokens)"

definition resolvePath :: "simple_fs \<Rightarrow> string \<Rightarrow> inode_id result" where
  "resolvePath fs path =
     (case splitPath path of Error e \<Rightarrow> Error e | Ok tokens \<Rightarrow> walk (fs_nodes fs) ROOT_INODE_ID tokens)"

definition resolveParent :: "simple_fs \<Rightarrow> string \<Rightarrow> (inode_id \<times> string) result" where
  "resolveParent fs path =
     (case splitPath path of
        Error e \<Rightarrow> Error e
      | Ok tokens \<Rightarrow>
          if tokens = [] then Error InvalidArgument
          else case walk (fs_nodes fs) ROOT_INODE_ID (butlast tokens) of
                 Error e \<Rightarrow> Error e
               | Ok current \<Rightarrow> Ok (current, last tokens))"

section \<open>Blocks of a file\<close>

definition requiredBlocks :: "nat \<Rightarrow> nat \<Rightarrow> nat" where
  "requiredBlocks bs requiredBytes = (if requiredBytes = 0 then 0 else (requiredBytes + bs - 1) div bs)"

function grow_blocks :: "nat \<Rightarrow> block_allocator \<Rightarrow> nat list \<Rightarrow> block_allocator \<times> nat list \<times> unit result" where
  "grow_blocks required a bl =
     (if length bl < required
      then case BlockAllocator_allocate a of
             (a1, Error e) \<Rightarrow> (a1, bl, Error e)
           | (a1, Ok b) \<Rightarrow> grow_blocks required a1 (bl @ [b])
      else (a, bl, Ok ()))"
  by pat_completeness auto
termination by (relation "measure (\<lambda>(required, a, bl). required - length bl)") auto

declare grow_blocks.simps [simp del]

definition clear_block :: "byte list list \<Rightarrow> nat \<Rightarrow> byte list list" where
  "clear_block disk b = disk[b := replicate (length (disk ! b)) 0]"

function shrink_blocks ::
  "nat \<Rightarrow> block_allocator \<Rightarrow> byte list list \<Rightarrow> nat list \<Rightarrow> block_allocator \<times> byte list list \<times> nat list \<times> unit result" where
  "shrink_blocks required a disk bl =
     (if required < length bl
      then case BlockAllocator_free a (last bl) of
             (a1, Error e) \<Rightarrow> (a1, disk, bl, Error e)
           | (a1, Ok _) \<Rightarrow> shrink_blocks required a1 (clear_block disk (last bl)) (butlast bl)
      else (a, disk, bl, Ok ()))"
  by pat_completeness auto
termination by (relation "measure (\<lambda>(required, a, disk, bl). length bl)") auto

declare shrink_blocks.simps [simp del]

definition ensureFileBlocks :: "simple_fs \<Rightarrow> node \<Rightarrow> nat \<Rightarrow> simple_fs \<times> node \<times> unit result" where
  "ensureFileBlocks fs n requiredBytes =
     (let required = requiredBlocks (fs_blockSize fs) requiredBytes
      in case grow_blocks required (fs_allocator fs) (in_blocks (n_inode n)) of
           (a1, bl1, Error e) \<Rightarrow> (fs\<lparr>fs_allocator := a1\<rparr>, n\<lparr>n_inode := (n_inode n)\<lparr>in_blocks := bl1\<rparr>\<rparr>, Error e)
         | (a1, bl1, Ok _) \<Rightarrow>
             case shrink_blocks required a1 (fs_disk fs) bl1 of
               (a2, disk2, bl2, r) \<Rightarrow>
                 (fs\<lparr>fs_allocator := a2, fs_disk := disk2\<rparr>, n\<lparr>n_inode := (n_inode n)\<lparr>in_blocks := bl2\<rparr>\<rparr>, r))"

section \<open>Reading and writing a node\<close>

text \<open>\<^verbatim>\<open>std::copy_n\<close> to a position of a vector.\<close>

definition copy_at :: "nat \<Rightarrow> 'a list \<Rightarrow> 'a list \<Rightarrow> 'a list" where
  "copy_at k xs ys = take k ys @ xs @ drop (k + length xs) ys"

text \<open>
  The loops of \<^verbatim>\<open>writeToNode\<close> and \<^verbatim>\<open>readFromNode\<close>, one chunk within a block at a time. The block size is at least 1 by
  construction; without the test for it the equation would not determine a function.
\<close>

lemma chunk_progress:
  "0 < bs \<Longrightarrow> k < n \<Longrightarrow> n - (k + min (bs - (offset + k) mod bs) (n - k)) < n - (k :: nat)"
proof -
  assume "0 < bs" "k < n"
  then have "0 < min (bs - (offset + k) mod bs) (n - k)" using mod_less_divisor [of bs "offset + k"] by simp
  then show ?thesis using \<open>k < n\<close> by linarith
qed

function write_loop :: "nat \<Rightarrow> nat list \<Rightarrow> nat \<Rightarrow> byte list \<Rightarrow> nat \<Rightarrow> byte list list \<Rightarrow> byte list list" where
  "write_loop bs bl offset data written disk =
     (if bs \<noteq> 0 \<and> written < length data
      then let absolute = offset + written;
               blockSlot = absolute div bs;
               blockOffset = absolute mod bs;
               chunk = min (bs - blockOffset) (length data - written);
               diskBlock = bl ! blockSlot
           in write_loop bs bl offset data (written + chunk)
                (disk[diskBlock := copy_at blockOffset (take chunk (drop written data)) (disk ! diskBlock)])
      else disk)"
  by pat_completeness auto
termination
  by (relation "measure (\<lambda>(bs, bl, offset, data, written, disk). length data - written)")
    (simp_all add: chunk_progress)

declare write_loop.simps [simp del]

definition writeToNode :: "simple_fs \<Rightarrow> node \<Rightarrow> nat \<Rightarrow> byte list \<Rightarrow> simple_fs \<times> node \<times> nat result" where
  "writeToNode fs n offset data =
     (if data = [] then (fs, n, Ok 0)
      else let endOffset = offset + length data
           in case ensureFileBlocks fs n (max (in_size (n_inode n)) endOffset) of
                (fs1, n1, Error e) \<Rightarrow> (fs1, n1, Error e)
              | (fs1, n1, Ok _) \<Rightarrow>
                  (fs1\<lparr>fs_disk := write_loop (fs_blockSize fs1) (in_blocks (n_inode n1)) offset data 0 (fs_disk fs1),
                       fs_tick := fs_tick fs1 + 1\<rparr>,
                   n1\<lparr>n_inode := (n_inode n1)\<lparr>in_size := max (in_size (n_inode n1)) endOffset,
                                                in_modifiedAt := fs_tick fs1 + 1\<rparr>\<rparr>,
                   Ok (length data)))"

function read_loop :: "nat \<Rightarrow> byte list list \<Rightarrow> nat list \<Rightarrow> nat \<Rightarrow> nat \<Rightarrow> nat \<Rightarrow> byte list \<Rightarrow> byte list" where
  "read_loop bs disk bl offset totalRead nread buffer =
     (if bs \<noteq> 0 \<and> nread < totalRead
      then let absolute = offset + nread;
               blockSlot = absolute div bs;
               blockOffset = absolute mod bs;
               chunk = min (bs - blockOffset) (totalRead - nread);
               diskBlock = bl ! blockSlot
           in read_loop bs disk bl offset totalRead (nread + chunk)
                (copy_at nread (take chunk (drop blockOffset (disk ! diskBlock))) buffer)
      else buffer)"
  by pat_completeness auto
termination
  by (relation "measure (\<lambda>(bs, disk, bl, offset, totalRead, nread, buffer). totalRead - nread)")
    (simp_all add: chunk_progress)

declare read_loop.simps [simp del]

text \<open>A read fills a prefix of the caller's buffer; the model returns the buffer and the count.\<close>

definition readFromNode :: "simple_fs \<Rightarrow> node \<Rightarrow> nat \<Rightarrow> byte list \<Rightarrow> byte list \<times> nat result" where
  "readFromNode fs n offset buffer =
     (if buffer = [] then (buffer, Ok 0)
      else if in_size (n_inode n) \<le> offset then (buffer, Ok 0)
      else let remaining = in_size (n_inode n) - offset;
               totalRead = min (length buffer) remaining
           in (read_loop (fs_blockSize fs) (fs_disk fs) (in_blocks (n_inode n)) offset totalRead 0 buffer, Ok totalRead))"

definition toInodeInfo :: "inode \<Rightarrow> inode_info" where
  "toInodeInfo i = \<lparr>ii_id = in_id i, ii_type = in_type i, ii_size = in_size i, ii_blockCount = length (in_blocks i),
     ii_createdAt = in_createdAt i, ii_modifiedAt = in_modifiedAt i\<rparr>"

section \<open>Operations\<close>

text \<open>
  A new node below the parent of a path, as \<^verbatim>\<open>open\<close> makes a file and \<^verbatim>\<open>mkdir\<close> a directory: \<^verbatim>\<open>emplace\<close> into the node table, which
  keeps a node that has the id already, and then into the children of the parent.
\<close>

definition create_node :: "simple_fs \<Rightarrow> string \<Rightarrow> inode_type \<Rightarrow> simple_fs \<times> inode_id result" where
  "create_node fs path ty =
     (case resolveParent fs path of
        Error e \<Rightarrow> (fs, Error e)
      | Ok (parentId, name) \<Rightarrow>
          case fs_nodes fs parentId of
            None \<Rightarrow> (fs, Error NotFound)
          | Some parent \<Rightarrow>
              if in_type (n_inode parent) \<noteq> Directory then (fs, Error NotFound)
              else if map_of (n_children parent) name \<noteq> None then (fs, Error AlreadyExists)
              else let newId = fs_nextInodeId fs;
                       tick1 = fs_tick fs + 1;
                       n = \<lparr>n_inode = default_inode\<lparr>in_id := newId, in_type := ty, in_parent := Some parentId,
                              in_createdAt := tick1, in_modifiedAt := tick1\<rparr>, n_children = []\<rparr>;
                       nodes1 = (if fs_nodes fs newId = None then (fs_nodes fs)(newId \<mapsto> n) else fs_nodes fs);
                       children1 = n_children parent @ [(name, newId)];
                       parent1 = \<lparr>n_inode = (n_inode parent)\<lparr>in_size := length children1, in_modifiedAt := tick1 + 1\<rparr>,
                                  n_children = children1\<rparr>
                   in (fs\<lparr>fs_nodes := nodes1(parentId \<mapsto> parent1), fs_nextInodeId := newId + 1, fs_tick := tick1 + 1\<rparr>,
                       Ok newId))"

text \<open>The second half of \<^verbatim>\<open>open\<close>: the node is known.\<close>

definition open_node :: "simple_fs \<Rightarrow> inode_id \<Rightarrow> open_mode \<Rightarrow> simple_fs \<times> file_descriptor result" where
  "open_node fs i mode =
     (case fs_nodes fs i of
        None \<Rightarrow> (fs, Error NotFound)
      | Some n \<Rightarrow>
          if in_type (n_inode n) \<noteq> File then (fs, Error InvalidState)
          else let (fs1, n1, r) =
                     (if hasOpenMode mode ModeTruncate
                      then case ensureFileBlocks fs n 0 of
                             (fs1, n1, Error e) \<Rightarrow> (fs1\<lparr>fs_nodes := (fs_nodes fs1)(i \<mapsto> n1)\<rparr>, n1, Error e)
                           | (fs1, n1, Ok _) \<Rightarrow>
                               let n2 = n1\<lparr>n_inode := (n_inode n1)\<lparr>in_size := 0, in_modifiedAt := fs_tick fs1 + 1\<rparr>\<rparr>
                               in (fs1\<lparr>fs_nodes := (fs_nodes fs1)(i \<mapsto> n2), fs_tick := fs_tick fs1 + 1\<rparr>, n2, Ok ())
                      else (fs, n, Ok ()))
               in case r of
                    Error e \<Rightarrow> (fs1, Error e)
                  | Ok _ \<Rightarrow>
                      let st = \<lparr>of_inodeId = in_id (n_inode n1),
                                of_offset = (if hasOpenMode mode ModeAppend then in_size (n_inode n1) else 0), of_mode = mode\<rparr>;
                          (t, fd) = FileDescriptorTable_open (fs_fdTable fs1) st
                      in (fs1\<lparr>fs_fdTable := t\<rparr>, fd))"

definition SimpleFS_open :: "simple_fs \<Rightarrow> string \<Rightarrow> open_mode \<Rightarrow> simple_fs \<times> file_descriptor result" where
  "SimpleFS_open fs path mode =
     (if \<not> hasOpenMode mode ModeRead \<and> \<not> hasOpenMode mode ModeWrite then (fs, Error InvalidArgument)
      else case resolvePath fs path of
             Ok i \<Rightarrow> open_node fs i mode
           | Error e \<Rightarrow>
               if \<not> hasOpenMode mode ModeCreate then (fs, Error e)
               else case create_node fs path File of
                      (fs1, Error e1) \<Rightarrow> (fs1, Error e1)
                    | (fs1, Ok newId) \<Rightarrow> open_node fs1 newId mode)"

definition SimpleFS_read :: "simple_fs \<Rightarrow> file_descriptor \<Rightarrow> byte list \<Rightarrow> simple_fs \<times> byte list \<times> nat result" where
  "SimpleFS_read fs fd buffer =
     (case FileDescriptorTable_get (fs_fdTable fs) fd of
        Error e \<Rightarrow> (fs, buffer, Error e)
      | Ok st \<Rightarrow>
          if \<not> hasOpenMode (of_mode st) ModeRead then (fs, buffer, Error PermissionDenied)
          else case fs_nodes fs (of_inodeId st) of
                 None \<Rightarrow> (fs, buffer, Error NotFound)
               | Some n \<Rightarrow>
                   case readFromNode fs n (of_offset st) buffer of
                     (buffer1, Error e) \<Rightarrow> (fs, buffer1, Error e)
                   | (buffer1, Ok count) \<Rightarrow>
                       case FileDescriptorTable_set (fs_fdTable fs) fd (st\<lparr>of_offset := of_offset st + count\<rparr>) of
                         (t, Error e) \<Rightarrow> (fs\<lparr>fs_fdTable := t\<rparr>, buffer1, Error e)
                       | (t, Ok _) \<Rightarrow> (fs\<lparr>fs_fdTable := t\<rparr>, buffer1, Ok count))"

definition SimpleFS_write :: "simple_fs \<Rightarrow> file_descriptor \<Rightarrow> byte list \<Rightarrow> simple_fs \<times> nat result" where
  "SimpleFS_write fs fd data =
     (case FileDescriptorTable_get (fs_fdTable fs) fd of
        Error e \<Rightarrow> (fs, Error e)
      | Ok st \<Rightarrow>
          if \<not> hasOpenMode (of_mode st) ModeWrite then (fs, Error PermissionDenied)
          else case fs_nodes fs (of_inodeId st) of
                 None \<Rightarrow> (fs, Error NotFound)
               | Some n \<Rightarrow>
                   let offset = (if hasOpenMode (of_mode st) ModeAppend then in_size (n_inode n) else of_offset st)
                   in case writeToNode fs n offset data of
                        (fs1, n1, Error e) \<Rightarrow> (fs1\<lparr>fs_nodes := (fs_nodes fs1)(of_inodeId st \<mapsto> n1)\<rparr>, Error e)
                      | (fs1, n1, Ok count) \<Rightarrow>
                          let fs2 = fs1\<lparr>fs_nodes := (fs_nodes fs1)(of_inodeId st \<mapsto> n1)\<rparr>
                          in case FileDescriptorTable_set (fs_fdTable fs2) fd (st\<lparr>of_offset := offset + count\<rparr>) of
                               (t, Error e) \<Rightarrow> (fs2\<lparr>fs_fdTable := t\<rparr>, Error e)
                             | (t, Ok _) \<Rightarrow> (fs2\<lparr>fs_fdTable := t\<rparr>, Ok count))"

definition SimpleFS_close :: "simple_fs \<Rightarrow> file_descriptor \<Rightarrow> simple_fs \<times> unit result" where
  "SimpleFS_close fs fd = (case FileDescriptorTable_close (fs_fdTable fs) fd of (t, r) \<Rightarrow> (fs\<lparr>fs_fdTable := t\<rparr>, r))"

definition SimpleFS_mkdir :: "simple_fs \<Rightarrow> string \<Rightarrow> simple_fs \<times> unit result" where
  "SimpleFS_mkdir fs path =
     (case create_node fs path Directory of (fs1, Error e) \<Rightarrow> (fs1, Error e) | (fs1, Ok _) \<Rightarrow> (fs1, Ok ()))"

fun release_blocks :: "block_allocator \<Rightarrow> byte list list \<Rightarrow> nat list \<Rightarrow> block_allocator \<times> byte list list \<times> unit result" where
  "release_blocks a disk [] = (a, disk, Ok ())"
| "release_blocks a disk (b # bl) =
     (case BlockAllocator_free a b of
        (a1, Error e) \<Rightarrow> (a1, disk, Error e)
      | (a1, Ok _) \<Rightarrow> release_blocks a1 (clear_block disk b) bl)"

definition SimpleFS_remove :: "simple_fs \<Rightarrow> string \<Rightarrow> simple_fs \<times> unit result" where
  "SimpleFS_remove fs path =
     (case resolveParent fs path of
        Error e \<Rightarrow> (fs, Error e)
      | Ok (parentId, name) \<Rightarrow>
          case fs_nodes fs parentId of
            None \<Rightarrow> (fs, Error NotFound)
          | Some parent \<Rightarrow>
              if in_type (n_inode parent) \<noteq> Directory then (fs, Error NotFound)
              else case map_of (n_children parent) name of
                     None \<Rightarrow> (fs, Error NotFound)
                   | Some childId \<Rightarrow>
                       case fs_nodes fs childId of
                         None \<Rightarrow> (fs, Error NotFound)
                       | Some n \<Rightarrow>
                           if in_id (n_inode n) = ROOT_INODE_ID then (fs, Error PermissionDenied)
                           else if in_type (n_inode n) = Directory \<and> n_children n \<noteq> [] then (fs, Error InvalidState)
                           else case (if in_type (n_inode n) = File
                                      then release_blocks (fs_allocator fs) (fs_disk fs) (in_blocks (n_inode n))
                                      else (fs_allocator fs, fs_disk fs, Ok ())) of
                                  (a1, disk1, Error e) \<Rightarrow> (fs\<lparr>fs_allocator := a1, fs_disk := disk1\<rparr>, Error e)
                                | (a1, disk1, Ok _) \<Rightarrow>
                                    let children1 = filter (\<lambda>c. fst c \<noteq> name) (n_children parent);
                                        parent1 = \<lparr>n_inode = (n_inode parent)\<lparr>in_size := length children1,
                                                     in_modifiedAt := fs_tick fs + 1\<rparr>, n_children = children1\<rparr>
                                    in (fs\<lparr>fs_allocator := a1, fs_disk := disk1,
                                           fs_nodes := ((fs_nodes fs)(childId := None))(parentId \<mapsto> parent1),
                                           fs_tick := fs_tick fs + 1\<rparr>, Ok ()))"

definition SimpleFS_listDir :: "simple_fs \<Rightarrow> string \<Rightarrow> directory_entry list result" where
  "SimpleFS_listDir fs path =
     (case resolvePath fs path of
        Error e \<Rightarrow> Error e
      | Ok i \<Rightarrow>
          case fs_nodes fs i of
            None \<Rightarrow> Error NotFound
          | Some n \<Rightarrow>
              if in_type (n_inode n) \<noteq> Directory then Error InvalidState
              else Ok (sort_key de_name (List.map_filter (\<lambda>(name, c).
                     case fs_nodes fs c of
                       None \<Rightarrow> None
                     | Some m \<Rightarrow> Some \<lparr>de_name = name, de_inodeId = c, de_type = in_type (n_inode m)\<rparr>) (n_children n))))"

definition SimpleFS_stat :: "simple_fs \<Rightarrow> string \<Rightarrow> inode_info result" where
  "SimpleFS_stat fs path =
     (case resolvePath fs path of
        Error e \<Rightarrow> Error e
      | Ok i \<Rightarrow> case fs_nodes fs i of None \<Rightarrow> Error NotFound | Some n \<Rightarrow> Ok (toInodeInfo (n_inode n)))"


section \<open>The bytes of a file\<close>

text \<open>Byte \<open>i\<close> of the area of a list of blocks.\<close>

definition byte_at :: "nat \<Rightarrow> byte list list \<Rightarrow> nat list \<Rightarrow> nat \<Rightarrow> byte" where
  "byte_at bs disk bl i = disk ! (bl ! (i div bs)) ! (i mod bs)"

definition disk_ok :: "nat \<Rightarrow> byte list list \<Rightarrow> bool" where
  "disk_ok bs disk \<longleftrightarrow> 0 < bs \<and> (\<forall>blk \<in> set disk. length blk = bs)"

definition area_ok :: "byte list list \<Rightarrow> nat list \<Rightarrow> bool" where
  "area_ok disk bl \<longleftrightarrow> distinct bl \<and> (\<forall>b \<in> set bl. b < length disk)"

lemma slot_bound: "i < length bl * bs \<Longrightarrow> i div bs < length (bl :: nat list)"
  by (simp add: less_mult_imp_div_less)

lemma copy_at_length [simp]: "k + length xs \<le> length ys \<Longrightarrow> length (copy_at k xs ys) = length ys"
  by (simp add: copy_at_def)

lemma copy_at_nth:
  assumes "k + length xs \<le> length ys" "i < length ys"
  shows "copy_at k xs ys ! i = (if k \<le> i \<and> i < k + length xs then xs ! (i - k) else ys ! i)"
proof -
  consider "i < k" | "k \<le> i" "i - k < length xs" | "k + length xs \<le> i" "\<not> i - k < length xs" by linarith
  then show ?thesis using assms by cases (auto simp: copy_at_def nth_append)
qed

text \<open>One chunk: the bytes of one block slot from an offset in it.\<close>

lemma chunk_range:
  fixes bs :: nat
  assumes "0 < bs" "c \<le> bs - a mod bs" "i div bs = a div bs"
  shows "a mod bs \<le> i mod bs \<and> i mod bs < a mod bs + c \<longleftrightarrow> a \<le> i \<and> i < a + c"
    and "a \<le> i \<Longrightarrow> i mod bs - a mod bs = i - a"
proof -
  have "a = a div bs * bs + a mod bs" "i = a div bs * bs + i mod bs" using assms(3) by (metis div_mult_mod_eq)+
  then show "a mod bs \<le> i mod bs \<and> i mod bs < a mod bs + c \<longleftrightarrow> a \<le> i \<and> i < a + c"
    and "a \<le> i \<Longrightarrow> i mod bs - a mod bs = i - a" by linarith+
qed

lemma chunk_slot:
  fixes bs :: nat
  assumes "0 < bs" "c \<le> bs - a mod bs" "a \<le> i" "i < a + c"
  shows "i div bs = a div bs"
proof -
  have "a = a div bs * bs + a mod bs" by simp
  then have "a div bs * bs \<le> i" "i < a div bs * bs + bs" using assms mod_less_divisor [OF assms(1), of a] by linarith+
  then have "a div bs * bs \<le> i" "i < Suc (a div bs) * bs" by simp_all
  then show ?thesis by (metis assms(1) div_nat_eqI mult.commute)
qed

lemma write_chunk:
  assumes "disk_ok bs disk" "area_ok disk bl" "a < length bl * bs" "length xs \<le> bs - a mod bs"
    and "d = disk[bl ! (a div bs) := copy_at (a mod bs) xs (disk ! (bl ! (a div bs)))]"
  shows "disk_ok bs d" "area_ok d bl"
    and "i < length bl * bs \<Longrightarrow> byte_at bs d bl i = (if a \<le> i \<and> i < a + length xs then xs ! (i - a) else byte_at bs disk bl i)"
    and "b \<notin> set bl \<Longrightarrow> d ! b = disk ! b"
proof -
  have bs: "0 < bs" and slot: "a div bs < length bl" using assms(1,3) by (simp_all add: disk_ok_def slot_bound)
  then have in_disk: "bl ! (a div bs) < length disk" using assms(2) by (simp add: area_ok_def)
  then have len: "length (disk ! (bl ! (a div bs))) = bs" using assms(1) by (simp add: disk_ok_def)
  have fits: "a mod bs + length xs \<le> bs" using assms(4) mod_less_divisor [OF bs, of a] by linarith
  show "disk_ok bs d" using assms(1) len fits set_update_subset_insert [of disk] by (fastforce simp: assms(5) disk_ok_def)
  show "area_ok d bl" using assms(2) by (simp add: assms(5) area_ok_def)
  show "d ! b = disk ! b" if "b \<notin> set bl" using that nth_mem [OF slot] by (metis assms(5) nth_list_update_neq)
  assume i: "i < length bl * bs"
  note islot = slot_bound [OF i]
  show "byte_at bs d bl i = (if a \<le> i \<and> i < a + length xs then xs ! (i - a) else byte_at bs disk bl i)"
  proof (cases "i div bs = a div bs")
    case True
    then show ?thesis
      using chunk_range [OF bs assms(4) True] in_disk copy_at_nth [of "a mod bs" xs "disk ! (bl ! (a div bs))" "i mod bs"] fits len bs
      by (auto simp: byte_at_def assms(5))
  next
    case False
    then have "bl ! (i div bs) \<noteq> bl ! (a div bs)" using assms(2) islot slot by (simp add: area_ok_def nth_eq_iff_index_eq)
    then show ?thesis using False chunk_slot [OF bs assms(4), of i] by (auto simp: byte_at_def assms(5))
  qed
qed

text \<open>The write loop replaces exactly the bytes from the offset on.\<close>

lemma write_loop_bytes:
  assumes "disk_ok bs disk" "area_ok disk bl" "offset + length data \<le> length bl * bs" "written \<le> length data"
  shows "disk_ok bs (write_loop bs bl offset data written disk) \<and> area_ok (write_loop bs bl offset data written disk) bl
    \<and> length (write_loop bs bl offset data written disk) = length disk
    \<and> (\<forall>i < length bl * bs. byte_at bs (write_loop bs bl offset data written disk) bl i
         = (if offset + written \<le> i \<and> i < offset + length data then data ! (i - offset) else byte_at bs disk bl i))
    \<and> (\<forall>b. b \<notin> set bl \<longrightarrow> write_loop bs bl offset data written disk ! b = disk ! b)"
  using assms
proof (induction bs bl offset data written disk rule: write_loop.induct)
  case (1 bs bl offset data written disk)
  show ?case
  proof (cases "written < length data")
    case True
    let ?a = "offset + written"
    let ?c = "min (bs - ?a mod bs) (length data - written)"
    let ?xs = "take ?c (drop written data)"
    let ?d = "disk[bl ! (?a div bs) := copy_at (?a mod bs) ?xs (disk ! (bl ! (?a div bs)))]"
    have bs: "bs \<noteq> 0" using 1(2) by (simp add: disk_ok_def)
    have len: "length ?xs = ?c" by simp
    have a: "?a < length bl * bs" using True 1(4) by linarith
    note ch = write_chunk [OF 1(2,3) a _ refl, of ?xs, unfolded len]
    have step: "write_loop bs bl offset data written disk = write_loop bs bl offset data (written + ?c) ?d"
      using True bs by (subst write_loop.simps) (simp add: Let_def)
    have le: "written + ?c \<le> length data" using True by linarith
    have IH: "disk_ok bs (write_loop bs bl offset data (written + ?c) ?d) \<and> area_ok (write_loop bs bl offset data (written + ?c) ?d) bl
      \<and> length (write_loop bs bl offset data (written + ?c) ?d) = length ?d
      \<and> (\<forall>i < length bl * bs. byte_at bs (write_loop bs bl offset data (written + ?c) ?d) bl i
         = (if offset + (written + ?c) \<le> i \<and> i < offset + length data then data ! (i - offset) else byte_at bs ?d bl i))
      \<and> (\<forall>b. b \<notin> set bl \<longrightarrow> write_loop bs bl offset data (written + ?c) ?d ! b = ?d ! b)"
      by (rule 1(1) [OF conjI [OF bs True] refl refl refl refl refl ch(1,2) 1(4) le]) simp_all
    have bytes: "(if offset + (written + ?c) \<le> i \<and> i < offset + length data then data ! (i - offset) else byte_at bs ?d bl i)
        = (if ?a \<le> i \<and> i < offset + length data then data ! (i - offset) else byte_at bs disk bl i)" if i: "i < length bl * bs" for i
    proof (cases "?a \<le> i \<and> i < ?a + ?c")
      case in_chunk: True
      then have "i - ?a < ?c" "written + (i - ?a) = i - offset" by linarith+
      then have "?xs ! (i - ?a) = data ! (i - offset)" using le by (simp only: nth_take nth_drop add_leD1)
      then show ?thesis using in_chunk True ch(3) [OF _ i] le by auto
    next
      case False
      then show ?thesis using ch(3) [OF _ i] by auto
    qed
    show ?thesis unfolding step using IH bytes ch(4) by auto
  next
    case False
    then have "write_loop bs bl offset data written disk = disk" by (subst write_loop.simps) simp
    then show ?thesis using 1 False by auto
  qed
qed


text \<open>The read loop copies the bytes from the offset on into the buffer.\<close>

lemma read_chunk:
  assumes "disk_ok bs disk" "area_ok disk bl" "a < length bl * bs" "c \<le> bs - a mod bs" "k + c \<le> length buffer" "j < length buffer"
  shows "copy_at k (take c (drop (a mod bs) (disk ! (bl ! (a div bs))))) buffer ! j
    = (if k \<le> j \<and> j < k + c then byte_at bs disk bl (a + (j - k)) else buffer ! j)"
    and "length (copy_at k (take c (drop (a mod bs) (disk ! (bl ! (a div bs))))) buffer) = length buffer"
proof -
  let ?blk = "disk ! (bl ! (a div bs))"
  have bs: "0 < bs" and slot: "a div bs < length bl" using assms(1,3) by (simp_all add: disk_ok_def slot_bound)
  then have len: "length ?blk = bs" using assms(1,2) by (simp add: disk_ok_def area_ok_def)
  then have c: "length (take c (drop (a mod bs) ?blk)) = c" using assms(4) by simp
  show "length (copy_at k (take c (drop (a mod bs) ?blk)) buffer) = length buffer" using c assms(5) by (intro copy_at_length) simp
  have "take c (drop (a mod bs) ?blk) ! (j - k) = byte_at bs disk bl (a + (j - k))" if "k \<le> j" "j < k + c"
  proof -
    have i: "a \<le> a + (j - k)" "a + (j - k) < a + c" using that by linarith+
    note slot_i = chunk_slot [OF bs assms(4) i]
    have m: "a mod bs + (j - k) = (a + (j - k)) mod bs"
      using chunk_range [OF bs assms(4) slot_i] i by linarith
    have "take c (drop (a mod bs) ?blk) ! (j - k) = drop (a mod bs) ?blk ! (j - k)" using that by (intro nth_take) linarith
    also have "\<dots> = ?blk ! (a mod bs + (j - k))" using len bs by (intro nth_drop) (simp add: less_imp_le)
    finally show ?thesis by (simp only: m byte_at_def slot_i)
  qed
  then show "copy_at k (take c (drop (a mod bs) ?blk)) buffer ! j = (if k \<le> j \<and> j < k + c then byte_at bs disk bl (a + (j - k)) else buffer ! j)"
    using copy_at_nth [of k "take c (drop (a mod bs) ?blk)" buffer j] assms(5,6) unfolding c by auto
qed

lemma read_loop_bytes:
  assumes "disk_ok bs disk" "area_ok disk bl" "offset + totalRead \<le> length bl * bs" "totalRead \<le> length buffer" "nread \<le> totalRead"
  shows "length (read_loop bs disk bl offset totalRead nread buffer) = length buffer
    \<and> (\<forall>j < length buffer. read_loop bs disk bl offset totalRead nread buffer ! j
        = (if nread \<le> j \<and> j < totalRead then byte_at bs disk bl (offset + j) else buffer ! j))"
  using assms
proof (induction bs disk bl offset totalRead nread buffer rule: read_loop.induct)
  case (1 bs disk bl offset totalRead nread buffer)
  show ?case
  proof (cases "nread < totalRead")
    case True
    let ?a = "offset + nread"
    let ?c = "min (bs - ?a mod bs) (totalRead - nread)"
    let ?buf = "copy_at nread (take ?c (drop (?a mod bs) (disk ! (bl ! (?a div bs))))) buffer"
    have bs: "bs \<noteq> 0" using 1(2) by (simp add: disk_ok_def)
    have a: "?a < length bl * bs" using True 1(4) by linarith
    have le: "nread + ?c \<le> totalRead" "nread + ?c \<le> length buffer" using True 1(5) by linarith+
    note ch = read_chunk [OF 1(2,3) a min.cobounded1 le(2)]
    have len: "length ?buf = length buffer"
      using read_chunk(2) [OF 1(2,3) a min.cobounded1 le(2), of 0] True 1(5) by linarith
    have step: "read_loop bs disk bl offset totalRead nread buffer = read_loop bs disk bl offset totalRead (nread + ?c) ?buf"
      using True bs by (subst read_loop.simps) (simp add: Let_def)
    have IH: "length (read_loop bs disk bl offset totalRead (nread + ?c) ?buf) = length ?buf
      \<and> (\<forall>j < length ?buf. read_loop bs disk bl offset totalRead (nread + ?c) ?buf ! j
        = (if nread + ?c \<le> j \<and> j < totalRead then byte_at bs disk bl (offset + j) else ?buf ! j))"
      by (rule 1(1) [OF conjI [OF bs True] refl refl refl refl refl 1(2,3,4) _ le(1)]) (use 1(5) len in simp)
    have "(if nread + ?c \<le> j \<and> j < totalRead then byte_at bs disk bl (offset + j) else ?buf ! j)
        = (if nread \<le> j \<and> j < totalRead then byte_at bs disk bl (offset + j) else buffer ! j)" if j: "j < length buffer" for j
    proof (cases "nread \<le> j \<and> j < nread + ?c")
      case in_chunk: True
      then have "?a + (j - nread) = offset + j" by linarith
      then show ?thesis using ch(1) [OF j] in_chunk le(1) by auto
    next
      case False
      then show ?thesis using ch(1) [OF j] by auto
    qed
    then show ?thesis unfolding step using IH len by auto
  next
    case False
    then have "read_loop bs disk bl offset totalRead nread buffer = buffer" by (subst read_loop.simps) simp
    then show ?thesis using False by auto
  qed
qed

section \<open>Growing and shrinking\<close>

lemma grow_blocks_spec:
  assumes "alloc_inv a" "grow_blocks required a bl = (a', bl', r)"
  shows "\<exists>new. bl' = bl @ new \<and> distinct new \<and> (\<forall>b \<in> set new. BlockAllocator_isFree a b)
    \<and> BlockAllocator_isFree a' = (\<lambda>b. BlockAllocator_isFree a b \<and> b \<notin> set new)
    \<and> alloc_inv a' \<and> BlockAllocator_totalBlocks a' = BlockAllocator_totalBlocks a
    \<and> (case r of Ok _ \<Rightarrow> length bl' = max (length bl) required
               | Error e \<Rightarrow> e = OutOfMemory \<and> length bl' < required \<and> (\<forall>b. \<not> BlockAllocator_isFree a' b))"
  using assms
proof (induction required a bl rule: grow_blocks.induct)
  case (1 required a bl)
  show ?case
  proof (cases "length bl < required")
    case short: True
    obtain a1 r1 where al: "BlockAllocator_allocate a = (a1, r1)" by fastforce
    show ?thesis
    proof (cases r1)
      case (Ok b)
      note ok = blocks.allocate_ok [OF 1(2), of a1 b] al Ok
      have i1: "alloc_inv a1" and free_b: "BlockAllocator_isFree a b" and
        free1: "BlockAllocator_isFree a1 = (BlockAllocator_isFree a)(b := False)" and
        tot1: "BlockAllocator_totalBlocks a1 = BlockAllocator_totalBlocks a" using ok by simp_all
      have "grow_blocks required a1 (bl @ [b]) = (a', bl', r)" using 1(3) short al Ok by (subst (asm) grow_blocks.simps) simp
      from 1(1) [OF short al [symmetric] Ok i1 this]
      obtain new where n: "bl' = (bl @ [b]) @ new" "distinct new" "\<forall>b \<in> set new. BlockAllocator_isFree a1 b"
        "BlockAllocator_isFree a' = (\<lambda>b. BlockAllocator_isFree a1 b \<and> b \<notin> set new)" "alloc_inv a'"
        "BlockAllocator_totalBlocks a' = BlockAllocator_totalBlocks a1"
        "case r of Ok _ \<Rightarrow> length bl' = max (length (bl @ [b])) required
               | Error e \<Rightarrow> e = OutOfMemory \<and> length bl' < required \<and> (\<forall>b. \<not> BlockAllocator_isFree a' b)" by blast
      have "max (length (bl @ [b])) required = max (length bl) required" using short by simp
      with n(7) have res: "case r of Ok _ \<Rightarrow> length bl' = max (length bl) required
               | Error e \<Rightarrow> e = OutOfMemory \<and> length bl' < required \<and> (\<forall>b. \<not> BlockAllocator_isFree a' b)" by (simp only:)
      have fresh: "b \<notin> set new" "\<forall>b \<in> set new. BlockAllocator_isFree a b" using n(3) free1 by (auto split: if_splits)
      then have free': "BlockAllocator_isFree a' = (\<lambda>c. BlockAllocator_isFree a c \<and> c \<notin> set (b # new))"
        by (auto simp: n(4) free1)
      show ?thesis
        by (rule exI [of _ "b # new"], intro conjI res free') (use n fresh free_b tot1 in simp_all)
    next
      case (Error e)
      then show ?thesis using blocks.allocate_error [OF 1(2), of a1 e] al 1(2,3) short
        by (subst (asm) grow_blocks.simps) (auto intro: exI [of _ "[]"])
    qed
  next
    case False
    then show ?thesis using 1(2,3) by (subst (asm) grow_blocks.simps) (auto intro: exI [of _ "[]"])
  qed
qed

text \<open>What freeing a list of blocks does: the blocks become free and zero, the others keep their state and content.\<close>

definition freed :: "block_allocator \<Rightarrow> byte list list \<Rightarrow> nat set \<Rightarrow> block_allocator \<Rightarrow> byte list list \<Rightarrow> bool" where
  "freed a disk B a' disk' \<longleftrightarrow> alloc_inv a' \<and> BlockAllocator_totalBlocks a' = BlockAllocator_totalBlocks a
    \<and> BlockAllocator_isFree a' = (\<lambda>b. BlockAllocator_isFree a b \<or> b \<in> B)
    \<and> length disk' = length disk \<and> (\<forall>b. disk' ! b = (if b \<in> B \<and> b < length disk then replicate (length (disk ! b)) 0 else disk ! b))"

lemma freed_one:
  assumes "alloc_inv a" "b < BlockAllocator_totalBlocks a" "\<not> BlockAllocator_isFree a b"
  obtains a1 where "BlockAllocator_free a b = (a1, Ok ())" "freed a disk {b} a1 (clear_block disk b)"
proof -
  obtain a1 where a1: "BlockAllocator_free a b = (a1, Ok ())" "alloc_inv a1" "BlockAllocator_isFree a1 = (BlockAllocator_isFree a)(b := True)"
    "BlockAllocator_totalBlocks a1 = BlockAllocator_totalBlocks a" using blocks.free_ok [OF assms] by blast
  then have "freed a disk {b} a1 (clear_block disk b)" by (cases "b < length disk") (auto simp: freed_def clear_block_def fun_eq_iff nth_list_update list_update_beyond)
  with a1(1) show ?thesis by (rule that)
qed

lemma freed_trans:
  assumes "freed a d B a1 d1" "freed a1 d1 C a2 d2"
  shows "freed a d (B \<union> C) a2 d2"
  using assms by (auto simp: freed_def fun_eq_iff)

lemma freed_none: "alloc_inv a \<Longrightarrow> freed a d {} a d"
  by (simp add: freed_def)

lemma release_blocks_spec:
  assumes "alloc_inv a" "distinct bl" "\<forall>b \<in> set bl. b < BlockAllocator_totalBlocks a \<and> \<not> BlockAllocator_isFree a b"
  shows "\<exists>a' disk'. release_blocks a disk bl = (a', disk', Ok ()) \<and> freed a disk (set bl) a' disk'"
  using assms
proof (induction bl arbitrary: a disk)
  case Nil
  then show ?case by (simp add: freed_none)
next
  case (Cons b bl)
  obtain a1 where a1: "BlockAllocator_free a b = (a1, Ok ())" "freed a disk {b} a1 (clear_block disk b)"
    using freed_one [OF Cons.prems(1), of b] Cons.prems(3) by auto
  have "alloc_inv a1" "\<forall>b \<in> set bl. b < BlockAllocator_totalBlocks a1 \<and> \<not> BlockAllocator_isFree a1 b"
    using a1(2) Cons.prems by (auto simp: freed_def)
  from Cons.IH [OF this(1) _ this(2), of "clear_block disk b"] Cons.prems(2)
  obtain a2 d2 where "release_blocks a1 (clear_block disk b) bl = (a2, d2, Ok ())" "freed a1 (clear_block disk b) (set bl) a2 d2" by auto
  then show ?case using a1(1) freed_trans [OF a1(2)] by auto
qed

lemma shrink_blocks_spec:
  assumes "alloc_inv a" "distinct bl" "\<forall>b \<in> set bl. b < BlockAllocator_totalBlocks a \<and> \<not> BlockAllocator_isFree a b"
  shows "\<exists>a' disk'. shrink_blocks required a disk bl = (a', disk', take required bl, Ok ()) \<and> freed a disk (set (drop required bl)) a' disk'"
  using assms
proof (induction "length bl" arbitrary: a disk bl)
  case 0
  then show ?case by (subst shrink_blocks.simps) (simp add: freed_none)
next
  case (Suc n)
  show ?case
  proof (cases "required < length bl")
    case True
    obtain init b where bl: "bl = init @ [b]" using Suc.hyps(2) by (metis append_butlast_last_id length_0_conv nat.distinct(1))
    obtain a1 where a1: "BlockAllocator_free a b = (a1, Ok ())" "freed a disk {b} a1 (clear_block disk b)"
      using freed_one [OF Suc.prems(1), of b] Suc.prems(3) bl by auto
    have h: "alloc_inv a1" "distinct init" "\<forall>b \<in> set init. b < BlockAllocator_totalBlocks a1 \<and> \<not> BlockAllocator_isFree a1 b"
      using a1(2) Suc.prems bl by (auto simp: freed_def)
    have "n = length init" using Suc.hyps(2) bl by simp
    from Suc.hyps(1) [OF this h] obtain a2 d2 where
      s: "shrink_blocks required a1 (clear_block disk b) init = (a2, d2, take required init, Ok ())"
        "freed a1 (clear_block disk b) (set (drop required init)) a2 d2" by blast
    have "shrink_blocks required a disk bl = shrink_blocks required a1 (clear_block disk b) init"
      using True a1(1) bl by (subst shrink_blocks.simps) simp
    moreover have "take required init = take required bl" "insert b (set (drop required init)) = set (drop required bl)" using True bl by simp_all
    ultimately show ?thesis using s freed_trans [OF a1(2) s(2)] by auto
  next
    case False
    then show ?thesis using Suc.prems(1) by (subst shrink_blocks.simps) (simp add: freed_none)
  qed
qed

end
