(* ===== verification/Fs_Correct.thy ===== *)
theory Fs_Correct
  imports Simple_Fs
begin

text \<open>
  Correctness of the filesystem model of \<^verbatim>\<open>Simple_Fs\<close>: the ownership of blocks (\<open>store_ok\<close>), the tree of nodes
  (\<open>tree_ok\<close>), the table of open files (\<open>fds_ok\<close>), their preservation by every operation, and the refinement of files
  to byte lists and of paths to token lists.
\<close>

section \<open>Ownership of blocks\<close>

text \<open>\<open>B\<close> gives the blocks of every inode. A block is free and zero, or it belongs to one inode.\<close>

definition store_ok :: "nat \<Rightarrow> byte list list \<Rightarrow> block_allocator \<Rightarrow> (inode_id \<Rightarrow> nat list) \<Rightarrow> bool" where
  "store_ok bs disk a B \<longleftrightarrow> disk_ok bs disk \<and> alloc_inv a \<and> BlockAllocator_totalBlocks a = length disk
    \<and> (\<forall>i. distinct (B i)) \<and> (\<forall>i j b. b \<in> set (B i) \<and> b \<in> set (B j) \<longrightarrow> i = j)
    \<and> (\<forall>b < length disk. BlockAllocator_isFree a b \<longleftrightarrow> (\<forall>i. b \<notin> set (B i)))
    \<and> (\<forall>i. \<forall>b \<in> set (B i). b < length disk)
    \<and> (\<forall>b. BlockAllocator_isFree a b \<longrightarrow> disk ! b = replicate bs 0)"

lemma store_okD:
  assumes "store_ok bs disk a B"
  shows "disk_ok bs disk" "0 < bs" "alloc_inv a" "BlockAllocator_totalBlocks a = length disk" "distinct (B i)"
    "area_ok disk (B i)" "b \<in> set (B i) \<Longrightarrow> b < length disk" "b \<in> set (B i) \<Longrightarrow> \<not> BlockAllocator_isFree a b"
    "b \<in> set (B i) \<Longrightarrow> b \<in> set (B j) \<Longrightarrow> i = j" "BlockAllocator_isFree a b \<Longrightarrow> disk ! b = replicate bs 0"
    "BlockAllocator_isFree a b \<Longrightarrow> b < length disk" "BlockAllocator_isFree a b \<Longrightarrow> b \<notin> set (B i)"
    "b < length disk \<Longrightarrow> length (disk ! b) = bs"
proof -
  note s = assms [unfolded store_ok_def]
  show "disk_ok bs disk" "alloc_inv a" "BlockAllocator_totalBlocks a = length disk" "distinct (B i)" using s by blast+
  then show "0 < bs" "b < length disk \<Longrightarrow> length (disk ! b) = bs" by (simp_all add: disk_ok_def)
  show "area_ok disk (B i)" using s by (auto simp: area_ok_def)
  show bound: "b \<in> set (B i) \<Longrightarrow> b < length disk" using s by blast
  show "b \<in> set (B i) \<Longrightarrow> \<not> BlockAllocator_isFree a b" using s bound by blast
  show "b \<in> set (B i) \<Longrightarrow> b \<in> set (B j) \<Longrightarrow> i = j" using s by blast
  show "BlockAllocator_isFree a b \<Longrightarrow> disk ! b = replicate bs 0" using s by blast
  show free_bound: "BlockAllocator_isFree a b \<Longrightarrow> b < length disk" using s blocks.isFree_bound [of a b] by simp
  show "BlockAllocator_isFree a b \<Longrightarrow> b \<notin> set (B i)" using s free_bound by blast
qed

lemma store_okI:
  assumes "disk_ok bs disk" "alloc_inv a" "BlockAllocator_totalBlocks a = length disk"
    and "\<And>i. distinct (B i)" "\<And>i j b. b \<in> set (B i) \<Longrightarrow> b \<in> set (B j) \<Longrightarrow> i = j"
    and "\<And>b. b < length disk \<Longrightarrow> BlockAllocator_isFree a b \<longleftrightarrow> (\<forall>i. b \<notin> set (B i))"
    and "\<And>i b. b \<in> set (B i) \<Longrightarrow> b < length disk"
    and "\<And>b. BlockAllocator_isFree a b \<Longrightarrow> disk ! b = replicate bs 0"
  shows "store_ok bs disk a B"
  using assms unfolding store_ok_def by blast

lemma store_free: "store_ok bs disk a B \<Longrightarrow> b < length disk \<Longrightarrow> BlockAllocator_isFree a b \<longleftrightarrow> (\<forall>i. b \<notin> set (B i))"
  unfolding store_ok_def by blast

lemma store_grow:
  assumes s: "store_ok bs disk a B" and new: "distinct new" "\<forall>b \<in> set new. BlockAllocator_isFree a b"
    and a': "BlockAllocator_isFree a' = (\<lambda>b. BlockAllocator_isFree a b \<and> b \<notin> set new)" "alloc_inv a'"
      "BlockAllocator_totalBlocks a' = BlockAllocator_totalBlocks a"
  shows "store_ok bs disk a' (B(i := B i @ new))"
proof (rule store_okI)
  note d = store_okD [OF s]
  show "disk_ok bs disk" "alloc_inv a'" "BlockAllocator_totalBlocks a' = length disk" using d(1,4) a' by simp_all
  have fresh: "b \<notin> set (B j)" if "b \<in> set new" for b j using new(2) d(12) that by blast
  show "distinct ((B(i := B i @ new)) j)" for j using d(5) new(1) fresh by auto
  show "j = k" if "b \<in> set ((B(i := B i @ new)) j)" "b \<in> set ((B(i := B i @ new)) k)" for j k b
    using that fresh d(9) by (auto split: if_splits)
  show "BlockAllocator_isFree a' b \<longleftrightarrow> (\<forall>j. b \<notin> set ((B(i := B i @ new)) j))" if "b < length disk" for b
    using store_free [OF s that] by (auto simp: a')
  show "b < length disk" if "b \<in> set ((B(i := B i @ new)) j)" for j b
    using that d(7) d(11) new(2) by (auto split: if_splits)
  show "disk ! b = replicate bs 0" if "BlockAllocator_isFree a' b" for b using that d(10) by (simp add: a')
qed

lemma store_shrink:
  assumes s: "store_ok bs disk a B" and f: "freed a disk (set (drop m (B i))) a' disk'"
  shows "store_ok bs disk' a' (B(i := take m (B i)))"
proof (rule store_okI)
  note d = store_okD [OF s]
  have f': "alloc_inv a'" "BlockAllocator_totalBlocks a' = BlockAllocator_totalBlocks a"
    "\<And>b. BlockAllocator_isFree a' b \<longleftrightarrow> BlockAllocator_isFree a b \<or> b \<in> set (drop m (B i))" "length disk' = length disk"
    "\<And>b. disk' ! b = (if b \<in> set (drop m (B i)) \<and> b < length disk then replicate (length (disk ! b)) 0 else disk ! b)"
    using f by (simp_all add: freed_def)
  show "alloc_inv a'" "BlockAllocator_totalBlocks a' = length disk'" using f' d(4) by simp_all
  have "length (disk' ! b) = bs" if "b < length disk'" for b using that d(13) f'(4,5) by simp
  then show "disk_ok bs disk'" using d(2) by (auto simp: disk_ok_def in_set_conv_nth)
  show "distinct ((B(i := take m (B i))) j)" for j using d(5) by simp
  have sub: "b \<in> set (B j)" if "b \<in> set ((B(i := take m (B i))) j)" for b j using that in_set_takeD by (auto split: if_splits)
  show "j = k" if "b \<in> set ((B(i := take m (B i))) j)" "b \<in> set ((B(i := take m (B i))) k)" for j k b
    using sub [OF that(1)] sub [OF that(2)] d(9) by blast
  show "b < length disk'" if "b \<in> set ((B(i := take m (B i))) j)" for j b using sub [OF that] d(7) f'(4) by simp
  have split: "b \<in> set (B i) \<longleftrightarrow> b \<in> set (take m (B i)) \<or> b \<in> set (drop m (B i))" for b by (metis Un_iff append_take_drop_id set_append)
  have disj: "b \<notin> set (take m (B i))" if "b \<in> set (drop m (B i))" for b
    using that d(5) [of i] set_take_disj_set_drop_if_distinct [of "B i" m m] by auto
  show "BlockAllocator_isFree a' b \<longleftrightarrow> (\<forall>j. b \<notin> set ((B(i := take m (B i))) j))" if b: "b < length disk'" for b
  proof (cases "b \<in> set (drop m (B i))")
    case True
    then have "b \<notin> set (B j)" if "j \<noteq> i" for j using d(9) [of b i j] that split by blast
    then show ?thesis using True disj f'(3) by auto
  next
    case False
    then show ?thesis using store_free [OF s, of b] b f'(3,4) split by auto
  qed
  show "disk' ! b = replicate bs 0" if "BlockAllocator_isFree a' b" for b
    using that d(7,10,13) f'(3,5) split by (metis d(11))
qed

lemma store_write:
  assumes s: "store_ok bs disk a B" and w: "disk_ok bs disk'" "length disk' = length disk" "\<And>b. b \<notin> set (B i) \<Longrightarrow> disk' ! b = disk ! b"
  shows "store_ok bs disk' a B"
proof (rule store_okI)
  note d = store_okD [OF s]
  show "disk_ok bs disk'" "alloc_inv a" "BlockAllocator_totalBlocks a = length disk'" using d(3,4) w by simp_all
  show "distinct (B j)" for j using d(5) .
  show "j = k" if "b \<in> set (B j)" "b \<in> set (B k)" for j k b using d(9) that by blast
  show "BlockAllocator_isFree a b \<longleftrightarrow> (\<forall>i. b \<notin> set (B i))" if "b < length disk'" for b using store_free [OF s] that w(2) by simp
  show "b < length disk'" if "b \<in> set (B j)" for j b using d(7) that w(2) by simp
  show "disk' ! b = replicate bs 0" if "BlockAllocator_isFree a b" for b using d(10,12) [OF that] w(3) by simp
qed

text \<open>Bytes depend on the blocks of their own area only.\<close>

lemma byte_at_cong:
  assumes "\<And>b. b \<in> set bl \<Longrightarrow> disk' ! b = disk ! b" "k < length bl * bs"
  shows "byte_at bs disk' bl k = byte_at bs disk bl k"
  using assms slot_bound [OF assms(2)] by (simp add: byte_at_def)

lemma byte_at_append:
  assumes "k < length bl * bs"
  shows "byte_at bs disk (bl @ new) k = byte_at bs disk bl k"
  using slot_bound [OF assms] by (simp add: byte_at_def nth_append)

lemma byte_at_zero:
  assumes "\<And>b. b \<in> set new \<Longrightarrow> disk ! b = replicate bs 0" "length bl * bs \<le> k" "k < length (bl @ new) * bs"
  shows "byte_at bs disk (bl @ new) k = 0"
proof -
  have bs: "0 < bs" using assms(3) by (cases bs) simp_all
  have "k div bs < length (bl @ new)" "length bl \<le> k div bs" using slot_bound [OF assms(3)] assms(2) bs by (simp_all add: less_eq_div_iff_mult_less_eq)
  then have "(bl @ new) ! (k div bs) \<in> set new" by (simp add: nth_append)
  then show ?thesis using assms(1) bs by (simp add: byte_at_def)
qed


section \<open>Resizing and writing\<close>

definition resized :: "simple_fs \<Rightarrow> node \<Rightarrow> (inode_id \<Rightarrow> nat list) \<Rightarrow> inode_id \<Rightarrow> simple_fs \<Rightarrow> node \<Rightarrow> bool" where
  "resized fs n B i fs' n' \<longleftrightarrow>
     (\<exists>a' disk' bl'. fs' = fs\<lparr>fs_allocator := a', fs_disk := disk'\<rparr> \<and> n' = n\<lparr>n_inode := (n_inode n)\<lparr>in_blocks := bl'\<rparr>\<rparr>)
   \<and> store_ok (fs_blockSize fs) (fs_disk fs') (fs_allocator fs') (B(i := in_blocks (n_inode n')))
   \<and> (\<forall>k < length (in_blocks (n_inode n')) * fs_blockSize fs.
        byte_at (fs_blockSize fs) (fs_disk fs') (in_blocks (n_inode n')) k
        = (if k < length (B i) * fs_blockSize fs then byte_at (fs_blockSize fs) (fs_disk fs) (B i) k else 0))
   \<and> (\<forall>j b. j \<noteq> i \<and> b \<in> set (B j) \<longrightarrow> fs_disk fs' ! b = fs_disk fs ! b)
   \<and> length (fs_disk fs') = length (fs_disk fs)"

lemma grown:
  assumes s: "store_ok bs disk a B" and g: "grow_blocks required a (B i) = (a', bl', r)"
  shows "store_ok bs disk a' (B(i := bl'))"
    and "k < length bl' * bs \<Longrightarrow> byte_at bs disk bl' k = (if k < length (B i) * bs then byte_at bs disk (B i) k else 0)"
    and "case r of Ok _ \<Rightarrow> length bl' = max (length (B i)) required
               | Error e \<Rightarrow> e = OutOfMemory \<and> length bl' < required \<and> length (B i) \<le> length bl' \<and> (\<forall>b. \<not> BlockAllocator_isFree a' b)"
proof -
  note d = store_okD [OF s]
  obtain new where n: "bl' = B i @ new" "distinct new" "\<forall>b \<in> set new. BlockAllocator_isFree a b"
    "BlockAllocator_isFree a' = (\<lambda>b. BlockAllocator_isFree a b \<and> b \<notin> set new)" "alloc_inv a'"
    "BlockAllocator_totalBlocks a' = BlockAllocator_totalBlocks a"
    "case r of Ok _ \<Rightarrow> length bl' = max (length (B i)) required
             | Error e \<Rightarrow> e = OutOfMemory \<and> length bl' < required \<and> (\<forall>b. \<not> BlockAllocator_isFree a' b)"
    using grow_blocks_spec [OF d(3) g] by blast
  show "store_ok bs disk a' (B(i := bl'))" unfolding n(1) by (rule store_grow [OF s n(2-6)])
  show "byte_at bs disk bl' k = (if k < length (B i) * bs then byte_at bs disk (B i) k else 0)" if k: "k < length bl' * bs"
  proof (cases "k < length (B i) * bs")
    case False
    then show ?thesis using byte_at_zero [of new disk bs "B i" k] n(1,3) d(10) k by auto
  qed (simp add: n(1) byte_at_append)
  show "case r of Ok _ \<Rightarrow> length bl' = max (length (B i)) required
               | Error e \<Rightarrow> e = OutOfMemory \<and> length bl' < required \<and> length (B i) \<le> length bl' \<and> (\<forall>b. \<not> BlockAllocator_isFree a' b)"
    using n(7) by (cases r) (simp_all add: n(1))
qed

lemma ensureFileBlocks_spec:
  assumes s: "store_ok (fs_blockSize fs) (fs_disk fs) (fs_allocator fs) B" and B: "B i = in_blocks (n_inode n)"
    and e: "ensureFileBlocks fs n req = (fs', n', r)"
  shows "resized fs n B i fs' n'"
    and "case r of Ok _ \<Rightarrow> length (in_blocks (n_inode n')) = requiredBlocks (fs_blockSize fs) req
       | Error c \<Rightarrow> c = OutOfMemory \<and> length (B i) \<le> length (in_blocks (n_inode n'))
            \<and> length (in_blocks (n_inode n')) < requiredBlocks (fs_blockSize fs) req \<and> (\<forall>b. \<not> BlockAllocator_isFree (fs_allocator fs') b)"
proof -
  let ?bs = "fs_blockSize fs" and ?req = "requiredBlocks (fs_blockSize fs) req"
  obtain a1 bl1 r1 where g: "grow_blocks ?req (fs_allocator fs) (B i) = (a1, bl1, r1)" using prod_cases3 by blast
  note gr = grown [OF s g]
  have "resized fs n B i fs' n' \<and> (case r of Ok _ \<Rightarrow> length (in_blocks (n_inode n')) = ?req
       | Error c \<Rightarrow> c = OutOfMemory \<and> length (B i) \<le> length (in_blocks (n_inode n'))
            \<and> length (in_blocks (n_inode n')) < ?req \<and> (\<forall>b. \<not> BlockAllocator_isFree (fs_allocator fs') b))"
  proof (cases r1)
    case (Error c)
    then have res: "fs' = fs\<lparr>fs_allocator := a1\<rparr>" "n' = n\<lparr>n_inode := (n_inode n)\<lparr>in_blocks := bl1\<rparr>\<rparr>" "r = Error c"
      using e g B by (auto simp: ensureFileBlocks_def Let_def)
    moreover have "fs\<lparr>fs_allocator := a1\<rparr> = fs\<lparr>fs_allocator := a1, fs_disk := fs_disk fs\<rparr>" by simp
    ultimately have "\<exists>a' disk' bl'. fs' = fs\<lparr>fs_allocator := a', fs_disk := disk'\<rparr> \<and> n' = n\<lparr>n_inode := (n_inode n)\<lparr>in_blocks := bl'\<rparr>\<rparr>"
      by metis
    with res show ?thesis using gr Error unfolding resized_def by auto
  next
    case (Ok u)
    let ?B1 = "B(i := bl1)"
    note d = store_okD [OF gr(1)]
    obtain a2 disk2 where sh: "shrink_blocks ?req a1 (fs_disk fs) bl1 = (a2, disk2, take ?req bl1, Ok ())"
      "freed a1 (fs_disk fs) (set (drop ?req bl1)) a2 disk2"
      using shrink_blocks_spec [OF d(3), of bl1 ?req "fs_disk fs"] d(5) [of i] d(4) d(7,8) [of _ i] by auto
    have res: "fs' = fs\<lparr>fs_allocator := a2, fs_disk := disk2\<rparr>" "n' = n\<lparr>n_inode := (n_inode n)\<lparr>in_blocks := take ?req bl1\<rparr>\<rparr>" "r = Ok ()"
      using e g B Ok sh by (auto simp: ensureFileBlocks_def Let_def)
    have len: "length bl1 = max (length (B i)) ?req" using gr(3) Ok by simp
    have st: "store_ok ?bs disk2 a2 (B(i := take ?req bl1))"
      using store_shrink [OF gr(1), of ?req i a2 disk2] sh(2) by simp
    have keep: "disk2 ! b = fs_disk fs ! b" if "b \<notin> set (drop ?req bl1)" for b using sh(2) that by (simp add: freed_def)
    have other: "disk2 ! b = fs_disk fs ! b" if "j \<noteq> i" "b \<in> set (B j)" for j b
      using keep [of b] d(9) [of b i j] that in_set_dropD [of b ?req bl1] by auto
    have own: "disk2 ! b = fs_disk fs ! b" if "b \<in> set (take ?req bl1)" for b
      using keep [of b] that d(5) [of i] set_take_disj_set_drop_if_distinct [of bl1 ?req ?req] by auto
    have bytes: "byte_at ?bs disk2 (take ?req bl1) k = (if k < length (B i) * ?bs then byte_at ?bs (fs_disk fs) (B i) k else 0)"
      if k: "k < length (take ?req bl1) * ?bs" for k
    proof -
      have k1: "k < length bl1 * ?bs" by (rule less_le_trans [OF k]) simp
      have "byte_at ?bs disk2 (take ?req bl1) k = byte_at ?bs (fs_disk fs) (take ?req bl1) k" using own k by (intro byte_at_cong) auto
      also have "\<dots> = byte_at ?bs (fs_disk fs) (take ?req bl1 @ drop ?req bl1) k" by (rule byte_at_append [OF k, symmetric])
      finally show ?thesis using gr(2) [OF k1] by simp
    qed
    have "length disk2 = length (fs_disk fs)" using sh(2) by (simp add: freed_def)
    then show ?thesis using st other bytes len unfolding resized_def res by auto
  qed
  then show "resized fs n B i fs' n'"
    and "case r of Ok _ \<Rightarrow> length (in_blocks (n_inode n')) = ?req
       | Error c \<Rightarrow> c = OutOfMemory \<and> length (B i) \<le> length (in_blocks (n_inode n'))
            \<and> length (in_blocks (n_inode n')) < ?req \<and> (\<forall>b. \<not> BlockAllocator_isFree (fs_allocator fs') b)"
    by blast+
qed

text \<open>A file has the blocks of its size, and is zero beyond it.\<close>

definition file_ok :: "nat \<Rightarrow> byte list list \<Rightarrow> node \<Rightarrow> bool" where
  "file_ok bs disk n \<longleftrightarrow> in_size (n_inode n) \<le> length (in_blocks (n_inode n)) * bs
    \<and> (\<forall>k. in_size (n_inode n) \<le> k \<and> k < length (in_blocks (n_inode n)) * bs \<longrightarrow> byte_at bs disk (in_blocks (n_inode n)) k = 0)"

definition file_bytes :: "nat \<Rightarrow> byte list list \<Rightarrow> node \<Rightarrow> byte list" where
  "file_bytes bs disk n = map (byte_at bs disk (in_blocks (n_inode n))) [0..<in_size (n_inode n)]"

text \<open>Writing to a list of bytes at an offset that may lie beyond the last byte: the gap is zero.\<close>

definition splice_bytes :: "nat \<Rightarrow> byte list \<Rightarrow> byte list \<Rightarrow> byte list" where
  "splice_bytes offset data bytes = take offset (bytes @ replicate (offset - length bytes) 0) @ data @ drop (offset + length data) bytes"

lemma splice_bytes_length [simp]: "length (splice_bytes offset data bytes) = max (length bytes) (offset + length data)"
  by (simp add: splice_bytes_def)

lemma splice_bytes_nth:
  assumes "k < max (length bytes) (offset + length data)"
  shows "splice_bytes offset data bytes ! k
    = (if offset \<le> k \<and> k < offset + length data then data ! (k - offset) else if k < length bytes then bytes ! k else 0)"
proof -
  let ?p = "take offset (bytes @ replicate (offset - length bytes) 0)"
  have len: "length ?p = offset" by simp
  have p: "?p ! k = (if k < length bytes then bytes ! k else 0)" if "k < offset" using that by (auto simp: nth_append)
  have "splice_bytes offset data bytes ! k = (if k < offset then ?p ! k else (data @ drop (offset + length data) bytes) ! (k - offset))"
    unfolding splice_bytes_def nth_append [of ?p] len ..
  then show ?thesis using assms p by (auto simp: nth_append)
qed

lemma requiredBlocks_enough:
  assumes "0 < bs"
  shows "bytes \<le> requiredBlocks bs bytes * bs" "requiredBlocks bs bytes * bs < bytes + bs"
proof -
  obtain q m where q: "q = (bytes + bs - 1) div bs" "m = (bytes + bs - 1) mod bs" by simp
  have "q * bs + m = bytes + bs - 1" "m < bs" using assms unfolding q by simp_all
  then have "bytes \<le> q * bs" "0 < bytes \<Longrightarrow> q * bs < bytes + bs" using assms by linarith+
  moreover have "requiredBlocks bs bytes = (if bytes = 0 then 0 else q)" by (simp only: requiredBlocks_def q)
  ultimately show "bytes \<le> requiredBlocks bs bytes * bs" "requiredBlocks bs bytes * bs < bytes + bs" using assms by simp_all
qed

lemma requiredBlocks_least: "0 < bs \<Longrightarrow> bytes \<le> m * bs \<Longrightarrow> requiredBlocks bs bytes \<le> m"
  using requiredBlocks_enough(2) [of bs bytes] by (metis (no_types) add_le_mono1 less_le_trans less_Suc_eq_le mult_Suc mult_less_cancel2 add.commute)

text \<open>Resizing keeps the bytes of the file, and what lies beyond them is zero.\<close>

lemma resizedD:
  assumes "resized fs n B i fs' n'"
  shows "n_children n' = n_children n" "in_id (n_inode n') = in_id (n_inode n)" "in_type (n_inode n') = in_type (n_inode n)"
    "in_parent (n_inode n') = in_parent (n_inode n)" "in_size (n_inode n') = in_size (n_inode n)"
    "fs_blockSize fs' = fs_blockSize fs" "fs_fdTable fs' = fs_fdTable fs" "fs_nodes fs' = fs_nodes fs" "fs_nextInodeId fs' = fs_nextInodeId fs"
    "length (fs_disk fs') = length (fs_disk fs)"
    "store_ok (fs_blockSize fs) (fs_disk fs') (fs_allocator fs') (B(i := in_blocks (n_inode n')))"
    "j \<noteq> i \<Longrightarrow> b \<in> set (B j) \<Longrightarrow> fs_disk fs' ! b = fs_disk fs ! b"
  using assms by (auto simp: resized_def)

lemma resized_byte:
  assumes r: "resized fs n B i fs' n'" and B: "B i = in_blocks (n_inode n)" and f: "file_ok (fs_blockSize fs) (fs_disk fs) n"
    and k: "k < length (in_blocks (n_inode n')) * fs_blockSize fs"
  shows "byte_at (fs_blockSize fs) (fs_disk fs') (in_blocks (n_inode n')) k
    = (if k < in_size (n_inode n) then file_bytes (fs_blockSize fs) (fs_disk fs) n ! k else 0)"
  using r k f unfolding resized_def file_ok_def file_bytes_def B by auto

lemma resized_file:
  assumes r: "resized fs n B i fs' n'" and B: "B i = in_blocks (n_inode n)" and f: "file_ok (fs_blockSize fs) (fs_disk fs) n"
    and len: "length (B i) \<le> length (in_blocks (n_inode n'))"
  shows "file_ok (fs_blockSize fs) (fs_disk fs') n'" "file_bytes (fs_blockSize fs) (fs_disk fs') n' = file_bytes (fs_blockSize fs) (fs_disk fs) n"
proof -
  have "in_size (n_inode n) \<le> length (B i) * fs_blockSize fs" using f by (simp add: file_ok_def B)
  also have "\<dots> \<le> length (in_blocks (n_inode n')) * fs_blockSize fs" using len by simp
  finally have le: "in_size (n_inode n) \<le> length (in_blocks (n_inode n')) * fs_blockSize fs" .
  note byte = resized_byte [OF r B f]
  show "file_ok (fs_blockSize fs) (fs_disk fs') n'" using le byte by (simp add: file_ok_def resizedD(5) [OF r])
  show "file_bytes (fs_blockSize fs) (fs_disk fs') n' = file_bytes (fs_blockSize fs) (fs_disk fs) n"
    using le byte by (intro nth_equalityI) (simp_all add: file_bytes_def resizedD(5) [OF r])
qed

text \<open>The loop over the blocks of the resized file splices the data into its bytes.\<close>

lemma written_file:
  assumes r: "resized fs n B i fs1 n1" and B: "B i = in_blocks (n_inode n)" and f: "file_ok (fs_blockSize fs) (fs_disk fs) n"
    and fit: "max (in_size (n_inode n)) (offset + length data) \<le> length (in_blocks (n_inode n1)) * fs_blockSize fs"
    and disk: "disk = write_loop (fs_blockSize fs) (in_blocks (n_inode n1)) offset data 0 (fs_disk fs1)"
    and n': "in_blocks (n_inode n') = in_blocks (n_inode n1)" "in_size (n_inode n') = max (in_size (n_inode n)) (offset + length data)"
  shows "store_ok (fs_blockSize fs) disk (fs_allocator fs1) (B(i := in_blocks (n_inode n1)))"
    and "j \<noteq> i \<Longrightarrow> b \<in> set (B j) \<Longrightarrow> disk ! b = fs_disk fs ! b" "length disk = length (fs_disk fs)"
    and "file_ok (fs_blockSize fs) disk n'"
    and "file_bytes (fs_blockSize fs) disk n' = splice_bytes offset data (file_bytes (fs_blockSize fs) (fs_disk fs) n)"
proof -
  let ?bs = "fs_blockSize fs" and ?bl = "in_blocks (n_inode n1)"
  note rs = resizedD [OF r] and byte = resized_byte [OF r B f]
  note d = store_okD [OF rs(11)]
  have ar: "area_ok (fs_disk fs1) ?bl" using d(6) [of i] by simp
  have wl: "disk_ok ?bs disk" "length disk = length (fs_disk fs1)" "\<And>b. b \<notin> set ?bl \<Longrightarrow> disk ! b = fs_disk fs1 ! b"
    "\<And>k. k < length ?bl * ?bs \<Longrightarrow> byte_at ?bs disk ?bl k = (if offset \<le> k \<and> k < offset + length data then data ! (k - offset) else byte_at ?bs (fs_disk fs1) ?bl k)"
    using write_loop_bytes [OF d(1) ar, of offset data 0] fit unfolding disk by auto
  show "store_ok ?bs disk (fs_allocator fs1) (B(i := ?bl))" using store_write [OF rs(11) wl(1,2), of i] wl(3) by simp
  show "disk ! b = fs_disk fs ! b" if "j \<noteq> i" "b \<in> set (B j)" using wl(3) [of b] rs(12) [OF that] d(9) [of b i j] that by auto
  show "length disk = length (fs_disk fs)" using wl(2) rs(10) by simp
  show "file_ok ?bs disk n'" using wl(4) byte fit by (simp add: file_ok_def n')
  show "file_bytes ?bs disk n' = splice_bytes offset data (file_bytes ?bs (fs_disk fs) n)"
  proof (rule nth_equalityI)
    fix k assume "k < length (file_bytes ?bs disk n')"
    then have k: "k < max (in_size (n_inode n)) (offset + length data)" by (simp add: file_bytes_def n')
    then have k1: "k < length ?bl * ?bs" using fit by linarith
    show "file_bytes ?bs disk n' ! k = splice_bytes offset data (file_bytes ?bs (fs_disk fs) n) ! k"
      using k wl(4) [OF k1] byte [OF k1] splice_bytes_nth [of k "file_bytes ?bs (fs_disk fs) n" offset data] by (simp add: file_bytes_def n')
  qed (simp add: file_bytes_def n')
qed

lemma writeToNode_cases:
  assumes s: "store_ok (fs_blockSize fs) (fs_disk fs) (fs_allocator fs) B" and B: "B i = in_blocks (n_inode n)"
    and w: "writeToNode fs n offset data = (fs', n', r)"
  obtains (nothing) "data = []" "fs' = fs" "n' = n" "r = Ok 0"
  | (full) "data \<noteq> []" "r = Error OutOfMemory" "resized fs n B i fs' n'" "length (B i) \<le> length (in_blocks (n_inode n'))"
      "length (in_blocks (n_inode n')) < requiredBlocks (fs_blockSize fs) (max (in_size (n_inode n)) (offset + length data))"
      "\<And>b. \<not> BlockAllocator_isFree (fs_allocator fs') b"
  | (written) fs1 n1 where "data \<noteq> []" "r = Ok (length data)" "resized fs n B i fs1 n1"
      "max (in_size (n_inode n)) (offset + length data) \<le> length (in_blocks (n_inode n1)) * fs_blockSize fs"
      "fs' = fs1\<lparr>fs_disk := write_loop (fs_blockSize fs) (in_blocks (n_inode n1)) offset data 0 (fs_disk fs1), fs_tick := fs_tick fs1 + 1\<rparr>"
      "n' = n1\<lparr>n_inode := (n_inode n1)\<lparr>in_size := max (in_size (n_inode n)) (offset + length data), in_modifiedAt := fs_tick fs1 + 1\<rparr>\<rparr>"
proof (cases "data = []")
  case False
  obtain fs1 n1 r1 where en: "ensureFileBlocks fs n (max (in_size (n_inode n)) (offset + length data)) = (fs1, n1, r1)" using prod_cases3 by blast
  note es = ensureFileBlocks_spec [OF s B en]
  show ?thesis
  proof (cases r1)
    case (Error e)
    then have "fs' = fs1" "n' = n1" "r = Error e" using w en False by (simp_all add: writeToNode_def Let_def)
    then show ?thesis using full False es Error by simp
  next
    case (Ok u)
    have "max (in_size (n_inode n)) (offset + length data) \<le> length (in_blocks (n_inode n1)) * fs_blockSize fs"
      using requiredBlocks_enough(1) [OF store_okD(2) [OF s]] es(2) Ok by simp
    then show ?thesis
      using w en False Ok resizedD(5,6) [OF es(1)] by (intro written [OF False _ es(1)]) (simp_all add: writeToNode_def Let_def)
  qed
qed (use w nothing in \<open>simp add: writeToNode_def\<close>)

text \<open>A successful write splices the data into the bytes of the file; a failed one leaves them as they were.\<close>

lemma writeToNode_frame:
  assumes s: "store_ok (fs_blockSize fs) (fs_disk fs) (fs_allocator fs) B" and B: "B i = in_blocks (n_inode n)"
    and f: "file_ok (fs_blockSize fs) (fs_disk fs) n" and w: "writeToNode fs n offset data = (fs', n', r)"
  shows "store_ok (fs_blockSize fs) (fs_disk fs') (fs_allocator fs') (B(i := in_blocks (n_inode n')))"
    and "j \<noteq> i \<Longrightarrow> b \<in> set (B j) \<Longrightarrow> fs_disk fs' ! b = fs_disk fs ! b"
    and "n_children n' = n_children n" "in_id (n_inode n') = in_id (n_inode n)" "in_type (n_inode n') = in_type (n_inode n)"
      "in_parent (n_inode n') = in_parent (n_inode n)"
      "fs_blockSize fs' = fs_blockSize fs" "fs_fdTable fs' = fs_fdTable fs" "fs_nodes fs' = fs_nodes fs" "fs_nextInodeId fs' = fs_nextInodeId fs"
      "length (fs_disk fs') = length (fs_disk fs)"
proof -
  show "store_ok (fs_blockSize fs) (fs_disk fs') (fs_allocator fs') (B(i := in_blocks (n_inode n')))" using s B w
  proof (cases rule: writeToNode_cases)
    case nothing
    then show ?thesis using s by (simp flip: B)
  next
    case full
    then show ?thesis by (intro resizedD)
  next
    case (written fs1 n1)
    then show ?thesis using written_file(1) [OF written(3) B f written(4) refl, of n'] by simp
  qed
  show "fs_disk fs' ! b = fs_disk fs ! b" if "j \<noteq> i" "b \<in> set (B j)" using s B w
  proof (cases rule: writeToNode_cases)
    case full
    then show ?thesis using resizedD(12) that by blast
  next
    case (written fs1 n1)
    then show ?thesis using written_file(2) [OF written(3) B f written(4) refl _ _ that, of n'] by simp
  qed simp
  show "length (fs_disk fs') = length (fs_disk fs)" using s B w
  proof (cases rule: writeToNode_cases)
    case full
    then show ?thesis by (intro resizedD)
  next
    case (written fs1 n1)
    then show ?thesis using written_file(3) [OF written(3) B f written(4) refl, of n'] by simp
  qed simp
qed (rule writeToNode_cases [OF s B w]; simp add: resizedD(1-9) [of fs n B i])+

lemma writeToNode_spec:
  assumes s: "store_ok (fs_blockSize fs) (fs_disk fs) (fs_allocator fs) B" and B: "B i = in_blocks (n_inode n)"
    and f: "file_ok (fs_blockSize fs) (fs_disk fs) n" and w: "writeToNode fs n offset data = (fs', n', r)"
  shows "file_ok (fs_blockSize fs) (fs_disk fs') n'"
    and "case r of
        Ok k \<Rightarrow> k = length data \<and> file_bytes (fs_blockSize fs) (fs_disk fs') n'
            = (if data = [] then file_bytes (fs_blockSize fs) (fs_disk fs) n else splice_bytes offset data (file_bytes (fs_blockSize fs) (fs_disk fs) n))
      | Error e \<Rightarrow> e = OutOfMemory \<and> data \<noteq> [] \<and> file_bytes (fs_blockSize fs) (fs_disk fs') n' = file_bytes (fs_blockSize fs) (fs_disk fs) n
            \<and> length (B i) \<le> length (in_blocks (n_inode n'))
            \<and> length (in_blocks (n_inode n')) < requiredBlocks (fs_blockSize fs) (max (in_size (n_inode n)) (offset + length data))
            \<and> (\<forall>b. \<not> BlockAllocator_isFree (fs_allocator fs') b)"
  by (rule writeToNode_cases [OF s B w];
      use f in \<open>simp add: resized_file [of fs n B i, OF _ B f] written_file(4,5) [of fs n B i, OF _ B f _ refl]\<close>)+


section \<open>The invariant\<close>

definition blocks_of :: "(inode_id \<rightharpoonup> node) \<Rightarrow> inode_id \<Rightarrow> nat list" where
  "blocks_of nodes i = (case nodes i of None \<Rightarrow> [] | Some n \<Rightarrow> in_blocks (n_inode n))"

definition valid_name :: "string \<Rightarrow> bool" where
  "valid_name name \<longleftrightarrow> name \<noteq> '''' \<and> CHR ''/'' \<notin> set name \<and> name \<noteq> ''.'' \<and> name \<noteq> ''..''"

text \<open>A node of the tree: its shape by type, its entries, and the entry for it in its parent. Ids grow away from the root.\<close>

definition node_ok :: "(inode_id \<rightharpoonup> node) \<Rightarrow> inode_id \<Rightarrow> node \<Rightarrow> bool" where
  "node_ok nodes i n \<longleftrightarrow> in_id (n_inode n) = i
    \<and> (in_type (n_inode n) = File \<longrightarrow> n_children n = [])
    \<and> (in_type (n_inode n) = Directory \<longrightarrow> in_blocks (n_inode n) = [] \<and> in_size (n_inode n) = length (n_children n))
    \<and> distinct (map fst (n_children n)) \<and> distinct (map snd (n_children n))
    \<and> (\<forall>(name, c) \<in> set (n_children n). i < c \<and> valid_name name \<and> (\<exists>m. nodes c = Some m \<and> in_parent (n_inode m) = Some i))
    \<and> (i \<noteq> ROOT_INODE_ID \<longrightarrow> (\<exists>p m. in_parent (n_inode n) = Some p \<and> nodes p = Some m \<and> in_type (n_inode m) = Directory
          \<and> i \<in> snd ` set (n_children m)))"

definition tree_ok :: "(inode_id \<rightharpoonup> node) \<Rightarrow> inode_id \<Rightarrow> bool" where
  "tree_ok nodes nxt \<longleftrightarrow> (\<exists>r. nodes ROOT_INODE_ID = Some r \<and> in_type (n_inode r) = Directory)
    \<and> (\<forall>i n. nodes i = Some n \<longrightarrow> i \<noteq> 0 \<and> i < nxt \<and> node_ok nodes i n)"

definition fds_ok :: "simple_fs \<Rightarrow> bool" where
  "fds_ok fs \<longleftrightarrow> (\<forall>fd st. fd_entries (fs_fdTable fs) fd = Some st \<longrightarrow>
     fd < nextFd (fs_fdTable fs) \<and> of_inodeId st < fs_nextInodeId fs
     \<and> (\<forall>n. fs_nodes fs (of_inodeId st) = Some n \<longrightarrow> in_type (n_inode n) = File))"

definition fs_inv :: "simple_fs \<Rightarrow> bool" where
  "fs_inv fs \<longleftrightarrow> store_ok (fs_blockSize fs) (fs_disk fs) (fs_allocator fs) (blocks_of (fs_nodes fs))
    \<and> (\<forall>i n. fs_nodes fs i = Some n \<and> in_type (n_inode n) = File \<longrightarrow> file_ok (fs_blockSize fs) (fs_disk fs) n)
    \<and> tree_ok (fs_nodes fs) (fs_nextInodeId fs) \<and> fds_ok fs"

text \<open>The id counters have \<open>k\<close> values left.\<close>

definition fs_room :: "nat \<Rightarrow> simple_fs \<Rightarrow> bool" where
  "fs_room k fs \<longleftrightarrow> unat (fs_nextInodeId fs) + k < 2 ^ 32 \<and> unat (nextFd (fs_fdTable fs)) + k < 2 ^ 31"

text \<open>The abstract view: the bytes of a file, and the node a list of tokens leads to.\<close>

definition content :: "simple_fs \<Rightarrow> inode_id \<Rightarrow> byte list option" where
  "content fs i = (case fs_nodes fs i of
       None \<Rightarrow> None
     | Some n \<Rightarrow> if in_type (n_inode n) = File then Some (file_bytes (fs_blockSize fs) (fs_disk fs) n) else None)"

lemma blocks_of_upd [simp]: "blocks_of (nodes(i \<mapsto> n)) = (blocks_of nodes)(i := in_blocks (n_inode n))"
  by (auto simp: blocks_of_def fun_eq_iff)

lemma blocks_of_None [simp]: "blocks_of (nodes(i := None)) = (blocks_of nodes)(i := [])"
  by (auto simp: blocks_of_def fun_eq_iff)

lemma blocks_of_Some: "nodes i = Some n \<Longrightarrow> blocks_of nodes i = in_blocks (n_inode n)"
  by (simp add: blocks_of_def)

lemma node_okI:
  assumes "in_id (n_inode n) = i" "in_type (n_inode n) = File \<Longrightarrow> n_children n = []"
    "in_type (n_inode n) = Directory \<Longrightarrow> in_blocks (n_inode n) = []"
    "in_type (n_inode n) = Directory \<Longrightarrow> in_size (n_inode n) = length (n_children n)"
    "distinct (map fst (n_children n))" "distinct (map snd (n_children n))"
    "\<And>name c. (name, c) \<in> set (n_children n) \<Longrightarrow> i < c" "\<And>name c. (name, c) \<in> set (n_children n) \<Longrightarrow> valid_name name"
    "\<And>name c. (name, c) \<in> set (n_children n) \<Longrightarrow> \<exists>m. nodes c = Some m \<and> in_parent (n_inode m) = Some i"
    "i \<noteq> ROOT_INODE_ID \<Longrightarrow> \<exists>p m. in_parent (n_inode n) = Some p \<and> nodes p = Some m \<and> in_type (n_inode m) = Directory
          \<and> i \<in> snd ` set (n_children m)"
  shows "node_ok nodes i n"
  using assms unfolding node_ok_def by blast

lemma tree_okD:
  assumes "tree_ok nodes nxt" "nodes i = Some n"
  shows "i < nxt" "in_id (n_inode n) = i" "in_type (n_inode n) = File \<Longrightarrow> n_children n = []"
    "in_type (n_inode n) = Directory \<Longrightarrow> in_blocks (n_inode n) = []"
    "in_type (n_inode n) = Directory \<Longrightarrow> in_size (n_inode n) = length (n_children n)"
    "distinct (map fst (n_children n))" "distinct (map snd (n_children n))"
    "(name, c) \<in> set (n_children n) \<Longrightarrow> i < c" "(name, c) \<in> set (n_children n) \<Longrightarrow> valid_name name"
    "(name, c) \<in> set (n_children n) \<Longrightarrow> \<exists>m. nodes c = Some m \<and> in_parent (n_inode m) = Some i"
    "i \<noteq> ROOT_INODE_ID \<Longrightarrow> \<exists>p m. in_parent (n_inode n) = Some p \<and> nodes p = Some m \<and> in_type (n_inode m) = Directory
          \<and> i \<in> snd ` set (n_children m)"
    "i \<noteq> 0"
proof -
  have "i \<noteq> 0 \<and> i < nxt \<and> node_ok nodes i n" using assms unfolding tree_ok_def by blast
  note k = this [unfolded node_ok_def]
  show "i < nxt" "in_id (n_inode n) = i" "in_type (n_inode n) = File \<Longrightarrow> n_children n = []"
    "in_type (n_inode n) = Directory \<Longrightarrow> in_blocks (n_inode n) = []"
    "in_type (n_inode n) = Directory \<Longrightarrow> in_size (n_inode n) = length (n_children n)"
    "distinct (map fst (n_children n))" "distinct (map snd (n_children n))" using k by blast+
  show "(name, c) \<in> set (n_children n) \<Longrightarrow> i < c" "(name, c) \<in> set (n_children n) \<Longrightarrow> valid_name name"
    "(name, c) \<in> set (n_children n) \<Longrightarrow> \<exists>m. nodes c = Some m \<and> in_parent (n_inode m) = Some i" using k by blast+
  show "i \<noteq> ROOT_INODE_ID \<Longrightarrow> \<exists>p m. in_parent (n_inode n) = Some p \<and> nodes p = Some m \<and> in_type (n_inode m) = Directory
          \<and> i \<in> snd ` set (n_children m)" using k by blast
  show "i \<noteq> 0" using k by blast
qed

lemma fds_okD:
  assumes "fds_ok fs" "fd_entries (fs_fdTable fs) fd = Some st"
  shows "fd < nextFd (fs_fdTable fs)" "of_inodeId st < fs_nextInodeId fs" "fs_nodes fs (of_inodeId st) = Some n \<Longrightarrow> in_type (n_inode n) = File"
  using assms unfolding fds_ok_def by blast+

lemma fds_okI:
  assumes "\<And>fd st. fd_entries (fs_fdTable fs) fd = Some st \<Longrightarrow> fd < nextFd (fs_fdTable fs)"
    "\<And>fd st. fd_entries (fs_fdTable fs) fd = Some st \<Longrightarrow> of_inodeId st < fs_nextInodeId fs"
    "\<And>fd st n. fd_entries (fs_fdTable fs) fd = Some st \<Longrightarrow> fs_nodes fs (of_inodeId st) = Some n \<Longrightarrow> in_type (n_inode n) = File"
  shows "fds_ok fs"
  using assms unfolding fds_ok_def by blast

lemma fs_invD:
  assumes "fs_inv fs"
  shows "store_ok (fs_blockSize fs) (fs_disk fs) (fs_allocator fs) (blocks_of (fs_nodes fs))"
    "fs_nodes fs i = Some n \<Longrightarrow> in_type (n_inode n) = File \<Longrightarrow> file_ok (fs_blockSize fs) (fs_disk fs) n"
    "tree_ok (fs_nodes fs) (fs_nextInodeId fs)" "fds_ok fs"
  using assms unfolding fs_inv_def by blast+

text \<open>Replacing the data of a node, with its place in the tree kept, keeps the tree.\<close>

definition same_place :: "node \<Rightarrow> node \<Rightarrow> bool" where
  "same_place n n' \<longleftrightarrow> n_children n' = n_children n \<and> in_id (n_inode n') = in_id (n_inode n)
    \<and> in_type (n_inode n') = in_type (n_inode n) \<and> in_parent (n_inode n') = in_parent (n_inode n)"

lemma tree_replace:
  assumes t: "tree_ok nodes nxt" and n: "nodes i = Some n" "in_type (n_inode n) = File" and p: "same_place n n'"
  shows "tree_ok (nodes(i \<mapsto> n')) nxt"
proof -
  let ?N = "nodes(i \<mapsto> n')"
  have view: "\<exists>m'. ?N j = Some m' \<and> same_place m m'" if "nodes j = Some m" for j m using that n p by (cases "j = i") (auto simp: same_place_def)
  have ok: "j \<noteq> 0 \<and> j < nxt \<and> node_ok ?N j m'" if m': "?N j = Some m'" for j m'
  proof -
    obtain m where m: "nodes j = Some m" "same_place m m'" "j \<noteq> i \<Longrightarrow> m' = m" "j = i \<Longrightarrow> m = n"
      using m' n p by (cases "j = i") (auto simp: same_place_def)
    note d = tree_okD [OF t m(1)]
    have "node_ok ?N j m'"
    proof (rule node_okI)
      show "in_id (n_inode m') = j" "in_type (n_inode m') = File \<Longrightarrow> n_children m' = []"
        "distinct (map fst (n_children m'))" "distinct (map snd (n_children m'))"
        "(name, c) \<in> set (n_children m') \<Longrightarrow> j < c" "(name, c) \<in> set (n_children m') \<Longrightarrow> valid_name name" for name c
        using d(2,3,6,7,8,9) m(2) by (simp_all add: same_place_def)
      show "in_blocks (n_inode m') = []" "in_size (n_inode m') = length (n_children m')" if "in_type (n_inode m') = Directory"
        using that m n(2) d(4,5) by (cases "j = i"; simp add: same_place_def)+
      show "\<exists>k. ?N c = Some k \<and> in_parent (n_inode k) = Some j" if "(name, c) \<in> set (n_children m')" for name c
        using d(10) [of name c] that m(2) view by (fastforce simp: same_place_def)
      show "\<exists>p k. in_parent (n_inode m') = Some p \<and> ?N p = Some k \<and> in_type (n_inode k) = Directory \<and> j \<in> snd ` set (n_children k)"
        if "j \<noteq> ROOT_INODE_ID"
        using d(11) [OF that] m(2) view by (fastforce simp: same_place_def)
    qed
    with d(1,12) show ?thesis by blast
  qed
  moreover have "\<exists>r. ?N ROOT_INODE_ID = Some r \<and> in_type (n_inode r) = Directory"
    using t n by (cases "i = ROOT_INODE_ID") (auto simp: tree_ok_def)
  ultimately show ?thesis unfolding tree_ok_def by blast
qed


section \<open>Paths in the tree\<close>

definition walk_step :: "(inode_id \<rightharpoonup> node) \<Rightarrow> inode_id \<Rightarrow> string \<Rightarrow> inode_id result" where
  "walk_step nodes i t = (case nodes i of
       None \<Rightarrow> Error NotFound
     | Some n \<Rightarrow> if in_type (n_inode n) \<noteq> Directory then Error NotFound
                 else case map_of (n_children n) t of None \<Rightarrow> Error NotFound | Some c \<Rightarrow> Ok c)"

lemma walk_Cons: "walk nodes i (t # ts) = (case walk_step nodes i t of Error e \<Rightarrow> Error e | Ok c \<Rightarrow> walk nodes c ts)"
  by (simp add: walk_step_def split: option.splits)

lemma walk_append: "walk nodes i (ts @ us) = (case walk nodes i ts of Error e \<Rightarrow> Error e | Ok c \<Rightarrow> walk nodes c us)"
  by (induction ts arbitrary: i) (auto simp: walk_Cons simp del: walk.simps(2) split: result.splits)

lemma walk_snoc: "walk nodes i (ts @ [t]) = (case walk nodes i ts of Error e \<Rightarrow> Error e | Ok c \<Rightarrow> walk_step nodes c t)"
  by (auto simp: walk_append walk_Cons simp del: walk.simps(2) split: result.splits)

lemma walk_step_Ok:
  assumes "tree_ok nodes nxt" "walk_step nodes i t = Ok c"
  obtains n m where "nodes i = Some n" "in_type (n_inode n) = Directory" "(t, c) \<in> set (n_children n)" "nodes c = Some m"
    "in_parent (n_inode m) = Some i" "i < c" "i \<noteq> 0"
proof -
  obtain n where n: "nodes i = Some n" "in_type (n_inode n) = Directory" "map_of (n_children n) t = Some c"
    using assms(2) by (auto simp: walk_step_def split: option.splits if_splits)
  from map_of_SomeD [OF n(3)] that [OF n(1,2)] tree_okD(8,10,12) [OF assms(1) n(1)] show ?thesis by blast
qed

lemma walk_exists:
  assumes "tree_ok nodes nxt" "walk nodes ROOT_INODE_ID ts = Ok i"
  shows "\<exists>n. nodes i = Some n"
proof (cases ts rule: rev_cases)
  case Nil
  then show ?thesis using assms by (auto simp: tree_ok_def)
next
  case (snoc us u)
  then obtain j where "walk_step nodes j u = Ok i" using assms(2) by (auto simp: walk_snoc split: result.splits)
  then show ?thesis using walk_step_Ok [OF assms(1)] by metis
qed

lemma walk_step_root: "tree_ok nodes nxt \<Longrightarrow> walk_step nodes j u \<noteq> Ok ROOT_INODE_ID"
  using walk_step_Ok [of nodes nxt j u ROOT_INODE_ID] by (metis ROOT_INODE_ID_def word_less_1)

lemma walk_inj:
  assumes "tree_ok nodes nxt" "walk nodes ROOT_INODE_ID ts = Ok i" "walk nodes ROOT_INODE_ID ts' = Ok i"
  shows "ts = ts'"
  using assms(2,3)
proof (induction ts arbitrary: i ts' rule: rev_induct)
  case Nil
  then show ?case using walk_step_root [OF assms(1)] by (cases ts' rule: rev_cases) (auto simp: walk_snoc split: result.splits)
next
  case (snoc u us)
  obtain j where j: "walk nodes ROOT_INODE_ID us = Ok j" "walk_step nodes j u = Ok i" using snoc.prems(1) by (auto simp: walk_snoc split: result.splits)
  show ?case
  proof (cases ts' rule: rev_cases)
    case Nil
    then show ?thesis using walk_step_root [OF assms(1)] snoc.prems(2) j(2) by auto
  next
    case (snoc us' u')
    obtain j' where j': "walk nodes ROOT_INODE_ID us' = Ok j'" "walk_step nodes j' u' = Ok i"
      using snoc \<open>walk nodes ROOT_INODE_ID ts' = Ok i\<close> by (auto simp: walk_snoc split: result.splits)
    obtain n m where n: "nodes j = Some n" "(u, i) \<in> set (n_children n)" "nodes i = Some m" "in_parent (n_inode m) = Some j"
      using walk_step_Ok [OF assms(1) j(2)] by metis
    obtain n' m' where n': "nodes j' = Some n'" "(u', i) \<in> set (n_children n')" "nodes i = Some m'" "in_parent (n_inode m') = Some j'"
      using walk_step_Ok [OF assms(1) j'(2)] by metis
    have "j = j'" using n n' by simp
    moreover have "u = u'" using n n' tree_okD(7) [OF assms(1) n(1)] calculation
      by (metis distinct_map inj_onD option.inject prod.inject snd_conv)
    ultimately show ?thesis using snoc.IH [OF j(1)] j'(1) snoc by simp
  qed
qed

lemma walk_reaches:
  assumes t: "tree_ok nodes nxt" and i: "nodes i = Some n"
  shows "\<exists>ts. walk nodes ROOT_INODE_ID ts = Ok i \<and> (\<forall>u \<in> set ts. valid_name u)"
  using i
proof (induction i arbitrary: n rule: measure_induct_rule [where f = unat])
  case (less i)
  show ?case
  proof (cases "i = ROOT_INODE_ID")
    case True
    then show ?thesis by (intro exI [of _ "[]"]) simp
  next
    case False
    obtain p m where p: "nodes p = Some m" "in_type (n_inode m) = Directory" "i \<in> snd ` set (n_children m)"
      using tree_okD(11) [OF t less.prems False] by blast
    then obtain u where u: "(u, i) \<in> set (n_children m)" by auto
    note d = tree_okD [OF t p(1)]
    have "unat p < unat i" using d(8) [OF u] by (simp add: word_less_nat_alt)
    from less.IH [OF this p(1)] obtain ts where ts: "walk nodes ROOT_INODE_ID ts = Ok p" "\<forall>u \<in> set ts. valid_name u" by blast
    moreover have "map_of (n_children m) u = Some i" using d(6) u by simp
    ultimately show ?thesis using p d(9) [OF u] by (intro exI [of _ "ts @ [u]"]) (simp add: walk_snoc walk_step_def)
  qed
qed

text \<open>
  Adding or removing a node without children changes the walk of one list of tokens only.
\<close>

lemma walk_change:
  assumes t: "tree_ok nodes nxt" and p: "walk nodes ROOT_INODE_ID pts = Ok p"
    and leaf: "\<And>u. walk_step nodes c u = Error NotFound" and cp: "c \<noteq> p"
    and S: "walk_step nodes p name \<in> {Error NotFound, Ok c}" and R: "R \<in> {Error NotFound, Ok c}"
    and step: "\<And>j u. walk_step nodes' j u = (if j = p \<and> u = name then R else walk_step nodes j u)"
  shows "walk nodes' ROOT_INODE_ID ts = (if ts = pts @ [name] then R else walk nodes ROOT_INODE_ID ts)"
proof (induction ts rule: rev_induct)
  case Nil
  then show ?case by simp
next
  case (snoc u us)
  show ?case
  proof (cases "us = pts @ [name]")
    case True
    then have "walk nodes' ROOT_INODE_ID us = R" "walk nodes ROOT_INODE_ID us = walk_step nodes p name" using snoc p by (simp_all add: walk_snoc)
    moreover have "walk_step nodes' c u = Error NotFound" using step leaf cp by simp
    ultimately have "walk nodes' ROOT_INODE_ID (us @ [u]) = Error NotFound" "walk nodes ROOT_INODE_ID (us @ [u]) = Error NotFound"
      using leaf S R by (auto simp only: walk_snoc result.case insert_iff empty_iff)
    then show ?thesis using True by simp
  next
    case False
    then have same: "walk nodes' ROOT_INODE_ID us = walk nodes ROOT_INODE_ID us" using snoc by simp
    show ?thesis
    proof (cases "walk nodes ROOT_INODE_ID us")
      case (Ok j)
      then show ?thesis using same step walk_inj [OF t _ p, of us] p by (auto simp: walk_snoc)
    next
      case (Error e)
      then show ?thesis using same p by (auto simp: walk_snoc)
    qed
  qed
qed


section \<open>Tokens\<close>

lemma split_tokens_valid: "t \<in> set (split_tokens s) \<Longrightarrow> t \<noteq> '''' \<and> CHR ''/'' \<notin> set t"
proof (induction s rule: split_tokens.induct)
  case (1 s)
  let ?r = "dropWhile (\<lambda>c. c = CHR ''/'') s"
  let ?t = "takeWhile (\<lambda>c. c \<noteq> CHR ''/'') ?r"
  consider "?r = []" | "?r \<noteq> []" "CHR ''/'' \<notin> set ?r" | "?r \<noteq> []" "CHR ''/'' \<in> set ?r" by blast
  then show ?case
  proof cases
    case 3
    have "?t \<noteq> []" using 3(1) hd_dropWhile [OF 3(1)] by (cases ?r) simp_all
    moreover have "CHR ''/'' \<notin> set ?t" using set_takeWhileD by fastforce
    moreover have "t = ?t \<or> t \<in> set (split_tokens (drop (Suc (length ?t)) ?r))"
    proof -
      have "split_tokens s = ?t # split_tokens (drop (Suc (length ?t)) ?r)"
        using 3 by (subst split_tokens.simps) (simp only: Let_def if_False not_not not_True_eq_False)
      then show ?thesis using 1(2) by simp
    qed
    ultimately show ?thesis using 1(1) [OF refl 3(1)] 3(2) by (elim disjE) (simp_all only: not_not simp_thms)
  next
    case 1
    then have "split_tokens s = []" by (subst split_tokens.simps) (simp only: Let_def simp_thms if_True)
    then show ?thesis using \<open>t \<in> set (split_tokens s)\<close> by simp
  next
    case 2
    then have "split_tokens s = [?r]" by (subst split_tokens.simps) (simp only: Let_def if_True if_False not_False_eq_True)
    then show ?thesis using \<open>t \<in> set (split_tokens s)\<close> 2 by simp
  qed
qed

lemma splitPath_valid: "splitPath path = Ok ts \<Longrightarrow> t \<in> set ts \<Longrightarrow> valid_name t"
  using split_tokens_valid [of t "tl path"] by (auto simp: splitPath_def valid_name_def Let_def split: if_splits)

text \<open>The path that names a list of tokens.\<close>

definition path_of :: "string list \<Rightarrow> string" where
  "path_of ts = (if ts = [] then ''/'' else concat (map (\<lambda>t. CHR ''/'' # t) ts))"

lemma split_tokens_slash: "split_tokens (CHR ''/'' # s) = split_tokens s"
  by (subst (1 2) split_tokens.simps) simp

lemma split_tokens_join:
  "\<forall>t \<in> set ts. valid_name t \<Longrightarrow> split_tokens (concat (map (\<lambda>t. CHR ''/'' # t) ts)) = ts"
proof (induction ts)
  case Nil
  then show ?case by (subst split_tokens.simps) simp
next
  case (Cons t ts)
  let ?j = "concat (map (\<lambda>t. CHR ''/'' # t) ts)"
  have t: "t \<noteq> []" "CHR ''/'' \<notin> set t" using Cons.prems by (simp_all add: valid_name_def)
  then have dw: "dropWhile (\<lambda>c. c = CHR ''/'') (t @ s) = t @ s" for s by (cases t) auto
  have all: "\<forall>c \<in> set t. c \<noteq> CHR ''/''" using t(2) by auto
  show ?case
  proof (cases ts)
    case Nil
    then show ?thesis using t dw [of "[]"] by (simp add: split_tokens_slash) (subst split_tokens.simps, simp)
  next
    case (Cons u us)
    then obtain rest where rest: "?j = CHR ''/'' # rest" by simp
    have tw: "takeWhile (\<lambda>c. c \<noteq> CHR ''/'') (t @ CHR ''/'' # rest) = t" using all by (simp add: takeWhile_append2)
    have "split_tokens (t @ ?j) = t # split_tokens rest"
      unfolding rest using t by (subst split_tokens.simps) (simp add: dw tw Let_def)
    then show ?thesis using Cons.IH Cons.prems rest by (simp add: split_tokens_slash)
  qed
qed

lemma splitPath_path_of:
  assumes "\<forall>t \<in> set ts. valid_name t"
  shows "splitPath (path_of ts) = Ok ts"
proof -
  have tl: "split_tokens (tl p) = split_tokens p" if "p \<noteq> []" "hd p = CHR ''/''" for p
    using that split_tokens_slash [of "tl p"] by (cases p) auto
  have hd: "path_of ts \<noteq> []" "hd (path_of ts) = CHR ''/''" by (cases ts; simp add: path_of_def)+
  have "split_tokens (path_of ts) = ts"
    using split_tokens_join [OF assms] split_tokens_slash [of "[]"] split_tokens.simps [of "[]"] by (auto simp: path_of_def)
  then show ?thesis using tl [OF hd] hd assms by (auto simp: splitPath_def valid_name_def)
qed

section \<open>Creating and removing nodes\<close>

lemma tree_fresh: "tree_ok nodes nxt \<Longrightarrow> nodes nxt = None"
  using tree_okD(1) [of nodes nxt nxt] by (cases "nodes nxt") auto

lemma tree_insert:
  assumes t: "tree_ok nodes nxt" and p: "nodes p = Some parent" "in_type (n_inode parent) = Directory" "map_of (n_children parent) name = None"
    and name: "valid_name name" and nx: "unat nxt + 1 < 2 ^ 32"
    and n: "in_id (n_inode n) = nxt" "in_parent (n_inode n) = Some p" "in_blocks (n_inode n) = []" "in_size (n_inode n) = 0" "n_children n = []"
    and q: "n_children parent1 = n_children parent @ [(name, nxt)]" "in_size (n_inode parent1) = length (n_children parent1)"
      "in_id (n_inode parent1) = in_id (n_inode parent)" "in_type (n_inode parent1) = Directory"
      "in_blocks (n_inode parent1) = in_blocks (n_inode parent)" "in_parent (n_inode parent1) = in_parent (n_inode parent)"
  shows "tree_ok (nodes(nxt \<mapsto> n, p \<mapsto> parent1)) (nxt + 1)"
proof -
  let ?N = "nodes(nxt \<mapsto> n, p \<mapsto> parent1)"
  note fresh = tree_fresh [OF t]
  have pn: "p \<noteq> nxt" using p(1) fresh by auto
  have lt: "nxt < nxt + 1" using nx by (simp add: word_less_nat_alt unat_word_ariths)
  have view: "\<exists>m'. ?N j = Some m' \<and> in_type (n_inode m') = in_type (n_inode m) \<and> in_parent (n_inode m') = in_parent (n_inode m)
      \<and> set (n_children m) \<subseteq> set (n_children m')" if "nodes j = Some m" for j m
    using that p q fresh by (cases "j = p") auto
  have "i \<noteq> 0 \<and> i < nxt + 1 \<and> node_ok ?N i m" if m: "?N i = Some m" for i m
  proof (cases "i = nxt")
    case True
    then have "m = n" using m pn by simp
    moreover have "\<exists>q k. in_parent (n_inode n) = Some q \<and> ?N q = Some k \<and> in_type (n_inode k) = Directory \<and> nxt \<in> snd ` set (n_children k)"
      using n(2) q by (intro exI [of _ p] exI [of _ parent1]) simp
    ultimately have "node_ok ?N i m" using n True by (intro node_okI) simp_all
    moreover have "nxt \<noteq> 0" using tree_okD(1) [OF t p(1)] by auto
    ultimately show ?thesis using lt True by simp
  next
    case False
    obtain m0 where m0: "nodes i = Some m0" "i \<noteq> p \<Longrightarrow> m = m0" "i = p \<Longrightarrow> m0 = parent \<and> m = parent1"
      using m False p by (cases "i = p") auto
    note d = tree_okD [OF t m0(1)]
    have children: "set (n_children m) = (if i = p then insert (name, nxt) (set (n_children m0)) else set (n_children m0))" using m0 q by auto
    have new: "name \<notin> fst ` set (n_children parent)" "nxt \<notin> snd ` set (n_children parent)"
    proof -
      show "name \<notin> fst ` set (n_children parent)" using p(3) by (simp add: map_of_eq_None_iff)
      have "c \<noteq> nxt" if "(u, c) \<in> set (n_children parent)" for u c using tree_okD(10) [OF t p(1) that] fresh by (cases "c = nxt") simp_all
      then show "nxt \<notin> snd ` set (n_children parent)" by force
    qed
    have same: "in_id (n_inode m) = in_id (n_inode m0)" "in_type (n_inode m) = in_type (n_inode m0)"
      "in_blocks (n_inode m) = in_blocks (n_inode m0)" "in_parent (n_inode m) = in_parent (n_inode m0)"
      using m0 p(2) q(3-6) by (cases "i = p"; simp)+
    have "node_ok ?N i m"
    proof (rule node_okI)
      show "in_id (n_inode m) = i" "in_type (n_inode m) = Directory \<Longrightarrow> in_blocks (n_inode m) = []" using d(2,4) same by simp_all
      show "n_children m = []" if "in_type (n_inode m) = File" using that d(3) same(2) m0(2) p(2) m0(3) by (cases "i = p") simp_all
      show "in_size (n_inode m) = length (n_children m)" if "in_type (n_inode m) = Directory"
        using that d(5) q(2) same(2) m0(2) m0(3) by (cases "i = p") simp_all
      show "distinct (map fst (n_children m))" "distinct (map snd (n_children m))" using d(6,7) m0 q new by (cases "i = p"; simp)+
      show "i < c" "valid_name u" if "(u, c) \<in> set (n_children m)" for u c
        using that d(1) d(8,9) [of u c] children name by (auto split: if_splits)
      show "\<exists>k. ?N c = Some k \<and> in_parent (n_inode k) = Some i" if "(u, c) \<in> set (n_children m)" for u c
        using that d(10) [of u c] children n(2) pn view by (fastforce split: if_splits)
      show "\<exists>q k. in_parent (n_inode m) = Some q \<and> ?N q = Some k \<and> in_type (n_inode k) = Directory \<and> i \<in> snd ` set (n_children k)"
        if nr: "i \<noteq> ROOT_INODE_ID"
      proof -
        obtain q' k where k: "in_parent (n_inode m0) = Some q'" "nodes q' = Some k" "in_type (n_inode k) = Directory" "i \<in> snd ` set (n_children k)"
          using d(11) [OF nr] by blast
        obtain k' where k': "?N q' = Some k'" "in_type (n_inode k') = Directory" "set (n_children k) \<subseteq> set (n_children k')" using view [OF k(2)] k(3) by auto
        have "in_parent (n_inode m) = Some q'" using k(1) same(4) by simp
        then show ?thesis using k' k(4) by blast
      qed
    qed
    then show ?thesis using d(1,12) lt by auto
  qed
  moreover have "\<exists>r. ?N ROOT_INODE_ID = Some r \<and> in_type (n_inode r) = Directory"
  proof -
    obtain r where "nodes ROOT_INODE_ID = Some r" "in_type (n_inode r) = Directory" using t by (auto simp: tree_ok_def)
    then show ?thesis using view by fastforce
  qed
  ultimately show ?thesis unfolding tree_ok_def by blast
qed

lemma tree_remove:
  assumes t: "tree_ok nodes nxt" and p: "nodes p = Some parent" "in_type (n_inode parent) = Directory" "map_of (n_children parent) name = Some c"
    and n: "nodes c = Some n" "n_children n = []" "c \<noteq> ROOT_INODE_ID"
    and q: "n_children parent1 = filter (\<lambda>e. fst e \<noteq> name) (n_children parent)" "in_size (n_inode parent1) = length (n_children parent1)"
      "in_id (n_inode parent1) = in_id (n_inode parent)" "in_type (n_inode parent1) = Directory"
      "in_blocks (n_inode parent1) = in_blocks (n_inode parent)" "in_parent (n_inode parent1) = in_parent (n_inode parent)"
  shows "tree_ok (nodes(c := None, p \<mapsto> parent1)) nxt"
proof -
  let ?N = "nodes(c := None, p \<mapsto> parent1)"
  note dp = tree_okD [OF t p(1)]
  have entry: "(name, c) \<in> set (n_children parent)" using map_of_SomeD [OF p(3)] .
  have pc: "p \<noteq> c" using dp(8) [OF entry] by auto
  have only: "u = name" if "(u, c) \<in> set (n_children parent)" for u
    using that entry dp(7) by (metis distinct_map inj_onD prod.inject snd_conv)
  have par: "j = p" if "nodes j = Some m" "(u, c) \<in> set (n_children m)" for j m u
    using tree_okD(10) [OF t that] dp(10) [OF entry] by auto
  have children1: "set (n_children parent1) = set (n_children parent) - {(name, c)}"
  proof -
    have "fst e \<noteq> name \<longleftrightarrow> e \<noteq> (name, c)" if "e \<in> set (n_children parent)" for e
      using eq_key_imp_eq_value [OF dp(6) entry, of "snd e"] that by (metis fst_conv prod.collapse)
    then show ?thesis unfolding q(1) set_filter by blast
  qed
  have view: "\<exists>m'. ?N j = Some m' \<and> in_type (n_inode m') = in_type (n_inode m) \<and> in_parent (n_inode m') = in_parent (n_inode m)
      \<and> set (n_children m) - {(name, c)} \<subseteq> set (n_children m')" if "nodes j = Some m" "j \<noteq> c" for j m
    using that p q children1 by (cases "j = p") auto
  have "i \<noteq> 0 \<and> i < nxt \<and> node_ok ?N i m" if m: "?N i = Some m" for i m
  proof -
    obtain m0 where m0: "nodes i = Some m0" "i \<noteq> c" "i \<noteq> p \<Longrightarrow> m = m0" "i = p \<Longrightarrow> m0 = parent \<and> m = parent1"
      using m p pc by (auto split: if_splits)
    note d = tree_okD [OF t m0(1)]
    have children: "set (n_children m) = set (n_children m0) - {(name, c)}" using m0 children1 par by (cases "i = p") auto
    have same: "in_id (n_inode m) = in_id (n_inode m0)" "in_type (n_inode m) = in_type (n_inode m0)"
      "in_blocks (n_inode m) = in_blocks (n_inode m0)" "in_parent (n_inode m) = in_parent (n_inode m0)"
      using m0 p(2) q(3-6) by (cases "i = p"; simp)+
    have "node_ok ?N i m"
    proof (rule node_okI)
      show "in_id (n_inode m) = i" "in_type (n_inode m) = Directory \<Longrightarrow> in_blocks (n_inode m) = []" using d(2,4) same by simp_all
      show "n_children m = []" if "in_type (n_inode m) = File" using that d(3) same(2) m0(3) p(2) m0(4) by (cases "i = p") simp_all
      show "in_size (n_inode m) = length (n_children m)" if "in_type (n_inode m) = Directory"
        using that d(5) q(2) same(2) m0(3) m0(4) by (cases "i = p") simp_all
      show "distinct (map fst (n_children m))" "distinct (map snd (n_children m))"
        using d(6,7) m0 q(1) by (cases "i = p"; simp add: distinct_map_filter)+
      show "i < b" "valid_name u" if "(u, b) \<in> set (n_children m)" for u b
        using that d(8,9) [of u b] children by auto
      show "\<exists>k. ?N b = Some k \<and> in_parent (n_inode k) = Some i" if "(u, b) \<in> set (n_children m)" for u b
      proof -
        have ub: "(u, b) \<in> set (n_children m0)" "(u, b) \<noteq> (name, c)" using that children by auto
        then have "b \<noteq> c" using par [OF m0(1)] only m0(1,4) by blast
        then show ?thesis using d(10) [OF ub(1)] view by fastforce
      qed
      show "\<exists>q k. in_parent (n_inode m) = Some q \<and> ?N q = Some k \<and> in_type (n_inode k) = Directory \<and> i \<in> snd ` set (n_children k)"
        if nr: "i \<noteq> ROOT_INODE_ID"
      proof -
        obtain q' k where k: "in_parent (n_inode m0) = Some q'" "nodes q' = Some k" "in_type (n_inode k) = Directory" "i \<in> snd ` set (n_children k)"
          using d(11) [OF nr] by blast
        have "q' \<noteq> c" using k(2,4) n(1,2) by auto
        then obtain k' where k': "?N q' = Some k'" "in_type (n_inode k') = Directory" "set (n_children k) - {(name, c)} \<subseteq> set (n_children k')"
          using view [OF k(2)] k(3) by auto
        have "in_parent (n_inode m) = Some q'" using k(1) same(4) by simp
        moreover have "i \<in> snd ` set (n_children k')" using k(4) k'(3) m0(2) by force
        ultimately show ?thesis using k' by blast
      qed
    qed
    then show ?thesis using d(1,12) by blast
  qed
  moreover have "\<exists>r. ?N ROOT_INODE_ID = Some r \<and> in_type (n_inode r) = Directory"
  proof -
    obtain r where "nodes ROOT_INODE_ID = Some r" "in_type (n_inode r) = Directory" using t by (auto simp: tree_ok_def)
    then show ?thesis using view n(3) by fastforce
  qed
  ultimately show ?thesis unfolding tree_ok_def by blast
qed


text \<open>What a successful creation adds.\<close>

definition new_node :: "simple_fs \<Rightarrow> inode_id \<Rightarrow> inode_type \<Rightarrow> node" where
  "new_node fs p ty = \<lparr>n_inode = default_inode\<lparr>in_id := fs_nextInodeId fs, in_type := ty, in_parent := Some p,
     in_createdAt := fs_tick fs + 1, in_modifiedAt := fs_tick fs + 1\<rparr>, n_children = []\<rparr>"

definition entered :: "simple_fs \<Rightarrow> node \<Rightarrow> string \<Rightarrow> node" where
  "entered fs parent name = \<lparr>n_inode = (n_inode parent)\<lparr>in_size := length (n_children parent) + 1, in_modifiedAt := fs_tick fs + 1 + 1\<rparr>,
     n_children = n_children parent @ [(name, fs_nextInodeId fs)]\<rparr>"

definition erased :: "simple_fs \<Rightarrow> node \<Rightarrow> string \<Rightarrow> node" where
  "erased fs parent name = \<lparr>n_inode = (n_inode parent)\<lparr>in_size := length (filter (\<lambda>c. fst c \<noteq> name) (n_children parent)),
     in_modifiedAt := fs_tick fs + 1\<rparr>, n_children = filter (\<lambda>c. fst c \<noteq> name) (n_children parent)\<rparr>"

lemma resolveParent_Ok:
  assumes "resolveParent fs path = Ok (p, name)"
  obtains ts where "splitPath path = Ok (ts @ [name])" "walk (fs_nodes fs) ROOT_INODE_ID ts = Ok p"
proof -
  obtain toks where toks: "splitPath path = Ok toks" "toks \<noteq> []" "walk (fs_nodes fs) ROOT_INODE_ID (butlast toks) = Ok p" "last toks = name"
    using assms by (auto simp: resolveParent_def split: result.splits if_splits)
  then have "toks = butlast toks @ [name]" by (metis append_butlast_last_id)
  then show ?thesis using that [of "butlast toks"] toks by metis
qed

lemma create_node_cases:
  assumes c: "create_node fs path ty = (fs', r)" and t: "tree_ok (fs_nodes fs) (fs_nextInodeId fs)"
  obtains (fail) e where "r = Error e" "fs' = fs"
  | (made) ts name p parent where "splitPath path = Ok (ts @ [name])" "walk (fs_nodes fs) ROOT_INODE_ID ts = Ok p"
      "fs_nodes fs p = Some parent" "in_type (n_inode parent) = Directory" "map_of (n_children parent) name = None" "r = Ok (fs_nextInodeId fs)"
      "fs' = fs\<lparr>fs_nodes := (fs_nodes fs)(fs_nextInodeId fs \<mapsto> new_node fs p ty, p \<mapsto> entered fs parent name),
                fs_nextInodeId := fs_nextInodeId fs + 1, fs_tick := fs_tick fs + 1 + 1\<rparr>"
proof (cases "resolveParent fs path")
  case (Error e)
  then show ?thesis using fail [of e] c by (simp add: create_node_def)
next
  case (Ok pn)
  obtain p name where pn: "pn = (p, name)" by fastforce
  show ?thesis
  proof (cases "\<exists>parent. fs_nodes fs p = Some parent \<and> in_type (n_inode parent) = Directory \<and> map_of (n_children parent) name = None")
    case False
    then have "fs' = fs" "\<exists>e. r = Error e" using c Ok pn by (auto simp: create_node_def split: option.splits if_splits)
    then show ?thesis using fail by blast
  next
    case True
    then obtain parent where parent: "fs_nodes fs p = Some parent" "in_type (n_inode parent) = Directory" "map_of (n_children parent) name = None" by blast
    obtain ts where "splitPath path = Ok (ts @ [name])" "walk (fs_nodes fs) ROOT_INODE_ID ts = Ok p"
      using resolveParent_Ok Ok pn by metis
    moreover have "r = Ok (fs_nextInodeId fs)" "fs' = fs\<lparr>fs_nodes := (fs_nodes fs)(fs_nextInodeId fs \<mapsto> new_node fs p ty, p \<mapsto> entered fs parent name),
                fs_nextInodeId := fs_nextInodeId fs + 1, fs_tick := fs_tick fs + 1 + 1\<rparr>"
      using c Ok pn parent tree_fresh [OF t] by (simp_all add: create_node_def Let_def new_node_def entered_def)
    ultimately show ?thesis using made parent by blast
  qed
qed

lemma store_same: "store_ok bs disk a B \<Longrightarrow> (\<And>i. B' i = B i) \<Longrightarrow> store_ok bs disk a B'"
  by (metis ext)

text \<open>
  A creation keeps the invariant; the new node is empty, every file keeps its content, and the new path is the only one
  that leads elsewhere than before.
\<close>

lemma create_node_spec:
  assumes i: "fs_inv fs" and room: "unat (fs_nextInodeId fs) + 1 < 2 ^ 32" and c: "create_node fs path ty = (fs', Ok new)"
  obtains ts where "splitPath path = Ok ts" "fs_inv fs'" "new = fs_nextInodeId fs" "fs_nextInodeId fs' = fs_nextInodeId fs + 1"
    "fs_fdTable fs' = fs_fdTable fs" "fs_nodes fs new = None"
    "\<exists>n. fs_nodes fs' new = Some n \<and> in_type (n_inode n) = ty" "content fs' new = (if ty = File then Some [] else None)"
    "\<And>j. j \<noteq> new \<Longrightarrow> content fs' j = content fs j"
    "walk (fs_nodes fs) ROOT_INODE_ID ts = Error NotFound"
    "\<And>us. walk (fs_nodes fs') ROOT_INODE_ID us = (if us = ts then Ok new else walk (fs_nodes fs) ROOT_INODE_ID us)"
proof -
  note d = fs_invD [OF i]
  note fresh = tree_fresh [OF d(3)]
  from c d(3) show ?thesis
  proof (cases rule: create_node_cases)
    case (made ts name p parent)
    let ?nx = "fs_nextInodeId fs"
    let ?n = "new_node fs p ty" and ?q = "entered fs parent name"
    have new: "new = ?nx" using made(6) by simp
    have pn: "p \<noteq> ?nx" using made(3) fresh by auto
    have name: "valid_name name" using splitPath_valid [OF made(1)] by simp
    have tree: "tree_ok (fs_nodes fs') (fs_nextInodeId fs')"
      using tree_insert [OF d(3) made(3-5) name room, of ?n ?q] made(4) by (simp add: made(7) new_node_def entered_def default_inode_def)
    have blocks: "blocks_of (fs_nodes fs') j = blocks_of (fs_nodes fs) j" for j
      using fresh pn made(3) by (simp add: made(7) new_node_def entered_def default_inode_def blocks_of_def)
    have same: "fs_blockSize fs' = fs_blockSize fs" "fs_disk fs' = fs_disk fs" "fs_allocator fs' = fs_allocator fs" by (simp_all add: made(7))
    have store: "store_ok (fs_blockSize fs') (fs_disk fs') (fs_allocator fs') (blocks_of (fs_nodes fs'))"
      unfolding same by (rule store_same [OF d(1) blocks])
    have files: "file_ok (fs_blockSize fs') (fs_disk fs') n" if "fs_nodes fs' j = Some n" "in_type (n_inode n) = File" for j n
    proof -
      have "j \<noteq> p" using that made(4) by (auto simp: made(7) entered_def)
      then show ?thesis using that d(2) [of j n] by (auto simp: made(7) new_node_def default_inode_def file_ok_def split: if_splits)
    qed
    have "?nx < ?nx + 1" using room by (simp add: word_less_nat_alt unat_word_ariths)
    then have fds: "fds_ok fs'"
      using fds_okD [OF d(4)] made(3,4) less_trans by (intro fds_okI) (fastforce simp: made(7) entered_def split: if_splits)+
    have inv: "fs_inv fs'" using store files tree fds unfolding fs_inv_def by blast
    have con: "content fs' j = content fs j" if "j \<noteq> new" for j
    proof (cases "j = p")
      case True
      then show ?thesis using made(3,4) by (simp add: content_def made(7) entered_def)
    next
      case False
      then have "fs_nodes fs' j = fs_nodes fs j" using that by (simp add: made(7) new)
      then show ?thesis unfolding content_def same by simp
    qed
    have conn: "content fs' new = (if ty = File then Some [] else None)" using pn by (simp add: content_def made(7) new new_node_def default_inode_def file_bytes_def)
    have step: "walk_step (fs_nodes fs') j u = (if j = p \<and> u = name then Ok new else walk_step (fs_nodes fs) j u)" for j u
      using made(3-5) pn fresh by (auto simp: walk_step_def made(7) new_node_def entered_def new map_add_def split: option.splits)
    have before: "walk_step (fs_nodes fs) p name = Error NotFound" using made(3-5) by (simp add: walk_step_def)
    have walk: "walk (fs_nodes fs') ROOT_INODE_ID us = (if us = ts @ [name] then Ok new else walk (fs_nodes fs) ROOT_INODE_ID us)" for us
      using fresh pn before by (intro walk_change [OF d(3) made(2) _ _ _ _ step]) (simp_all add: walk_step_def new)
    have "walk (fs_nodes fs) ROOT_INODE_ID (ts @ [name]) = Error NotFound" using made(2) before by (simp add: walk_snoc)
    moreover have "\<exists>n. fs_nodes fs' new = Some n \<and> in_type (n_inode n) = ty" using pn by (simp add: made(7) new new_node_def)
    ultimately show ?thesis using that [OF made(1) inv new _ _ _ _ conn con _ walk] fresh by (simp add: made(7) new)
  qed simp
qed


lemma file_bytes_cong:
  assumes "\<And>b. b \<in> set (in_blocks (n_inode n)) \<Longrightarrow> disk' ! b = disk ! b" "in_size (n_inode n) \<le> length (in_blocks (n_inode n)) * bs"
  shows "file_bytes bs disk' n = file_bytes bs disk n"
  using assms byte_at_cong [of "in_blocks (n_inode n)" disk' disk] by (auto simp: file_bytes_def)

lemma file_ok_cong:
  assumes "\<And>b. b \<in> set (in_blocks (n_inode n)) \<Longrightarrow> disk' ! b = disk ! b"
  shows "file_ok bs disk' n = file_ok bs disk n"
  using byte_at_cong [OF assms] by (auto simp: file_ok_def)

lemma walk_same: "(\<And>j u. walk_step nodes' j u = walk_step nodes j u) \<Longrightarrow> walk nodes' i ts = walk nodes i ts"
  by (induction ts arbitrary: i) (simp_all add: walk_Cons del: walk.simps(2) split: result.split)

text \<open>Other files are not affected by what happens to the blocks of one node.\<close>

lemma others_kept:
  assumes i: "fs_inv fs" and keep: "\<And>j b. j \<noteq> i \<Longrightarrow> b \<in> set (blocks_of (fs_nodes fs) j) \<Longrightarrow> disk' ! b = fs_disk fs ! b"
    and m: "fs_nodes fs j = Some m" "in_type (n_inode m) = File" "j \<noteq> i"
  shows "file_ok (fs_blockSize fs) disk' m" "file_bytes (fs_blockSize fs) disk' m = file_bytes (fs_blockSize fs) (fs_disk fs) m"
proof -
  note f = fs_invD(2) [OF i m(1,2)]
  have k: "b \<in> set (in_blocks (n_inode m)) \<Longrightarrow> disk' ! b = fs_disk fs ! b" for b using keep [OF m(3)] blocks_of_Some [of "fs_nodes fs" j m, OF m(1)] by simp
  show "file_ok (fs_blockSize fs) disk' m" using file_ok_cong [OF k, of m] f by simp
  show "file_bytes (fs_blockSize fs) disk' m = file_bytes (fs_blockSize fs) (fs_disk fs) m"
    using k f by (intro file_bytes_cong) (simp_all add: file_ok_def)
qed

lemma replace_file:
  assumes i: "fs_inv fs" and n: "fs_nodes fs i = Some n" "in_type (n_inode n) = File" and p: "same_place n n'"
    and s: "store_ok (fs_blockSize fs) (fs_disk fs') (fs_allocator fs') ((blocks_of (fs_nodes fs))(i := in_blocks (n_inode n')))"
    and f: "file_ok (fs_blockSize fs) (fs_disk fs') n'"
    and keep: "\<And>j b. j \<noteq> i \<Longrightarrow> b \<in> set (blocks_of (fs_nodes fs) j) \<Longrightarrow> fs_disk fs' ! b = fs_disk fs ! b"
    and fs': "fs_blockSize fs' = fs_blockSize fs" "fs_fdTable fs' = fs_fdTable fs" "fs_nextInodeId fs' = fs_nextInodeId fs" "fs_nodes fs' = (fs_nodes fs)(i \<mapsto> n')"
  shows "fs_inv fs'" "content fs' j = (if j = i then Some (file_bytes (fs_blockSize fs) (fs_disk fs') n') else content fs j)"
    "walk (fs_nodes fs') k us = walk (fs_nodes fs) k us"
proof -
  note d = fs_invD [OF i]
  have ty: "in_type (n_inode n') = File" using p n(2) by (simp add: same_place_def)
  have "tree_ok (fs_nodes fs') (fs_nextInodeId fs')" using tree_replace [OF d(3) n p] by (simp add: fs')
  moreover have "store_ok (fs_blockSize fs') (fs_disk fs') (fs_allocator fs') (blocks_of (fs_nodes fs'))" using s by (simp add: fs')
  moreover have "file_ok (fs_blockSize fs') (fs_disk fs') m" if "fs_nodes fs' j = Some m" "in_type (n_inode m) = File" for j m
    using that others_kept(1) [OF i keep] f by (cases "j = i") (simp_all add: fs')
  moreover have "fds_ok fs'"
    using fds_okD [OF d(4)] ty by (intro fds_okI) (auto simp: fs' split: if_splits)
  ultimately show "fs_inv fs'" unfolding fs_inv_def by blast
  show "content fs' j = (if j = i then Some (file_bytes (fs_blockSize fs) (fs_disk fs') n') else content fs j)"
    using ty others_kept(2) [OF i keep] unfolding content_def fs' by (auto split: option.split)
  show "walk (fs_nodes fs') k us = walk (fs_nodes fs) k us"
    using p n ty by (intro walk_same) (auto simp: walk_step_def fs' same_place_def)
qed

lemma content_Some: "content fs i = Some bytes \<longleftrightarrow> (\<exists>n. fs_nodes fs i = Some n \<and> in_type (n_inode n) = File
    \<and> bytes = file_bytes (fs_blockSize fs) (fs_disk fs) n)"
  by (auto simp: content_def split: option.split)

text \<open>The table of open files is independent of the rest.\<close>

lemma set_fdTable_inv:
  assumes "fs_inv fs" "fds_ok (fs\<lparr>fs_fdTable := t\<rparr>)"
  shows "fs_inv (fs\<lparr>fs_fdTable := t\<rparr>)"
  using assms by (auto simp: fs_inv_def)

lemma content_fdTable [simp]: "content (fs\<lparr>fs_fdTable := t\<rparr>) i = content fs i"
  by (simp add: content_def split: option.split)

section \<open>The operations\<close>

lemma store_used:
  assumes "store_ok bs disk a B"
  shows "blocks.used a = (\<Union>j. set (B j))"
proof -
  note d = store_okD [OF assms]
  have "b \<in> blocks.used a \<longleftrightarrow> (\<exists>j. b \<in> set (B j))" for b
    using store_free [OF assms, of b] d(7) [of b] by (auto simp: blocks.used_def d(4))
  then show ?thesis by auto
qed

text \<open>Blocks are conserved: what a file gains, the allocator loses.\<close>

lemma blocks_conserved:
  assumes s: "store_ok bs disk a B" and s': "store_ok bs disk' a' (B(i := bl'))" and t: "BlockAllocator_totalBlocks a' = BlockAllocator_totalBlocks a"
  shows "BlockAllocator_freeBlocks a' + length bl' = BlockAllocator_freeBlocks a + length (B i)"
proof -
  note d = store_okD [OF s] and d' = store_okD [OF s']
  let ?O = "\<Union>j \<in> - {i}. set (B j)"
  have "blocks.used a = ?O \<union> set (B i)" unfolding store_used [OF s] by auto
  moreover have "blocks.used a' = ?O \<union> set bl'" unfolding store_used [OF s'] by (auto split: if_splits)
  moreover have "?O \<inter> set (B i) = {}" using d(9) by blast
  moreover have "?O \<inter> set bl' = {}"
  proof -
    have "b \<notin> set bl'" if "j \<noteq> i" "b \<in> set (B j)" for j b using d'(9) [of b j i] that by auto
    then show ?thesis by blast
  qed
  moreover have "finite ?O" using blocks.finite_used [of a] calculation(1) by (metis finite_Un)
  moreover have "card (set (B i)) = length (B i)" "card (set bl') = length bl'" using d(5) [of i] d'(5) [of i] by (simp_all add: distinct_card)
  ultimately have "card (blocks.used a) + length bl' = card (blocks.used a') + length (B i)" by (simp add: card_Un_disjoint)
  moreover have "BlockAllocator_freeBlocks a + card (blocks.used a) = BlockAllocator_freeBlocks a' + card (blocks.used a')"
    using freeBlocks_used [OF d(3)] freeBlocks_used [OF d'(3)] t by simp
  ultimately show ?thesis by linarith
qed

text \<open>A removal fails and changes nothing, or it takes a node without children out of its directory and frees the blocks of the node.\<close>

lemma remove_cases:
  assumes i: "fs_inv fs" and r: "SimpleFS_remove fs path = (fs', r)"
  obtains (fail) e where "r = Error e" "fs' = fs"
  | (removed) ts name p parent c n a1 disk1 where "r = Ok ()" "splitPath path = Ok (ts @ [name])" "walk (fs_nodes fs) ROOT_INODE_ID ts = Ok p"
      "fs_nodes fs p = Some parent" "in_type (n_inode parent) = Directory" "map_of (n_children parent) name = Some c" "fs_nodes fs c = Some n"
      "n_children n = []" "c \<noteq> ROOT_INODE_ID" "p \<noteq> c" "freed (fs_allocator fs) (fs_disk fs) (set (in_blocks (n_inode n))) a1 disk1"
      "fs' = fs\<lparr>fs_allocator := a1, fs_disk := disk1, fs_nodes := ((fs_nodes fs)(c := None))(p \<mapsto> erased fs parent name), fs_tick := fs_tick fs + 1\<rparr>"
proof (cases "\<exists>p name parent c n. resolveParent fs path = Ok (p, name) \<and> fs_nodes fs p = Some parent \<and> in_type (n_inode parent) = Directory
    \<and> map_of (n_children parent) name = Some c \<and> fs_nodes fs c = Some n \<and> in_id (n_inode n) \<noteq> ROOT_INODE_ID
    \<and> \<not> (in_type (n_inode n) = Directory \<and> n_children n \<noteq> [])")
  case False
  then have "fs' = fs" "\<exists>e. r = Error e" using r by (auto simp: SimpleFS_remove_def split: result.splits option.splits if_splits)
  then show ?thesis using fail by blast
next
  case True
  then obtain p name parent c n where h: "resolveParent fs path = Ok (p, name)" "fs_nodes fs p = Some parent" "in_type (n_inode parent) = Directory"
    "map_of (n_children parent) name = Some c" "fs_nodes fs c = Some n" "in_id (n_inode n) \<noteq> ROOT_INODE_ID"
    "\<not> (in_type (n_inode n) = Directory \<and> n_children n \<noteq> [])" by blast
  obtain ts where ts: "splitPath path = Ok (ts @ [name])" "walk (fs_nodes fs) ROOT_INODE_ID ts = Ok p" using resolveParent_Ok [OF h(1)] by metis
  note d = fs_invD [OF i]
  note dn = tree_okD [OF d(3) h(5)] and dp = tree_okD [OF d(3) h(2)] and sd = store_okD [OF d(1)]
  have c: "c \<noteq> ROOT_INODE_ID" "p \<noteq> c" using h(6) dn(2) dp(8) [OF map_of_SomeD [OF h(4)]] by auto
  have leaf: "n_children n = []" using h(7) dn(3) by (cases "in_type (n_inode n)") auto
  have bl: "blocks_of (fs_nodes fs) c = in_blocks (n_inode n)" using h(5) by (rule blocks_of_Some)
  obtain a1 disk1 where rel: "(if in_type (n_inode n) = File then release_blocks (fs_allocator fs) (fs_disk fs) (in_blocks (n_inode n))
      else (fs_allocator fs, fs_disk fs, Ok ())) = (a1, disk1, Ok ())" and fr: "freed (fs_allocator fs) (fs_disk fs) (set (in_blocks (n_inode n))) a1 disk1"
  proof (cases "in_type (n_inode n)")
    case File
    then show ?thesis using that release_blocks_spec [OF sd(3), of "in_blocks (n_inode n)" "fs_disk fs"] sd(7,8) [of _ c] sd(5) [of c] unfolding bl
      by (auto simp: sd(4))
  next
    case Directory
    then show ?thesis using that dn(4) freed_none [OF sd(3)] by simp
  qed
  show ?thesis
    using r h rel by (intro removed [OF _ ts h(2-5) leaf c fr]) (simp_all add: SimpleFS_remove_def Let_def erased_def del: release_blocks.simps)
qed

text \<open>Taking the entry of a node without children out of its directory removes one path and no other.\<close>

lemma walk_erased:
  assumes t: "tree_ok nodes nxt" and ts: "walk nodes ROOT_INODE_ID ts = Ok p" and p: "nodes p = Some parent" "in_type (n_inode parent) = Directory"
    and c: "map_of (n_children parent) name = Some c" "nodes c = Some n" "n_children n = []" "p \<noteq> c"
  shows "walk (nodes(c := None, p \<mapsto> erased fs parent name)) ROOT_INODE_ID us
    = (if us = ts @ [name] then Error NotFound else walk nodes ROOT_INODE_ID us)"
proof -
  have "map_of (filter (\<lambda>e. fst e \<noteq> name) xs) u = (if u = name then None else map_of xs u)" for xs :: "(string \<times> inode_id) list" and u
    by (induction xs) auto
  then have step: "walk_step (nodes(c := None, p \<mapsto> erased fs parent name)) j u = (if j = p \<and> u = name then Error NotFound else walk_step nodes j u)" for j u
    using p c by (auto simp: walk_step_def erased_def)
  have cl: "walk_step nodes c u = Error NotFound" for u using c(2,3) by (simp add: walk_step_def)
  have "walk_step nodes p name = Ok c" using p c(1) by (simp add: walk_step_def)
  then show ?thesis using c(4) by (intro walk_change [OF t ts cl _ _ _ step]) simp_all
qed

lemma remove_spec:
  assumes i: "fs_inv fs" and r: "SimpleFS_remove fs path = (fs', r)"
  obtains (fail) e where "r = Error e" "fs' = fs"
  | (removed) ts c n where "r = Ok ()" "splitPath path = Ok ts" "walk (fs_nodes fs) ROOT_INODE_ID ts = Ok c" "fs_nodes fs c = Some n"
      "n_children n = []" "fs_inv fs'" "\<And>j. content fs' j = (if j = c then None else content fs j)"
      "\<And>us. walk (fs_nodes fs') ROOT_INODE_ID us = (if us = ts then Error NotFound else walk (fs_nodes fs) ROOT_INODE_ID us)"
      "BlockAllocator_freeBlocks (fs_allocator fs') = BlockAllocator_freeBlocks (fs_allocator fs) + length (in_blocks (n_inode n))"
      "fs_nextInodeId fs' = fs_nextInodeId fs" "fs_fdTable fs' = fs_fdTable fs"
  using i r
proof (cases rule: remove_cases)
  case (removed ts name p parent c n a1 disk1)
  note d = fs_invD [OF i] and h = removed(4-7) and res = removed(12)
  have bl: "blocks_of (fs_nodes fs) c = in_blocks (n_inode n)" using h(4) by (rule blocks_of_Some)
  note sd = store_okD [OF d(1)]
  have same: "fs_blockSize fs' = fs_blockSize fs" "fs_disk fs' = disk1" "fs_allocator fs' = a1" "fs_fdTable fs' = fs_fdTable fs"
    "fs_nextInodeId fs' = fs_nextInodeId fs" by (simp_all add: res)
  have tree: "tree_ok (fs_nodes fs') (fs_nextInodeId fs')"
    using tree_remove [OF d(3) h removed(8,9), of "erased fs parent name"] h(2) by (simp add: res erased_def)
  have blocks: "blocks_of (fs_nodes fs') j = ((blocks_of (fs_nodes fs))(c := [])) j" for j
    using h(1) removed(10) by (simp add: res erased_def blocks_of_def)
  have "freed (fs_allocator fs) (fs_disk fs) (set (drop 0 (blocks_of (fs_nodes fs) c))) a1 disk1" using removed(11) bl by simp
  from store_shrink [OF d(1) this] have store1: "store_ok (fs_blockSize fs) disk1 a1 ((blocks_of (fs_nodes fs))(c := []))" by simp
  then have store: "store_ok (fs_blockSize fs') (fs_disk fs') (fs_allocator fs') (blocks_of (fs_nodes fs'))"
    unfolding same by (rule store_same) (use blocks in simp)
  have keep: "disk1 ! b = fs_disk fs ! b" if "j \<noteq> c" "b \<in> set (blocks_of (fs_nodes fs) j)" for j b
  proof -
    have "b \<notin> set (in_blocks (n_inode n))" using sd(9) [of b c j] that unfolding bl by blast
    then show ?thesis using removed(11) by (simp add: freed_def)
  qed
  have nodes: "fs_nodes fs' j = (if j = p then Some (erased fs parent name) else if j = c then None else fs_nodes fs j)" for j by (simp add: res)
  have files: "file_ok (fs_blockSize fs') (fs_disk fs') m" if "fs_nodes fs' j = Some m" "in_type (n_inode m) = File" for j m
  proof -
    have "j \<noteq> p" "j \<noteq> c" "fs_nodes fs j = Some m" using that h(2) unfolding nodes by (auto simp: erased_def split: if_splits)
    then show ?thesis unfolding same using keep that(2) by (intro others_kept(1) [OF i, of c disk1 j m])
  qed
  have "fds_ok fs'"
    using fds_okD [OF d(4)] h(1,2) unfolding same by (intro fds_okI) (auto simp: same nodes erased_def split: if_splits)
  then have inv: "fs_inv fs'" using store files tree unfolding fs_inv_def by blast
  have con: "content fs' j = (if j = c then None else content fs j)" for j
  proof (cases "j = p \<or> j = c")
    case True
    then show ?thesis using h(1,2) removed(10) by (auto simp: content_def nodes erased_def)
  next
    case False
    then have eq: "fs_nodes fs' j = fs_nodes fs j" by (simp add: nodes)
    have "file_bytes (fs_blockSize fs) disk1 m = file_bytes (fs_blockSize fs) (fs_disk fs) m"
      if "fs_nodes fs j = Some m" "in_type (n_inode m) = File" for m
      using keep that False by (intro others_kept(2) [OF i, of c disk1 j m]) simp_all
    then show ?thesis using False unfolding content_def same eq by (auto split: option.split)
  qed
  have at: "walk (fs_nodes fs) ROOT_INODE_ID (ts @ [name]) = Ok c" using removed(3) h by (simp add: walk_snoc walk_step_def)
  have walk: "walk (fs_nodes fs') ROOT_INODE_ID us = (if us = ts @ [name] then Error NotFound else walk (fs_nodes fs) ROOT_INODE_ID us)" for us
    using walk_erased [OF d(3) removed(3) h removed(8,10), of fs us] by (simp add: res)
  have "BlockAllocator_totalBlocks a1 = BlockAllocator_totalBlocks (fs_allocator fs)" using removed(11) by (simp add: freed_def)
  from blocks_conserved [OF d(1) store1 this] have "BlockAllocator_freeBlocks (fs_allocator fs') = BlockAllocator_freeBlocks (fs_allocator fs) + length (in_blocks (n_inode n))"
    unfolding same bl by simp
  then show ?thesis using that(2) [OF removed(1,2) at removed(7,8) inv con walk] same by blast
qed (use that(1) in blast)


lemma nextFd_step:
  assumes "unat fd + 1 < 2 ^ 31"
  shows "s_add fd 1 = fd + 1" "fd < fd + (1 :: 32 word)" "unat (fd + 1) = unat fd + 1"
proof -
  show un: "unat (fd + 1) = unat fd + 1" using assms by (simp add: unat_word_ariths)
  then show "fd < fd + 1" by (simp add: word_less_nat_alt)
  have "unat fd < 2147483647" using assms by simp
  moreover have "uint fd = int (unat fd)" by simp
  ultimately have u: "- 2147483648 \<le> uint fd" "uint fd < 2147483647" by linarith+
  have "sint fd = signed_take_bit 31 (uint fd)" by (simp add: sint_uint)
  also have "\<dots> = uint fd" using u by (intro signed_take_bit_int_eq_self) simp_all
  finally show "s_add fd 1 = fd + 1" using u by (intro s_add_word) (simp add: in_int32_def)
qed


text \<open>Opening a file always succeeds; it empties the file when asked to truncate and returns the next descriptor.\<close>

text \<open>Opening truncates the file first if the mode asks for it.\<close>

lemma open_node_prepared:
  assumes i: "fs_inv fs" and n: "fs_nodes fs i = Some n" "in_type (n_inode n) = File"
    and old: "content fs i = Some bytes" and after: "bytes' = (if hasOpenMode mode ModeTruncate then [] else bytes)"
  obtains fs1 n1 where "fs_inv fs1" "\<And>j. content fs1 j = (if j = i then Some bytes' else content fs j)"
    "\<And>k us. walk (fs_nodes fs1) k us = walk (fs_nodes fs) k us" "fs_nodes fs1 i = Some n1" "in_id (n_inode n1) = i" "in_size (n_inode n1) = length bytes'"
    "in_type (n_inode n1) = File" "fs_fdTable fs1 = fs_fdTable fs" "fs_nextInodeId fs1 = fs_nextInodeId fs"
    "open_node fs i mode = (let st = \<lparr>of_inodeId = in_id (n_inode n1),
                                of_offset = (if hasOpenMode mode ModeAppend then in_size (n_inode n1) else 0), of_mode = mode\<rparr>;
                          (t, fd) = FileDescriptorTable_open (fs_fdTable fs1) st
                      in (fs1\<lparr>fs_fdTable := t\<rparr>, fd))"
proof -
  let ?bs = "fs_blockSize fs"
  note d = fs_invD [OF i]
  have id: "in_id (n_inode n) = i" using tree_okD(2) [OF d(3) n(1)] .
  have bytes: "bytes = file_bytes ?bs (fs_disk fs) n" using old n by (simp add: content_def)
  show thesis
  proof (cases "hasOpenMode mode ModeTruncate")
    case False
    have "content fs j = (if j = i then Some bytes' else content fs j)" for j using old after False by simp
    then show ?thesis using that [of fs n] i n id False after bytes by (auto simp: open_node_def file_bytes_def)
  next
    case True
    obtain fs1 n1 r1 where en: "ensureFileBlocks fs n 0 = (fs1, n1, r1)" using prod_cases3 by blast
    have B: "blocks_of (fs_nodes fs) i = in_blocks (n_inode n)" using n(1) by (rule blocks_of_Some)
    note es = ensureFileBlocks_spec [OF d(1) B en]
    obtain a1 disk1 bl1 where st1: "fs1 = fs\<lparr>fs_allocator := a1, fs_disk := disk1\<rparr>" "n1 = n\<lparr>n_inode := (n_inode n)\<lparr>in_blocks := bl1\<rparr>\<rparr>"
      using es(1) unfolding resized_def by blast
    have r1: "r1 = Ok ()" "bl1 = []" using es(2) st1 by (auto simp: requiredBlocks_def split: result.splits)
    let ?n2 = "n1\<lparr>n_inode := (n_inode n1)\<lparr>in_size := 0, in_modifiedAt := fs_tick fs1 + 1\<rparr>\<rparr>"
    let ?fs2 = "fs1\<lparr>fs_nodes := (fs_nodes fs1)(i \<mapsto> ?n2), fs_tick := fs_tick fs1 + 1\<rparr>"
    have s2: "store_ok ?bs (fs_disk ?fs2) (fs_allocator ?fs2) ((blocks_of (fs_nodes fs))(i := in_blocks (n_inode ?n2)))"
      using es(1) by (simp add: resized_def st1)
    have keep: "fs_disk ?fs2 ! b = fs_disk fs ! b" if "j \<noteq> i" "b \<in> set (blocks_of (fs_nodes fs) j)" for j b
      using es(1) that by (auto simp: resized_def st1)
    have f2: "file_ok ?bs (fs_disk ?fs2) ?n2" by (simp add: file_ok_def st1 r1)
    have p2: "same_place n ?n2" by (simp add: same_place_def st1)
    note rf = replace_file [of fs i n ?n2 ?fs2, OF i n p2 s2 f2 keep]
    have "open_node fs i mode = (let st = \<lparr>of_inodeId = in_id (n_inode ?n2),
                                of_offset = (if hasOpenMode mode ModeAppend then in_size (n_inode ?n2) else 0), of_mode = mode\<rparr>;
                          (t, fd) = FileDescriptorTable_open (fs_fdTable ?fs2) st
                      in (?fs2\<lparr>fs_fdTable := t\<rparr>, fd))"
      using n True en r1(1) by (simp add: open_node_def Let_def)
    moreover have "bytes' = file_bytes ?bs (fs_disk ?fs2) ?n2" using after True by (simp add: file_bytes_def)
    ultimately show ?thesis using rf id n(2) after True by (intro that [of ?fs2 ?n2]) (simp_all add: st1)
  qed
qed

lemma open_node_file:
  assumes i: "fs_inv fs" and n: "fs_nodes fs i = Some n" "in_type (n_inode n) = File" and room: "unat (nextFd (fs_fdTable fs)) + 1 < 2 ^ 31"
    and old: "content fs i = Some bytes" and after: "bytes' = (if hasOpenMode mode ModeTruncate then [] else bytes)"
    and o: "open_node fs i mode = (fs', r)"
  shows "r = Ok (nextFd (fs_fdTable fs))" "fs_inv fs'" "content fs' j = (if j = i then Some bytes' else content fs j)"
    "walk (fs_nodes fs') k us = walk (fs_nodes fs) k us" "fs_nextInodeId fs' = fs_nextInodeId fs" "nextFd (fs_fdTable fs') = nextFd (fs_fdTable fs) + 1"
    "fd_entries (fs_fdTable fs') = (fd_entries (fs_fdTable fs))(nextFd (fs_fdTable fs) \<mapsto>
       \<lparr>of_inodeId = i, of_offset = (if hasOpenMode mode ModeAppend then length bytes' else 0), of_mode = mode\<rparr>)"
proof -
  let ?fd = "nextFd (fs_fdTable fs)"
  note d = fs_invD [OF i]
  obtain fs1 n1 where m: "fs_inv fs1" "\<And>j. content fs1 j = (if j = i then Some bytes' else content fs j)"
    "\<And>k us. walk (fs_nodes fs1) k us = walk (fs_nodes fs) k us" "fs_nodes fs1 i = Some n1" "in_id (n_inode n1) = i" "in_size (n_inode n1) = length bytes'"
    "in_type (n_inode n1) = File" "fs_fdTable fs1 = fs_fdTable fs" "fs_nextInodeId fs1 = fs_nextInodeId fs"
    "open_node fs i mode = (let st = \<lparr>of_inodeId = in_id (n_inode n1),
                                of_offset = (if hasOpenMode mode ModeAppend then in_size (n_inode n1) else 0), of_mode = mode\<rparr>;
                          (t, fd) = FileDescriptorTable_open (fs_fdTable fs1) st
                      in (fs1\<lparr>fs_fdTable := t\<rparr>, fd))"
    by (rule open_node_prepared [OF i n old after]) (rule that)
  let ?st = "\<lparr>of_inodeId = i, of_offset = (if hasOpenMode mode ModeAppend then length bytes' else 0), of_mode = mode\<rparr>"
  have free: "fd_entries (fs_fdTable fs) ?fd = None" using fds_okD(1) [OF d(4), of ?fd] by (cases "fd_entries (fs_fdTable fs) ?fd") auto
  note fd = nextFd_step [OF room]
  let ?t = "(fs_fdTable fs)\<lparr>nextFd := ?fd + 1, fd_entries := (fd_entries (fs_fdTable fs))(?fd \<mapsto> ?st)\<rparr>"
  have res: "r = Ok ?fd" "fs' = fs1\<lparr>fs_fdTable := ?t\<rparr>"
    using o free fd(1) unfolding m(5,6,8,10) FileDescriptorTable_open_def Let_def by (simp_all split del: if_split)
  have "fds_ok (fs1\<lparr>fs_fdTable := ?t\<rparr>)"
  proof (rule fds_okI)
    fix g st assume "fd_entries (fs_fdTable (fs1\<lparr>fs_fdTable := ?t\<rparr>)) g = Some st"
    then have g: "g = ?fd \<and> st = ?st \<or> fd_entries (fs_fdTable fs1) g = Some st" using m(8) by (auto split: if_splits)
    note d1 = fs_invD [OF m(1)]
    show "g < nextFd (fs_fdTable (fs1\<lparr>fs_fdTable := ?t\<rparr>))" using g fds_okD(1) [OF d1(4), of g st] fd(2) m(8) by auto
    show "of_inodeId st < fs_nextInodeId (fs1\<lparr>fs_fdTable := ?t\<rparr>)" using g fds_okD(2) [OF d1(4), of g st] tree_okD(1) [OF d1(3) m(4)] by auto
    show "in_type (n_inode k) = File" if "fs_nodes (fs1\<lparr>fs_fdTable := ?t\<rparr>) (of_inodeId st) = Some k" for k
      using that g fds_okD(3) [OF d1(4), of g st k] m(4,7) by auto
  qed
  then show "fs_inv fs'" unfolding res by (rule set_fdTable_inv [OF m(1)])
  show "r = Ok ?fd" by (rule res)
  show "content fs' j = (if j = i then Some bytes' else content fs j)" "walk (fs_nodes fs') k us = walk (fs_nodes fs) k us"
    "fs_nextInodeId fs' = fs_nextInodeId fs" "nextFd (fs_fdTable fs') = ?fd + 1" "fd_entries (fs_fdTable fs') = (fd_entries (fs_fdTable fs))(?fd \<mapsto> ?st)"
    using m by (simp_all add: res)
qed


lemma no_free_count: "alloc_inv a \<Longrightarrow> \<forall>b. \<not> BlockAllocator_isFree a b \<Longrightarrow> BlockAllocator_freeBlocks a = 0"
  using freeBlocks_used [of a] by (simp add: blocks.used_def)

text \<open>Whether a write fits: the blocks the file would need, against those it has and the free ones.\<close>

definition write_fits :: "simple_fs \<Rightarrow> inode_id \<Rightarrow> nat \<Rightarrow> nat \<Rightarrow> bool" where
  "write_fits fs i len bytes \<longleftrightarrow>
     requiredBlocks (fs_blockSize fs) (max len bytes) \<le> length (blocks_of (fs_nodes fs) i) + BlockAllocator_freeBlocks (fs_allocator fs)"

lemma write_fits_iff:
  assumes i: "fs_inv fs" and n: "fs_nodes fs f = Some n" "in_type (n_inode n) = File"
    and w: "writeToNode fs n off data = (fs', n', r)" and data: "data \<noteq> []"
  shows "r = (if write_fits fs f (in_size (n_inode n)) (off + length data) then Ok (length data) else Error OutOfMemory)"
proof -
  note d = fs_invD [OF i]
  have B: "blocks_of (fs_nodes fs) f = in_blocks (n_inode n)" using n(1) by (rule blocks_of_Some)
  note fr = writeToNode_frame [OF d(1) B d(2) [OF n] w] and ws = writeToNode_spec [OF d(1) B d(2) [OF n] w]
  let ?req = "requiredBlocks (fs_blockSize fs) (max (in_size (n_inode n)) (off + length data))"
  have "BlockAllocator_totalBlocks (fs_allocator fs') = BlockAllocator_totalBlocks (fs_allocator fs)"
    using store_okD(4) [OF fr(1)] store_okD(4) [OF d(1)] fr(11) by simp
  from blocks_conserved [OF d(1) fr(1) this]
  have cons: "BlockAllocator_freeBlocks (fs_allocator fs') + length (in_blocks (n_inode n')) = BlockAllocator_freeBlocks (fs_allocator fs) + length (in_blocks (n_inode n))"
    unfolding B .
  show ?thesis
  proof (cases r)
    case (Error e)
    then have "e = OutOfMemory" "length (in_blocks (n_inode n')) < ?req" "BlockAllocator_freeBlocks (fs_allocator fs') = 0"
      using ws(2) no_free_count [OF store_okD(3) [OF fr(1)]] by simp_all
    then show ?thesis using Error cons unfolding write_fits_def B by simp
  next
    case (Ok k)
    then have ok: "k = length data" "file_bytes (fs_blockSize fs) (fs_disk fs') n' = splice_bytes off data (file_bytes (fs_blockSize fs) (fs_disk fs) n)"
      using ws(2) data by simp_all
    have "in_size (n_inode n') = max (in_size (n_inode n)) (off + length data)" using arg_cong [OF ok(2), of length] by (simp add: file_bytes_def)
    then have "?req \<le> length (in_blocks (n_inode n'))"
      using ws(1) by (intro requiredBlocks_least [OF store_okD(2) [OF d(1)]]) (simp add: file_ok_def)
    then show ?thesis using Ok ok(1) cons unfolding write_fits_def B by simp
  qed
qed

text \<open>An open file may get another offset.\<close>

lemma set_offset_inv:
  assumes i: "fs_inv fs" and st: "fd_entries (fs_fdTable fs) fd = Some st"
  shows "fs_inv (fs\<lparr>fs_fdTable := (fs_fdTable fs)\<lparr>fd_entries := (fd_entries (fs_fdTable fs))(fd \<mapsto> st\<lparr>of_offset := off\<rparr>)\<rparr>\<rparr>)"
  using fds_okD [OF fs_invD(4) [OF i]] st by (intro set_fdTable_inv [OF i] fds_okI) (auto split: if_splits)

lemma write_open_file:
  assumes i: "fs_inv fs" and st: "fd_entries (fs_fdTable fs) fd = Some st" "hasOpenMode (of_mode st) ModeWrite" "of_inodeId st = f"
    and old: "content fs f = Some bytes" and off: "off = (if hasOpenMode (of_mode st) ModeAppend then length bytes else of_offset st)"
    and fits: "fits \<longleftrightarrow> data = [] \<or> write_fits fs f (length bytes) (off + length data)"
    and w: "SimpleFS_write fs fd data = (fs', r)"
  shows "fs_inv fs'" "r = (if fits then Ok (length data) else Error OutOfMemory)"
    "content fs' j = (if j = f \<and> fits \<and> data \<noteq> [] then Some (splice_bytes off data bytes) else content fs j)"
    "walk (fs_nodes fs') k us = walk (fs_nodes fs) k us" "fs_nextInodeId fs' = fs_nextInodeId fs"
    "fs_fdTable fs' = (if fits then (fs_fdTable fs)\<lparr>fd_entries := (fd_entries (fs_fdTable fs))(fd \<mapsto> st\<lparr>of_offset := off + length data\<rparr>)\<rparr> else fs_fdTable fs)"
proof -
  let ?bs = "fs_blockSize fs"
  note d = fs_invD [OF i]
  obtain n where n: "fs_nodes fs f = Some n" "in_type (n_inode n) = File" "bytes = file_bytes ?bs (fs_disk fs) n"
    using old by (auto simp: content_Some)
  have size: "in_size (n_inode n) = length bytes" by (simp add: n(3) file_bytes_def)
  have B: "blocks_of (fs_nodes fs) f = in_blocks (n_inode n)" using n(1) by (rule blocks_of_Some)
  obtain fs1 n1 r1 where wn: "writeToNode fs n off data = (fs1, n1, r1)" using prod_cases3 by blast
  note fr = writeToNode_frame [OF d(1) B d(2) [OF n(1,2)] wn] and ws = writeToNode_spec [OF d(1) B d(2) [OF n(1,2)] wn]
  have place: "same_place n n1" using fr(3-6) by (simp add: same_place_def)
  let ?fs2 = "fs1\<lparr>fs_nodes := (fs_nodes fs1)(f \<mapsto> n1)\<rparr>"
  let ?t = "(fs_fdTable fs)\<lparr>fd_entries := (fd_entries (fs_fdTable fs))(fd \<mapsto> st\<lparr>of_offset := off + length data\<rparr>)\<rparr>"
  have s2: "store_ok ?bs (fs_disk ?fs2) (fs_allocator ?fs2) ((blocks_of (fs_nodes fs))(f := in_blocks (n_inode n1)))" using fr(1) by simp
  have f2: "file_ok ?bs (fs_disk ?fs2) n1" using ws(1) by simp
  have keep: "fs_disk ?fs2 ! b = fs_disk fs ! b" if "j \<noteq> f" "b \<in> set (blocks_of (fs_nodes fs) j)" for j b using fr(2) [OF that] by simp
  have rf: "fs_inv ?fs2" "\<And>j. content ?fs2 j = (if j = f then Some (file_bytes ?bs (fs_disk fs1) n1) else content fs j)"
    "\<And>k us. walk (fs_nodes ?fs2) k us = walk (fs_nodes fs) k us"
    using replace_file [of fs f n n1 ?fs2, OF i n(1,2) place s2 f2 keep] fr(7-10) by simp_all
  have r1: "r1 = (if fits then Ok (length data) else Error OutOfMemory)"
  proof (cases "data = []")
    case True
    then show ?thesis using wn fits by (simp add: writeToNode_def)
  qed (use write_fits_iff [OF i n(1,2) wn] size fits in simp)
  then have bytes: "file_bytes ?bs (fs_disk fs1) n1 = (if fits \<and> data \<noteq> [] then splice_bytes off data bytes else bytes)"
    using ws(2) by (simp add: n(3) [symmetric] split: if_splits)
  have "(if hasOpenMode (of_mode st) ModeAppend then in_size (n_inode n) else of_offset st) = off" using off size by simp
  moreover have "FileDescriptorTable_set (fs_fdTable fs1) fd (st\<lparr>of_offset := off + length data\<rparr>) = (?t, Ok ())"
    using st(1) fr(8) by (simp add: FileDescriptorTable_set_def)
  ultimately have res: "fs' = (if fits then ?fs2\<lparr>fs_fdTable := ?t\<rparr> else ?fs2)" "r = r1"
    using w st n(1) wn r1 by (simp_all add: SimpleFS_write_def FileDescriptorTable_get_def Let_def split: if_splits)
  have "fs_inv (?fs2\<lparr>fs_fdTable := ?t\<rparr>)" using set_offset_inv [OF rf(1), of fd st "off + length data"] st(1) fr(8) by simp
  then show "fs_inv fs'" using rf(1) by (simp add: res)
  show "r = (if fits then Ok (length data) else Error OutOfMemory)" using r1 res(2) by simp
  show "content fs' j = (if j = f \<and> fits \<and> data \<noteq> [] then Some (splice_bytes off data bytes) else content fs j)"
    using rf(2) [of j] old bytes by (auto simp: res)
  show "walk (fs_nodes fs') k us = walk (fs_nodes fs) k us" "fs_nextInodeId fs' = fs_nextInodeId fs"
    "fs_fdTable fs' = (if fits then ?t else fs_fdTable fs)" using rf(3) fr(8,10) by (simp_all add: res)
qed

text \<open>Reading returns the bytes from the offset on, as many as there are and the buffer takes.\<close>

lemma read_open_file:
  assumes i: "fs_inv fs" and st: "fd_entries (fs_fdTable fs) fd = Some st" "hasOpenMode (of_mode st) ModeRead" "of_inodeId st = f"
    and old: "content fs f = Some bytes" and got: "got = take (length buffer) (drop (of_offset st) bytes)"
    and r: "SimpleFS_read fs fd buffer = (fs', buffer', r)"
  shows "r = Ok (length got)" "buffer' = got @ drop (length got) buffer"
    "fs' = fs\<lparr>fs_fdTable := (fs_fdTable fs)\<lparr>fd_entries := (fd_entries (fs_fdTable fs))(fd \<mapsto> st\<lparr>of_offset := of_offset st + length got\<rparr>)\<rparr>\<rparr>"
proof -
  let ?bs = "fs_blockSize fs" and ?off = "of_offset st"
  note d = fs_invD [OF i]
  obtain n where n: "fs_nodes fs f = Some n" "in_type (n_inode n) = File" "bytes = file_bytes ?bs (fs_disk fs) n"
    using old by (auto simp: content_Some)
  have size: "in_size (n_inode n) = length bytes" by (simp add: n(3) file_bytes_def)
  have "readFromNode fs n ?off buffer = (got @ drop (length got) buffer, Ok (length got))"
  proof (cases "buffer = [] \<or> length bytes \<le> ?off")
    case True
    then show ?thesis using got size by (auto simp: readFromNode_def)
  next
    case False
    let ?t = "min (length buffer) (length bytes - ?off)"
    let ?bl = "in_blocks (n_inode n)"
    have len: "length got = ?t" using got by (simp add: min.commute)
    have fok: "length bytes \<le> length ?bl * ?bs" using d(2) [OF n(1,2)] size by (simp add: file_ok_def)
    have area: "area_ok (fs_disk fs) ?bl" using store_okD(6) [OF d(1), of f] blocks_of_Some [of "fs_nodes fs" f n, OF n(1)] by simp
    have rl: "length (read_loop ?bs (fs_disk fs) ?bl ?off ?t 0 buffer) = length buffer"
      "\<And>j. j < length buffer \<Longrightarrow> read_loop ?bs (fs_disk fs) ?bl ?off ?t 0 buffer ! j = (if j < ?t then byte_at ?bs (fs_disk fs) ?bl (?off + j) else buffer ! j)"
      using read_loop_bytes [OF store_okD(1) [OF d(1)] area, of ?off ?t buffer 0] fok False by auto
    have "read_loop ?bs (fs_disk fs) ?bl ?off ?t 0 buffer = got @ drop (length got) buffer"
    proof (rule nth_equalityI)
      show "length (read_loop ?bs (fs_disk fs) ?bl ?off ?t 0 buffer) = length (got @ drop (length got) buffer)" using rl(1) len by simp
      fix j assume "j < length (read_loop ?bs (fs_disk fs) ?bl ?off ?t 0 buffer)"
      then have j: "j < length buffer" using rl(1) by simp
      have "got ! j = byte_at ?bs (fs_disk fs) ?bl (?off + j)" if "j < ?t"
      proof -
        have "?off + j < length bytes" using that by linarith
        then have "bytes ! (?off + j) = byte_at ?bs (fs_disk fs) ?bl (?off + j)" unfolding n(3) by (simp add: file_bytes_def)
        then show ?thesis using that False by (simp add: got)
      qed
      then show "read_loop ?bs (fs_disk fs) ?bl ?off ?t 0 buffer ! j = (got @ drop (length got) buffer) ! j"
        using rl(2) [OF j] j len by (auto simp: nth_append)
    qed
    then show ?thesis using False size len by (simp add: readFromNode_def Let_def)
  qed
  then have "SimpleFS_read fs fd buffer
      = (fs\<lparr>fs_fdTable := (fs_fdTable fs)\<lparr>fd_entries := (fd_entries (fs_fdTable fs))(fd \<mapsto> st\<lparr>of_offset := of_offset st + length got\<rparr>)\<rparr>\<rparr>,
         got @ drop (length got) buffer, Ok (length got))"
    using st(1,2) n(1) unfolding SimpleFS_read_def FileDescriptorTable_get_def FileDescriptorTable_set_def st(3) [symmetric] by simp
  with r show "r = Ok (length got)" "buffer' = got @ drop (length got) buffer"
    "fs' = fs\<lparr>fs_fdTable := (fs_fdTable fs)\<lparr>fd_entries := (fd_entries (fs_fdTable fs))(fd \<mapsto> st\<lparr>of_offset := of_offset st + length got\<rparr>)\<rparr>\<rparr>"
    by simp_all
qed


lemma resolve_file:
  assumes "fs_inv fs" "resolvePath fs path = Ok i"
  obtains ts n where "splitPath path = Ok ts" "walk (fs_nodes fs) ROOT_INODE_ID ts = Ok i" "fs_nodes fs i = Some n"
  using assms walk_exists [OF fs_invD(3) [OF assms(1)]] by (auto simp: resolvePath_def split: result.splits)

lemma open_cases:
  assumes i: "fs_inv fs" and room: "fs_room 1 fs" and o: "SimpleFS_open fs path mode = (fs', r)"
  obtains (fail) e where "r = Error e" "fs' = fs"
  | (opened) ts f bytes where "r = Ok (nextFd (fs_fdTable fs))" "splitPath path = Ok ts" "fs_inv fs'" "walk (fs_nodes fs') ROOT_INODE_ID ts = Ok f"
      "content fs' f = Some bytes"
      "bytes = (case walk (fs_nodes fs) ROOT_INODE_ID ts of
          Ok g \<Rightarrow> if hasOpenMode mode ModeTruncate then [] else the (content fs g) | Error _ \<Rightarrow> [])"
      "\<And>j. j \<noteq> f \<Longrightarrow> content fs' j = content fs j"
      "\<And>us. us \<noteq> ts \<Longrightarrow> walk (fs_nodes fs') ROOT_INODE_ID us = walk (fs_nodes fs) ROOT_INODE_ID us"
      "walk (fs_nodes fs) ROOT_INODE_ID ts = Ok f \<or> walk (fs_nodes fs) ROOT_INODE_ID ts = Error NotFound \<and> fs_nodes fs f = None"
      "fd_entries (fs_fdTable fs') = (fd_entries (fs_fdTable fs))(nextFd (fs_fdTable fs) \<mapsto>
         \<lparr>of_inodeId = f, of_offset = (if hasOpenMode mode ModeAppend then length bytes else 0), of_mode = mode\<rparr>)"
      "nextFd (fs_fdTable fs') = nextFd (fs_fdTable fs) + 1"
      "fs_nextInodeId fs' = fs_nextInodeId fs \<or> fs_nextInodeId fs' = fs_nextInodeId fs + 1"
proof -
  have room1: "unat (fs_nextInodeId fs) + 1 < 2 ^ 32" "unat (nextFd (fs_fdTable fs)) + 1 < 2 ^ 31" using room by (simp_all only: fs_room_def)
  consider (bad) "\<not> hasOpenMode mode ModeRead \<and> \<not> hasOpenMode mode ModeWrite"
    | (known) i where "hasOpenMode mode ModeRead \<or> hasOpenMode mode ModeWrite" "resolvePath fs path = Ok i"
    | (unknown) e where "hasOpenMode mode ModeRead \<or> hasOpenMode mode ModeWrite" "resolvePath fs path = Error e" "\<not> hasOpenMode mode ModeCreate"
    | (new) e where "hasOpenMode mode ModeRead \<or> hasOpenMode mode ModeWrite" "resolvePath fs path = Error e" "hasOpenMode mode ModeCreate"
    by (cases "resolvePath fs path") auto
  then show ?thesis
  proof cases
    case bad
    then show ?thesis using fail [of InvalidArgument] o by (simp add: SimpleFS_open_def)
  next
    case unknown
    then show ?thesis using fail [of e] o by (auto simp: SimpleFS_open_def)
  next
    case (known f)
    obtain ts n where ts: "splitPath path = Ok ts" "walk (fs_nodes fs) ROOT_INODE_ID ts = Ok f" and n: "fs_nodes fs f = Some n"
      using resolve_file [OF i known(2)] .
    have op: "open_node fs f mode = (fs', r)" using o known by (auto simp: SimpleFS_open_def)
    show ?thesis
    proof (cases "in_type (n_inode n) = File")
      case True
      then obtain bytes where old: "content fs f = Some bytes" using n by (simp add: content_def)
      note on = open_node_file [OF i n True room1(2) old refl op]
      show ?thesis using on ts old by (intro opened [of ts f]) auto
    next
      case False
      then show ?thesis using fail [of InvalidState] op n by (simp add: open_node_def)
    qed
  next
    case (new e)
    obtain fs1 r1 where c: "create_node fs path File = (fs1, r1)" by fastforce
    show ?thesis
    proof (cases r1)
      case (Error e1)
      then show ?thesis using c new o fail [of e1] create_node_cases [OF c fs_invD(3) [OF i]] by (fastforce simp: SimpleFS_open_def)
    next
      case (Ok f)
      have op: "open_node fs1 f mode = (fs', r)" using o new c Ok by (auto simp: SimpleFS_open_def)
      obtain ts where cn: "splitPath path = Ok ts" "fs_inv fs1" "f = fs_nextInodeId fs" "fs_nextInodeId fs1 = fs_nextInodeId fs + 1"
        "fs_fdTable fs1 = fs_fdTable fs" "fs_nodes fs f = None" "\<exists>n. fs_nodes fs1 f = Some n \<and> in_type (n_inode n) = File"
        "content fs1 f = Some []" "\<And>j. j \<noteq> f \<Longrightarrow> content fs1 j = content fs j" "walk (fs_nodes fs) ROOT_INODE_ID ts = Error NotFound"
        "\<And>us. walk (fs_nodes fs1) ROOT_INODE_ID us = (if us = ts then Ok f else walk (fs_nodes fs) ROOT_INODE_ID us)"
        using create_node_spec [OF i room1(1) c [unfolded Ok]] by (metis (full_types))
      from cn(7) obtain n where n: "fs_nodes fs1 f = Some n" "in_type (n_inode n) = File" by blast
      have rm: "unat (nextFd (fs_fdTable fs1)) + 1 < 2 ^ 31" using room1(2) cn(5) by simp
      note on = open_node_file [OF cn(2) n rm cn(8) refl op]
      have "content fs' f = Some []" "\<And>j. j \<noteq> f \<Longrightarrow> content fs' j = content fs j" using on(3) cn(9) by (simp_all split: if_splits)
      moreover have "walk (fs_nodes fs') ROOT_INODE_ID ts = Ok f" "\<And>us. us \<noteq> ts \<Longrightarrow> walk (fs_nodes fs') ROOT_INODE_ID us = walk (fs_nodes fs) ROOT_INODE_ID us"
        using on(4) cn(11) by simp_all
      ultimately show ?thesis using on(1,2,5,6,7) cn(1,4,5,6,10) by (intro opened [of ts f "[]"]) simp_all
    qed
  qed
qed

section \<open>Sequences of operations\<close>

datatype fs_op = FsOpen string open_mode | FsRead file_descriptor "byte list" | FsWrite file_descriptor "byte list"
  | FsClose file_descriptor | FsMkdir string | FsRemove string

fun fs_exec :: "fs_op \<Rightarrow> simple_fs \<Rightarrow> simple_fs" where
  "fs_exec (FsOpen path mode) fs = fst (SimpleFS_open fs path mode)"
| "fs_exec (FsRead fd buffer) fs = fst (SimpleFS_read fs fd buffer)"
| "fs_exec (FsWrite fd data) fs = fst (SimpleFS_write fs fd data)"
| "fs_exec (FsClose fd) fs = fst (SimpleFS_close fs fd)"
| "fs_exec (FsMkdir path) fs = fst (SimpleFS_mkdir fs path)"
| "fs_exec (FsRemove path) fs = fst (SimpleFS_remove fs path)"

lemma fs_room_mono: "fs_room k fs \<Longrightarrow> j \<le> k \<Longrightarrow> fs_room j fs"
  by (simp add: fs_room_def)

lemma fs_room_next:
  assumes "fs_room (Suc k) fs" "fs_nextInodeId fs' = fs_nextInodeId fs \<or> fs_nextInodeId fs' = fs_nextInodeId fs + 1"
    "nextFd (fs_fdTable fs') = nextFd (fs_fdTable fs) \<or> nextFd (fs_fdTable fs') = nextFd (fs_fdTable fs) + 1"
  shows "fs_room k fs'"
proof -
  have b: "unat (fs_nextInodeId fs) + Suc k < 2 ^ 32" "unat (nextFd (fs_fdTable fs)) + Suc k < 2 ^ 31" using assms(1) by (simp_all only: fs_room_def)
  have "unat (x + 1) \<le> unat x + 1" for x :: "32 word" by (simp add: unat_word_ariths)
  then have "unat (fs_nextInodeId fs') \<le> unat (fs_nextInodeId fs) + 1" "unat (nextFd (fs_fdTable fs')) \<le> unat (nextFd (fs_fdTable fs)) + 1"
    using assms(2,3) by (metis le_add1)+
  then show ?thesis using b unfolding fs_room_def by linarith
qed

text \<open>A descriptor either gives the access that is asked for, to a file that is there, or the call is refused.\<close>

lemma access_cases:
  assumes i: "fs_inv fs"
  obtains (refused) "\<And>st. fd_entries (fs_fdTable fs) fd = Some st \<Longrightarrow> hasOpenMode (of_mode st) m \<Longrightarrow> fs_nodes fs (of_inodeId st) = None"
  | (granted) st bytes where "fd_entries (fs_fdTable fs) fd = Some st" "hasOpenMode (of_mode st) m" "content fs (of_inodeId st) = Some bytes"
proof (cases "\<exists>st n. fd_entries (fs_fdTable fs) fd = Some st \<and> hasOpenMode (of_mode st) m \<and> fs_nodes fs (of_inodeId st) = Some n")
  case True
  then obtain st n where h: "fd_entries (fs_fdTable fs) fd = Some st" "hasOpenMode (of_mode st) m" "fs_nodes fs (of_inodeId st) = Some n" by blast
  then show ?thesis using granted fds_okD(3) [OF fs_invD(4) [OF i] h(1,3)] by (simp add: content_def)
qed (use refused in fastforce)

lemma read_exec_inv:
  assumes i: "fs_inv fs" and room: "fs_room (Suc k) fs"
  shows "fs_inv (fst (SimpleFS_read fs fd buffer)) \<and> fs_room k (fst (SimpleFS_read fs fd buffer))"
proof (rule access_cases [OF i, of fd ModeRead])
  fix st bytes assume st: "fd_entries (fs_fdTable fs) fd = Some st" "hasOpenMode (of_mode st) ModeRead" "content fs (of_inodeId st) = Some bytes"
  obtain fs' buffer' r where r: "SimpleFS_read fs fd buffer = (fs', buffer', r)" using prod_cases3 by blast
  note rd = read_open_file(3) [OF i st(1,2) refl st(3) refl r]
  have "fs_inv fs'" unfolding rd by (rule set_offset_inv [OF i st(1)])
  moreover have "fs_room k fs'" using fs_room_next [OF room, of fs'] by (simp add: rd)
  ultimately show ?thesis using r by simp
qed (use i fs_room_mono [OF room, of k] in \<open>auto simp: SimpleFS_read_def FileDescriptorTable_get_def split: option.splits\<close>)

lemma write_exec_inv:
  assumes i: "fs_inv fs" and room: "fs_room (Suc k) fs"
  shows "fs_inv (fst (SimpleFS_write fs fd data)) \<and> fs_room k (fst (SimpleFS_write fs fd data))"
proof (rule access_cases [OF i, of fd ModeWrite])
  fix st bytes assume st: "fd_entries (fs_fdTable fs) fd = Some st" "hasOpenMode (of_mode st) ModeWrite" "content fs (of_inodeId st) = Some bytes"
  obtain fs' r where w: "SimpleFS_write fs fd data = (fs', r)" by fastforce
  note wr = write_open_file [OF i st(1,2) refl st(3) refl refl w]
  have "fs_room k fs'" using fs_room_next [OF room, of fs'] wr(5,6) by (simp split: if_splits)
  then show ?thesis using w wr(1) by simp
qed (use i fs_room_mono [OF room, of k] in \<open>auto simp: SimpleFS_write_def FileDescriptorTable_get_def split: option.splits\<close>)

lemma close_exec_inv:
  assumes i: "fs_inv fs" and room: "fs_room (Suc k) fs"
  shows "fs_inv (fst (SimpleFS_close fs fd)) \<and> fs_room k (fst (SimpleFS_close fs fd))"
proof -
  obtain t r where c: "FileDescriptorTable_close (fs_fdTable fs) fd = (t, r)" by fastforce
  then have t: "nextFd t = nextFd (fs_fdTable fs)" "fd_entries t g = Some st \<Longrightarrow> fd_entries (fs_fdTable fs) g = Some st" for g st
    by (auto simp: FileDescriptorTable_close_def split: if_splits)
  have "fds_ok (fs\<lparr>fs_fdTable := t\<rparr>)" using fds_okD [OF fs_invD(4) [OF i]] t by (intro fds_okI) fastforce+
  then have "fs_inv (fs\<lparr>fs_fdTable := t\<rparr>)" by (rule set_fdTable_inv [OF i])
  moreover have "fs_room k (fs\<lparr>fs_fdTable := t\<rparr>)" using fs_room_next [OF room, of "fs\<lparr>fs_fdTable := t\<rparr>"] t(1) by simp
  ultimately show ?thesis using c by (simp add: SimpleFS_close_def)
qed

lemma mkdir_exec_inv:
  assumes i: "fs_inv fs" and room: "fs_room (Suc k) fs"
  shows "fs_inv (fst (SimpleFS_mkdir fs path)) \<and> fs_room k (fst (SimpleFS_mkdir fs path))"
proof -
  obtain fs' r where c: "create_node fs path Directory = (fs', r)" by fastforce
  have res: "fst (SimpleFS_mkdir fs path) = fs'" using c by (cases r) (simp_all add: SimpleFS_mkdir_def)
  show ?thesis
  proof (cases r)
    case (Ok f)
    have "unat (fs_nextInodeId fs) + 1 < 2 ^ 32" using room by (simp add: fs_room_def)
    from create_node_spec [OF i this c [unfolded Ok]] have "fs_inv fs'" "fs_nextInodeId fs' = fs_nextInodeId fs + 1" "fs_fdTable fs' = fs_fdTable fs" by metis+
    then show ?thesis using fs_room_next [OF room, of fs'] res by simp
  next
    case (Error e)
    have "fs' = fs" using create_node_cases [OF c fs_invD(3) [OF i]] Error by (metis result.distinct(1))
    then show ?thesis using res i fs_room_mono [OF room, of k] by simp
  qed
qed

lemma fs_exec_inv:
  assumes i: "fs_inv fs" and room: "fs_room (Suc k) fs"
  shows "fs_inv (fs_exec oper fs) \<and> fs_room k (fs_exec oper fs)"
proof (cases oper)
  case (FsOpen path mode)
  obtain fs' r where o: "SimpleFS_open fs path mode = (fs', r)" by fastforce
  have "fs_room 1 fs" by (rule fs_room_mono [OF room]) simp
  from i this o show ?thesis
    by (cases rule: open_cases) (use FsOpen o i fs_room_mono [OF room] fs_room_next [OF room] in auto)
next
  case (FsRemove path)
  obtain fs' r where c: "SimpleFS_remove fs path = (fs', r)" by fastforce
  from i c show ?thesis
    by (cases rule: remove_spec) (use FsRemove c i fs_room_mono [OF room, of k] fs_room_next [OF room, of fs'] in simp_all)
qed (use read_exec_inv [OF i room] write_exec_inv [OF i room] close_exec_inv [OF i room] mkdir_exec_inv [OF i room] in simp_all)


lemma fs_new_inv: "fs_inv (SimpleFS_new totalBlocks blockSize)" "fs_room (2 ^ 31 - 1) (SimpleFS_new totalBlocks blockSize)"
proof -
  let ?fs = "SimpleFS_new totalBlocks blockSize"
  have nodes: "fs_nodes ?fs = [ROOT_INODE_ID \<mapsto> root_node 0]" by (simp add: SimpleFS_new_def fs_Impl_new_def)
  have root: "in_type (n_inode (root_node 0)) = Directory" "in_blocks (n_inode (root_node 0)) = []" "n_children (root_node 0) = []"
    "in_size (n_inode (root_node 0)) = 0" "in_id (n_inode (root_node 0)) = ROOT_INODE_ID" by (simp_all add: root_node_def default_inode_def)
  have no_blocks: "blocks_of (fs_nodes ?fs) i = []" for i by (simp add: nodes blocks_of_def root)
  obtain T S where TS: "T = max 1 totalBlocks" "S = max 1 blockSize" by simp
  then have parts: "fs_disk ?fs = replicate T (replicate S 0)" "fs_allocator ?fs = BlockAllocator_new T" "fs_blockSize ?fs = S" "0 < S"
    by (simp_all add: SimpleFS_new_def fs_Impl_new_def)
  have "store_ok (fs_blockSize ?fs) (fs_disk ?fs) (fs_allocator ?fs) (blocks_of (fs_nodes ?fs))"
    unfolding parts(1-3) using parts(4)
    by (intro store_okI)
      (simp_all add: no_blocks disk_ok_def BlockAllocator_totalBlocks_def BlockAllocator_isFree_def BlockAllocator_new_def alloc_inv_def split: if_splits)
  moreover have "node_ok (fs_nodes ?fs) ROOT_INODE_ID (root_node 0)" by (simp add: node_ok_def root)
  then have "tree_ok (fs_nodes ?fs) (fs_nextInodeId ?fs)"
    by (simp add: tree_ok_def nodes root) (simp add: ROOT_INODE_ID_def SimpleFS_new_def fs_Impl_new_def)
  moreover have "fds_ok ?fs" by (simp add: fds_ok_def SimpleFS_new_def fs_Impl_new_def FileDescriptorTable_new_def)
  ultimately show "fs_inv ?fs" by (simp add: fs_inv_def nodes root)
  show "fs_room (2 ^ 31 - 1) ?fs" by (simp add: fs_room_def SimpleFS_new_def fs_Impl_new_def ROOT_INODE_ID_def FileDescriptorTable_new_def)
qed

lemma fs_run_inv: "fs_inv fs \<Longrightarrow> fs_room (length ops + k) fs \<Longrightarrow> fs_inv (fold fs_exec ops fs) \<and> fs_room k (fold fs_exec ops fs)"
proof (induction ops arbitrary: fs)
  case (Cons oper ops)
  then have "fs_inv (fs_exec oper fs) \<and> fs_room (length ops + k) (fs_exec oper fs)" using fs_exec_inv [of fs "length ops + k" oper] by simp
  then show ?case using Cons.IH by simp
qed simp

lemma fs_reach:
  assumes "length ops < 2 ^ 31"
  shows "fs_inv (fold fs_exec ops (SimpleFS_new totalBlocks blockSize))"
proof -
  have "fs_room (length ops + 0) (SimpleFS_new totalBlocks blockSize)" by (rule fs_room_mono [OF fs_new_inv(2)]) (use assms in simp)
  then show ?thesis using fs_run_inv [OF fs_new_inv(1)] by blast
qed

lemma open_mode_flags [simp]:
  "hasOpenMode ModeRead ModeRead" "\<not> hasOpenMode ModeRead ModeWrite" "\<not> hasOpenMode ModeRead ModeCreate"
  "\<not> hasOpenMode ModeRead ModeTruncate" "\<not> hasOpenMode ModeRead ModeAppend"
  by (simp_all add: hasOpenMode_def ModeRead_def ModeWrite_def ModeCreate_def ModeTruncate_def ModeAppend_def)

section \<open>Properties\<close>

text \<open>
  C5: The filesystem stays consistent. After any sequence of up to 2147483647 operations on a new filesystem, whatever
  their arguments and results, no two files share a block and a block is free exactly when no file has it; free blocks
  are zero; and the nodes form a tree: every node has exactly one list of names leading to it from the root, and a path
  that resolves to it.
\<close>

theorem fs_consistent:
  assumes "length ops < 2 ^ 31" and "fs = fold fs_exec ops (SimpleFS_new totalBlocks blockSize)"
  shows "(\<forall>i j b. b \<in> set (blocks_of (fs_nodes fs) i) \<and> b \<in> set (blocks_of (fs_nodes fs) j) \<longrightarrow> i = j)
    \<and> (\<forall>b < length (fs_disk fs). BlockAllocator_isFree (fs_allocator fs) b \<longleftrightarrow> (\<forall>i. b \<notin> set (blocks_of (fs_nodes fs) i)))
    \<and> (\<forall>b. BlockAllocator_isFree (fs_allocator fs) b \<longrightarrow> fs_disk fs ! b = replicate (fs_blockSize fs) 0)
    \<and> (\<forall>i n. fs_nodes fs i = Some n \<longrightarrow> (\<exists>!ts. walk (fs_nodes fs) ROOT_INODE_ID ts = Ok i) \<and> (\<exists>path. resolvePath fs path = Ok i))"
proof -
  have i: "fs_inv fs" unfolding assms(2) by (rule fs_reach [OF assms(1)])
  note d = fs_invD [OF i]
  have "(\<exists>!ts. walk (fs_nodes fs) ROOT_INODE_ID ts = Ok i) \<and> (\<exists>path. resolvePath fs path = Ok i)" if n: "fs_nodes fs i = Some n" for i n
  proof -
    obtain ts where ts: "walk (fs_nodes fs) ROOT_INODE_ID ts = Ok i" "\<forall>u \<in> set ts. valid_name u" using walk_reaches [OF d(3) n] by blast
    then have "resolvePath fs (path_of ts) = Ok i" by (simp add: resolvePath_def splitPath_path_of)
    then show ?thesis using ts(1) walk_inj [OF d(3)] by blast
  qed
  then show ?thesis using store_okD(9,10) [OF d(1)] store_free [OF d(1)] by blast
qed

theorem fs_consistent_witness:
  "\<exists>path. resolvePath (fold fs_exec [FsMkdir ''/d'', FsOpen ''/d/f'' (ModeWrite OR ModeCreate)] (SimpleFS_new 4 2)) path = Ok 3"
proof -
  let ?fs = "fold fs_exec [FsMkdir ''/d'', FsOpen ''/d/f'' (ModeWrite OR ModeCreate)] (SimpleFS_new 4 2)"
  have "fs_nodes ?fs 3 \<noteq> None" by code_simp
  then show ?thesis using fs_consistent [of "[FsMkdir ''/d'', FsOpen ''/d/f'' (ModeWrite OR ModeCreate)]" ?fs 4 2] by fastforce
qed


text \<open>
  C24: Type safety of the filesystem. After any sequence of operations on a new filesystem the root is a directory, an
  open descriptor refers to no node or to a regular file (never to a directory, and never to a file created after the one
  that was opened has been removed), a directory has no data blocks and its size is its number of entries, whose names
  are distinct and legal, and a regular file has no entries.
\<close>

theorem fs_type_safe:
  assumes "length ops < 2 ^ 31" and "fs = fold fs_exec ops (SimpleFS_new totalBlocks blockSize)"
  shows "(\<exists>r. fs_nodes fs ROOT_INODE_ID = Some r \<and> in_type (n_inode r) = Directory)
    \<and> (\<forall>fd st n. fd_entries (fs_fdTable fs) fd = Some st \<and> fs_nodes fs (of_inodeId st) = Some n \<longrightarrow>
         in_type (n_inode n) = File \<and> in_id (n_inode n) = of_inodeId st)
    \<and> (\<forall>i n. fs_nodes fs i = Some n \<longrightarrow>
         (in_type (n_inode n) = Directory \<longrightarrow> in_blocks (n_inode n) = [] \<and> in_size (n_inode n) = length (n_children n)
            \<and> distinct (map fst (n_children n)) \<and> (\<forall>name \<in> fst ` set (n_children n). valid_name name))
         \<and> (in_type (n_inode n) = File \<longrightarrow> n_children n = []))"
proof -
  have i: "fs_inv fs" unfolding assms(2) by (rule fs_reach [OF assms(1)])
  note d = fs_invD [OF i]
  have names: "valid_name name" if "fs_nodes fs i = Some n" "name \<in> fst ` set (n_children n)" for i n name
    using that tree_okD(9) [OF d(3) that(1)] by auto
  have root: "\<exists>r. fs_nodes fs ROOT_INODE_ID = Some r \<and> in_type (n_inode r) = Directory" using d(3) by (simp add: tree_ok_def)
  show ?thesis
    by (intro conjI root; use fds_okD(3) [OF d(4)] tree_okD(2-6) [OF d(3)] names in blast)
qed

theorem fs_type_safe_witness:
  "\<exists>r. fs_nodes (fold fs_exec [FsMkdir ''/d'', FsRemove ''/'', FsOpen ''/d'' ModeWrite] (SimpleFS_new 4 2)) ROOT_INODE_ID = Some r
     \<and> in_type (n_inode r) = Directory"
  using fs_type_safe [of "[FsMkdir ''/d'', FsRemove ''/'', FsOpen ''/d'' ModeWrite]" _ 4 2, OF _ refl] by simp

text \<open>
  C25: Capacity. After any sequence of operations the free blocks and the blocks of all files add up to the disk, a file's
  bytes lie in blocks it has, and everything beyond its size in them is zero, so that extending it never shows old data.
\<close>

theorem fs_capacity:
  assumes "length ops < 2 ^ 31" and "fs = fold fs_exec ops (SimpleFS_new totalBlocks blockSize)"
  shows "BlockAllocator_freeBlocks (fs_allocator fs) + card (\<Union>i. set (blocks_of (fs_nodes fs) i)) = length (fs_disk fs)
    \<and> (\<forall>i n. fs_nodes fs i = Some n \<and> in_type (n_inode n) = File \<longrightarrow>
         distinct (in_blocks (n_inode n)) \<and> length (in_blocks (n_inode n)) \<le> length (fs_disk fs)
         \<and> in_size (n_inode n) \<le> length (in_blocks (n_inode n)) * fs_blockSize fs
         \<and> (\<forall>k. in_size (n_inode n) \<le> k \<and> k < length (in_blocks (n_inode n)) * fs_blockSize fs \<longrightarrow>
              byte_at (fs_blockSize fs) (fs_disk fs) (in_blocks (n_inode n)) k = 0))"
proof -
  have i: "fs_inv fs" unfolding assms(2) by (rule fs_reach [OF assms(1)])
  note d = fs_invD [OF i]
  note s = store_okD [OF d(1)]
  have "length (in_blocks (n_inode n)) \<le> length (fs_disk fs)" "distinct (in_blocks (n_inode n))" if n: "fs_nodes fs i = Some n" for i n
  proof -
    note b = blocks_of_Some [of "fs_nodes fs" i n, OF n]
    show dn: "distinct (in_blocks (n_inode n))" using s(5) [of i] b by simp
    have "set (in_blocks (n_inode n)) \<subseteq> {..<length (fs_disk fs)}" using s(7) [of _ i] b by auto
    from card_mono [OF _ this] show "length (in_blocks (n_inode n)) \<le> length (fs_disk fs)" using distinct_card [OF dn] by simp
  qed
  moreover have "BlockAllocator_freeBlocks (fs_allocator fs) + card (\<Union>i. set (blocks_of (fs_nodes fs) i)) = length (fs_disk fs)"
    using freeBlocks_used [OF s(3)] store_used [OF d(1)] s(4) by simp
  ultimately show ?thesis using d(2) unfolding file_ok_def by blast
qed

theorem fs_capacity_witness:
  "BlockAllocator_freeBlocks (fs_allocator (fold fs_exec [FsOpen ''/f'' (ModeWrite OR ModeCreate), FsWrite 0 [1, 2, 3]] (SimpleFS_new 4 2)))
     + card (\<Union>i. set (blocks_of (fs_nodes (fold fs_exec [FsOpen ''/f'' (ModeWrite OR ModeCreate), FsWrite 0 [1, 2, 3]] (SimpleFS_new 4 2))) i)) = 4"
proof -
  have "length (fs_disk (fold fs_exec [FsOpen ''/f'' (ModeWrite OR ModeCreate), FsWrite 0 [1, 2, 3]] (SimpleFS_new 4 2))) = 4" by code_simp
  then show ?thesis using fs_capacity [of "[FsOpen ''/f'' (ModeWrite OR ModeCreate), FsWrite 0 [1, 2, 3]]" _ 4 2, OF _ refl] by simp
qed


text \<open>
  C9: A write refines splicing into a list of bytes. Through a descriptor open for writing, the data replaces the bytes of
  the file from the descriptor's offset on (from the end of the file in append mode), a gap behind the end is filled with
  zeros, and the descriptor moves behind the data. It fails exactly when the file would need more blocks than it has and
  are free, and then no content changes. No other file and no path is affected.
\<close>

theorem fs_write_refines:
  assumes "fs_inv fs" "fd_entries (fs_fdTable fs) fd = Some st" "hasOpenMode (of_mode st) ModeWrite" "content fs (of_inodeId st) = Some bytes"
    and "off = (if hasOpenMode (of_mode st) ModeAppend then length bytes else of_offset st)"
    and "fits \<longleftrightarrow> data = [] \<or> write_fits fs (of_inodeId st) (length bytes) (off + length data)"
    and "SimpleFS_write fs fd data = (fs', r)"
  shows "fs_inv fs' \<and> r = (if fits then Ok (length data) else Error OutOfMemory)
    \<and> content fs' (of_inodeId st) = Some (if fits \<and> data \<noteq> [] then splice_bytes off data bytes else bytes)
    \<and> (\<forall>j. j \<noteq> of_inodeId st \<longrightarrow> content fs' j = content fs j)
    \<and> (\<forall>path. resolvePath fs' path = resolvePath fs path)
    \<and> (fits \<longrightarrow> fd_entries (fs_fdTable fs') fd = Some (st\<lparr>of_offset := off + length data\<rparr>))"
proof -
  note w = write_open_file [OF assms(1,2,3) refl assms(4-7)]
  have "content fs' j = (if j = of_inodeId st \<and> fits \<and> data \<noteq> [] then Some (splice_bytes off data bytes) else content fs j)" for j by (rule w(3))
  moreover have "resolvePath fs' path = resolvePath fs path" for path by (simp add: resolvePath_def w(4) split: result.split)
  ultimately show ?thesis using w(1,2,6) assms(4) by simp
qed

text \<open>A file of one byte on a disk of two blocks of two bytes: the descriptor is at offset 1.\<close>

definition demo_fs :: simple_fs where
  "demo_fs = fold fs_exec [FsOpen ''/f'' (ModeWrite OR ModeCreate), FsWrite 0 [7]] (SimpleFS_new 2 2)"

lemma demo_fs_inv: "fs_inv demo_fs"
  unfolding demo_fs_def by (rule fs_reach) simp

lemma demo_fs_state:
  "fd_entries (fs_fdTable demo_fs) 0 = Some \<lparr>of_inodeId = 2, of_offset = 1, of_mode = ModeWrite OR ModeCreate\<rparr>" "content demo_fs 2 = Some [7]"
  by code_simp+

theorem fs_write_refines_witness:
  "content (fst (SimpleFS_write demo_fs 0 [8, 9])) 2 = Some [7, 8, 9] \<and> snd (SimpleFS_write demo_fs 0 [8, 9]) = Ok 2
     \<and> snd (SimpleFS_write demo_fs 0 [1, 2, 3, 4]) = Error OutOfMemory"
proof -
  have modes: "hasOpenMode (ModeWrite OR ModeCreate) ModeWrite" "\<not> hasOpenMode (ModeWrite OR ModeCreate) ModeAppend" by code_simp+
  have fits: "write_fits demo_fs 2 1 3" "\<not> write_fits demo_fs 2 1 5" by code_simp+
  have "splice_bytes 1 [8, 9] [7] = [7, 8, 9]" by code_simp
  then show ?thesis
    using fs_write_refines [OF demo_fs_inv demo_fs_state(1) _ _ refl refl, of "[7]" "[8, 9]" "fst (SimpleFS_write demo_fs 0 [8, 9])" "snd (SimpleFS_write demo_fs 0 [8, 9])"]
      fs_write_refines [OF demo_fs_inv demo_fs_state(1) _ _ refl refl, of "[7]" "[1, 2, 3, 4]" "fst (SimpleFS_write demo_fs 0 [1, 2, 3, 4])" "snd (SimpleFS_write demo_fs 0 [1, 2, 3, 4])"]
      demo_fs_state(2) modes fits by (simp add: eval_nat_numeral)
qed

lemma close_open_file:
  assumes i: "fs_inv fs" and st: "fd_entries (fs_fdTable fs) fd = Some st" and c: "SimpleFS_close fs fd = (fs', r)"
  shows "r = Ok ()" "fs' = fs\<lparr>fs_fdTable := (fs_fdTable fs)\<lparr>fd_entries := (fd_entries (fs_fdTable fs))(fd := None)\<rparr>\<rparr>" "fs_inv fs'"
proof -
  show r: "r = Ok ()" "fs' = fs\<lparr>fs_fdTable := (fs_fdTable fs)\<lparr>fd_entries := (fd_entries (fs_fdTable fs))(fd := None)\<rparr>\<rparr>"
    using c st by (auto simp: SimpleFS_close_def FileDescriptorTable_close_def)
  have "fds_ok fs'" using fds_okD [OF fs_invD(4) [OF i]] unfolding r(2) by (intro fds_okI) (auto split: if_splits)
  then show "fs_inv fs'" unfolding r(2) by (rule set_fdTable_inv [OF i])
qed

text \<open>
  C26: What is written is read. After a path has been opened for writing with truncation, data has been written to it
  and the descriptor closed, opening the same path for reading succeeds, and a read into a large enough buffer returns
  the data and leaves the rest of the buffer alone.
\<close>

theorem fs_write_read:
  assumes "fs_inv fs" "fs_room 2 fs" "hasOpenMode mode ModeWrite" "hasOpenMode mode ModeTruncate"
    and "SimpleFS_open fs path mode = (fs1, Ok fd)" "SimpleFS_write fs1 fd data = (fs2, Ok k)" "SimpleFS_close fs2 fd = (fs3, r3)"
    and "length data \<le> length buffer"
  shows "r3 = Ok () \<and> (\<exists>fs4 fd' fs5. SimpleFS_open fs3 path ModeRead = (fs4, Ok fd')
    \<and> SimpleFS_read fs4 fd' buffer = (fs5, data @ drop (length data) buffer, Ok (length data)))"
proof -
  have "fs_room 1 fs" by (rule fs_room_mono [OF assms(2)]) simp
  from assms(1) this assms(5) obtain ts f where o: "splitPath path = Ok ts" "fs_inv fs1" "walk (fs_nodes fs1) ROOT_INODE_ID ts = Ok f" "content fs1 f = Some []"
    "fd_entries (fs_fdTable fs1) fd = Some \<lparr>of_inodeId = f, of_offset = 0, of_mode = mode\<rparr>"
    "nextFd (fs_fdTable fs1) = nextFd (fs_fdTable fs) + 1" "fs_nextInodeId fs1 = fs_nextInodeId fs \<or> fs_nextInodeId fs1 = fs_nextInodeId fs + 1"
    by (cases rule: open_cases) (auto simp: assms(4) split: result.splits)
  let ?st = "\<lparr>of_inodeId = f, of_offset = 0, of_mode = mode\<rparr>"
  have old: "content fs1 (of_inodeId ?st) = Some []" using o(4) by simp
  have room1: "fs_room 1 fs1" using fs_room_next [of 1 fs fs1] assms(2) o(6,7) by (simp add: numeral_2_eq_2)
  note w = write_open_file [OF o(2,5) _ refl old refl refl assms(6)]
  have mode: "hasOpenMode (of_mode ?st) ModeWrite" using assms(3) by simp
  have fits: "data = [] \<or> write_fits fs1 f 0 (length data)" using w(2) [OF mode] by (simp split: if_splits)
  have "splice_bytes 0 data [] = data" by (simp add: splice_bytes_def)
  then have new: "content fs2 f = Some data" using w(3) [OF mode, of f] fits o(4) by (cases "data = []") (simp_all split: if_splits)
  have entry: "\<exists>st. fd_entries (fs_fdTable fs2) fd = Some st" using w(6) [OF mode] fits o(5) by (auto split: if_splits)
  then obtain st where st: "fd_entries (fs_fdTable fs2) fd = Some st" ..
  note c = close_open_file [OF w(1) [OF mode] st assms(7)]
  have con3: "content fs3 f = Some data" using new by (simp add: c(2))
  have walk3: "walk (fs_nodes fs3) ROOT_INODE_ID ts = Ok f" using w(4) [OF mode] o(3) by (simp add: c(2))
  have next3: "unat (nextFd (fs_fdTable fs3)) + 1 < 2 ^ 31" using room1 w(6) [OF mode] fits by (simp add: c(2) fs_room_def)
  obtain n where n: "fs_nodes fs3 f = Some n" "in_type (n_inode n) = File" using con3 by (auto simp: content_Some)
  obtain fs4 r4 where o4: "open_node fs3 f ModeRead = (fs4, r4)" by fastforce
  note op = open_node_file [OF c(3) n next3 con3 refl o4]
  have open4: "SimpleFS_open fs3 path ModeRead = (fs4, r4)" using o(1) walk3 o4 by (simp add: SimpleFS_open_def resolvePath_def)
  let ?fd = "nextFd (fs_fdTable fs3)"
  have st4: "fd_entries (fs_fdTable fs4) ?fd = Some \<lparr>of_inodeId = f, of_offset = 0, of_mode = ModeRead\<rparr>" using op(7) by simp
  have con4: "content fs4 f = Some data" using op(3) [of f] by simp
  obtain fs5 b5 r5 where r5: "SimpleFS_read fs4 ?fd buffer = (fs5, b5, r5)" using prod_cases3 by blast
  have "SimpleFS_read fs4 ?fd buffer = (fs5, data @ drop (length data) buffer, Ok (length data))"
    using read_open_file(1,2) [OF op(2) st4 _ _ con4 refl r5] r5 assms(8) by simp
  then show ?thesis using c(1) open4 op(1) by blast
qed

theorem fs_write_read_witness:
  "\<exists>fs4 fd' fs5. SimpleFS_open (fst (SimpleFS_close (fst (SimpleFS_write (fst (SimpleFS_open (SimpleFS_new 2 2) ''/f'' 14)) 0 [5, 6, 7])) 0)) ''/f'' ModeRead = (fs4, Ok fd')
     \<and> SimpleFS_read fs4 fd' [0, 0, 0, 9] = (fs5, [5, 6, 7, 9], Ok 3)"
proof -
  let ?o = "SimpleFS_open (SimpleFS_new 2 2) ''/f'' 14" and ?w = "SimpleFS_write (fst (SimpleFS_open (SimpleFS_new 2 2) ''/f'' 14)) 0 [5, 6, 7]"
  have "snd ?o = Ok 0" "snd ?w = Ok 3" by code_simp+
  then have ow: "?o = (fst ?o, Ok 0)" "?w = (fst ?w, Ok 3)" by (metis prod.collapse)+
  have modes: "hasOpenMode 14 ModeWrite" "hasOpenMode 14 ModeTruncate" by code_simp+
  have room: "fs_room 2 (SimpleFS_new 2 2)" by (rule fs_room_mono [OF fs_new_inv(2)]) simp
  show ?thesis
    using fs_write_read [OF fs_new_inv(1) room modes ow prod.collapse [symmetric], of "[0, 0, 0, 9]"] by (simp add: eval_nat_numeral)
qed


text \<open>
  C27: Removal is exact. A successful removal of a path frees exactly the blocks its file had, the path no longer resolves,
  every other path resolves as before, and every other file keeps its content; only a node without entries is removed. A
  failing removal changes nothing.
\<close>

theorem fs_remove_exact:
  assumes "fs_inv fs" "SimpleFS_remove fs path = (fs', r)"
  shows "case r of
      Error e \<Rightarrow> fs' = fs
    | Ok _ \<Rightarrow> \<exists>i n. resolvePath fs path = Ok i \<and> fs_nodes fs i = Some n \<and> n_children n = [] \<and> fs_inv fs'
        \<and> resolvePath fs' path = Error NotFound \<and> content fs' i = None \<and> (\<forall>j. j \<noteq> i \<longrightarrow> content fs' j = content fs j)
        \<and> (\<forall>p. splitPath p \<noteq> splitPath path \<longrightarrow> resolvePath fs' p = resolvePath fs p)
        \<and> BlockAllocator_freeBlocks (fs_allocator fs') = BlockAllocator_freeBlocks (fs_allocator fs) + length (in_blocks (n_inode n))"
  using assms
proof (cases rule: remove_spec)
  case (removed ts c n)
  have "resolvePath fs path = Ok c" "resolvePath fs' path = Error NotFound" using removed(2,3,8) by (simp_all add: resolvePath_def)
  moreover have "resolvePath fs' p = resolvePath fs p" if "splitPath p \<noteq> splitPath path" for p
    using that removed(2,8) by (auto simp: resolvePath_def split: result.split)
  ultimately show ?thesis using removed by auto
qed simp

theorem fs_remove_exact_witness:
  "resolvePath (fst (SimpleFS_remove demo_fs ''/f'')) ''/f'' = Error NotFound
     \<and> BlockAllocator_freeBlocks (fs_allocator (fst (SimpleFS_remove demo_fs ''/f''))) = 2"
proof -
  have r: "snd (SimpleFS_remove demo_fs ''/f'') = Ok ()" by code_simp
  have e: "resolvePath demo_fs ''/f'' = Ok 2" "BlockAllocator_freeBlocks (fs_allocator demo_fs) = 1"
    "map_option (\<lambda>n. length (in_blocks (n_inode n))) (fs_nodes demo_fs 2) = Some 1" by code_simp+
  from fs_remove_exact [OF demo_fs_inv prod.collapse [symmetric], of "''/f''"] show ?thesis using e by (auto simp: r)
qed

text \<open>
  Paths. Every list of legal names is the token list of the path that joins them with slashes, and every path that
  is accepted consists of legal names; so a path names one list, and repeated and trailing slashes are irrelevant.
\<close>

theorem splitPath_roundtrip:
  "((\<exists>path. splitPath path = Ok ts) \<longleftrightarrow> (\<forall>t \<in> set ts. valid_name t))
   \<and> (\<forall>path. splitPath path = Ok ts \<longrightarrow> splitPath (path_of ts) = Ok ts)"
  using splitPath_path_of [of ts] splitPath_valid by blast

theorem splitPath_roundtrip_witness:
  "splitPath (path_of [''a'', ''bc'']) = Ok [''a'', ''bc''] \<and> splitPath ''//a///bc/'' = Ok [''a'', ''bc'']"
proof -
  have e: "splitPath ''//a///bc/'' = Ok [''a'', ''bc'']" by code_simp
  then show ?thesis using splitPath_roundtrip [of "[''a'', ''bc'']"] by blast
qed

end
