(* ===== verification/Sync.thy ===== *)
theory Sync
  imports Process
begin

text \<open>
  The synchronization primitives: \<^verbatim>\<open>sync/mutex.cpp\<close>, \<^verbatim>\<open>sync/semaphore.cpp\<close> and
  \<^verbatim>\<open>sync/critical_section.cpp\<close>. Every public method locks the primitive's guard and is one step of the
  model. The two priority maps each primitive keeps are the record \<open>priority_table\<close>; recursion depths and counts
  are \<^verbatim>\<open>size_t\<close> values that no run can bring to overflow.
\<close>

section \<open>Priority inheritance tables\<close>

record priority_table =
  basePriorityByPid :: "process_id \<rightharpoonup> priority_level"
  effectivePriorityByPid :: "process_id \<rightharpoonup> priority_level"

definition isHigherPriority :: "priority_level \<Rightarrow> priority_level \<Rightarrow> bool" where
  "isHigherPriority lhs rhs \<longleftrightarrow> level_value lhs < level_value rhs"

text \<open>The subscript of a hash map: a missing entry is created with the value 0 of the enumeration.\<close>

definition subscript :: "(process_id \<rightharpoonup> priority_level) \<Rightarrow> process_id \<Rightarrow> priority_level" where
  "subscript m pid = (case m pid of Some p \<Rightarrow> p | None \<Rightarrow> Realtime)"

definition ensurePriorityRegistered :: "priority_table \<Rightarrow> process_id \<Rightarrow> priority_table" where
  "ensurePriorityRegistered t pid =
     (if pid = INVALID_PID then t
      else
        let t1 = (if basePriorityByPid t pid = None
                  then t\<lparr>basePriorityByPid := (basePriorityByPid t)(pid \<mapsto> Normal)\<rparr> else t)
        in if effectivePriorityByPid t1 pid = None
           then t1\<lparr>effectivePriorityByPid := (effectivePriorityByPid t1)(pid \<mapsto> subscript (basePriorityByPid t1) pid)\<rparr>
           else t1)"

text \<open>The first loop of \<^verbatim>\<open>recomputePriorities\<close>: effective priorities fall back to the registered ones.\<close>

definition resetPriorities :: "priority_table \<Rightarrow> priority_table" where
  "resetPriorities t =
     t\<lparr>effectivePriorityByPid := (\<lambda>p. case basePriorityByPid t p of Some b \<Rightarrow> Some b | None \<Rightarrow> effectivePriorityByPid t p)\<rparr>"

text \<open>The second loop: the highest priority among the waiters.\<close>

fun highestWaiter :: "priority_table \<Rightarrow> process_id list \<Rightarrow> priority_level option \<Rightarrow> priority_table \<times> priority_level option" where
  "highestWaiter t [] highest = (t, highest)"
| "highestWaiter t (waiter # ws) highest =
     (let t1 = ensurePriorityRegistered t waiter;
          p = subscript (effectivePriorityByPid t1) waiter;
          t2 = t1\<lparr>effectivePriorityByPid := (effectivePriorityByPid t1)(waiter \<mapsto> p)\<rparr>
      in highestWaiter t2 ws (case highest of None \<Rightarrow> Some p | Some h \<Rightarrow> Some (if isHigherPriority p h then p else h)))"

text \<open>The boost of one holder.\<close>

definition boost :: "priority_table \<Rightarrow> process_id \<Rightarrow> priority_level \<Rightarrow> priority_table" where
  "boost t pid h =
     (let t1 = ensurePriorityRegistered t pid;
          current = subscript (effectivePriorityByPid t1) pid;
          t2 = t1\<lparr>effectivePriorityByPid := (effectivePriorityByPid t1)(pid \<mapsto> current)\<rparr>
      in if isHigherPriority h current
         then t2\<lparr>effectivePriorityByPid := (effectivePriorityByPid t2)(pid \<mapsto> h)\<rparr> else t2)"

definition effectivePriority :: "priority_table \<Rightarrow> process_id \<Rightarrow> priority_level" where
  "effectivePriority t pid =
     (case effectivePriorityByPid t pid of
        Some p \<Rightarrow> p
      | None \<Rightarrow> (case basePriorityByPid t pid of Some p \<Rightarrow> p | None \<Rightarrow> Normal))"

definition basePriority :: "priority_table \<Rightarrow> process_id \<Rightarrow> priority_level" where
  "basePriority t pid = (case basePriorityByPid t pid of Some p \<Rightarrow> p | None \<Rightarrow> Normal)"

section \<open>Mutex\<close>

record mutex =
  mx_owner :: "process_id option"
  mx_recursionDepth :: nat
  mx_waitQueue :: "process_id list"
  mx_prio :: priority_table

definition Mutex_new :: mutex where
  "Mutex_new = \<lparr>mx_owner = None, mx_recursionDepth = 0, mx_waitQueue = [],
     mx_prio = \<lparr>basePriorityByPid = Map.empty, effectivePriorityByPid = Map.empty\<rparr>\<rparr>"

definition Mutex_recomputePriorities :: "mutex \<Rightarrow> mutex" where
  "Mutex_recomputePriorities m =
     (let t = resetPriorities (mx_prio m) in
      case mx_owner m of
        None \<Rightarrow> m\<lparr>mx_prio := t\<rparr>
      | Some own \<Rightarrow>
          if mx_waitQueue m = [] then m\<lparr>mx_prio := t\<rparr>
          else (case highestWaiter t (mx_waitQueue m) None of
                  (t1, None) \<Rightarrow> m\<lparr>mx_prio := t1\<rparr>
                | (t1, Some h) \<Rightarrow> m\<lparr>mx_prio := boost t1 own h\<rparr>))"

definition mutex_register :: "mutex \<Rightarrow> process_id \<Rightarrow> mutex" where
  "mutex_register m pid = m\<lparr>mx_prio := ensurePriorityRegistered (mx_prio m) pid\<rparr>"

definition Mutex_acquire :: "mutex \<Rightarrow> process_id \<Rightarrow> mutex \<times> unit result" where
  "Mutex_acquire m pid =
     (if pid = INVALID_PID then (m, Error InvalidPid)
      else
        let m1 = mutex_register m pid in
        (case mx_owner m1 of
           None \<Rightarrow> (Mutex_recomputePriorities (m1\<lparr>mx_owner := Some pid, mx_recursionDepth := 1\<rparr>), Ok ())
         | Some own \<Rightarrow>
             if own = pid then (m1\<lparr>mx_recursionDepth := mx_recursionDepth m1 + 1\<rparr>, Ok ())
             else (Mutex_recomputePriorities
                     (if pid \<in> set (mx_waitQueue m1) then m1 else m1\<lparr>mx_waitQueue := mx_waitQueue m1 @ [pid]\<rparr>),
                   Error ResourceBusy)))"

definition Mutex_release :: "mutex \<Rightarrow> process_id \<Rightarrow> mutex \<times> unit result" where
  "Mutex_release m pid =
     (case mx_owner m of
        None \<Rightarrow> (m, Error InvalidState)
      | Some own \<Rightarrow>
          if own \<noteq> pid then (m, Error PermissionDenied)
          else if mx_recursionDepth m > 1
          then (Mutex_recomputePriorities (m\<lparr>mx_recursionDepth := mx_recursionDepth m - 1\<rparr>), Ok ())
          else
            let m1 = m\<lparr>mx_owner := None, mx_recursionDepth := 0\<rparr>;
                m2 = (case mx_waitQueue m1 of
                        [] \<Rightarrow> m1
                      | next # rest \<Rightarrow> m1\<lparr>mx_waitQueue := rest, mx_owner := Some next, mx_recursionDepth := 1\<rparr>)
            in (Mutex_recomputePriorities m2, Ok ()))"

definition Mutex_tryAcquire :: "mutex \<Rightarrow> process_id \<Rightarrow> mutex \<times> unit result" where
  "Mutex_tryAcquire m pid =
     (if pid = INVALID_PID then (m, Error InvalidPid)
      else
        let m1 = mutex_register m pid in
        (case mx_owner m1 of
           None \<Rightarrow> (Mutex_recomputePriorities (m1\<lparr>mx_owner := Some pid, mx_recursionDepth := 1\<rparr>), Ok ())
         | Some own \<Rightarrow>
             if own = pid
             then (Mutex_recomputePriorities (m1\<lparr>mx_recursionDepth := mx_recursionDepth m1 + 1\<rparr>), Ok ())
             else (m1, Error ResourceBusy)))"

definition Mutex_registerProcessPriority :: "mutex \<Rightarrow> process_id \<Rightarrow> priority_level \<Rightarrow> mutex \<times> unit result" where
  "Mutex_registerProcessPriority m pid base =
     (if pid = INVALID_PID then (m, Error InvalidPid)
      else (Mutex_recomputePriorities
              (m\<lparr>mx_prio := \<lparr>basePriorityByPid = (basePriorityByPid (mx_prio m))(pid \<mapsto> base),
                             effectivePriorityByPid = (effectivePriorityByPid (mx_prio m))(pid \<mapsto> base)\<rparr>\<rparr>), Ok ()))"

definition Mutex_effectivePriority :: "mutex \<Rightarrow> process_id \<Rightarrow> priority_level" where
  "Mutex_effectivePriority m pid = effectivePriority (mx_prio m) pid"

definition Mutex_basePriority :: "mutex \<Rightarrow> process_id \<Rightarrow> priority_level" where
  "Mutex_basePriority m pid = basePriority (mx_prio m) pid"

definition Mutex_isLocked :: "mutex \<Rightarrow> bool" where
  "Mutex_isLocked m \<longleftrightarrow> mx_owner m \<noteq> None"

definition Mutex_owner :: "mutex \<Rightarrow> process_id option" where
  "Mutex_owner m = mx_owner m"

definition Mutex_recursionDepth :: "mutex \<Rightarrow> nat" where
  "Mutex_recursionDepth m = mx_recursionDepth m"

definition Mutex_waitingCount :: "mutex \<Rightarrow> nat" where
  "Mutex_waitingCount m = length (mx_waitQueue m)"

section \<open>Semaphore\<close>

record semaphore =
  sm_count :: nat
  sm_maxCount :: nat
  sm_waitQueue :: "process_id list"
  sm_holderCounts :: "process_id \<rightharpoonup> nat"
  sm_prio :: priority_table

definition Semaphore_new :: "nat \<Rightarrow> nat \<Rightarrow> semaphore" where
  "Semaphore_new initialCount maxCount =
     \<lparr>sm_count = min initialCount (max 1 maxCount), sm_maxCount = max 1 maxCount, sm_waitQueue = [],
      sm_holderCounts = Map.empty, sm_prio = \<lparr>basePriorityByPid = Map.empty, effectivePriorityByPid = Map.empty\<rparr>\<rparr>"

text \<open>
  Each holder's boost touches only its own entries, so the loop over the hash map of holders is a
  pointwise update.
\<close>

definition Semaphore_recomputePriorities :: "semaphore \<Rightarrow> semaphore" where
  "Semaphore_recomputePriorities s =
     (let t = resetPriorities (sm_prio s) in
      if sm_waitQueue s = [] then s\<lparr>sm_prio := t\<rparr>
      else (case highestWaiter t (sm_waitQueue s) None of
              (t1, None) \<Rightarrow> s\<lparr>sm_prio := t1\<rparr>
            | (t1, Some h) \<Rightarrow>
                s\<lparr>sm_prio :=
                   \<lparr>basePriorityByPid = (\<lambda>p. case sm_holderCounts s p of
                        Some (Suc _) \<Rightarrow> basePriorityByPid (boost t1 p h) p | _ \<Rightarrow> basePriorityByPid t1 p),
                    effectivePriorityByPid = (\<lambda>p. case sm_holderCounts s p of
                        Some (Suc _) \<Rightarrow> effectivePriorityByPid (boost t1 p h) p | _ \<Rightarrow> effectivePriorityByPid t1 p)\<rparr>\<rparr>))"

definition semaphore_register :: "semaphore \<Rightarrow> process_id \<Rightarrow> semaphore" where
  "semaphore_register s pid = s\<lparr>sm_prio := ensurePriorityRegistered (sm_prio s) pid\<rparr>"

definition add_holder :: "(process_id \<rightharpoonup> nat) \<Rightarrow> process_id \<Rightarrow> (process_id \<rightharpoonup> nat)" where
  "add_holder h pid = h(pid \<mapsto> Suc (case h pid of Some k \<Rightarrow> k | None \<Rightarrow> 0))"

definition drop_holder :: "(process_id \<rightharpoonup> nat) \<Rightarrow> process_id \<Rightarrow> (process_id \<rightharpoonup> nat)" where
  "drop_holder h pid =
     (case h pid of
        None \<Rightarrow> h
      | Some k \<Rightarrow> let k' = (if k > 0 then k - 1 else k) in if k' = 0 then h(pid := None) else h(pid \<mapsto> k'))"

definition Semaphore_acquire :: "semaphore \<Rightarrow> process_id \<Rightarrow> semaphore \<times> unit result" where
  "Semaphore_acquire s pid =
     (if pid = INVALID_PID then (s, Error InvalidPid)
      else
        let s1 = semaphore_register s pid in
        if sm_count s1 > 0
        then (Semaphore_recomputePriorities
                (s1\<lparr>sm_count := sm_count s1 - 1, sm_holderCounts := add_holder (sm_holderCounts s1) pid\<rparr>), Ok ())
        else (Semaphore_recomputePriorities
                (if pid \<in> set (sm_waitQueue s1) then s1 else s1\<lparr>sm_waitQueue := sm_waitQueue s1 @ [pid]\<rparr>),
              Error ResourceBusy))"

definition Semaphore_release :: "semaphore \<Rightarrow> process_id \<Rightarrow> semaphore \<times> unit result" where
  "Semaphore_release s pid =
     (if pid = INVALID_PID then (s, Error InvalidPid)
      else
        let s1 = semaphore_register s pid;
            s2 = s1\<lparr>sm_holderCounts := drop_holder (sm_holderCounts s1) pid\<rparr>
        in (case sm_waitQueue s2 of
              next # rest \<Rightarrow>
                (Semaphore_recomputePriorities
                   ((semaphore_register (s2\<lparr>sm_waitQueue := rest\<rparr>) next)
                      \<lparr>sm_holderCounts := add_holder (sm_holderCounts s2) next\<rparr>), Ok ())
            | [] \<Rightarrow>
                if sm_count s2 \<ge> sm_maxCount s2 then (Semaphore_recomputePriorities s2, Error InvalidState)
                else (Semaphore_recomputePriorities (s2\<lparr>sm_count := sm_count s2 + 1\<rparr>), Ok ())))"

definition Semaphore_tryAcquire :: "semaphore \<Rightarrow> process_id \<Rightarrow> semaphore \<times> unit result" where
  "Semaphore_tryAcquire s pid =
     (if pid = INVALID_PID then (s, Error InvalidPid)
      else
        let s1 = semaphore_register s pid in
        if sm_count s1 = 0 then (s1, Error ResourceBusy)
        else (Semaphore_recomputePriorities
                (s1\<lparr>sm_count := sm_count s1 - 1, sm_holderCounts := add_holder (sm_holderCounts s1) pid\<rparr>), Ok ()))"

definition Semaphore_registerProcessPriority :: "semaphore \<Rightarrow> process_id \<Rightarrow> priority_level \<Rightarrow> semaphore \<times> unit result" where
  "Semaphore_registerProcessPriority s pid base =
     (if pid = INVALID_PID then (s, Error InvalidPid)
      else (Semaphore_recomputePriorities
              (s\<lparr>sm_prio := \<lparr>basePriorityByPid = (basePriorityByPid (sm_prio s))(pid \<mapsto> base),
                             effectivePriorityByPid = (effectivePriorityByPid (sm_prio s))(pid \<mapsto> base)\<rparr>\<rparr>), Ok ()))"

definition Semaphore_effectivePriority :: "semaphore \<Rightarrow> process_id \<Rightarrow> priority_level" where
  "Semaphore_effectivePriority s pid = effectivePriority (sm_prio s) pid"

definition Semaphore_basePriority :: "semaphore \<Rightarrow> process_id \<Rightarrow> priority_level" where
  "Semaphore_basePriority s pid = basePriority (sm_prio s) pid"

definition Semaphore_count :: "semaphore \<Rightarrow> nat" where
  "Semaphore_count s = sm_count s"

definition Semaphore_maxCount :: "semaphore \<Rightarrow> nat" where
  "Semaphore_maxCount s = sm_maxCount s"

definition Semaphore_waitingCount :: "semaphore \<Rightarrow> nat" where
  "Semaphore_waitingCount s = length (sm_waitQueue s)"

section \<open>The interface and critical sections\<close>

datatype sync_primitive = MutexPrimitive mutex | SemaphorePrimitive semaphore | CriticalSectionPrimitive sync_primitive

datatype sync_layer = KernelInternal | SimulatedResource

fun sync_acquire :: "sync_primitive \<Rightarrow> process_id \<Rightarrow> sync_primitive \<times> unit result" where
  "sync_acquire (MutexPrimitive m) pid = map_prod MutexPrimitive id (Mutex_acquire m pid)"
| "sync_acquire (SemaphorePrimitive s) pid = map_prod SemaphorePrimitive id (Semaphore_acquire s pid)"
| "sync_acquire (CriticalSectionPrimitive p) pid = map_prod CriticalSectionPrimitive id (sync_acquire p pid)"

fun sync_release :: "sync_primitive \<Rightarrow> process_id \<Rightarrow> sync_primitive \<times> unit result" where
  "sync_release (MutexPrimitive m) pid = map_prod MutexPrimitive id (Mutex_release m pid)"
| "sync_release (SemaphorePrimitive s) pid = map_prod SemaphorePrimitive id (Semaphore_release s pid)"
| "sync_release (CriticalSectionPrimitive p) pid = map_prod CriticalSectionPrimitive id (sync_release p pid)"

fun sync_tryAcquire :: "sync_primitive \<Rightarrow> process_id \<Rightarrow> sync_primitive \<times> unit result" where
  "sync_tryAcquire (MutexPrimitive m) pid = map_prod MutexPrimitive id (Mutex_tryAcquire m pid)"
| "sync_tryAcquire (SemaphorePrimitive s) pid = map_prod SemaphorePrimitive id (Semaphore_tryAcquire s pid)"
| "sync_tryAcquire (CriticalSectionPrimitive p) pid = map_prod CriticalSectionPrimitive id (sync_tryAcquire p pid)"

fun sync_name :: "sync_primitive \<Rightarrow> string" where
  "sync_name (MutexPrimitive m) = ''Mutex''"
| "sync_name (SemaphorePrimitive s) = ''Semaphore''"
| "sync_name (CriticalSectionPrimitive p) = ''CriticalSection''"

fun sync_layer_of :: "sync_primitive \<Rightarrow> sync_layer" where
  "sync_layer_of (MutexPrimitive m) = SimulatedResource"
| "sync_layer_of (SemaphorePrimitive s) = SimulatedResource"
| "sync_layer_of (CriticalSectionPrimitive p) = sync_layer_of p"

definition CriticalSection_new :: "sync_primitive option \<Rightarrow> sync_primitive" where
  "CriticalSection_new primitive =
     CriticalSectionPrimitive (case primitive of Some p \<Rightarrow> p | None \<Rightarrow> MutexPrimitive Mutex_new)"

definition CriticalSection_enter :: "sync_primitive \<Rightarrow> process_id \<Rightarrow> sync_primitive \<times> unit result" where
  "CriticalSection_enter cs pid = sync_acquire cs pid"

definition CriticalSection_leave :: "sync_primitive \<Rightarrow> process_id \<Rightarrow> sync_primitive \<times> unit result" where
  "CriticalSection_leave cs pid = sync_release cs pid"

definition CriticalSection_tryEnter :: "sync_primitive \<Rightarrow> process_id \<Rightarrow> sync_primitive \<times> unit result" where
  "CriticalSection_tryEnter cs pid = sync_tryAcquire cs pid"


section \<open>Lemmas on priority tables\<close>

definition table_ok :: "priority_table \<Rightarrow> bool" where
  "table_ok t \<longleftrightarrow> dom (effectivePriorityByPid t) \<subseteq> dom (basePriorityByPid t)"

lemma isHigher_min: "(if isHigherPriority p h then p else h) = min p h"
  by (auto simp: isHigherPriority_def min_def less_eq_priority_level_def level_value_inj dest: le_antisym)

lemma ensure_view [simp]:
  "basePriority (ensurePriorityRegistered t p) = basePriority t"
  "effectivePriority (ensurePriorityRegistered t p) = effectivePriority t"
  by (auto simp: fun_eq_iff ensurePriorityRegistered_def basePriority_def effectivePriority_def subscript_def Let_def split: option.splits)

lemma ensure_ok: "table_ok t \<Longrightarrow> table_ok (ensurePriorityRegistered t p)"
  by (auto simp: table_ok_def ensurePriorityRegistered_def Let_def)

lemma ensure_registered:
  "p \<noteq> INVALID_PID \<Longrightarrow> \<exists>b. basePriorityByPid (ensurePriorityRegistered t p) p = Some b"
  "p \<noteq> INVALID_PID \<Longrightarrow> effectivePriorityByPid (ensurePriorityRegistered t p) p = Some (effectivePriority t p)"
  by (auto simp: ensurePriorityRegistered_def effectivePriority_def subscript_def Let_def split: option.splits)

lemma reset_view [simp]: "basePriority (resetPriorities t) = basePriority t"
  by (simp add: fun_eq_iff resetPriorities_def basePriority_def)

lemma reset_effective: "table_ok t \<Longrightarrow> effectivePriority (resetPriorities t) q = basePriority t q"
  by (auto simp: resetPriorities_def basePriority_def effectivePriority_def table_ok_def split: option.splits)

lemma reset_ok: "table_ok t \<Longrightarrow> table_ok (resetPriorities t)"
  by (fastforce simp: table_ok_def resetPriorities_def subset_iff domIff split: option.splits)

lemma touch_id: "p \<noteq> INVALID_PID \<Longrightarrow>
  (ensurePriorityRegistered t p)\<lparr>effectivePriorityByPid := (effectivePriorityByPid (ensurePriorityRegistered t p))
     (p \<mapsto> effectivePriority t p)\<rparr> = ensurePriorityRegistered t p"
  by (simp add: ensure_registered fun_upd_idem)

lemma highestWaiter_view:
  assumes "INVALID_PID \<notin> set ws" "table_ok t" "highestWaiter t ws (Some h) = (t', r)"
  shows "table_ok t' \<and> (\<forall>q. basePriority t' q = basePriority t q \<and> effectivePriority t' q = effectivePriority t q)
    \<and> r = Some (fold min (map (effectivePriority t) ws) h)"
  using assms
proof (induction ws arbitrary: t h)
  case (Cons w ws)
  have w: "w \<noteq> INVALID_PID" using Cons.prems(1) by auto
  have p: "subscript (effectivePriorityByPid (ensurePriorityRegistered t w)) w = effectivePriority t w"
    using w by (simp add: subscript_def ensure_registered)
  have "highestWaiter (ensurePriorityRegistered t w) ws (Some (min (effectivePriority t w) h)) = (t', r)"
    using Cons.prems(3) w by (simp add: Let_def touch_id p isHigher_min)
  from Cons.IH [OF _ ensure_ok [OF Cons.prems(2)] this] Cons.prems(1) show ?case by simp
qed simp

lemma highestWaiter_first:
  assumes "INVALID_PID \<notin> set (w # ws)" "table_ok t" "highestWaiter t (w # ws) None = (t', r)"
  shows "table_ok t' \<and> (\<forall>q. basePriority t' q = basePriority t q \<and> effectivePriority t' q = effectivePriority t q)
    \<and> r = Some (Min (effectivePriority t ` set (w # ws)))"
proof -
  have w: "w \<noteq> INVALID_PID" using assms(1) by auto
  have p: "subscript (effectivePriorityByPid (ensurePriorityRegistered t w)) w = effectivePriority t w"
    using w by (simp add: subscript_def ensure_registered)
  have "highestWaiter (ensurePriorityRegistered t w) ws (Some (effectivePriority t w)) = (t', r)"
    using assms(3) w by (simp add: Let_def touch_id p)
  from highestWaiter_view [OF _ ensure_ok [OF assms(2)] this] assms(1)
  have "table_ok t' \<and> (\<forall>q. basePriority t' q = basePriority t q \<and> effectivePriority t' q = effectivePriority t q)
    \<and> r = Some (fold min (map (effectivePriority t) ws) (effectivePriority t w))" by simp
  moreover have "fold min (map (effectivePriority t) ws) (effectivePriority t w) = Min (effectivePriority t ` set (w # ws))"
    using Min.set_eq_fold [of "effectivePriority t w" "map (effectivePriority t) ws"] by simp
  ultimately show ?thesis by simp
qed

lemma upd_view:
  "basePriority (t\<lparr>effectivePriorityByPid := f\<rparr>) = basePriority t"
  "effectivePriority (t\<lparr>effectivePriorityByPid := (effectivePriorityByPid t)(p \<mapsto> h)\<rparr>) = (effectivePriority t)(p := h)"
  by (simp_all add: basePriority_def effectivePriority_def fun_eq_iff cong: option.case_cong)

lemma boost_view:
  assumes "p \<noteq> INVALID_PID"
  shows "basePriority (boost t p h) = basePriority t"
    "effectivePriority (boost t p h) q = (if q = p then min h (effectivePriority t p) else effectivePriority t q)"
    "table_ok t \<Longrightarrow> table_ok (boost t p h)"
proof -
  let ?t = "ensurePriorityRegistered t p"
  have b: "boost t p h = (if isHigherPriority h (effectivePriority t p)
      then ?t\<lparr>effectivePriorityByPid := (effectivePriorityByPid ?t)(p \<mapsto> h)\<rparr> else ?t)"
    using assms by (simp add: boost_def Let_def subscript_def ensure_registered touch_id)
  show "basePriority (boost t p h) = basePriority t" by (simp add: b upd_view)
  show "effectivePriority (boost t p h) q = (if q = p then min h (effectivePriority t p) else effectivePriority t q)"
    by (simp add: b upd_view isHigher_min [symmetric])
  show "table_ok (boost t p h)" if "table_ok t"
    using ensure_ok [OF that, of p] ensure_registered(1) [OF assms, of t] by (auto simp: b table_ok_def)
qed

section \<open>The mutex invariant\<close>

text \<open>The priority a process should run at: its own, raised to the highest of the waiters if it owns the mutex.\<close>

definition inherited :: "mutex \<Rightarrow> process_id \<Rightarrow> priority_level" where
  "inherited m p =
     (if mx_owner m = Some p then Min (insert (Mutex_basePriority m p) (Mutex_basePriority m ` set (mx_waitQueue m)))
      else Mutex_basePriority m p)"

definition mutex_shape :: "mutex \<Rightarrow> bool" where
  "mutex_shape m \<longleftrightarrow>
     (mx_owner m = None \<longleftrightarrow> mx_recursionDepth m = 0) \<and> (mx_owner m = None \<longrightarrow> mx_waitQueue m = [])
     \<and> distinct (mx_waitQueue m) \<and> (\<forall>p. mx_owner m = Some p \<longrightarrow> p \<notin> set (mx_waitQueue m) \<and> p \<noteq> INVALID_PID)
     \<and> INVALID_PID \<notin> set (mx_waitQueue m) \<and> table_ok (mx_prio m)"

definition mutex_inv :: "mutex \<Rightarrow> bool" where
  "mutex_inv m \<longleftrightarrow> mutex_shape m \<and> (\<forall>p. Mutex_effectivePriority m p = inherited m p)"

lemma recompute_view:
  assumes s: "mutex_shape m"
  shows "mutex_inv (Mutex_recomputePriorities m)
    \<and> mx_owner (Mutex_recomputePriorities m) = mx_owner m \<and> mx_waitQueue (Mutex_recomputePriorities m) = mx_waitQueue m
    \<and> mx_recursionDepth (Mutex_recomputePriorities m) = mx_recursionDepth m
    \<and> Mutex_basePriority (Mutex_recomputePriorities m) = Mutex_basePriority m"
proof -
  have t: "table_ok (mx_prio m)" using s by (simp add: mutex_shape_def)
  let ?t = "resetPriorities (mx_prio m)"
  have plain: ?thesis if "Mutex_recomputePriorities m = m\<lparr>mx_prio := ?t\<rparr>" "mx_owner m = None \<or> mx_waitQueue m = []"
    using that s by (auto simp: mutex_inv_def mutex_shape_def inherited_def Mutex_effectivePriority_def Mutex_basePriority_def
        reset_effective [OF t] reset_ok [OF t] fun_eq_iff)
  show ?thesis
  proof (cases "mx_owner m = None \<or> mx_waitQueue m = []")
    case True
    then show ?thesis by (intro plain) (auto simp: Mutex_recomputePriorities_def Let_def split: option.splits)
  next
    case False
    then obtain own w ws where q: "mx_owner m = Some own" "mx_waitQueue m = w # ws" by (cases "mx_waitQueue m") auto
    obtain t1 r where h: "highestWaiter ?t (w # ws) None = (t1, r)" by fastforce
    have inv: "INVALID_PID \<notin> set (w # ws)" "own \<noteq> INVALID_PID" using s q by (auto simp: mutex_shape_def)
    note v = highestWaiter_first [OF inv(1) reset_ok [OF t] h]
    let ?h = "Min (effectivePriority ?t ` set (w # ws))"
    have m: "Mutex_recomputePriorities m = m\<lparr>mx_prio := boost t1 own ?h\<rparr>"
      using q h v by (simp add: Mutex_recomputePriorities_def Let_def)
    have hb: "?h = Min (basePriority (mx_prio m) ` set (w # ws))" by (simp add: reset_effective [OF t])
    have "Mutex_effectivePriority (Mutex_recomputePriorities m) p = inherited (Mutex_recomputePriorities m) p" for p
    proof (cases "p = own")
      case True
      then show ?thesis
        using v hb inv(2) by (simp add: m Mutex_effectivePriority_def inherited_def Mutex_basePriority_def q boost_view
            reset_effective [OF t] ac_simps)
    next
      case False
      then show ?thesis
        using v inv(2) by (simp add: m Mutex_effectivePriority_def inherited_def Mutex_basePriority_def q boost_view
            reset_effective [OF t])
    qed
    moreover have "table_ok (boost t1 own ?h)" using boost_view(3) [OF inv(2)] v by blast
    ultimately show ?thesis
      using s v by (auto simp: mutex_inv_def mutex_shape_def m Mutex_basePriority_def boost_view [OF inv(2)] fun_eq_iff)
  qed
qed


lemma mutex_invD:
  assumes "mutex_inv m"
  shows "mutex_shape m" "Mutex_effectivePriority m p = inherited m p"
  using assms by (simp_all add: mutex_inv_def)

text \<open>Registering a process changes neither the shape nor any priority.\<close>

lemma register_view:
  assumes "mutex_shape m"
  shows "mutex_shape (mutex_register m p)" "Mutex_basePriority (mutex_register m p) = Mutex_basePriority m"
    "Mutex_effectivePriority (mutex_register m p) = Mutex_effectivePriority m"
    "mx_owner (mutex_register m p) = mx_owner m" "mx_waitQueue (mutex_register m p) = mx_waitQueue m"
    "mx_recursionDepth (mutex_register m p) = mx_recursionDepth m"
  using assms
  by (auto simp: mutex_shape_def mutex_register_def Mutex_basePriority_def Mutex_effectivePriority_def ensure_ok fun_eq_iff)

lemma register_inv: "mutex_inv m \<Longrightarrow> mutex_inv (mutex_register m p)"
  using register_view [OF mutex_invD(1), of m p] by (simp add: mutex_inv_def inherited_def)

lemma depth_inv: "mutex_inv m \<Longrightarrow> mx_owner m \<noteq> None \<Longrightarrow> 0 < n \<Longrightarrow> mutex_inv (m\<lparr>mx_recursionDepth := n\<rparr>)"
  by (auto simp: mutex_inv_def mutex_shape_def inherited_def Mutex_effectivePriority_def Mutex_basePriority_def)

lemma acquire_mutex_inv:
  assumes i: "mutex_inv m" and e: "Mutex_acquire m p = (m', r)"
  shows "mutex_inv m' \<and> r = (if p = INVALID_PID then Error InvalidPid
      else if mx_owner m = None \<or> mx_owner m = Some p then Ok () else Error ResourceBusy)
    \<and> (r = Ok () \<longrightarrow> mx_owner m' = Some p \<and> mx_recursionDepth m' = mx_recursionDepth m + 1 \<and> mx_waitQueue m' = mx_waitQueue m)
    \<and> (r = Error ResourceBusy \<longrightarrow> mx_owner m' = mx_owner m \<and> mx_recursionDepth m' = mx_recursionDepth m
        \<and> mx_waitQueue m' = (if p \<in> set (mx_waitQueue m) then mx_waitQueue m else mx_waitQueue m @ [p]))"
proof (cases "p = INVALID_PID")
  case True
  then show ?thesis using e i by (auto simp: Mutex_acquire_def)
next
  case p: False
  let ?m = "mutex_register m p"
  note v = register_view [OF mutex_invD(1) [OF i], of p] and s = mutex_invD(1) [OF i]
  show ?thesis
  proof (cases "mx_owner m")
    case None
    have "mutex_shape (?m\<lparr>mx_owner := Some p, mx_recursionDepth := 1\<rparr>)"
      using v(1) None p v(4,5) by (auto simp: mutex_shape_def)
    from recompute_view [OF this] show ?thesis
      using e p None v(4,5) s by (auto simp: Mutex_acquire_def Let_def mutex_shape_def)
  next
    case (Some own)
    show ?thesis
    proof (cases "own = p")
      case True
      have "mutex_inv (?m\<lparr>mx_recursionDepth := mx_recursionDepth ?m + 1\<rparr>)"
        by (rule depth_inv [OF register_inv [OF i]]) (use Some v in auto)
      then show ?thesis using e p Some True v by (auto simp: Mutex_acquire_def Let_def)
    next
      case False
      let ?q = "if p \<in> set (mx_waitQueue ?m) then ?m else ?m\<lparr>mx_waitQueue := mx_waitQueue ?m @ [p]\<rparr>"
      have "mutex_shape ?q" using v(1) Some False p v(4,5) by (auto simp: mutex_shape_def)
      from recompute_view [OF this] show ?thesis
        using e p Some False v by (auto simp: Mutex_acquire_def Let_def)
    qed
  qed
qed

lemma tryAcquire_mutex_inv:
  assumes i: "mutex_inv m" and e: "Mutex_tryAcquire m p = (m', r)"
  shows "mutex_inv m'"
proof (cases "p = INVALID_PID")
  case True
  then show ?thesis using e i by (auto simp: Mutex_tryAcquire_def)
next
  case p: False
  let ?m = "mutex_register m p"
  note v = register_view [OF mutex_invD(1) [OF i], of p]
  show ?thesis
  proof (cases "mx_owner m")
    case None
    have "mutex_shape (?m\<lparr>mx_owner := Some p, mx_recursionDepth := 1\<rparr>)"
      using v(1) None p v(4,5) by (auto simp: mutex_shape_def)
    from recompute_view [OF this] show ?thesis using e p None v by (auto simp: Mutex_tryAcquire_def Let_def)
  next
    case (Some own)
    have "mutex_shape (?m\<lparr>mx_recursionDepth := mx_recursionDepth ?m + 1\<rparr>)"
      using v(1) Some v(4) by (auto simp: mutex_shape_def)
    from recompute_view [OF this] register_inv [OF i, of p] show ?thesis
      using e p Some v by (auto simp: Mutex_tryAcquire_def Let_def split: if_splits)
  qed
qed

lemma release_mutex_inv:
  assumes i: "mutex_inv m" and e: "Mutex_release m p = (m', r)"
  shows "mutex_inv m' \<and> r = (case mx_owner m of None \<Rightarrow> Error InvalidState
      | Some own \<Rightarrow> if own = p then Ok () else Error PermissionDenied)
    \<and> (r = Ok () \<longrightarrow>
        (if mx_recursionDepth m > 1
         then mx_owner m' = Some p \<and> mx_recursionDepth m' = mx_recursionDepth m - 1 \<and> mx_waitQueue m' = mx_waitQueue m
         else (case mx_waitQueue m of
                 [] \<Rightarrow> mx_owner m' = None \<and> mx_waitQueue m' = [] \<and> mx_recursionDepth m' = 0
               | next # rest \<Rightarrow> mx_owner m' = Some next \<and> mx_waitQueue m' = rest \<and> mx_recursionDepth m' = 1)))"
proof (cases "mx_owner m = Some p")
  case False
  then show ?thesis using e i by (auto simp: Mutex_release_def split: option.splits)
next
  case own: True
  note s = mutex_invD(1) [OF i]
  show ?thesis
  proof (cases "mx_recursionDepth m > 1")
    case True
    have "mutex_shape (m\<lparr>mx_recursionDepth := mx_recursionDepth m - 1\<rparr>)" using s True by (auto simp: mutex_shape_def)
    from recompute_view [OF this] show ?thesis using e own True by (auto simp: Mutex_release_def)
  next
    case False
    show ?thesis
    proof (cases "mx_waitQueue m")
      case Nil
      have "mutex_shape (m\<lparr>mx_owner := None, mx_recursionDepth := 0\<rparr>)" using s Nil by (auto simp: mutex_shape_def)
      from recompute_view [OF this] show ?thesis using e own False Nil by (auto simp: Mutex_release_def Let_def)
    next
      case (Cons q qs)
      have "mutex_shape (m\<lparr>mx_waitQueue := qs, mx_owner := Some q, mx_recursionDepth := 1\<rparr>)"
        using s Cons by (auto simp: mutex_shape_def)
      from recompute_view [OF this] show ?thesis using e own False Cons by (auto simp: Mutex_release_def Let_def)
    qed
  qed
qed

lemma registerPriority_mutex_inv:
  assumes i: "mutex_inv m" and e: "Mutex_registerProcessPriority m p b = (m', r)"
  shows "mutex_inv m'"
proof (cases "p = INVALID_PID")
  case True
  then show ?thesis using e i by (simp add: Mutex_registerProcessPriority_def)
next
  case False
  let ?m = "m\<lparr>mx_prio := \<lparr>basePriorityByPid = (basePriorityByPid (mx_prio m))(p \<mapsto> b),
      effectivePriorityByPid = (effectivePriorityByPid (mx_prio m))(p \<mapsto> b)\<rparr>\<rparr>"
  have "mutex_shape ?m" using mutex_invD(1) [OF i] by (auto simp: mutex_shape_def table_ok_def)
  from recompute_view [OF this] show ?thesis using e False by (auto simp: Mutex_registerProcessPriority_def)
qed


section \<open>Properties of the mutex\<close>

datatype mutex_op =
    MutexAcquire process_id | MutexRelease process_id | MutexTry process_id | MutexPriority process_id priority_level

fun mutex_exec :: "mutex_op \<Rightarrow> mutex \<Rightarrow> mutex" where
  "mutex_exec (MutexAcquire p) m = fst (Mutex_acquire m p)"
| "mutex_exec (MutexRelease p) m = fst (Mutex_release m p)"
| "mutex_exec (MutexTry p) m = fst (Mutex_tryAcquire m p)"
| "mutex_exec (MutexPriority p b) m = fst (Mutex_registerProcessPriority m p b)"

lemma mutex_new_inv: "mutex_inv Mutex_new"
  by (simp add: mutex_inv_def mutex_shape_def Mutex_new_def table_ok_def inherited_def Mutex_effectivePriority_def
      Mutex_basePriority_def effectivePriority_def basePriority_def)

lemma mutex_exec_inv: "mutex_inv m \<Longrightarrow> mutex_inv (mutex_exec oper m)"
  using acquire_mutex_inv [OF _ prod.collapse [symmetric]] release_mutex_inv [OF _ prod.collapse [symmetric]]
    tryAcquire_mutex_inv [OF _ prod.collapse [symmetric]] registerPriority_mutex_inv [OF _ prod.collapse [symmetric]]
  by (cases oper) auto

lemma mutex_run_inv: "mutex_inv m \<Longrightarrow> mutex_inv (fold mutex_exec ops m)"
  by (induction ops arbitrary: m) (simp_all add: mutex_exec_inv)

text \<open>
  C15: Mutual exclusion with priority inheritance. After any sequence of calls on a new mutex: it
  is held exactly when its depth is positive, nobody waits for a free mutex, the owner is
  not in the queue and nobody is in it twice; and every process has its registered priority, except that the owner has
  the highest of its own and those of all waiters.
\<close>

theorem mutex_inheritance:
  "let m = fold mutex_exec ops Mutex_new in
   (Mutex_isLocked m \<longleftrightarrow> 0 < Mutex_recursionDepth m) \<and> (0 < Mutex_waitingCount m \<longrightarrow> Mutex_isLocked m)
   \<and> distinct (mx_waitQueue m) \<and> (\<forall>p. Mutex_owner m = Some p \<longrightarrow> p \<notin> set (mx_waitQueue m))
   \<and> (\<forall>p. Mutex_effectivePriority m p =
        (if Mutex_owner m = Some p then Min (insert (Mutex_basePriority m p) (Mutex_basePriority m ` set (mx_waitQueue m)))
         else Mutex_basePriority m p))"
proof -
  have "mutex_inv (fold mutex_exec ops Mutex_new)" by (rule mutex_run_inv [OF mutex_new_inv])
  then show ?thesis
    by (auto simp: Let_def mutex_inv_def mutex_shape_def inherited_def Mutex_isLocked_def Mutex_recursionDepth_def
        Mutex_waitingCount_def Mutex_owner_def)
qed

text \<open>A low-priority owner is boosted by a waiter of high priority.\<close>

definition mutex_demo :: "mutex_op list" where
  "mutex_demo = [MutexPriority 1 Low, MutexPriority 2 High, MutexAcquire 1, MutexAcquire 3, MutexAcquire 2, MutexAcquire 1]"

theorem mutex_inheritance_witness:
  "Mutex_effectivePriority (fold mutex_exec mutex_demo Mutex_new) 1 = High
   \<and> mx_waitQueue (fold mutex_exec mutex_demo Mutex_new) = [3, 2]"
proof -
  have "Mutex_owner (fold mutex_exec mutex_demo Mutex_new) = Some 1"
    "Mutex_basePriority (fold mutex_exec mutex_demo Mutex_new) 1 = Low"
    "Mutex_basePriority (fold mutex_exec mutex_demo Mutex_new) 2 = High"
    "Mutex_basePriority (fold mutex_exec mutex_demo Mutex_new) 3 = Normal"
    "mx_waitQueue (fold mutex_exec mutex_demo Mutex_new) = [3, 2]" by code_simp+
  then show ?thesis using mutex_inheritance [of mutex_demo] by (simp add: Let_def min_def less_eq_priority_level_def)
qed

text \<open>The owner gives the mutex up by as many releases as it has acquired it.\<close>

definition handover :: "mutex \<Rightarrow> mutex" where
  "handover m = (case mx_owner m of
     None \<Rightarrow> m | Some p \<Rightarrow> ((\<lambda>m. fst (Mutex_release m p)) ^^ mx_recursionDepth m) m)"

lemma release_all:
  assumes "mutex_inv m" "mx_owner m = Some p" "mx_recursionDepth m = Suc n"
  shows "mutex_inv (((\<lambda>m. fst (Mutex_release m p)) ^^ Suc n) m)
    \<and> mx_owner (((\<lambda>m. fst (Mutex_release m p)) ^^ Suc n) m) = (case mx_waitQueue m of [] \<Rightarrow> None | q # _ \<Rightarrow> Some q)
    \<and> mx_waitQueue (((\<lambda>m. fst (Mutex_release m p)) ^^ Suc n) m) = tl (mx_waitQueue m)"
  using assms
proof (induction n arbitrary: m)
  case 0
  then show ?case
    using release_mutex_inv [OF 0(1) prod.collapse [symmetric], of p] by (auto split: list.splits)
next
  case (Suc n)
  let ?m = "fst (Mutex_release m p)"
  have r: "mutex_inv ?m" "mx_owner ?m = Some p" "mx_recursionDepth ?m = Suc n" "mx_waitQueue ?m = mx_waitQueue m"
    using release_mutex_inv [OF Suc.prems(1) prod.collapse [symmetric], of p] Suc.prems by auto
  have "((\<lambda>m. fst (Mutex_release m p)) ^^ Suc (Suc n)) m = ((\<lambda>m. fst (Mutex_release m p)) ^^ Suc n) ?m"
    by (simp only: funpow_Suc_right o_def)
  then show ?case using Suc.IH [OF r(1-3)] r(4) by (simp only:)
qed

lemma handover_view:
  assumes i: "mutex_inv m"
  shows "mutex_inv (handover m)" "mx_waitQueue (handover m) = tl (mx_waitQueue m)"
    "mx_waitQueue m = q # qs \<Longrightarrow> mx_owner (handover m) = Some q"
proof -
  note s = mutex_invD(1) [OF i, unfolded mutex_shape_def]
  have "mutex_inv (handover m) \<and> mx_waitQueue (handover m) = tl (mx_waitQueue m)
    \<and> (mx_waitQueue m = q # qs \<longrightarrow> mx_owner (handover m) = Some q)"
  proof (cases "mx_owner m")
    case None
    then show ?thesis using i s by (simp add: handover_def)
  next
    case (Some p)
    then obtain n where "mx_recursionDepth m = Suc n" using s by (cases "mx_recursionDepth m") auto
    then show ?thesis using release_all [OF i Some] Some by (simp add: handover_def del: funpow.simps)
  qed
  then show "mutex_inv (handover m)" "mx_waitQueue (handover m) = tl (mx_waitQueue m)"
    "mx_waitQueue m = q # qs \<Longrightarrow> mx_owner (handover m) = Some q" by blast+
qed




section \<open>Properties of the semaphore\<close>

definition holders_total :: "(process_id \<rightharpoonup> nat) \<Rightarrow> nat" where
  "holders_total h = (\<Sum>p \<in> dom h. the (h p))"

definition semaphore_shape :: "semaphore \<Rightarrow> bool" where
  "semaphore_shape s \<longleftrightarrow>
     sm_count s \<le> sm_maxCount s \<and> 0 < sm_maxCount s \<and> (0 < sm_count s \<longrightarrow> sm_waitQueue s = [])
     \<and> distinct (sm_waitQueue s) \<and> INVALID_PID \<notin> set (sm_waitQueue s) \<and> INVALID_PID \<notin> dom (sm_holderCounts s)
     \<and> finite (dom (sm_holderCounts s)) \<and> (\<forall>p. sm_holderCounts s p \<noteq> Some 0) \<and> table_ok (sm_prio s)"

definition semaphore_inv :: "semaphore \<Rightarrow> bool" where
  "semaphore_inv s \<longleftrightarrow> semaphore_shape s \<and>
     (\<forall>p. Semaphore_effectivePriority s p =
        (if p \<in> dom (sm_holderCounts s)
         then Min (insert (Semaphore_basePriority s p) (Semaphore_basePriority s ` set (sm_waitQueue s)))
         else Semaphore_basePriority s p))"

lemma add_holder_view:
  assumes "finite (dom h)"
  shows "dom (add_holder h p) = insert p (dom h)" "holders_total (add_holder h p) = Suc (holders_total h)"
    "\<forall>p. h p \<noteq> Some 0 \<Longrightarrow> \<forall>q. add_holder h p q \<noteq> Some 0"
proof -
  show d: "dom (add_holder h p) = insert p (dom h)" by (auto simp: add_holder_def)
  have rest: "(\<Sum>q \<in> dom h - {p}. the (add_holder h p q)) = (\<Sum>q \<in> dom h - {p}. the (h q))"
    by (rule sum.cong) (auto simp: add_holder_def)
  have "holders_total (add_holder h p) = the (add_holder h p p) + (\<Sum>q \<in> dom h - {p}. the (add_holder h p q))"
    unfolding holders_total_def d using assms by (simp add: sum.insert_remove)
  moreover have "holders_total h = (case h p of Some k \<Rightarrow> k | None \<Rightarrow> 0) + (\<Sum>q \<in> dom h - {p}. the (h q))"
    unfolding holders_total_def using assms
    by (cases "p \<in> dom h") (auto simp: sum.remove domIff split: option.splits)
  ultimately show "holders_total (add_holder h p) = Suc (holders_total h)"
    using rest by (simp add: add_holder_def)
  show "\<forall>q. add_holder h p q \<noteq> Some 0" if "\<forall>p. h p \<noteq> Some 0" using that by (simp add: add_holder_def)
qed

lemma drop_holder_view:
  assumes "finite (dom h)" "\<forall>p. h p \<noteq> Some 0"
  shows "dom (drop_holder h p) \<subseteq> dom h" "\<forall>q. drop_holder h p q \<noteq> Some 0"
    "holders_total h = holders_total (drop_holder h p) + (if p \<in> dom h then 1 else 0)"
proof -
  show sub: "dom (drop_holder h p) \<subseteq> dom h" by (auto simp: drop_holder_def Let_def split: option.splits if_splits)
  show "\<forall>q. drop_holder h p q \<noteq> Some 0" using assms(2) by (auto simp: drop_holder_def Let_def split: option.splits if_splits)
  show "holders_total h = holders_total (drop_holder h p) + (if p \<in> dom h then 1 else 0)"
  proof (cases "h p")
    case None
    then show ?thesis by (simp add: drop_holder_def domIff)
  next
    case (Some k)
    then obtain n where k: "k = Suc n" using assms(2) by (cases k) auto
    show ?thesis
    proof (cases n)
      case 0
      then have "drop_holder h p = h(p := None)" using Some k by (simp add: drop_holder_def)
      then have "holders_total (drop_holder h p) = (\<Sum>q \<in> dom h - {p}. the (h q))"
        by (auto simp: holders_total_def intro: sum.cong)
      moreover have "holders_total h = the (h p) + (\<Sum>q \<in> dom h - {p}. the (h q))"
        unfolding holders_total_def using assms(1) Some by (intro sum.remove) auto
      ultimately show ?thesis using Some k 0 by auto
    next
      case (Suc m)
      then have "add_holder (drop_holder h p) p = h" using Some k by (auto simp: drop_holder_def add_holder_def fun_eq_iff)
      moreover have "finite (dom (drop_holder h p))" using assms(1) sub by (rule rev_finite_subset)
      ultimately show ?thesis using add_holder_view(2) [of "drop_holder h p" p] Some by auto
    qed
  qed
qed


lemma view_pointwise:
  assumes "basePriorityByPid t p = basePriorityByPid u p"
  shows "basePriority t p = basePriority u p"
    "effectivePriorityByPid t p = effectivePriorityByPid u p \<Longrightarrow> effectivePriority t p = effectivePriority u p"
  using assms by (simp_all add: basePriority_def effectivePriority_def cong: option.case_cong)

lemma semaphore_recompute_view:
  assumes s: "semaphore_shape s"
  shows "semaphore_inv (Semaphore_recomputePriorities s)
    \<and> sm_count (Semaphore_recomputePriorities s) = sm_count s \<and> sm_maxCount (Semaphore_recomputePriorities s) = sm_maxCount s
    \<and> sm_waitQueue (Semaphore_recomputePriorities s) = sm_waitQueue s
    \<and> sm_holderCounts (Semaphore_recomputePriorities s) = sm_holderCounts s"
proof -
  have t: "table_ok (sm_prio s)" using s by (simp add: semaphore_shape_def)
  let ?t = "resetPriorities (sm_prio s)"
  show ?thesis
  proof (cases "sm_waitQueue s")
    case Nil
    then have "Semaphore_recomputePriorities s = s\<lparr>sm_prio := ?t\<rparr>" by (simp add: Semaphore_recomputePriorities_def Let_def)
    then show ?thesis using s Nil
      by (auto simp: semaphore_inv_def semaphore_shape_def Semaphore_effectivePriority_def Semaphore_basePriority_def
          reset_effective [OF t] reset_ok [OF t])
  next
    case (Cons w ws)
    obtain t1 r where h: "highestWaiter ?t (w # ws) None = (t1, r)" by fastforce
    have inv: "INVALID_PID \<notin> set (w # ws)" using s Cons by (auto simp: semaphore_shape_def)
    define hi where "hi = Min (effectivePriority ?t ` set (w # ws))"
    note v = highestWaiter_first [OF inv reset_ok [OF t] h, folded hi_def]
    let ?b = "\<lambda>p. case sm_holderCounts s p of
        Some (Suc _) \<Rightarrow> basePriorityByPid (boost t1 p hi) p | _ \<Rightarrow> basePriorityByPid t1 p"
    let ?e = "\<lambda>p. case sm_holderCounts s p of
        Some (Suc _) \<Rightarrow> effectivePriorityByPid (boost t1 p hi) p | _ \<Rightarrow> effectivePriorityByPid t1 p"
    let ?t2 = "\<lparr>basePriorityByPid = ?b, effectivePriorityByPid = ?e\<rparr>"
    have m: "Semaphore_recomputePriorities s = s\<lparr>sm_prio := ?t2\<rparr>"
      using Cons h v by (simp add: Semaphore_recomputePriorities_def Let_def)
    have holder: "p \<noteq> INVALID_PID \<and> ?b p = basePriorityByPid (boost t1 p hi) p \<and> ?e p = effectivePriorityByPid (boost t1 p hi) p"
      if "p \<in> dom (sm_holderCounts s)" for p
      using that s by (auto simp: semaphore_shape_def split: nat.splits)
    have other: "?b p = basePriorityByPid t1 p \<and> ?e p = effectivePriorityByPid t1 p" if "p \<notin> dom (sm_holderCounts s)" for p
      using that by (simp add: domIff)
    have base: "basePriority ?t2 p = basePriority (sm_prio s) p" for p
    proof (cases "p \<in> dom (sm_holderCounts s)")
      case True
      then have "basePriority ?t2 p = basePriority (boost t1 p hi) p" using holder by (intro view_pointwise) simp
      then show ?thesis using v holder [OF True] by (simp add: boost_view)
    next
      case False
      then have "basePriority ?t2 p = basePriority t1 p" using other by (intro view_pointwise) simp
      then show ?thesis using v by simp
    qed
    have eff: "effectivePriority ?t2 p = (if p \<in> dom (sm_holderCounts s)
        then min hi (basePriority (sm_prio s) p) else basePriority (sm_prio s) p)" for p
    proof (cases "p \<in> dom (sm_holderCounts s)")
      case True
      then have "effectivePriority ?t2 p = effectivePriority (boost t1 p hi) p" using holder by (intro view_pointwise) simp_all
      then show ?thesis using v holder [OF True] True by (simp add: boost_view reset_effective [OF t])
    next
      case False
      then have "effectivePriority ?t2 p = effectivePriority t1 p" using other by (intro view_pointwise) simp_all
      then show ?thesis using v False by (simp add: reset_effective [OF t])
    qed
    have "table_ok ?t2"
    proof -
      have "?b p \<noteq> None" if "?e p \<noteq> None" for p
        using that holder [of p] other [of p] v boost_view(3) [of p t1 hi]
        by (cases "p \<in> dom (sm_holderCounts s)") (auto simp: table_ok_def dom_def)
      then show ?thesis by (auto simp: table_ok_def)
    qed
    moreover have "hi = Min (basePriority (sm_prio s) ` set (w # ws))" by (simp add: hi_def reset_effective [OF t])
    ultimately show ?thesis
      using s Cons by (simp add: m semaphore_inv_def semaphore_shape_def Semaphore_effectivePriority_def Semaphore_basePriority_def
          base eff ac_simps)
  qed
qed


lemma semaphore_register_view:
  assumes "semaphore_shape s"
  shows "semaphore_shape (semaphore_register s p)" "sm_count (semaphore_register s p) = sm_count s"
    "sm_maxCount (semaphore_register s p) = sm_maxCount s" "sm_waitQueue (semaphore_register s p) = sm_waitQueue s"
    "sm_holderCounts (semaphore_register s p) = sm_holderCounts s"
    "Semaphore_basePriority (semaphore_register s p) = Semaphore_basePriority s"
    "Semaphore_effectivePriority (semaphore_register s p) = Semaphore_effectivePriority s"
  using assms by (auto simp: semaphore_shape_def semaphore_register_def ensure_ok Semaphore_basePriority_def
      Semaphore_effectivePriority_def fun_eq_iff)

text \<open>The permits in circulation: the free ones and those that are held.\<close>

definition permits :: "semaphore \<Rightarrow> nat" where
  "permits s = sm_count s + holders_total (sm_holderCounts s)"

lemma take_permit:
  assumes s: "semaphore_shape s" and c: "0 < sm_count s" and p: "p \<noteq> INVALID_PID"
  shows "semaphore_shape (s\<lparr>sm_count := sm_count s - 1, sm_holderCounts := add_holder (sm_holderCounts s) p\<rparr>)"
    "permits (s\<lparr>sm_count := sm_count s - 1, sm_holderCounts := add_holder (sm_holderCounts s) p\<rparr>) = permits s"
proof -
  have f: "finite (dom (sm_holderCounts s))" "\<forall>p. sm_holderCounts s p \<noteq> Some 0" using s by (auto simp: semaphore_shape_def)
  note a = add_holder_view [OF f(1), of p]
  show "semaphore_shape (s\<lparr>sm_count := sm_count s - 1, sm_holderCounts := add_holder (sm_holderCounts s) p\<rparr>)"
    using s p c a(1) a(3) [OF f(2)] by (auto simp: semaphore_shape_def)
  show "permits (s\<lparr>sm_count := sm_count s - 1, sm_holderCounts := add_holder (sm_holderCounts s) p\<rparr>) = permits s"
    using c a(2) by (simp add: permits_def)
qed

lemma acquire_semaphore_inv:
  assumes i: "semaphore_inv s" and e: "Semaphore_acquire s p = (s', r)"
  shows "semaphore_inv s' \<and> permits s' = permits s \<and> sm_maxCount s' = sm_maxCount s"
proof (cases "p = INVALID_PID")
  case True
  then show ?thesis using e i by (simp add: Semaphore_acquire_def)
next
  case p: False
  have s: "semaphore_shape s" using i by (simp add: semaphore_inv_def)
  let ?s = "semaphore_register s p"
  note v = semaphore_register_view [OF s, of p]
  have pm: "permits ?s = permits s" using v by (simp add: permits_def)
  show ?thesis
  proof (cases "sm_count s > 0")
    case True
    note t = take_permit [OF v(1) _ p]
    have s': "s' = Semaphore_recomputePriorities (?s\<lparr>sm_count := sm_count ?s - 1, sm_holderCounts := add_holder (sm_holderCounts ?s) p\<rparr>)"
      using e p True v by (auto simp: Semaphore_acquire_def Let_def)
    have c: "0 < sm_count ?s" using True v by simp
    from semaphore_recompute_view [OF t(1) [OF c]] t(2) [OF c] show ?thesis
      using pm v(3) unfolding s' by (simp add: permits_def)
  next
    case False
    let ?q = "if p \<in> set (sm_waitQueue ?s) then ?s else ?s\<lparr>sm_waitQueue := sm_waitQueue ?s @ [p]\<rparr>"
    have s': "s' = Semaphore_recomputePriorities ?q" using e p False v by (auto simp: Semaphore_acquire_def Let_def)
    have "semaphore_shape ?q" using v p False by (auto simp: semaphore_shape_def)
    from semaphore_recompute_view [OF this] show ?thesis using pm v unfolding s' by (auto simp: permits_def)
  qed
qed

lemma tryAcquire_semaphore_inv:
  assumes i: "semaphore_inv s" and e: "Semaphore_tryAcquire s p = (s', r)"
  shows "semaphore_inv s' \<and> permits s' = permits s \<and> sm_maxCount s' = sm_maxCount s"
proof (cases "p = INVALID_PID \<or> sm_count s = 0")
  case True
  have s: "semaphore_shape s" using i by (simp add: semaphore_inv_def)
  note v = semaphore_register_view [OF s, of p]
  have "s' = s \<or> s' = semaphore_register s p" using e True v by (auto simp: Semaphore_tryAcquire_def Let_def split: if_splits)
  moreover have "semaphore_inv (semaphore_register s p)" using i v unfolding semaphore_inv_def by simp
  moreover have "permits (semaphore_register s p) = permits s" using v by (simp add: permits_def)
  ultimately show ?thesis using i v by auto
next
  case False
  then have "Semaphore_tryAcquire s p = Semaphore_acquire s p"
    using semaphore_register_view(2) [of s p] i by (simp add: Semaphore_tryAcquire_def Semaphore_acquire_def semaphore_inv_def)
  with e have "Semaphore_acquire s p = (s', r)" by simp
  then show ?thesis by (rule acquire_semaphore_inv [OF i])
qed

lemma release_semaphore_inv:
  assumes i: "semaphore_inv s" and e: "Semaphore_release s p = (s', r)"
  shows "semaphore_inv s' \<and> sm_maxCount s' = sm_maxCount s
    \<and> (p \<in> dom (sm_holderCounts s) \<longrightarrow> r = Ok () \<longrightarrow> permits s' = permits s)
    \<and> (p \<in> dom (sm_holderCounts s) \<longrightarrow> permits s \<le> sm_maxCount s \<longrightarrow> r = Ok ())
    \<and> (\<forall>q qs. r = Ok () \<longrightarrow> sm_waitQueue s = q # qs \<longrightarrow> q \<in> dom (sm_holderCounts s') \<and> sm_waitQueue s' = qs)"
proof (cases "p = INVALID_PID")
  case True
  have "p \<notin> dom (sm_holderCounts s)" using i True by (simp add: semaphore_inv_def semaphore_shape_def)
  then show ?thesis using e i True by (auto simp: Semaphore_release_def)
next
  case p: False
  have s: "semaphore_shape s" using i by (simp add: semaphore_inv_def)
  have f: "finite (dom (sm_holderCounts s))" "\<forall>p. sm_holderCounts s p \<noteq> Some 0" using s by (auto simp: semaphore_shape_def)
  let ?h = "drop_holder (sm_holderCounts s) p"
  note dv = drop_holder_view [OF f, of p]
  have fh: "finite (dom ?h)" using f(1) dv(1) by (rule rev_finite_subset)
  let ?s2 = "(semaphore_register s p)\<lparr>sm_holderCounts := ?h\<rparr>"
  note v = semaphore_register_view [OF s, of p]
  have nh: "INVALID_PID \<notin> dom ?h" using s dv(1) by (auto simp: semaphore_shape_def)
  have s2: "semaphore_shape ?s2" using v(1) dv(2) fh nh by (simp add: semaphore_shape_def)
  show ?thesis
  proof (cases "sm_waitQueue s")
    case (Cons q qs)
    let ?s3 = "(semaphore_register (?s2\<lparr>sm_waitQueue := qs\<rparr>) q)\<lparr>sm_holderCounts := add_holder ?h q\<rparr>"
    note av = add_holder_view [OF fh, of q]
    have q: "q \<noteq> INVALID_PID" using s Cons by (auto simp: semaphore_shape_def)
    have "semaphore_shape (?s2\<lparr>sm_waitQueue := qs\<rparr>)" using s2 Cons v(4) by (simp add: semaphore_shape_def)
    note w = semaphore_register_view [OF this, of q]
    have "semaphore_shape ?s3" using w(1,5) av(1) av(3) [OF dv(2)] q by (simp add: semaphore_shape_def)
    note z = semaphore_recompute_view [OF this]
    have s': "s' = Semaphore_recomputePriorities ?s3" "r = Ok ()" using e p Cons v by (auto simp: Semaphore_release_def Let_def)
    show ?thesis using z w v av dv(3) Cons unfolding s' by (auto simp: permits_def)
  next
    case Nil
    note v2 = v(2-5)
    show ?thesis
    proof (cases "sm_count s \<ge> sm_maxCount s")
      case True
      have s': "s' = Semaphore_recomputePriorities ?s2" "r = Error InvalidState"
        using e p Nil v True by (auto simp: Semaphore_release_def Let_def)
      have "p \<in> dom (sm_holderCounts s) \<longrightarrow> \<not> permits s \<le> sm_maxCount s" using True dv(3) by (simp add: permits_def)
      then show ?thesis using semaphore_recompute_view [OF s2] v unfolding s' by simp
    next
      case False
      have s': "s' = Semaphore_recomputePriorities (?s2\<lparr>sm_count := sm_count ?s2 + 1\<rparr>)" "r = Ok ()"
        using e p Nil v False by (auto simp: Semaphore_release_def Let_def)
      have "semaphore_shape (?s2\<lparr>sm_count := sm_count ?s2 + 1\<rparr>)" using s2 Nil False v by (simp add: semaphore_shape_def)
      from semaphore_recompute_view [OF this] show ?thesis using v dv(3) Nil unfolding s' by (auto simp: permits_def)
    qed
  qed
qed


lemma registerPriority_semaphore_inv:
  assumes i: "semaphore_inv s" and e: "Semaphore_registerProcessPriority s p b = (s', r)"
  shows "semaphore_inv s' \<and> permits s' = permits s \<and> sm_maxCount s' = sm_maxCount s"
proof (cases "p = INVALID_PID")
  case True
  then show ?thesis using e i by (simp add: Semaphore_registerProcessPriority_def)
next
  case False
  let ?s = "s\<lparr>sm_prio := \<lparr>basePriorityByPid = (basePriorityByPid (sm_prio s))(p \<mapsto> b),
      effectivePriorityByPid = (effectivePriorityByPid (sm_prio s))(p \<mapsto> b)\<rparr>\<rparr>"
  have "semaphore_shape ?s" using i by (auto simp: semaphore_inv_def semaphore_shape_def table_ok_def)
  from semaphore_recompute_view [OF this] show ?thesis
    using e False by (auto simp: Semaphore_registerProcessPriority_def permits_def)
qed

lemma semaphore_new_inv: "semaphore_inv (Semaphore_new n k)"
  by (auto simp: semaphore_inv_def semaphore_shape_def Semaphore_new_def table_ok_def Semaphore_effectivePriority_def
      Semaphore_basePriority_def effectivePriority_def basePriority_def)

datatype semaphore_op =
    SemAcquire process_id | SemRelease process_id | SemTry process_id | SemPriority process_id priority_level

fun semaphore_exec :: "semaphore_op \<Rightarrow> semaphore \<Rightarrow> semaphore" where
  "semaphore_exec (SemAcquire p) s = fst (Semaphore_acquire s p)"
| "semaphore_exec (SemRelease p) s = fst (Semaphore_release s p)"
| "semaphore_exec (SemTry p) s = fst (Semaphore_tryAcquire s p)"
| "semaphore_exec (SemPriority p b) s = fst (Semaphore_registerProcessPriority s p b)"

text \<open>Runs in which a process releases only what it holds.\<close>

fun disciplined :: "semaphore_op list \<Rightarrow> semaphore \<Rightarrow> bool" where
  "disciplined [] s = True"
| "disciplined (oper # ops) s =
     ((case oper of SemRelease p \<Rightarrow> sm_holderCounts s p \<noteq> None | _ \<Rightarrow> True) \<and> disciplined ops (semaphore_exec oper s))"

lemma semaphore_exec_inv:
  assumes "semaphore_inv s" "permits s \<le> sm_maxCount s" "case oper of SemRelease p \<Rightarrow> sm_holderCounts s p \<noteq> None | _ \<Rightarrow> True"
  shows "semaphore_inv (semaphore_exec oper s) \<and> permits (semaphore_exec oper s) = permits s
    \<and> sm_maxCount (semaphore_exec oper s) = sm_maxCount s"
proof (cases oper)
  case (SemRelease p)
  then have "p \<in> dom (sm_holderCounts s)" using assms(3) by auto
  then show ?thesis
    using release_semaphore_inv [OF assms(1) prod.collapse [symmetric], of p] assms(2) SemRelease by simp
qed (use acquire_semaphore_inv [OF assms(1) prod.collapse [symmetric]] tryAcquire_semaphore_inv [OF assms(1) prod.collapse [symmetric]]
      registerPriority_semaphore_inv [OF assms(1) prod.collapse [symmetric]] in auto)

lemma disciplined_run:
  "semaphore_inv s \<Longrightarrow> permits s \<le> sm_maxCount s \<Longrightarrow> disciplined ops s
   \<Longrightarrow> semaphore_inv (fold semaphore_exec ops s) \<and> permits (fold semaphore_exec ops s) = permits s
    \<and> sm_maxCount (fold semaphore_exec ops s) = sm_maxCount s"
  by (induction ops arbitrary: s) (simp_all add: semaphore_exec_inv)

text \<open>
  C32: A semaphore neither loses nor makes permits. As long as processes release only what they hold,
  the free permits and the held ones always add up to the initial count, so never more than the maximum are
  held; permits are free only while nobody waits; and every holder runs at the highest of its own priority
  and those of the waiters.
\<close>

theorem semaphore_conserves:
  assumes "disciplined ops (Semaphore_new initial maximum)" "s = fold semaphore_exec ops (Semaphore_new initial maximum)"
  shows "Semaphore_count s + holders_total (sm_holderCounts s) = min initial (max 1 maximum)
    \<and> holders_total (sm_holderCounts s) \<le> Semaphore_maxCount s
    \<and> (0 < Semaphore_count s \<longrightarrow> Semaphore_waitingCount s = 0)
    \<and> (\<forall>p. sm_holderCounts s p \<noteq> None \<longrightarrow> Semaphore_effectivePriority s p
         = Min (insert (Semaphore_basePriority s p) (Semaphore_basePriority s ` set (sm_waitQueue s))))"
proof -
  have p0: "permits (Semaphore_new initial maximum) = min initial (max 1 maximum)"
    "sm_maxCount (Semaphore_new initial maximum) = max 1 maximum"
    by (simp_all add: permits_def Semaphore_new_def holders_total_def)
  have r: "semaphore_inv s" "permits s = min initial (max 1 maximum)" "sm_maxCount s = max 1 maximum"
    using disciplined_run [OF semaphore_new_inv _ assms(1)] p0 unfolding assms(2) by simp_all
  then show ?thesis
    by (auto simp: semaphore_inv_def semaphore_shape_def permits_def Semaphore_count_def Semaphore_maxCount_def
        Semaphore_waitingCount_def)
qed

theorem semaphore_conserves_witness:
  "Semaphore_count (fold semaphore_exec [SemAcquire 1, SemAcquire 2, SemAcquire 3, SemRelease 1] (Semaphore_new 2 2))
   + holders_total (sm_holderCounts (fold semaphore_exec [SemAcquire 1, SemAcquire 2, SemAcquire 3, SemRelease 1] (Semaphore_new 2 2))) = 2"
proof -
  have "disciplined [SemAcquire 1, SemAcquire 2, SemAcquire 3, SemRelease 1] (Semaphore_new 2 2)" by code_simp
  from semaphore_conserves [OF this refl] show ?thesis by simp
qed

text \<open>
  A process that holds nothing can release. On a binary semaphore held by process 1 with process 2 waiting, a
  release by process 3 succeeds and hands a permit to process 2: both hold one of one permit.
\<close>

theorem stranger_releases:
  "(let s = fold semaphore_exec [SemAcquire 1, SemAcquire 2] (Semaphore_new 1 1) in
    sm_holderCounts s 3 = None \<and> snd (Semaphore_release s 3) = Ok ()
    \<and> sm_holderCounts (fst (Semaphore_release s 3)) 1 = Some 1 \<and> sm_holderCounts (fst (Semaphore_release s 3)) 2 = Some 1
    \<and> Semaphore_maxCount s = 1)"
  by code_simp


section \<open>The interface\<close>

text \<open>
  What a caller of \<^verbatim>\<open>ISyncPrimitive\<close> relies on: the calls keep the primitive's invariant, an invalid process id is
  rejected without effect, a caller that is told \<^verbatim>\<open>ResourceBusy\<close> by \<^verbatim>\<open>acquire\<close> is queued, and \<^verbatim>\<open>tryAcquire\<close>
  never queues anybody.
\<close>

locale sync_interface =
  fixes inv :: "'a \<Rightarrow> bool" and acq rel try_acq :: "'a \<Rightarrow> process_id \<Rightarrow> 'a \<times> unit result" and waiting :: "'a \<Rightarrow> process_id list"
  assumes inv_acq: "inv s \<Longrightarrow> inv (fst (acq s p))"
    and inv_rel: "inv s \<Longrightarrow> inv (fst (rel s p))"
    and inv_try: "inv s \<Longrightarrow> inv (fst (try_acq s p))"
    and invalid: "acq s INVALID_PID = (s, Error InvalidPid)" "try_acq s INVALID_PID = (s, Error InvalidPid)"
    and acq_result: "inv s \<Longrightarrow> p \<noteq> INVALID_PID \<Longrightarrow> snd (acq s p) = Ok ()
      \<or> snd (acq s p) = Error ResourceBusy \<and> set (waiting (fst (acq s p))) = insert p (set (waiting s))"
    and try_waiting: "inv s \<Longrightarrow> waiting (fst (try_acq s p)) = waiting s"
    and acq_waiting: "inv s \<Longrightarrow> snd (acq s p) = Ok () \<Longrightarrow> waiting (fst (acq s p)) = waiting s"
begin

lemma acq_waiting_mono: "inv s \<Longrightarrow> set (waiting s) \<subseteq> set (waiting (fst (acq s p)))"
  using acq_result [of s p] acq_waiting [of s p] invalid by (cases "p = INVALID_PID") auto

lemma busy_queued:
  assumes "inv s" "snd (acq s p) = Error ResourceBusy"
  shows "p \<in> set (waiting (fst (acq s p)))"
proof -
  have "p \<noteq> INVALID_PID" using assms(2) invalid by auto
  from acq_result [OF assms(1) this] assms(2) show ?thesis by auto
qed

text \<open>A queued process stays queued while others acquire.\<close>

lemma stays_queued:
  "inv s \<Longrightarrow> q \<in> set (waiting s) \<Longrightarrow> q \<in> set (waiting (fold (\<lambda>p s. fst (acq s p)) ps s))"
proof (induction ps arbitrary: s)
  case (Cons p ps)
  then show ?case using inv_acq [of s p] acq_waiting_mono [of s p] by auto
qed simp

end

lemma tryAcquire_waiting:
  "mutex_inv m \<Longrightarrow> mx_waitQueue (fst (Mutex_tryAcquire m p)) = mx_waitQueue m"
proof -
  assume i: "mutex_inv m"
  let ?m = "mutex_register m p"
  note v = register_view [OF mutex_invD(1) [OF i], of p] and s = mutex_invD(1) [OF i]
  have f: "mx_waitQueue (Mutex_recomputePriorities k) = mx_waitQueue k" for k
    by (auto simp: Mutex_recomputePriorities_def Let_def split: option.splits prod.splits)
  show ?thesis using v by (auto simp: Mutex_tryAcquire_def Let_def f split: option.splits)
qed

interpretation mutex_sync: sync_interface mutex_inv Mutex_acquire Mutex_release Mutex_tryAcquire mx_waitQueue
proof
  fix s :: mutex and p
  assume i: "mutex_inv s"
  note a = acquire_mutex_inv [OF i prod.collapse [symmetric], of p]
  show "mutex_inv (fst (Mutex_acquire s p))" using a by blast
  show "mutex_inv (fst (Mutex_release s p))" using release_mutex_inv [OF i prod.collapse [symmetric], of p] by blast
  show "mutex_inv (fst (Mutex_tryAcquire s p))" using tryAcquire_mutex_inv [OF i prod.collapse [symmetric], of p] .
  show "mx_waitQueue (fst (Mutex_tryAcquire s p)) = mx_waitQueue s" by (rule tryAcquire_waiting [OF i])
  show "mx_waitQueue (fst (Mutex_acquire s p)) = mx_waitQueue s" if "snd (Mutex_acquire s p) = Ok ()" using a that by simp
  show "snd (Mutex_acquire s p) = Ok () \<or> snd (Mutex_acquire s p) = Error ResourceBusy
      \<and> set (mx_waitQueue (fst (Mutex_acquire s p))) = insert p (set (mx_waitQueue s))" if "p \<noteq> INVALID_PID"
    using a that by auto
qed (simp_all add: Mutex_acquire_def Mutex_tryAcquire_def)

lemma semaphore_recompute_queue [simp]: "sm_waitQueue (Semaphore_recomputePriorities s) = sm_waitQueue s"
  by (auto simp: Semaphore_recomputePriorities_def Let_def split: option.splits prod.splits)

lemma semaphore_register_queue [simp]:
  "sm_waitQueue (semaphore_register s p) = sm_waitQueue s" "sm_count (semaphore_register s p) = sm_count s"
  by (simp_all add: semaphore_register_def)

interpretation semaphore_sync: sync_interface semaphore_inv Semaphore_acquire Semaphore_release Semaphore_tryAcquire sm_waitQueue
proof
  fix s :: semaphore and p
  assume i: "semaphore_inv s"
  show "semaphore_inv (fst (Semaphore_acquire s p))" using acquire_semaphore_inv [OF i prod.collapse [symmetric], of p] by blast
  show "semaphore_inv (fst (Semaphore_release s p))" using release_semaphore_inv [OF i prod.collapse [symmetric], of p] by blast
  show "semaphore_inv (fst (Semaphore_tryAcquire s p))" using tryAcquire_semaphore_inv [OF i prod.collapse [symmetric], of p] by blast
qed (auto simp: Semaphore_acquire_def Semaphore_tryAcquire_def Let_def split: if_splits)

fun sync_inv :: "sync_primitive \<Rightarrow> bool" where
  "sync_inv (MutexPrimitive m) = mutex_inv m"
| "sync_inv (SemaphorePrimitive s) = semaphore_inv s"
| "sync_inv (CriticalSectionPrimitive p) = sync_inv p"

fun sync_waiting :: "sync_primitive \<Rightarrow> process_id list" where
  "sync_waiting (MutexPrimitive m) = mx_waitQueue m"
| "sync_waiting (SemaphorePrimitive s) = sm_waitQueue s"
| "sync_waiting (CriticalSectionPrimitive p) = sync_waiting p"

interpretation sync: sync_interface sync_inv sync_acquire sync_release sync_tryAcquire sync_waiting
proof
  fix s :: sync_primitive and p
  show "sync_inv s \<Longrightarrow> sync_inv (fst (sync_acquire s p))"
    by (induction s) (simp_all add: mutex_sync.inv_acq semaphore_sync.inv_acq)
  show "sync_inv s \<Longrightarrow> sync_inv (fst (sync_release s p))"
    by (induction s) (simp_all add: mutex_sync.inv_rel semaphore_sync.inv_rel)
  show "sync_inv s \<Longrightarrow> sync_inv (fst (sync_tryAcquire s p))"
    by (induction s) (simp_all add: mutex_sync.inv_try semaphore_sync.inv_try)
  show "sync_acquire s INVALID_PID = (s, Error InvalidPid)" "sync_tryAcquire s INVALID_PID = (s, Error InvalidPid)"
    by (induction s) (simp_all add: mutex_sync.invalid semaphore_sync.invalid)
  show "sync_inv s \<Longrightarrow> sync_waiting (fst (sync_tryAcquire s p)) = sync_waiting s"
    by (induction s) (simp_all add: mutex_sync.try_waiting semaphore_sync.try_waiting)
  show "sync_inv s \<Longrightarrow> snd (sync_acquire s p) = Ok () \<Longrightarrow> sync_waiting (fst (sync_acquire s p)) = sync_waiting s"
    by (induction s) (simp_all add: mutex_sync.acq_waiting semaphore_sync.acq_waiting)
  show "sync_inv s \<Longrightarrow> p \<noteq> INVALID_PID \<Longrightarrow> snd (sync_acquire s p) = Ok ()
      \<or> snd (sync_acquire s p) = Error ResourceBusy \<and> set (sync_waiting (fst (sync_acquire s p))) = insert p (set (sync_waiting s))"
    by (induction s) (simp_all add: mutex_sync.acq_result semaphore_sync.acq_result)
qed

end
