(* ===== verification/Syscall.thy ===== *)
theory Syscall
  imports Process
begin

text \<open>
  System calls: \<^verbatim>\<open>syscall/syscall_ids.h\<close> and \<^verbatim>\<open>syscall/syscall_table.cpp\<close>. A handler is a function value the
  client registers; it gets the arguments and a reference to the image of the calling process, so it is
  modelled by a function from the arguments and the image to the image it leaves and its result. An empty
  \<^verbatim>\<open>std::function\<close> is \<open>None\<close>.
\<close>

datatype syscall_id =
    SysExit | SysWrite | SysRead | SysFork | SysExec | SysWait | SysOpen | SysClose
  | SysCreatePipe | SysSendMessage | SysReceiveMessage | SysShmCreate | SysShmAttach
  | SysMutexLock | SysMutexUnlock | SysSemWait | SysSemSignal | SysGetPid | SysGetTime | SysYield

fun syscall_number :: "syscall_id \<Rightarrow> 16 word" where
  "syscall_number SysExit = 0" | "syscall_number SysWrite = 1" | "syscall_number SysRead = 2"
| "syscall_number SysFork = 3" | "syscall_number SysExec = 4" | "syscall_number SysWait = 5"
| "syscall_number SysOpen = 10" | "syscall_number SysClose = 11" | "syscall_number SysCreatePipe = 20"
| "syscall_number SysSendMessage = 21" | "syscall_number SysReceiveMessage = 22"
| "syscall_number SysShmCreate = 23" | "syscall_number SysShmAttach = 24" | "syscall_number SysMutexLock = 30"
| "syscall_number SysMutexUnlock = 31" | "syscall_number SysSemWait = 32" | "syscall_number SysSemSignal = 33"
| "syscall_number SysGetPid = 40" | "syscall_number SysGetTime = 41" | "syscall_number SysYield = 42"

text \<open>The numbers are pairwise different, so the hash of a number identifies the call.\<close>

lemma syscall_number_inj: "inj syscall_number"
proof (rule injI)
  show "syscall_number a = syscall_number b \<Longrightarrow> a = b" for a b by (cases a; cases b) simp_all
qed

type_synonym handler_fn = "register_value list \<Rightarrow> process_image \<Rightarrow> process_image \<times> register_value result"

record syscall_table =
  handlers :: "syscall_id \<rightharpoonup> handler_fn"

definition SyscallTable_new :: syscall_table where
  "SyscallTable_new = \<lparr>handlers = Map.empty\<rparr>"

definition SyscallTable_registerHandler :: "syscall_table \<Rightarrow> syscall_id \<Rightarrow> handler_fn option \<Rightarrow> syscall_table \<times> unit result" where
  "SyscallTable_registerHandler t i handler =
     (case handler of
        None \<Rightarrow> (t, Error InvalidArgument)
      | Some h \<Rightarrow> (t\<lparr>handlers := (handlers t)(i \<mapsto> h)\<rparr>, Ok ()))"

text \<open>The overload for a handler object: its \<^verbatim>\<open>handle\<close> method also gets the number of the call.\<close>

definition registerHandler_object ::
  "syscall_table \<Rightarrow> syscall_id \<Rightarrow> (syscall_id \<Rightarrow> handler_fn) \<Rightarrow> syscall_table \<times> unit result" where
  "registerHandler_object t i handle = SyscallTable_registerHandler t i (Some (handle i))"

definition SyscallTable_unregisterHandler :: "syscall_table \<Rightarrow> syscall_id \<Rightarrow> syscall_table \<times> unit result" where
  "SyscallTable_unregisterHandler t i =
     (if handlers t i = None then (t, Error NotFound)
      else (t\<lparr>handlers := (handlers t)(i := None)\<rparr>, Ok ()))"

definition SyscallTable_dispatch ::
  "syscall_table \<Rightarrow> syscall_id \<Rightarrow> register_value list \<Rightarrow> process_image \<Rightarrow> process_image \<times> register_value result" where
  "SyscallTable_dispatch t i args caller =
     (case handlers t i of None \<Rightarrow> (caller, Error NotFound) | Some h \<Rightarrow> h args caller)"

definition SyscallTable_hasHandler :: "syscall_table \<Rightarrow> syscall_id \<Rightarrow> bool" where
  "SyscallTable_hasHandler t i \<longleftrightarrow> handlers t i \<noteq> None"

definition SyscallTable_handlerCount :: "syscall_table \<Rightarrow> nat" where
  "SyscallTable_handlerCount t = card (dom (handlers t))"

text \<open>
  Registering replaces the handler of one call and unregistering removes it; the other calls keep theirs.
\<close>

lemma registered_dispatch:
  "SyscallTable_dispatch (fst (SyscallTable_registerHandler t i (Some h))) j args caller =
     (if j = i then h args caller else SyscallTable_dispatch t j args caller)"
  by (simp add: SyscallTable_dispatch_def SyscallTable_registerHandler_def)

lemma unregistered_dispatch:
  "SyscallTable_dispatch (fst (SyscallTable_unregisterHandler t i)) j args caller =
     (if j = i then (caller, Error NotFound) else SyscallTable_dispatch t j args caller)"
  by (simp add: SyscallTable_dispatch_def SyscallTable_unregisterHandler_def)

end
