(* ===== verification/Kernel.thy ===== *)
theory Kernel
  imports Dispatcher Sync Syscall
begin

text \<open>
  The kernel: \<^verbatim>\<open>kernel/kernel.cpp\<close>, \<^verbatim>\<open>kernel/kernel_builder.cpp\<close>, \<^verbatim>\<open>kernel/kernel_diagnostics.cpp\<close> and the data of
  \<^verbatim>\<open>kernel/i_kernel.h\<close>. The kernel owns the components it was built from; the components the dispatcher
  refers to are the same objects, so the state is the \<open>machine\<close> of the dispatcher with the tables the kernel adds.
  Which of the owned pointers are set is the record \<open>kernel_dependencies\<close>.

  The references to process images in \<^verbatim>\<open>processRefs\<close> are modelled by the set of their keys, since each refers to the
  image the dispatcher holds under that id; following a reference to an image that is gone is undefined behaviour
  in the source, and the model then gives \<open>None\<close> (in \<open>Kernel_snapshot\<close>, \<open>Kernel_syscall\<close>).
\<close>

section \<open>Configuration\<close>

record kernel_dependencies =
  dep_clock :: bool
  dep_memory :: bool
  dep_mmu :: bool
  dep_virtualMemory :: bool
  dep_cpu :: bool
  dep_executionEngine :: bool
  dep_scheduler :: bool
  dep_dispatcher :: bool
  dep_tracer :: bool
  dep_fileSystem :: bool
  dep_ipcManager :: bool
  dep_syscallTable :: bool
  dep_runtime :: bool
  defaultTickBudget :: nat

definition hasAllRequiredDependencies :: "kernel_dependencies \<Rightarrow> bool" where
  "hasAllRequiredDependencies d \<longleftrightarrow>
     dep_clock d \<and> dep_memory d \<and> dep_mmu d \<and> dep_virtualMemory d \<and> dep_cpu d \<and> dep_executionEngine d
     \<and> dep_scheduler d \<and> dep_dispatcher d \<and> dep_tracer d \<and> dep_fileSystem d \<and> dep_ipcManager d \<and> dep_syscallTable d"

record kernel =
  k_deps :: kernel_dependencies
  k_machine :: machine
  k_syscallTable :: syscall_table
  k_syncPrimitives :: "string \<rightharpoonup> sync_primitive"
  k_processRefs :: "process_id set"
  k_nextPid :: process_id

definition Kernel_new :: "kernel_dependencies \<Rightarrow> machine \<Rightarrow> syscall_table \<Rightarrow> kernel" where
  "Kernel_new deps m t =
     \<lparr>k_deps = deps, k_machine = m, k_syscallTable = t, k_syncPrimitives = Map.empty, k_processRefs = {}, k_nextPid = 1\<rparr>"

text \<open>The builder starts with nothing set; each \<^verbatim>\<open>with\<close> method sets one dependency.\<close>

definition KernelBuilder_new :: kernel_dependencies where
  "KernelBuilder_new =
     \<lparr>dep_clock = False, dep_memory = False, dep_mmu = False, dep_virtualMemory = False, dep_cpu = False,
      dep_executionEngine = False, dep_scheduler = False, dep_dispatcher = False, dep_tracer = False,
      dep_fileSystem = False, dep_ipcManager = False, dep_syscallTable = False, dep_runtime = False, defaultTickBudget = 0\<rparr>"

datatype builder_call =
    WithClock bool | WithMemory bool | WithMmu bool | WithVirtualMemory bool | WithCpu bool | WithExecutionEngine bool
  | WithScheduler bool | WithDispatcher bool | WithTracer bool | WithRuntime bool | WithFileSystem bool
  | WithIpcManager bool | WithSyscallTable bool | WithDefaultTickBudget nat

fun builder_with :: "builder_call \<Rightarrow> kernel_dependencies \<Rightarrow> kernel_dependencies" where
  "builder_with (WithClock b) d = d\<lparr>dep_clock := b\<rparr>"
| "builder_with (WithMemory b) d = d\<lparr>dep_memory := b\<rparr>"
| "builder_with (WithMmu b) d = d\<lparr>dep_mmu := b\<rparr>"
| "builder_with (WithVirtualMemory b) d = d\<lparr>dep_virtualMemory := b\<rparr>"
| "builder_with (WithCpu b) d = d\<lparr>dep_cpu := b\<rparr>"
| "builder_with (WithExecutionEngine b) d = d\<lparr>dep_executionEngine := b\<rparr>"
| "builder_with (WithScheduler b) d = d\<lparr>dep_scheduler := b\<rparr>"
| "builder_with (WithDispatcher b) d = d\<lparr>dep_dispatcher := b\<rparr>"
| "builder_with (WithTracer b) d = d\<lparr>dep_tracer := b\<rparr>"
| "builder_with (WithRuntime b) d = d\<lparr>dep_runtime := b\<rparr>"
| "builder_with (WithFileSystem b) d = d\<lparr>dep_fileSystem := b\<rparr>"
| "builder_with (WithIpcManager b) d = d\<lparr>dep_ipcManager := b\<rparr>"
| "builder_with (WithSyscallTable b) d = d\<lparr>dep_syscallTable := b\<rparr>"
| "builder_with (WithDefaultTickBudget n) d = d\<lparr>defaultTickBudget := n\<rparr>"

text \<open>Building moves the dependencies into the kernel and leaves the builder's pointers empty.\<close>

definition moved_from :: "kernel_dependencies \<Rightarrow> kernel_dependencies" where
  "moved_from d = KernelBuilder_new\<lparr>defaultTickBudget := defaultTickBudget d\<rparr>"

definition KernelBuilder_build ::
  "kernel_dependencies \<Rightarrow> machine \<Rightarrow> syscall_table \<Rightarrow> kernel_dependencies \<times> kernel result" where
  "KernelBuilder_build d m t =
     (if \<not> hasAllRequiredDependencies d then (d, Error InvalidState)
      else if defaultTickBudget d = 0 then (d, Error InvalidArgument)
      else (moved_from d, Ok (Kernel_new d m t)))"

section \<open>Processes\<close>

record process_config =
  cfg_id :: process_id
  cfg_name :: string
  cfg_code :: "block list"
  cfg_priority :: priority
  cfg_arrivalTime :: tick

definition processExists :: "kernel \<Rightarrow> process_id \<Rightarrow> bool" where
  "processExists k pid \<longleftrightarrow> dep_dispatcher (k_deps k) \<and> Dispatcher_hasProcess (k_machine k) pid"

definition pruneDeadProcessRefs :: "kernel \<Rightarrow> kernel" where
  "pruneDeadProcessRefs k = k\<lparr>k_processRefs := {pid \<in> k_processRefs k. processExists k pid}\<rparr>"

text \<open>The candidates of \<^verbatim>\<open>allocatePid\<close>: the counter wraps at 32 bits and skips the invalid id.\<close>

fun allocatePid_loop :: "nat \<Rightarrow> (process_id \<Rightarrow> bool) \<Rightarrow> process_id \<Rightarrow> process_id \<times> process_id" where
  "allocatePid_loop 0 taken next' = (next', INVALID_PID)"
| "allocatePid_loop (Suc n) taken next' =
     (let candidate = (if next' = INVALID_PID then 1 else next')
      in if \<not> taken candidate then (candidate + 1, candidate) else allocatePid_loop n taken (candidate + 1))"

definition allocatePid :: "kernel \<Rightarrow> kernel \<times> process_id" where
  "allocatePid k =
     (if \<not> dep_dispatcher (k_deps k) then (k, INVALID_PID)
      else let (next', pid) = allocatePid_loop MAX_PROCESSES (Dispatcher_hasProcess (k_machine k)) (k_nextPid k)
           in (k\<lparr>k_nextPid := next'\<rparr>, pid))"

definition config_image :: "process_config \<Rightarrow> process_id \<Rightarrow> tick \<Rightarrow> process_image" where
  "config_image config pid now =
     ProcessImage_new pid (if cfg_name config = [] then ''process-'' @ to_string (unat pid) else cfg_name config)
       (cfg_code config) (cfg_priority config) (if cfg_arrivalTime config = 0 then now else cfg_arrivalTime config)"

text \<open>Creation under an id that is chosen.\<close>

definition create_as ::
  "(nat \<Rightarrow> frame_id set \<Rightarrow> frame_id list) \<Rightarrow> kernel \<Rightarrow> process_config \<Rightarrow> process_id \<Rightarrow> kernel \<times> process_id result" where
  "create_as iter k config pid =
     (let now = Clock_now (m_clock (k_machine k));
          (m, created) = Dispatcher_createProcess iter (k_machine k) (Some (config_image config pid now)) now
      in (case created of
            Error e \<Rightarrow> (k\<lparr>k_machine := m\<rparr>, Error e)
          | Ok _ \<Rightarrow> (k\<lparr>k_machine := m, k_processRefs := insert pid (k_processRefs k)\<rparr>, Ok pid)))"

definition Kernel_createProcess ::
  "(nat \<Rightarrow> frame_id set \<Rightarrow> frame_id list) \<Rightarrow> kernel \<Rightarrow> process_config \<Rightarrow> kernel \<times> process_id result" where
  "Kernel_createProcess iter k config =
     (if \<not> (dep_dispatcher (k_deps k) \<and> dep_clock (k_deps k) \<and> dep_tracer (k_deps k)) then (k, Error InvalidState)
      else if cfg_code config = [] then (k, Error InvalidArgument)
      else if cfg_id config = INVALID_PID then
        (let (k1, pid) = allocatePid k
         in if pid = INVALID_PID then (k1, Error OutOfMemory) else create_as iter k1 config pid)
      else if Dispatcher_hasProcess (k_machine k) (cfg_id config) then (k, Error AlreadyExists)
      else create_as iter k config (cfg_id config))"

definition Kernel_terminateProcess :: "kernel \<Rightarrow> process_id \<Rightarrow> kernel \<times> unit result" where
  "Kernel_terminateProcess k pid =
     (if \<not> (dep_dispatcher (k_deps k) \<and> dep_clock (k_deps k) \<and> dep_tracer (k_deps k)) then (k, Error InvalidState)
      else
        let (m, r) = Dispatcher_terminateProcess (k_machine k) pid (Clock_now (m_clock (k_machine k)))
        in (case r of
              Error e \<Rightarrow> (k\<lparr>k_machine := m\<rparr>, Error e)
            | Ok _ \<Rightarrow> (k\<lparr>k_machine := m, k_processRefs := k_processRefs k - {pid}\<rparr>, Ok ())))"

definition tick_budget :: "kernel \<Rightarrow> nat \<Rightarrow> nat" where
  "tick_budget k tickBudget =
     (let budget = (if tickBudget = 0 then defaultTickBudget (k_deps k) else tickBudget)
      in if budget = 0 then 1 else budget)"

definition Kernel_tick :: "kernel \<Rightarrow> nat \<Rightarrow> kernel \<times> unit result" where
  "Kernel_tick k tickBudget =
     (if \<not> (dep_dispatcher (k_deps k) \<and> dep_tracer (k_deps k)) then (k, Error InvalidState)
      else
        let (m, r) = Dispatcher_dispatch (k_machine k) (tick_budget k tickBudget)
        in (pruneDeadProcessRefs (k\<lparr>k_machine := m\<rparr>), r))"

text \<open>The loop of \<^verbatim>\<open>runForTicks\<close>: the cycles left and whether a tick has succeeded.\<close>

fun runForTicks_loop :: "nat \<Rightarrow> bool \<Rightarrow> kernel \<Rightarrow> nat \<Rightarrow> kernel \<times> unit result" where
  "runForTicks_loop 0 anyWorkDone k tickBudget = (k, Ok ())"
| "runForTicks_loop (Suc n) anyWorkDone k tickBudget =
     (let (k1, r) = Kernel_tick k tickBudget
      in (case r of
            Error e \<Rightarrow> (k1, if e = NotFound \<and> anyWorkDone then Ok () else Error e)
          | Ok _ \<Rightarrow> runForTicks_loop n True k1 tickBudget))"

definition Kernel_runForTicks :: "kernel \<Rightarrow> nat \<Rightarrow> nat \<Rightarrow> kernel \<times> unit result" where
  "Kernel_runForTicks k cycles tickBudget = runForTicks_loop cycles False k tickBudget"

section \<open>System calls and critical sections\<close>

definition Kernel_syscall ::
  "kernel \<Rightarrow> process_id \<Rightarrow> syscall_id \<Rightarrow> register_value list \<Rightarrow> kernel \<times> register_value result" where
  "Kernel_syscall k pid i args =
     (if \<not> (dep_syscallTable (k_deps k) \<and> dep_dispatcher (k_deps k)) then (k, Error InvalidState)
      else if pid \<notin> k_processRefs k \<or> \<not> Dispatcher_hasProcess (k_machine k) pid
      then (k\<lparr>k_processRefs := k_processRefs k - {pid}\<rparr>, Error NotFound)
      else
        (case m_images (k_machine k) pid of
           None \<Rightarrow> (k, Error NotFound)
         | Some caller \<Rightarrow>
             let (caller', r) = SyscallTable_dispatch (k_syscallTable k) i args caller
             in (k\<lparr>k_machine := (k_machine k)\<lparr>m_images := (m_images (k_machine k))(pid \<mapsto> caller')\<rparr>\<rparr>, r)))"

definition Kernel_registerSyscallHandler :: "kernel \<Rightarrow> syscall_id \<Rightarrow> handler_fn option \<Rightarrow> kernel \<times> unit result" where
  "Kernel_registerSyscallHandler k i handler =
     (if \<not> dep_syscallTable (k_deps k) then (k, Error InvalidState)
      else let (t, r) = SyscallTable_registerHandler (k_syscallTable k) i handler in (k\<lparr>k_syscallTable := t\<rparr>, r))"

definition Kernel_registerSyncPrimitive :: "kernel \<Rightarrow> string \<Rightarrow> sync_primitive option \<Rightarrow> kernel \<times> unit result" where
  "Kernel_registerSyncPrimitive k name primitive =
     (case primitive of
        None \<Rightarrow> (k, Error InvalidArgument)
      | Some p \<Rightarrow>
          if name = [] then (k, Error InvalidArgument)
          else if k_syncPrimitives k name \<noteq> None then (k, Error AlreadyExists)
          else (k\<lparr>k_syncPrimitives := (k_syncPrimitives k)(name \<mapsto> p)\<rparr>, Ok ()))"

definition Kernel_enterCritical :: "kernel \<Rightarrow> process_id \<Rightarrow> string \<Rightarrow> kernel \<times> unit result" where
  "Kernel_enterCritical k pid name =
     (case k_syncPrimitives k name of
        None \<Rightarrow> (k, Error NotFound)
      | Some p \<Rightarrow> let (p', r) = sync_acquire p pid in (k\<lparr>k_syncPrimitives := (k_syncPrimitives k)(name \<mapsto> p')\<rparr>, r))"

definition Kernel_leaveCritical :: "kernel \<Rightarrow> process_id \<Rightarrow> string \<Rightarrow> kernel \<times> unit result" where
  "Kernel_leaveCritical k pid name =
     (case k_syncPrimitives k name of
        None \<Rightarrow> (k, Error NotFound)
      | Some p \<Rightarrow> let (p', r) = sync_release p pid in (k\<lparr>k_syncPrimitives := (k_syncPrimitives k)(name \<mapsto> p')\<rparr>, r))"

section \<open>Observation\<close>

record kernel_process_snapshot =
  row_id :: process_id
  row_name :: string
  row_state :: process_state
  row_basePriority :: priority_level
  row_effectivePriority :: priority_level
  row_nice :: "32 word"
  row_cpuTime :: tick
  row_laneIndex :: "nat option"

record kernel_snapshot =
  ks_currentTick :: tick
  ks_processCount :: nat
  ks_readyCount :: nat
  ks_blockedCount :: nat
  ks_runningPids :: "process_id list"
  ks_readyQueue :: "process_id list"
  ks_blockedQueue :: "process_id list"
  ks_perLaneReadyQueues :: "process_id list list"
  ks_policyName :: string
  ks_processes :: "kernel_process_snapshot list"
  ks_totalVirtualSlots :: nat
  ks_freeVirtualSlots :: nat
  ks_totalFrames :: "nat option"
  ks_freeFrames :: "nat option"
  ks_frameOwners :: "process_id option list"

definition empty_snapshot :: kernel_snapshot where
  "empty_snapshot =
     \<lparr>ks_currentTick = 0, ks_processCount = 0, ks_readyCount = 0, ks_blockedCount = 0, ks_runningPids = [],
      ks_readyQueue = [], ks_blockedQueue = [], ks_perLaneReadyQueues = [], ks_policyName = [], ks_processes = [],
      ks_totalVirtualSlots = 0, ks_freeVirtualSlots = 0, ks_totalFrames = None, ks_freeFrames = None, ks_frameOwners = []\<rparr>"

text \<open>The lane a later queue assigns overwrites the one of an earlier queue.\<close>

definition assign_lane :: "nat \<times> process_id list \<Rightarrow> (process_id \<rightharpoonup> nat) \<Rightarrow> (process_id \<rightharpoonup> nat)" where
  "assign_lane lq m = fold (\<lambda>pid m. m(pid \<mapsto> fst lq)) (snd lq) m"

definition laneByPid :: "process_id list list \<Rightarrow> process_id \<rightharpoonup> nat" where
  "laneByPid qs = fold assign_lane (enumerate 0 qs) Map.empty"

definition process_row :: "(process_id \<rightharpoonup> nat) \<Rightarrow> process_id \<Rightarrow> process_image \<Rightarrow> kernel_process_snapshot" where
  "process_row lanes pid im =
     \<lparr>row_id = pid, row_name = pcb_name (im_pcb im), row_state = pcb_state (im_pcb im),
      row_basePriority = pr_base (pcb_priority (im_pcb im)), row_effectivePriority = pr_effective (pcb_priority (im_pcb im)),
      row_nice = pr_nice (pcb_priority (im_pcb im)), row_cpuTime = totalCpuTime (pcb_timing (im_pcb im)),
      row_laneIndex = lanes pid\<rparr>"

text \<open>
  The rows are collected in the iteration order of the hash map and then sorted by id, which gives the order of
  the sorted ids since they are distinct.
\<close>

definition process_rows :: "kernel \<Rightarrow> kernel_process_snapshot list option" where
  "process_rows k =
     those (map (\<lambda>pid. map_option (process_row (laneByPid (Scheduler_getPerLaneQueueSnapshot (m_sched (k_machine k)))) pid)
                         (m_images (k_machine k) pid))
       (sorted_list_of_set (k_processRefs k)))"

definition scheduler_part :: "kernel \<Rightarrow> kernel_snapshot \<Rightarrow> kernel_snapshot option" where
  "scheduler_part k out =
     (let sch = m_sched (k_machine k) in
      map_option (\<lambda>rows. out\<lparr>ks_readyCount := length (Scheduler_getQueueSnapshot sch),
          ks_blockedCount := length (Scheduler_getBlockedSnapshot sch),
          ks_runningPids := Scheduler_runningProcesses sch, ks_readyQueue := Scheduler_getQueueSnapshot sch,
          ks_blockedQueue := Scheduler_getBlockedSnapshot sch,
          ks_perLaneReadyQueues := Scheduler_getPerLaneQueueSnapshot sch,
          ks_policyName := Scheduler_policyName sch, ks_processes := rows\<rparr>)
        (process_rows k))"

definition Kernel_snapshot :: "kernel \<Rightarrow> kernel_snapshot option" where
  "Kernel_snapshot k =
     (let m = k_machine k; deps = k_deps k;
          out1 = (if dep_clock deps then empty_snapshot\<lparr>ks_currentTick := Clock_now (m_clock m)\<rparr> else empty_snapshot);
          out2 = (if dep_dispatcher deps then out1\<lparr>ks_processCount := Dispatcher_processCount m\<rparr> else out1)
      in map_option (\<lambda>out. if dep_virtualMemory deps
             then out\<lparr>ks_totalVirtualSlots := VirtualMemory_totalSlots (m_vm m), ks_freeVirtualSlots := VirtualMemory_freeSlots (m_vm m)\<rparr>
             else out)
          (if dep_scheduler deps then scheduler_part k out2 else Some out2))"

definition KernelDiagnostics_captureSnapshot :: "kernel option \<Rightarrow> kernel_snapshot result option" where
  "KernelDiagnostics_captureSnapshot impl =
     (case impl of None \<Rightarrow> Some (Error InvalidState) | Some k \<Rightarrow> map_option Ok (Kernel_snapshot k))"

definition Kernel_now :: "kernel \<Rightarrow> tick" where
  "Kernel_now k = (if dep_clock (k_deps k) then Clock_now (m_clock (k_machine k)) else 0)"

definition Kernel_hasProcess :: "kernel \<Rightarrow> process_id \<Rightarrow> bool" where
  "Kernel_hasProcess k pid \<longleftrightarrow> dep_dispatcher (k_deps k) \<and> Dispatcher_hasProcess (k_machine k) pid"

definition Kernel_processCount :: "kernel \<Rightarrow> nat" where
  "Kernel_processCount k = (if dep_dispatcher (k_deps k) then Dispatcher_processCount (k_machine k) else 0)"

section \<open>The invariant of the kernel\<close>

text \<open>
  The machine is consistent, the kernel's references are exactly those to the live images, and every registered
  primitive is in a valid state.
\<close>

definition kernel_inv :: "kernel \<Rightarrow> bool" where
  "kernel_inv k \<longleftrightarrow> machine_inv (k_machine k) \<and> k_processRefs k = dom (m_images (k_machine k))
     \<and> hasAllRequiredDependencies (k_deps k)
     \<and> (\<forall>i h. handlers (k_syscallTable k) i = Some h \<longrightarrow>
          (\<forall>args im. pcb_id (im_pcb (fst (h args im))) = pcb_id (im_pcb im) \<and> pcb_state (im_pcb (fst (h args im))) = pcb_state (im_pcb im)))
     \<and> (\<forall>name p. k_syncPrimitives k name = Some p \<longrightarrow> sync_inv p)"

lemma kernel_invD:
  assumes "kernel_inv k"
  shows "machine_inv (k_machine k)" "k_processRefs k = dom (m_images (k_machine k))"
    "dep_clock (k_deps k)" "dep_scheduler (k_deps k)" "dep_dispatcher (k_deps k)" "dep_tracer (k_deps k)"
    "dep_virtualMemory (k_deps k)" "dep_syscallTable (k_deps k)"
  using assms by (simp_all add: kernel_inv_def hasAllRequiredDependencies_def)

lemma kernel_inv_machine:
  assumes "kernel_inv k" "machine_inv m" "refs = dom (m_images m)"
  shows "kernel_inv (k\<lparr>k_machine := m, k_processRefs := refs\<rparr>)"
  using assms by (simp add: kernel_inv_def)

lemma kernel_inv_same: "kernel_inv k \<Longrightarrow> machine_inv m \<Longrightarrow> m_images m = m_images (k_machine k) \<Longrightarrow> kernel_inv (k\<lparr>k_machine := m\<rparr>)"
  by (simp add: kernel_inv_def)

lemma kernel_inv_nextPid: "kernel_inv k \<Longrightarrow> kernel_inv (k\<lparr>k_nextPid := p\<rparr>)"
  by (simp add: kernel_inv_def)

lemma kernel_inv_sync:
  assumes "kernel_inv k" "sync_inv p"
  shows "kernel_inv (k\<lparr>k_syncPrimitives := (k_syncPrimitives k)(name \<mapsto> p)\<rparr>)"
  using assms by (simp add: kernel_inv_def)

text \<open>Changing an image other than in the id and the state of its control block keeps the machine consistent.\<close>

lemma machine_inv_image:
  assumes i: "machine_inv m" and im: "m_images m pid = Some im"
    and same: "pcb_id (im_pcb im') = pcb_id (im_pcb im)" "pcb_state (im_pcb im') = pcb_state (im_pcb im)"
  shows "machine_inv (m\<lparr>m_images := (m_images m)(pid \<mapsto> im')\<rparr>)"
proof -
  note d = machine_invD [OF i]
  have s: "pcb_id (store_of ((m_images m)(pid \<mapsto> im')) q) = pcb_id (store_of (m_images m) q)"
    "pcb_state (store_of ((m_images m)(pid \<mapsto> im')) q) = pcb_state (store_of (m_images m) q)" for q
    using im same by (simp_all add: store_of_def)
  have "sched_inv (m_sched m) (store_of ((m_images m)(pid \<mapsto> im')))"
    using d(1) unfolding sched_inv_def s .
  moreover have "dom ((m_images m)(pid \<mapsto> im')) = dom (m_images m)" using im by auto
  ultimately show ?thesis using d by (simp add: machine_inv_def)
qed

section \<open>Process ids\<close>

text \<open>
  The candidates of the allocation are consecutive valid ids, so as many tries as there are candidates cannot all
  meet existing processes when fewer processes exist.
\<close>

definition next_candidate :: "process_id \<Rightarrow> process_id" where
  "next_candidate p = (if p = INVALID_PID then 1 else p)"

fun candidates :: "nat \<Rightarrow> process_id \<Rightarrow> process_id list" where
  "candidates 0 p = []"
| "candidates (Suc n) p = next_candidate p # candidates n (next_candidate p + 1)"

lemma allocatePid_loop_find:
  "snd (allocatePid_loop n taken p) = (case List.find (\<lambda>c. \<not> taken c) (candidates n p) of None \<Rightarrow> INVALID_PID | Some c \<Rightarrow> c)"
  by (induction n arbitrary: p) (simp_all add: next_candidate_def Let_def)

lemma candidates_valid: "INVALID_PID \<notin> set (candidates n p)"
  by (induction n arbitrary: p) (simp_all add: next_candidate_def INVALID_PID_def)

text \<open>Written as numbers from 0 to \<open>2\<^sup>3\<^sup>2 - 2\<close>, the candidates count up modulo the number of valid ids.\<close>

lemma next_candidate_val:
  "(unat (next_candidate (p + 1)) - 1) mod (2 ^ 32 - 1) = unat p mod (2 ^ 32 - 1)" "0 < unat (next_candidate q)"
proof -
  show "0 < unat (next_candidate q)" by (simp add: next_candidate_def INVALID_PID_def unat_gt_0)
  show "(unat (next_candidate (p + 1)) - 1) mod (2 ^ 32 - 1) = unat p mod (2 ^ 32 - 1)"
  proof (cases "p + 1 = 0")
    case True
    then have "p = - 1" by (simp add: add_eq_0_iff2)
    then show ?thesis by (simp add: next_candidate_def INVALID_PID_def unsigned_minus_1_eq_mask mask_eq_exp_minus_1)
  next
    case False
    then have "unat (p + 1) = unat p + 1" 
      by (metis Suc_eq_plus1 add.commute unatSuc)
    then show ?thesis using False by (simp add: next_candidate_def INVALID_PID_def)
  qed
qed

lemma candidates_nth:
  "i < n \<Longrightarrow> (unat (candidates n p ! i) - 1) mod (2 ^ 32 - 1) = (unat (next_candidate p) - 1 + i) mod (2 ^ 32 - 1)"
proof (induction n arbitrary: p i)
  case (Suc n)
  show ?case
  proof (cases i)
    case (Suc j)
    let ?c = "next_candidate p" and ?M = "2 ^ 32 - 1 :: nat"
    have "(unat (candidates n (?c + 1) ! j) - 1) mod ?M = (unat (next_candidate (?c + 1)) - 1 + j) mod ?M"
      using Suc.IH [of j "?c + 1"] Suc.prems Suc by simp
    also have "\<dots> = (unat ?c + j) mod ?M" by (rule mod_add_cong [OF next_candidate_val(1) refl])
    also have "unat ?c + j = unat ?c - 1 + i" using Suc next_candidate_val(2) [of p] by simp
    finally show ?thesis using Suc by simp
  qed simp
qed simp

lemma length_candidates [simp]: "length (candidates n p) = n"
  by (induction n arbitrary: p) simp_all

lemma add_mod_neq: "i < j \<Longrightarrow> j < M \<Longrightarrow> (c + i) mod M \<noteq> (c + j) mod (M :: nat)"
proof
  assume ij: "i < j" "j < M" and "(c + i) mod M = (c + j) mod M"
  then have "M dvd (c + j) - (c + i)" using mod_eq_dvd_iff_nat [of "c + i" "c + j" M] by simp
  then show False using ij by (auto dest: dvd_imp_le)
qed

lemma candidates_distinct:
  assumes "n \<le> 2 ^ 32 - 1"
  shows "distinct (candidates n p)"
proof (unfold distinct_conv_nth, intro allI impI)
  fix i j
  assume ij: "i < length (candidates n p)" "j < length (candidates n p)" "i \<noteq> j"
  let ?c = "unat (next_candidate p) - 1" and ?M = "2 ^ 32 - 1 :: nat"
  have "(?c + i) mod ?M \<noteq> (?c + j) mod ?M"
    using ij assms add_mod_neq [of i j ?M ?c] add_mod_neq [of j i ?M ?c] by (cases i j rule: linorder_cases) auto
  then show "candidates n p ! i \<noteq> candidates n p ! j" using candidates_nth [of i n p] candidates_nth [of j n p] ij by auto
qed

lemma allocatePid_fresh:
  assumes "finite T" "card T < n" "n \<le> 2 ^ 32 - 1"
  shows "snd (allocatePid_loop n (\<lambda>p. p \<in> T) p) \<noteq> INVALID_PID \<and> snd (allocatePid_loop n (\<lambda>p. p \<in> T) p) \<notin> T"
proof -
  have "\<not> set (candidates n p) \<subseteq> T"
    using card_mono [OF assms(1), of "set (candidates n p)"] distinct_card [OF candidates_distinct [OF assms(3), of p]] assms(2) by auto
  then obtain c where f: "List.find (\<lambda>c. c \<notin> T) (candidates n p) = Some c"
    by (metis find_None_iff not_Some_eq subsetI)
  then have "c \<in> set (candidates n p)" "c \<notin> T" by (auto simp: find_Some_iff)
  then show ?thesis using candidates_valid [of n p] by (auto simp: allocatePid_loop_find f)
qed

section \<open>The operations keep the invariant\<close>

lemma machine_images_finite: "machine_inv m \<Longrightarrow> finite (dom (m_images m))"
  using machine_invD(4,5) by (metis vm_inv_def)

lemma config_image_simps [simp]:
  "pcb_id (im_pcb (config_image config pid now)) = pid" "pcb_state (im_pcb (config_image config pid now)) = New"
  "im_code (config_image config pid now) = cfg_code config" "im_registers (config_image config pid now) = RegisterFile_new"
  by (simp_all add: config_image_def ProcessImage_new_def PCB_new_def)

lemma create_as_view:
  assumes i: "kernel_inv k" and ok: "\<forall>n. iter_ok (iter n)" "length (cfg_code config) \<le> 2 ^ 32"
    and p: "\<not> Dispatcher_hasProcess (k_machine k) pid" "pid \<noteq> INVALID_PID" and e: "create_as iter k config pid = (k', r)"
  shows "kernel_inv k' \<and> (r = Ok pid \<or> r = Error OutOfMemory)
    \<and> (0 < VirtualMemory_freeSlots (m_vm (k_machine k)) \<and> max 1 (length (cfg_code config)) \<le> Mmu_freeFrames (m_mmu (k_machine k)) \<longrightarrow> r = Ok pid)
    \<and> (if r = Ok pid
       then \<exists>im. m_images (k_machine k') = (m_images (k_machine k))(pid \<mapsto> im) \<and> im_code im = cfg_code config \<and> im_registers im = RegisterFile_new \<and> pcb_state (im_pcb im) = Ready
       else m_images (k_machine k') = m_images (k_machine k))"
proof -
  let ?now = "Clock_now (m_clock (k_machine k))"
  obtain m c where c: "Dispatcher_createProcess iter (k_machine k) (Some (config_image config pid ?now)) ?now = (m, c)" by fastforce
  note d = kernel_invD [OF i]
  note v = createProcess_view [OF d(1) ok(1) _ _ c, unfolded config_image_simps ProcessImage_id_def, OF refl ok(2)]
  have new: "m_images (k_machine k) pid = None" using p by (simp add: Dispatcher_hasProcess_def)
  have mi: "machine_inv m" using v by blast
  show ?thesis
  proof (cases c)
    case (Ok u)
    then obtain im where im: "m_images m = (m_images (k_machine k))(pid \<mapsto> im)" "im_code im = cfg_code config"
      "im_registers im = RegisterFile_new" "pcb_state (im_pcb im) = Ready" using v by auto
    have "k' = k\<lparr>k_machine := m, k_processRefs := insert pid (k_processRefs k)\<rparr>" "r = Ok pid"
      using e c Ok by (simp_all add: create_as_def Let_def)
    then show ?thesis using kernel_inv_machine [OF i mi] im d(2) by auto
  next
    case (Error x)
    then have "k' = k\<lparr>k_machine := m\<rparr>" "r = Error x" using e c by (simp_all add: create_as_def Let_def)
    moreover have "m_images m = m_images (k_machine k)" "m_sched m = m_sched (k_machine k)" using v Error by simp_all
    moreover have "x = OutOfMemory" "0 < VirtualMemory_freeSlots (m_vm (k_machine k)) \<and> max 1 (length (cfg_code config)) \<le> Mmu_freeFrames (m_mmu (k_machine k)) \<longrightarrow> False"
      using v Error new p(2) by auto
    ultimately show ?thesis using kernel_inv_same [OF i mi] by auto
  qed
qed

lemma allocatePid_view:
  assumes "allocatePid k = (k', pid)" "dep_dispatcher (k_deps k)"
  shows "k' = k\<lparr>k_nextPid := k_nextPid k'\<rparr>" "pid = snd (allocatePid_loop MAX_PROCESSES (\<lambda>p. p \<in> dom (m_images (k_machine k))) (k_nextPid k))"
proof -
  have "Dispatcher_hasProcess (k_machine k) = (\<lambda>p. p \<in> dom (m_images (k_machine k)))"
    by (auto simp: Dispatcher_hasProcess_def fun_eq_iff)
  then show "k' = k\<lparr>k_nextPid := k_nextPid k'\<rparr>" "pid = snd (allocatePid_loop MAX_PROCESSES (\<lambda>p. p \<in> dom (m_images (k_machine k))) (k_nextPid k))"
    using assms by (auto simp: allocatePid_def split: prod.splits)
qed

lemma allocatePid_not_taken: "snd (allocatePid_loop n taken p) = c \<Longrightarrow> c \<noteq> INVALID_PID \<Longrightarrow> \<not> taken c"
  by (induction n arbitrary: p) (auto simp: Let_def split: if_splits)

text \<open>The ids a creation can be made under, and how the creation answers.\<close>

lemma createProcess_kernel:
  assumes i: "kernel_inv k" and ok: "\<forall>n. iter_ok (iter n)" "length (cfg_code config) \<le> 2 ^ 32"
    and e: "Kernel_createProcess iter k config = (k', r)"
  shows "kernel_inv k'
    \<and> (\<forall>pid. r = Ok pid \<longrightarrow> pid \<noteq> INVALID_PID \<and> \<not> Kernel_hasProcess k pid \<and> (cfg_id config = INVALID_PID \<or> pid = cfg_id config)
        \<and> (\<exists>im. m_images (k_machine k') = (m_images (k_machine k))(pid \<mapsto> im) \<and> im_code im = cfg_code config \<and> im_registers im = RegisterFile_new \<and> pcb_state (im_pcb im) = Ready))
    \<and> (isError r \<longrightarrow> m_images (k_machine k') = m_images (k_machine k))
    \<and> (cfg_code config = [] \<longrightarrow> r = Error InvalidArgument)
    \<and> (cfg_code config \<noteq> [] \<and> cfg_id config \<noteq> INVALID_PID \<and> Kernel_hasProcess k (cfg_id config) \<longrightarrow> r = Error AlreadyExists)
    \<and> (cfg_code config \<noteq> [] \<and> 0 < VirtualMemory_freeSlots (m_vm (k_machine k)) \<and> length (cfg_code config) \<le> Mmu_freeFrames (m_mmu (k_machine k))
        \<and> (if cfg_id config = INVALID_PID then Kernel_processCount k < MAX_PROCESSES else \<not> Kernel_hasProcess k (cfg_id config))
       \<longrightarrow> isOk r)"
proof -
  note d = kernel_invD [OF i]
  have hp: "Kernel_hasProcess k = Dispatcher_hasProcess (k_machine k)" by (simp add: Kernel_hasProcess_def d fun_eq_iff)
  have mx: "max 1 (length (cfg_code config)) = length (cfg_code config)" if "cfg_code config \<noteq> []" using that by (cases "cfg_code config") auto
  consider (empty) "cfg_code config = []"
    | (auto) "cfg_code config \<noteq> []" "cfg_id config = INVALID_PID"
    | (taken) "cfg_code config \<noteq> []" "cfg_id config \<noteq> INVALID_PID" "Dispatcher_hasProcess (k_machine k) (cfg_id config)"
    | (free) "cfg_code config \<noteq> []" "cfg_id config \<noteq> INVALID_PID" "\<not> Dispatcher_hasProcess (k_machine k) (cfg_id config)"
    by blast
  then show ?thesis
  proof cases
    case empty
    then show ?thesis using i e by (auto simp: Kernel_createProcess_def d)
  next
    case taken
    then have "k' = k" "r = Error AlreadyExists" using e by (simp_all add: Kernel_createProcess_def d)
    then show ?thesis using i taken by (simp add: hp)
  next
    case free
    then have "create_as iter k config (cfg_id config) = (k', r)" using e by (simp add: Kernel_createProcess_def d)
    note v = create_as_view [OF i ok free(3,2) this]
    show ?thesis using v free mx by (cases r) (auto simp: hp)
  next
    case auto
    obtain k1 pid where a: "allocatePid k = (k1, pid)" by fastforce
    note al = allocatePid_view [OF a d(5)]
    have k1: "kernel_inv k1" "k_machine k1 = k_machine k" using kernel_inv_nextPid [OF i, of "k_nextPid k1"] al(1)
      by (metis, metis kernel.select_convs(2) kernel.surjective kernel.update_convs(6))
    have fresh: "pid \<noteq> INVALID_PID" if "Kernel_processCount k < MAX_PROCESSES"
    proof -
      have "finite (dom (m_images (k_machine k)))" using machine_images_finite [OF d(1)] .
      then show ?thesis using allocatePid_fresh [of "dom (m_images (k_machine k))" MAX_PROCESSES "k_nextPid k"] that al(2)
        by (simp add: Kernel_processCount_def d Dispatcher_processCount_def MAX_PROCESSES_def)
    qed
    show ?thesis
    proof (cases "pid = INVALID_PID")
      case True
      then have "k' = k1" "r = Error OutOfMemory" using e auto a by (simp_all add: Kernel_createProcess_def d)
      then show ?thesis using k1 fresh True auto by auto
    next
      case False
      then have c: "create_as iter k1 config pid = (k', r)" using e auto a by (simp add: Kernel_createProcess_def d)
      have nt: "\<not> Dispatcher_hasProcess (k_machine k1) pid"
        using allocatePid_not_taken [OF al(2) [symmetric] False] k1 by (auto simp: Dispatcher_hasProcess_def)
      note v = create_as_view [OF k1(1) ok nt False c]
      show ?thesis using v k1(2) auto mx nt False by (cases r) (auto simp: hp)
    qed
  qed
qed


lemma prune_live:
  assumes "dom (m_images (k_machine k)) \<subseteq> k_processRefs k" "dep_dispatcher (k_deps k)"
  shows "pruneDeadProcessRefs k = k\<lparr>k_processRefs := dom (m_images (k_machine k))\<rparr>"
proof -
  have "{pid \<in> k_processRefs k. processExists k pid} = dom (m_images (k_machine k))"
    using assms by (auto simp: processExists_def Dispatcher_hasProcess_def)
  then show ?thesis by (simp add: pruneDeadProcessRefs_def)
qed

lemma tick_view:
  assumes i: "kernel_inv k"
  shows "Kernel_tick k n = (let (m, r) = Dispatcher_dispatch (k_machine k) (tick_budget k n) in (k\<lparr>k_machine := m, k_processRefs := dom (m_images m)\<rparr>, r))"
    "kernel_inv (fst (Kernel_tick k n))" "0 < tick_budget k n"
proof -
  note d = kernel_invD [OF i]
  obtain m r where m: "Dispatcher_dispatch (k_machine k) (tick_budget k n) = (m, r)" by fastforce
  have "pruneDeadProcessRefs (k\<lparr>k_machine := m\<rparr>) = k\<lparr>k_machine := m, k_processRefs := dom (m_images m)\<rparr>"
    using prune_live [of "k\<lparr>k_machine := m\<rparr>"] dispatch_images [OF d(1) m] d by simp
  then show e: "Kernel_tick k n = (let (m, r) = Dispatcher_dispatch (k_machine k) (tick_budget k n) in (k\<lparr>k_machine := m, k_processRefs := dom (m_images m)\<rparr>, r))"
    by (simp add: Kernel_tick_def d m)
  show "kernel_inv (fst (Kernel_tick k n))"
    using kernel_inv_machine [OF i, of m] dispatch_view [OF d(1) m, THEN conjunct1] by (simp add: e m)
  show "0 < tick_budget k n" by (simp add: tick_budget_def Let_def)
qed

lemma terminate_kernel:
  assumes i: "kernel_inv k" and e: "Kernel_terminateProcess k pid = (k', r)"
  shows "kernel_inv k' \<and> r = (if Kernel_hasProcess k pid then Ok () else Error NotFound)
    \<and> m_images (k_machine k') = (m_images (k_machine k))(pid := None)"
proof -
  note d = kernel_invD [OF i]
  obtain m t where t: "Dispatcher_terminateProcess (k_machine k) pid (Clock_now (m_clock (k_machine k))) = (m, t)" by fastforce
  note v = terminateProcess_view [OF d(1) t]
  have mi: "machine_inv m" and im: "m_images m = (m_images (k_machine k))(pid := None)" using v by auto
  show ?thesis
  proof (cases "Dispatcher_hasProcess (k_machine k) pid")
    case True
    then have f: "k' = k\<lparr>k_machine := m, k_processRefs := k_processRefs k - {pid}\<rparr>" "r = Ok ()"
      using e t v by (simp_all add: Kernel_terminateProcess_def d)
    then have "kernel_inv k'" using kernel_inv_machine [OF i mi] im d(2) by simp
    then show ?thesis using f im True d by (simp add: Kernel_hasProcess_def)
  next
    case False
    then have f: "k' = k\<lparr>k_machine := m\<rparr>" "r = Error NotFound"
      using e t v by (simp_all add: Kernel_terminateProcess_def d)
    have same: "m_images m = m_images (k_machine k)" using im False by (auto simp: Dispatcher_hasProcess_def)
    then show ?thesis using f kernel_inv_same [OF i mi] False im d by (simp add: Kernel_hasProcess_def)
  qed
qed

section \<open>Runs of the kernel\<close>

datatype kernel_op =
    CreateK "nat \<Rightarrow> frame_id set \<Rightarrow> frame_id list" process_config
  | TerminateK process_id
  | TickK nat
  | RunK nat nat
  | SyscallK process_id syscall_id "register_value list"
  | RegisterSyscallK syscall_id "handler_fn option"
  | RegisterSyncK string "sync_primitive option"
  | EnterK process_id string
  | LeaveK process_id string

fun kernel_exec :: "kernel_op \<Rightarrow> kernel \<Rightarrow> kernel" where
  "kernel_exec (CreateK iter config) k = fst (Kernel_createProcess iter k config)"
| "kernel_exec (TerminateK pid) k = fst (Kernel_terminateProcess k pid)"
| "kernel_exec (TickK n) k = fst (Kernel_tick k n)"
| "kernel_exec (RunK cycles n) k = fst (Kernel_runForTicks k cycles n)"
| "kernel_exec (SyscallK pid i args) k = fst (Kernel_syscall k pid i args)"
| "kernel_exec (RegisterSyscallK i h) k = fst (Kernel_registerSyscallHandler k i h)"
| "kernel_exec (RegisterSyncK name p) k = fst (Kernel_registerSyncPrimitive k name p)"
| "kernel_exec (EnterK pid name) k = fst (Kernel_enterCritical k pid name)"
| "kernel_exec (LeaveK pid name) k = fst (Kernel_leaveCritical k pid name)"

text \<open>
  What the client promises: programs fit into the 32-bit address space, the primitives it registers are in a valid
  state, and system call handlers do not change the id or the scheduling state of their caller.
\<close>

fun kernel_op_ok :: "kernel_op \<Rightarrow> bool" where
  "kernel_op_ok (CreateK iter config) \<longleftrightarrow> (\<forall>n. iter_ok (iter n)) \<and> length (cfg_code config) \<le> 2 ^ 32"
| "kernel_op_ok (RegisterSyscallK i h) \<longleftrightarrow> (\<forall>f. h = Some f \<longrightarrow> (\<forall>args im.
     pcb_id (im_pcb (fst (f args im))) = pcb_id (im_pcb im) \<and> pcb_state (im_pcb (fst (f args im))) = pcb_state (im_pcb im)))"
| "kernel_op_ok (RegisterSyncK name p) \<longleftrightarrow> (\<forall>s. p = Some s \<longrightarrow> sync_inv s)"
| "kernel_op_ok _ \<longleftrightarrow> True"

lemma runForTicks_inv: "kernel_inv k \<Longrightarrow> kernel_inv (fst (runForTicks_loop cycles done k n))"
proof (induction cycles arbitrary: "done" k)
  case (Suc c)
  obtain k1 r where t: "Kernel_tick k n = (k1, r)" by fastforce
  then have "kernel_inv k1" using tick_view(2) [OF Suc.prems, of n] by simp
  then show ?case using Suc.IH t by (simp split: result.splits)
qed simp

lemma syscall_inv:
  assumes i: "kernel_inv k"
  shows "kernel_inv (fst (Kernel_syscall k pid n args))"
proof (cases "m_images (k_machine k) pid")
  case None
  then show ?thesis using i by (auto simp: Kernel_syscall_def kernel_inv_def Dispatcher_hasProcess_def)
next
  case (Some im)
  obtain im' r where s: "SyscallTable_dispatch (k_syscallTable k) n args im = (im', r)" by fastforce
  note d = kernel_invD [OF i]
  have "pcb_id (im_pcb im') = pcb_id (im_pcb im)" "pcb_state (im_pcb im') = pcb_state (im_pcb im)"
    using i s by (auto simp: kernel_inv_def SyscallTable_dispatch_def split: option.splits) (metis fst_conv)+
  note m = machine_inv_image [OF d(1) Some this]
  have "dom (m_images (k_machine k)) = insert pid (dom (m_images (k_machine k)))" using Some by auto
  moreover have "fst (Kernel_syscall k pid n args) = k\<lparr>k_machine := (k_machine k)\<lparr>m_images := (m_images (k_machine k))(pid \<mapsto> im')\<rparr>\<rparr>"
    using Some s d by (auto simp: Kernel_syscall_def Dispatcher_hasProcess_def)
  ultimately show ?thesis using i m by (simp add: kernel_inv_def)
qed

lemma critical_inv:
  assumes i: "kernel_inv k"
  shows "kernel_inv (fst (Kernel_enterCritical k pid name))" "kernel_inv (fst (Kernel_leaveCritical k pid name))"
proof -
  have s: "sync_inv p" if "k_syncPrimitives k name = Some p" for p using i that by (auto simp: kernel_inv_def)
  show "kernel_inv (fst (Kernel_enterCritical k pid name))"
    using i s kernel_inv_sync [OF i sync.inv_acq] by (auto simp: Kernel_enterCritical_def split: option.splits prod.splits) (metis fst_conv)
  show "kernel_inv (fst (Kernel_leaveCritical k pid name))"
    using i s kernel_inv_sync [OF i sync.inv_rel] by (auto simp: Kernel_leaveCritical_def split: option.splits prod.splits) (metis fst_conv)
qed

lemma register_kernel_inv:
  assumes "kernel_inv k"
  shows "kernel_op_ok (RegisterSyscallK n h) \<Longrightarrow> kernel_inv (fst (Kernel_registerSyscallHandler k n h))"
    "kernel_op_ok (RegisterSyncK name p) \<Longrightarrow> kernel_inv (fst (Kernel_registerSyncPrimitive k name p))"
proof -
  assume "kernel_op_ok (RegisterSyscallK n h)"
  then show "kernel_inv (fst (Kernel_registerSyscallHandler k n h))" using assms
    by (cases h) (simp_all add: Kernel_registerSyscallHandler_def SyscallTable_registerHandler_def kernel_inv_def)
next
  assume "kernel_op_ok (RegisterSyncK name p)"
  then show "kernel_inv (fst (Kernel_registerSyncPrimitive k name p))" using assms kernel_inv_sync [OF assms]
    by (cases p) (simp_all add: Kernel_registerSyncPrimitive_def)
qed

lemma kernel_exec_inv: "kernel_inv k \<Longrightarrow> kernel_op_ok oper \<Longrightarrow> kernel_inv (kernel_exec oper k)"
  using createProcess_kernel [of k _ _, OF _ _ _ prod.collapse [symmetric]] terminate_kernel [of k, OF _ prod.collapse [symmetric]]
    tick_view(2) [of k] syscall_inv [of k] critical_inv [of k] register_kernel_inv [of k]
  by (cases oper) (simp_all add: Kernel_runForTicks_def runForTicks_inv)

lemma kernel_run_inv: "kernel_inv k \<Longrightarrow> \<forall>oper \<in> set ops. kernel_op_ok oper \<Longrightarrow> kernel_inv (fold kernel_exec ops k)"
  by (induction ops arbitrary: k) (simp_all add: kernel_exec_inv)

lemma kernel_built_inv:
  assumes "machine_inv m" "m_images m = Map.empty" "snd (KernelBuilder_build d m SyscallTable_new) = Ok k"
  shows "kernel_inv k"
  using assms by (auto simp: KernelBuilder_build_def Kernel_new_def kernel_inv_def SyscallTable_new_def split: if_splits)

section \<open>What a snapshot shows\<close>


lemma assign_lane_apply: "assign_lane (l, q) m p = (if p \<in> set q then Some l else m p)"
proof -
  have "fold (\<lambda>pid m. m(pid \<mapsto> l)) q m p = (if p \<in> set q then Some l else m p)" by (induction q arbitrary: m) auto
  then show ?thesis by (simp add: assign_lane_def)
qed

lemma assign_lanes_cases:
  "(\<exists>l < length qs. p \<in> set (qs ! l) \<and> fold assign_lane (enumerate n qs) m p = Some (n + l))
    \<or> (\<forall>q \<in> set qs. p \<notin> set q) \<and> fold assign_lane (enumerate n qs) m p = m p"
proof (induction qs arbitrary: n m)
  case (Cons q qs)
  let ?m = "assign_lane (n, q) m"
  from Cons [of "Suc n" ?m] show ?case
  proof
    assume "\<exists>l < length qs. p \<in> set (qs ! l) \<and> fold assign_lane (enumerate (Suc n) qs) ?m p = Some (Suc n + l)"
    then obtain l where "l < length qs" "p \<in> set (qs ! l)" "fold assign_lane (enumerate (Suc n) qs) ?m p = Some (Suc n + l)" by blast
    then show ?thesis by (intro disjI1 exI [of _ "Suc l"]) simp
  next
    assume "(\<forall>q \<in> set qs. p \<notin> set q) \<and> fold assign_lane (enumerate (Suc n) qs) ?m p = ?m p"
    then show ?thesis by (cases "p \<in> set q") (auto simp: assign_lane_apply intro!: exI [of _ 0])
  qed
qed simp

lemma laneByPid_iff:
  assumes "sched_inv sch store"
  shows "laneByPid (readyByLane sch) p = Some l \<longleftrightarrow> l < length (readyByLane sch) \<and> p \<in> set (readyByLane sch ! l)"
  using assign_lanes_cases [of "readyByLane sch" p 0 Map.empty] inv_not_both(4) [OF assms]
  unfolding laneByPid_def by auto

lemma those_map_Some: "those (map (\<lambda>x. Some (f x)) xs) = Some (map f xs)"
  by (induction xs) simp_all

lemma process_rows_live:
  assumes "k_processRefs k = dom (m_images (k_machine k))" "finite (dom (m_images (k_machine k)))"
  shows "process_rows k = Some (map (\<lambda>pid. process_row (laneByPid (readyByLane (m_sched (k_machine k)))) pid (the (m_images (k_machine k) pid)))
      (sorted_list_of_set (dom (m_images (k_machine k)))))"
proof -
  let ?r = "\<lambda>pid. process_row (laneByPid (readyByLane (m_sched (k_machine k)))) pid"
  have "map (\<lambda>pid. map_option (?r pid) (m_images (k_machine k) pid)) (sorted_list_of_set (dom (m_images (k_machine k))))
      = map (\<lambda>pid. Some (?r pid (the (m_images (k_machine k) pid)))) (sorted_list_of_set (dom (m_images (k_machine k))))"
    by (rule map_cong) (use assms(2) in auto)
  then show ?thesis unfolding process_rows_def assms(1) Scheduler_getPerLaneQueueSnapshot_def by (simp only: those_map_Some)
qed

lemma snapshot_defined: "process_rows k = Some rows \<Longrightarrow> \<exists>s. Kernel_snapshot k = Some s"
  by (simp add: Kernel_snapshot_def scheduler_part_def Let_def)

lemma snapshot_fields:
  assumes i: "kernel_inv k" and s: "Kernel_snapshot k = Some s"
  shows "process_rows k = Some (ks_processes s)" "ks_processCount s = Dispatcher_processCount (k_machine k)"
    "ks_readyQueue s = Scheduler_getQueueSnapshot (m_sched (k_machine k))" "ks_readyCount s = length (ks_readyQueue s)"
    "ks_blockedQueue s = Scheduler_getBlockedSnapshot (m_sched (k_machine k))" "ks_blockedCount s = length (ks_blockedQueue s)"
    "ks_runningPids s = Scheduler_runningProcesses (m_sched (k_machine k))" "ks_perLaneReadyQueues s = readyByLane (m_sched (k_machine k))"
    "ks_currentTick s = Kernel_now k"
    "ks_totalVirtualSlots s = VirtualMemory_totalSlots (m_vm (k_machine k))" "ks_freeVirtualSlots s = VirtualMemory_freeSlots (m_vm (k_machine k))"
  using s by (auto simp: Kernel_snapshot_def scheduler_part_def kernel_invD [OF i] Let_def Kernel_now_def
      empty_snapshot_def Scheduler_getPerLaneQueueSnapshot_def)

lemma kernel_inv_snapshot:
  assumes i: "kernel_inv k"
  shows "\<exists>s. Kernel_snapshot k = Some s
    \<and> map row_id (ks_processes s) = sorted_list_of_set {pid. Kernel_hasProcess k pid}
    \<and> (\<forall>r \<in> set (ks_processes s). row_state r = pcb_state (store_of (m_images (k_machine k)) (row_id r))
        \<and> (\<forall>l. row_laneIndex r = Some l \<longleftrightarrow> l < length (ks_perLaneReadyQueues s) \<and> row_id r \<in> set (ks_perLaneReadyQueues s ! l)))
    \<and> ks_readyCount s + length (ks_runningPids s) + ks_blockedCount s = ks_processCount s
    \<and> ks_processCount s = length (ks_processes s)
    \<and> ks_totalVirtualSlots s - ks_freeVirtualSlots s = ks_processCount s"
proof -
  note d = kernel_invD [OF i] and md = machine_invD [OF kernel_invD(1) [OF i]]
  have fin: "finite (dom (m_images (k_machine k)))" by (rule machine_images_finite [OF d(1)])
  have live: "{pid. Kernel_hasProcess k pid} = dom (m_images (k_machine k))"
    by (auto simp: Kernel_hasProcess_def Dispatcher_hasProcess_def d)
  note rows = process_rows_live [OF d(2) fin]
  then obtain s where s: "Kernel_snapshot k = Some s" using snapshot_defined by blast
  note f = snapshot_fields [OF i s]
  let ?sch = "m_sched (k_machine k)"
  let ?all = "Scheduler_getQueueSnapshot ?sch @ Scheduler_runningProcesses ?sch @ Scheduler_getBlockedSnapshot ?sch"
  have "length ?all = card (set ?all)" using distinct_card [OF sched_inv_queued_once [OF md(1)]] by simp
  also have "set ?all = dom (m_images (k_machine k))" using snapshots_queued [OF md(1)] md(2,3) by simp
  finally have count: "length ?all = ks_processCount s" using f(2) by (simp add: Dispatcher_processCount_def)
  have slots: "ks_totalVirtualSlots s - ks_freeVirtualSlots s = ks_processCount s"
    using md(4,5) f by (auto simp: vm_inv_def VirtualMemory_totalSlots_def VirtualMemory_freeSlots_def Dispatcher_processCount_def)
  have ps: "ks_processes s = map (\<lambda>pid. process_row (laneByPid (readyByLane ?sch)) pid (the (m_images (k_machine k) pid)))
      (sorted_list_of_set (dom (m_images (k_machine k))))" using rows f(1) by simp
  have "\<forall>r \<in> set (ks_processes s). row_state r = pcb_state (store_of (m_images (k_machine k)) (row_id r))
        \<and> (\<forall>l. row_laneIndex r = Some l \<longleftrightarrow> l < length (ks_perLaneReadyQueues s) \<and> row_id r \<in> set (ks_perLaneReadyQueues s ! l))"
    using fin laneByPid_iff [OF md(1)] by (auto simp: ps f(8) process_row_def store_of_def)
  then show ?thesis using s ps count slots f(3-7) live fin
    by (intro exI [of _ s]) (auto simp: process_row_def comp_def f(2) Dispatcher_processCount_def)
qed



text \<open>A built kernel on the two-cell machine, and a process that halts at once.\<close>

definition demo_deps :: kernel_dependencies where
  "demo_deps = fold builder_with
     [WithClock True, WithMemory True, WithMmu True, WithVirtualMemory True, WithCpu True, WithExecutionEngine True,
      WithScheduler True, WithDispatcher True, WithTracer True, WithFileSystem True, WithIpcManager True,
      WithSyscallTable True, WithDefaultTickBudget 4] KernelBuilder_new"

definition demo_kernel :: kernel where
  "demo_kernel = Kernel_new demo_deps demo_machine SyscallTable_new"

definition halt_config :: process_config where
  "halt_config = \<lparr>cfg_id = 0, cfg_name = '''', cfg_code = [Block Halt 0 0 0], cfg_priority = Priority_default, cfg_arrivalTime = 0\<rparr>"

lemma demo_build: "snd (KernelBuilder_build demo_deps demo_machine SyscallTable_new) = Ok demo_kernel"
  by (simp add: KernelBuilder_build_def demo_deps_def KernelBuilder_new_def hasAllRequiredDependencies_def demo_kernel_def)

lemma demo_images: "m_images demo_machine = Map.empty"
  by (simp add: demo_machine_def machine_new_def)

lemma demo_kernel_inv: "kernel_inv demo_kernel"
  by (rule kernel_built_inv [OF demo_machine_inv demo_images demo_build])

lemma demo_create_ok: "kernel_op_ok (CreateK (\<lambda>_. sorted_list_of_set) halt_config)"
  by (simp add: iter_ok_sorted halt_config_def)

lemma demo_kernel_created:
  obtains pid im where "snd (Kernel_createProcess (\<lambda>_. sorted_list_of_set) demo_kernel halt_config) = Ok pid"
    "m_images (k_machine (kernel_exec (CreateK (\<lambda>_. sorted_list_of_set) halt_config) demo_kernel)) = [pid \<mapsto> im]"
    "im_code im = [Block Halt 0 0 0]" "im_registers im = RegisterFile_new" "pcb_state (im_pcb im) = Ready"
proof -
  obtain k r where e: "Kernel_createProcess (\<lambda>_. sorted_list_of_set) demo_kernel halt_config = (k, r)" by fastforce
  note d = kernel_invD [OF demo_kernel_inv]
  have m: "k_machine demo_kernel = demo_machine" by (simp add: demo_kernel_def Kernel_new_def)
  have c: "Kernel_processCount demo_kernel < MAX_PROCESSES"
    by (simp add: Kernel_processCount_def d m Dispatcher_processCount_def demo_images MAX_PROCESSES_def)
  note v = createProcess_kernel [OF demo_kernel_inv _ _ e]
  have "isOk r" using v c demo_free by (simp add: m iter_ok_sorted halt_config_def INVALID_PID_def)
  then obtain pid where r: "r = Ok pid" by (cases r) auto
  have "\<exists>im. m_images (k_machine k) = (m_images (k_machine demo_kernel))(pid \<mapsto> im) \<and> im_code im = cfg_code halt_config
      \<and> im_registers im = RegisterFile_new \<and> pcb_state (im_pcb im) = Ready"
    using v r by (simp add: iter_ok_sorted halt_config_def)
  then obtain im where "m_images (k_machine k) = [pid \<mapsto> im]" "im_code im = [Block Halt 0 0 0]"
    "im_registers im = RegisterFile_new" "pcb_state (im_pcb im) = Ready"
    by (auto simp: m demo_images halt_config_def)
  then show thesis using that e r by simp
qed


section \<open>Creation and the ids it hands out\<close>

text \<open>
  C22: Creating a process through the kernel. The call is refused for an empty program and for an id in use; when a
  program that fits is created with no id requested while fewer than \<^verbatim>\<open>MAX_PROCESSES\<close> processes exist, or under a free id,
  it succeeds, given a free memory slot and enough free frames. The id it returns is valid, was not in use, and is the
  requested one if there was one (the id counter wraps around at 32 bits and skips the invalid id), and exactly
  that process is added, ready, with the given code and cleared registers. A refused creation changes no process.
\<close>

theorem kernel_create:
  assumes "kernel_inv k" "\<forall>n. iter_ok (iter n)" "length (cfg_code config) \<le> 2 ^ 32"
    and "Kernel_createProcess iter k config = (k', r)"
  shows "kernel_inv k'
    \<and> (\<forall>pid. r = Ok pid \<longrightarrow> pid \<noteq> INVALID_PID \<and> \<not> Kernel_hasProcess k pid \<and> (cfg_id config = INVALID_PID \<or> pid = cfg_id config)
        \<and> (\<exists>im. m_images (k_machine k') = (m_images (k_machine k))(pid \<mapsto> im) \<and> im_code im = cfg_code config \<and> im_registers im = RegisterFile_new \<and> pcb_state (im_pcb im) = Ready))
    \<and> (isError r \<longrightarrow> m_images (k_machine k') = m_images (k_machine k))
    \<and> (cfg_code config = [] \<longrightarrow> r = Error InvalidArgument)
    \<and> (cfg_code config \<noteq> [] \<and> cfg_id config \<noteq> INVALID_PID \<and> Kernel_hasProcess k (cfg_id config) \<longrightarrow> r = Error AlreadyExists)
    \<and> (cfg_code config \<noteq> [] \<and> 0 < VirtualMemory_freeSlots (m_vm (k_machine k)) \<and> length (cfg_code config) \<le> Mmu_freeFrames (m_mmu (k_machine k))
        \<and> (if cfg_id config = INVALID_PID then Kernel_processCount k < MAX_PROCESSES else \<not> Kernel_hasProcess k (cfg_id config))
       \<longrightarrow> isOk r)"
  by (rule createProcess_kernel [OF assms])

theorem kernel_create_witness:
  "isOk (snd (Kernel_createProcess (\<lambda>_. sorted_list_of_set) (demo_kernel\<lparr>k_nextPid := 0\<rparr>) halt_config))"
proof -
  let ?k = "demo_kernel\<lparr>k_nextPid := 0\<rparr>"
  have i: "kernel_inv ?k" by (rule kernel_inv_nextPid [OF demo_kernel_inv])
  have m: "k_machine ?k = demo_machine" by (simp add: demo_kernel_def Kernel_new_def)
  have "Kernel_processCount ?k < MAX_PROCESSES"
    by (simp add: Kernel_processCount_def m Dispatcher_processCount_def demo_images MAX_PROCESSES_def)
  then show ?thesis using kernel_create [OF i _ _ prod.collapse [symmetric], of "\<lambda>_. sorted_list_of_set" halt_config] demo_free
    by (simp only: m) (simp add: iter_ok_sorted halt_config_def INVALID_PID_def)
qed

section \<open>Blocked processes\<close>

lemma blocked_iff:
  assumes i: "machine_inv m"
  shows "pid \<in> set (sch_blocked (m_sched m)) \<longleftrightarrow> (\<exists>im. m_images m pid = Some im \<and> pcb_state (im_pcb im) = Blocked)"
proof
  note d = machine_invD [OF i]
  assume "pid \<in> set (sch_blocked (m_sched m))"
  then have "pid \<in> dom (m_images m)" "pcb_state (store_of (m_images m) pid) = Blocked" using sched_invD(9) [OF d(1)] d(3) by auto
  then show "\<exists>im. m_images m pid = Some im \<and> pcb_state (im_pcb im) = Blocked" by (auto simp: store_of_def)
next
  note d = machine_invD [OF i]
  assume "\<exists>im. m_images m pid = Some im \<and> pcb_state (im_pcb im) = Blocked"
  then have q: "pid \<in> queued (m_sched m)" "pcb_state (store_of (m_images m) pid) = Blocked" using d(2,3) by (auto simp: store_of_def)
  have "pid \<notin> on_lane (m_sched m) l" if "l < length (readyByLane (m_sched m))" for l
    using sched_invD(6,7) [OF d(1) that] q(2) by (force simp: on_lane_def elem_set)
  then show "pid \<in> set (sch_blocked (m_sched m))" using q(1) by (auto simp: queued_def)
qed

definition waiting :: "kernel \<Rightarrow> process_id \<Rightarrow> bool" where
  "waiting k pid \<longleftrightarrow> (\<exists>im. m_images (k_machine k) pid = Some im \<and> pcb_state (im_pcb im) = Blocked)"

lemma tick_waiting: "kernel_inv k \<Longrightarrow> waiting k pid \<Longrightarrow> waiting (fst (Kernel_tick k n)) pid"
  using dispatch_images [OF kernel_invD(1) prod.collapse [symmetric], of k "tick_budget k n"]
  by (auto simp: waiting_def tick_view(1) split: prod.splits)

lemma run_waiting: "kernel_inv k \<Longrightarrow> waiting k pid \<Longrightarrow> waiting (fst (runForTicks_loop cycles done k n)) pid"
proof (induction cycles arbitrary: "done" k)
  case (Suc c)
  obtain k1 r where t: "Kernel_tick k n = (k1, r)" by fastforce
  then have "kernel_inv k1" "waiting k1 pid"
    using tick_view(2) [OF Suc.prems(1), of n] tick_waiting [OF Suc.prems, of n] by simp_all
  then show ?case using Suc.IH t by (simp split: result.splits)
qed simp

lemma syscall_waiting:
  assumes i: "kernel_inv k" and w: "waiting k pid"
  shows "waiting (fst (Kernel_syscall k q n args)) pid"
  using w i unfolding Kernel_syscall_def waiting_def kernel_inv_def SyscallTable_dispatch_def
  by (auto split: option.splits prod.splits) (metis fst_conv)+

lemma exec_waiting:
  assumes i: "kernel_inv k" and ok: "kernel_op_ok oper" and w: "waiting k pid" and ne: "oper \<noteq> TerminateK pid"
  shows "waiting (kernel_exec oper k) pid"
proof (cases oper)
  case (CreateK iter config)
  obtain k' r where e: "Kernel_createProcess iter k config = (k', r)" by fastforce
  note v = createProcess_kernel [OF i _ _ e]
  show ?thesis
  proof (cases r)
    case (Ok q)
    then have "q \<noteq> pid" using v ok w CreateK i by (auto simp: waiting_def Kernel_hasProcess_def Dispatcher_hasProcess_def kernel_invD)
    then show ?thesis using v ok w CreateK e Ok by (auto simp: waiting_def)
  next
    case (Error x)
    then show ?thesis using v ok w CreateK e by (simp add: waiting_def)
  qed
next
  case (TerminateK q)
  then show ?thesis using terminate_kernel [OF i prod.collapse [symmetric], of q] w ne by (simp add: waiting_def)
qed (use i w tick_waiting run_waiting syscall_waiting in
      \<open>auto simp: Kernel_runForTicks_def Kernel_registerSyscallHandler_def Kernel_registerSyncPrimitive_def Kernel_enterCritical_def
        Kernel_leaveCritical_def waiting_def split: option.splits prod.splits\<close>)



lemma demo_blocked:
  obtains k where "kernel_inv k" "1 \<in> set (Scheduler_getBlockedSnapshot (m_sched (k_machine k)))"
proof -
  obtain d r where e: "Dispatcher_createProcess (\<lambda>_. sorted_list_of_set) demo_machine (Some (halt_image 1)) 0 = (d, r)" by fastforce
  note v = createProcess_view [OF demo_machine_inv _ _ _ e]
  have ok: "r = Ok ()" using v demo_images demo_free by (simp add: iter_ok_sorted INVALID_PID_def)
  have i: "machine_inv d" using v by (simp add: iter_ok_sorted)
  obtain im where im: "m_images d = [1 \<mapsto> im]" using v ok demo_images by (auto simp: iter_ok_sorted)
  have rd: "readyByLane (m_sched d) ! 0 = readyByLane (m_sched demo_machine) ! 0 @ [1]"
    using v ok sched_invD(1) [OF machine_invD(1) [OF demo_machine_inv]] by (simp add: iter_ok_sorted)
  have pol: "sch_policy (m_sched d) = Some (RoundRobinPolicy 4)"
    using createProcess_frame(2) [OF e [unfolded ok]] by (simp add: demo_machine_def machine_new_def Scheduler_new_def)
  have "snd (Scheduler_selectNext (m_sched d) (store_of (m_images d)) 0) = Ok 1"
    by (rule select_only [OF i _ rd pol]) (simp add: im)
  then obtain sch store where s: "Scheduler_selectNext (m_sched d) (store_of (m_images d)) 0 = ((sch, store), Ok 1)"
    by (metis prod.collapse)
  define d1 where "d1 = d\<lparr>m_sched := sch, m_images := commit (m_images d) store\<rparr>"
  obtain im1 where s1: "machine_inv d1" "Some 1 \<in> set (runningByLane (m_sched d1))" "m_images d1 1 = Some im1"
    using select_machine [OF i s] by (auto simp: d1_def)
  obtain d2 r2 where p: "dispatch_stop d1 1 Interrupted = (d2, r2)" by fastforce
  note w = dispatch_stop_view [OF s1 p]
  define k where "k = demo_kernel\<lparr>k_machine := d2, k_processRefs := dom (m_images d2)\<rparr>"
  have "kernel_inv k" unfolding k_def by (rule kernel_inv_machine [OF demo_kernel_inv]) (use w in simp_all)
  then show thesis using that w by (simp add: k_def Scheduler_getBlockedSnapshot_def)
qed


section \<open>Running the kernel\<close>


text \<open>The kernel after a number of ticks.\<close>

fun kernel_ticks :: "nat \<Rightarrow> nat \<Rightarrow> kernel \<Rightarrow> kernel" where
  "kernel_ticks n 0 k = k"
| "kernel_ticks n (Suc i) k = kernel_ticks n i (fst (Kernel_tick k n))"

text \<open>How a run ended that made \<open>m\<close> successful ticks, where \<open>b\<close> tells whether there were successful ticks before.\<close>

definition run_result :: "nat \<Rightarrow> bool \<Rightarrow> kernel \<Rightarrow> nat \<Rightarrow> nat \<Rightarrow> kernel \<times> unit result \<Rightarrow> bool" where
  "run_result cycles b k n m out \<longleftrightarrow> m \<le> cycles \<and> (\<forall>i < m. snd (Kernel_tick (kernel_ticks n i k) n) = Ok ())
     \<and> (if m = cycles then out = (kernel_ticks n m k, Ok ())
        else \<exists>e. snd (Kernel_tick (kernel_ticks n m k) n) = Error e
          \<and> out = (kernel_ticks n (Suc m) k, if e = NotFound \<and> (b \<or> 0 < m) then Ok () else Error e))"

lemma runForTicks_loop_result: "\<exists>m. run_result cycles b k n m (runForTicks_loop cycles b k n)"
proof (induction cycles arbitrary: b k)
  case 0
  show ?case by (rule exI [of _ 0]) (simp add: run_result_def)
next
  case (Suc c)
  obtain k1 t where t: "Kernel_tick k n = (k1, t)" by fastforce
  show ?case
  proof (cases t)
    case (Error e)
    then show ?thesis by (intro exI [of _ 0]) (auto simp: run_result_def t)
  next
    case (Ok u)
    obtain m where m: "run_result c True k1 n m (runForTicks_loop c True k1 n)" using Suc.IH by blast
    have "snd (Kernel_tick (kernel_ticks n i k) n) = Ok ()" if "i < Suc m" for i
      using that m t Ok by (cases i) (auto simp: run_result_def)
    then have "run_result (Suc c) b k n (Suc m) (runForTicks_loop (Suc c) b k n)"
      using m t Ok unfolding run_result_def by (cases "m = c") (auto split: if_splits)
    then show ?thesis by blast
  qed
qed

text \<open>
  \<^verbatim>\<open>runForTicks\<close> ticks until it has done the requested cycles or a tick fails. With \<open>m\<close> ticks done before the first
  failure it reports success when all cycles were done, and also when the failure was an empty queue and some tick
  had succeeded before; any other failure, and an empty queue from the first tick on, is reported. Every tick has a
  budget of at least one step.
\<close>

theorem kernel_run:
  "0 < tick_budget k n \<and> (\<exists>m \<le> cycles. (\<forall>i < m. snd (Kernel_tick (kernel_ticks n i k) n) = Ok ())
     \<and> (if m = cycles then Kernel_runForTicks k cycles n = (kernel_ticks n m k, Ok ())
        else \<exists>e. snd (Kernel_tick (kernel_ticks n m k) n) = Error e
          \<and> Kernel_runForTicks k cycles n = (kernel_ticks n (Suc m) k, if e = NotFound \<and> 0 < m then Ok () else Error e)))"
proof -
  obtain m where "run_result cycles False k n m (Kernel_runForTicks k cycles n)"
    using runForTicks_loop_result unfolding Kernel_runForTicks_def by blast
  moreover have "0 < tick_budget k n" by (simp add: tick_budget_def Let_def)
  ultimately show ?thesis unfolding run_result_def by (simp only: simp_thms) blast
qed

theorem kernel_run_witness: "snd (Kernel_runForTicks demo_kernel 3 0) = Error NotFound"
proof -
  have e: "Kernel_tick demo_kernel 0 = (demo_kernel, Error NotFound)"
    by (simp add: Kernel_tick_def demo_kernel_def Kernel_new_def demo_deps_def KernelBuilder_new_def
        Dispatcher_dispatch_def demo_images pruneDeadProcessRefs_def)
  obtain m where m: "\<forall>i < m. snd (Kernel_tick (kernel_ticks 0 i demo_kernel) 0) = Ok ()"
    "if m = 3 then Kernel_runForTicks demo_kernel 3 0 = (kernel_ticks 0 m demo_kernel, Ok ())
     else \<exists>e. snd (Kernel_tick (kernel_ticks 0 m demo_kernel) 0) = Error e
       \<and> Kernel_runForTicks demo_kernel 3 0 = (kernel_ticks 0 (Suc m) demo_kernel, if e = NotFound \<and> 0 < m then Ok () else Error e)"
    using kernel_run [where k = demo_kernel and n = 0 and cycles = 3] by blast
  have "m = 0" using m(1) e by (cases m) auto
  then show ?thesis using m(2) e by auto
qed

end
