(* ===== verification/Tui.thy ===== *)
theory Tui
  imports Kernel
begin

text \<open>
  The model and controller of the text user interface: \<^verbatim>\<open>tui/tui_models.h\<close>, \<^verbatim>\<open>tui/tui_commands.h\<close>,
  \<^verbatim>\<open>tui/history_buffer.cpp\<close>, \<^verbatim>\<open>tui/kernel_read_model.cpp\<close> and \<^verbatim>\<open>tui/tui_controller.cpp\<close>. The controller calls a
  read model and a tick callback behind interfaces, so its operations take both as arguments, \<open>capture\<close> and \<open>tick\<close>, over
  a world \<open>'w\<close>; the interpretation at the end instantiates them with the kernel, as \<^verbatim>\<open>app/main.cpp\<close> does. The branches
  for an object that was moved from (\<^verbatim>\<open>impl_\<close> is null) are not modelled.
\<close>

section \<open>Snapshots\<close>

record tui_process_snapshot =
  tp_id :: process_id
  tp_name :: string
  tp_state :: process_state
  tp_basePriority :: priority_level
  tp_effectivePriority :: priority_level
  tp_nice :: "32 word"
  tp_cpuTime :: tick
  tp_laneIndex :: "nat option"

record tui_scheduler_snapshot =
  ts_readyQueue :: "process_id list"
  ts_blockedQueue :: "process_id list"
  ts_runningQueue :: "process_id list"
  ts_perLaneReadyQueues :: "process_id list list"
  ts_readyCount :: nat
  ts_blockedCount :: nat
  ts_policyName :: string

record tui_memory_snapshot =
  tm_totalVirtualSlots :: nat
  tm_freeVirtualSlots :: nat
  tm_totalFrames :: "nat option"
  tm_freeFrames :: "nat option"
  tm_frameOwners :: "process_id option list"

record tui_snapshot =
  snap_currentTick :: tick
  snap_processCount :: nat
  snap_processes :: "tui_process_snapshot list"
  snap_scheduler :: tui_scheduler_snapshot
  snap_memory :: tui_memory_snapshot
  snap_sequence :: "64 word"
  snap_epoch :: "64 word"

definition default_snapshot :: tui_snapshot where
  "default_snapshot =
     \<lparr>snap_currentTick = 0, snap_processCount = 0, snap_processes = [],
      snap_scheduler = \<lparr>ts_readyQueue = [], ts_blockedQueue = [], ts_runningQueue = [], ts_perLaneReadyQueues = [],
        ts_readyCount = 0, ts_blockedCount = 0, ts_policyName = []\<rparr>,
      snap_memory = \<lparr>tm_totalVirtualSlots = 0, tm_freeVirtualSlots = 0, tm_totalFrames = None, tm_freeFrames = None, tm_frameOwners = []\<rparr>,
      snap_sequence = 0, snap_epoch = 0\<rparr>"

record tui_history_entry =
  he_sequence :: nat
  he_snapshot :: tui_snapshot

section \<open>Commands\<close>

datatype tui_command_kind = Tick | AutoPlayStart | AutoPlayStop | Pause | SeekBackward | SeekForward

record tui_playback_config =
  pb_intervalMs :: "32 word"
  pb_step :: nat

record tui_command =
  cmd_kind :: tui_command_kind
  cmd_step :: nat
  cmd_intervalMs :: "32 word"

definition commandRequiresStep :: "tui_command_kind \<Rightarrow> bool" where
  "commandRequiresStep kind \<longleftrightarrow> kind = Tick \<or> kind = AutoPlayStart \<or> kind = SeekBackward \<or> kind = SeekForward"

definition commandRequiresInterval :: "tui_command_kind \<Rightarrow> bool" where
  "commandRequiresInterval kind \<longleftrightarrow> kind = AutoPlayStart"

definition validatePlaybackConfig :: "tui_playback_config \<Rightarrow> unit result" where
  "validatePlaybackConfig config = (if pb_step config = 0 \<or> pb_intervalMs config = 0 then Error InvalidArgument else Ok ())"

definition validateCommand :: "tui_command \<Rightarrow> unit result" where
  "validateCommand command =
     (if commandRequiresStep (cmd_kind command) \<and> cmd_step command = 0 then Error InvalidArgument
      else if commandRequiresInterval (cmd_kind command) \<and> cmd_intervalMs command = 0 then Error InvalidArgument
      else Ok ())"

definition playbackConfigFromCommand :: "tui_command \<Rightarrow> tui_playback_config" where
  "playbackConfigFromCommand command = \<lparr>pb_intervalMs = cmd_intervalMs command, pb_step = cmd_step command\<rparr>"

section \<open>The history buffer\<close>

record history_buffer =
  hb_capacity :: nat
  hb_entries :: "tui_history_entry list"
  hb_cursor :: nat

definition HistoryBuffer_new :: "nat \<Rightarrow> history_buffer" where
  "HistoryBuffer_new requested = \<lparr>hb_capacity = (if requested = 0 then 1 else requested), hb_entries = [], hb_cursor = 0\<rparr>"

definition HistoryBuffer_append :: "history_buffer \<Rightarrow> tui_history_entry \<Rightarrow> history_buffer \<times> unit result" where
  "HistoryBuffer_append h entry =
     (let h1 = (if length (hb_entries h) = hb_capacity h
                then h\<lparr>hb_entries := tl (hb_entries h), hb_cursor := (if hb_cursor h > 0 then hb_cursor h - 1 else hb_cursor h)\<rparr>
                else h);
          h2 = h1\<lparr>hb_entries := hb_entries h1 @ [entry]\<rparr>
      in (h2\<lparr>hb_cursor := (if hb_entries h2 = [] then 0 else length (hb_entries h2) - 1)\<rparr>, Ok ()))"

definition HistoryBuffer_seekBackward :: "history_buffer \<Rightarrow> nat \<Rightarrow> history_buffer \<times> unit result" where
  "HistoryBuffer_seekBackward h step =
     (if hb_entries h = [] then (h, Error NotFound)
      else if step > hb_cursor h then (h, Error NotFound)
      else (h\<lparr>hb_cursor := hb_cursor h - step\<rparr>, Ok ()))"

definition HistoryBuffer_seekForward :: "history_buffer \<Rightarrow> nat \<Rightarrow> history_buffer \<times> unit result" where
  "HistoryBuffer_seekForward h step =
     (if hb_entries h = [] then (h, Error NotFound)
      else if step > (length (hb_entries h) - 1) - hb_cursor h then (h, Error NotFound)
      else (h\<lparr>hb_cursor := hb_cursor h + step\<rparr>, Ok ()))"

definition HistoryBuffer_moveToLatest :: "history_buffer \<Rightarrow> history_buffer" where
  "HistoryBuffer_moveToLatest h = (if hb_entries h = [] then h else h\<lparr>hb_cursor := length (hb_entries h) - 1\<rparr>)"

definition HistoryBuffer_current :: "history_buffer \<Rightarrow> tui_history_entry option" where
  "HistoryBuffer_current h =
     (if hb_entries h = [] then None
      else Some (if hb_cursor h < length (hb_entries h) then hb_entries h ! hb_cursor h else undefined))"

definition HistoryBuffer_latest :: "history_buffer \<Rightarrow> tui_history_entry option" where
  "HistoryBuffer_latest h = (if hb_entries h = [] then None else Some (last (hb_entries h)))"

definition HistoryBuffer_empty :: "history_buffer \<Rightarrow> bool" where "HistoryBuffer_empty h \<longleftrightarrow> hb_entries h = []"
definition HistoryBuffer_size :: "history_buffer \<Rightarrow> nat" where "HistoryBuffer_size h = length (hb_entries h)"
definition HistoryBuffer_capacity :: "history_buffer \<Rightarrow> nat" where "HistoryBuffer_capacity h = hb_capacity h"
definition HistoryBuffer_cursor :: "history_buffer \<Rightarrow> nat" where
  "HistoryBuffer_cursor h = (if hb_entries h = [] then 0 else hb_cursor h)"

section \<open>The controller\<close>

datatype tui_controller_state = Idle | Playing | Paused

record tui_controller =
  tc_history :: history_buffer
  tc_current :: tui_snapshot
  tc_playback :: tui_playback_config
  tc_state :: tui_controller_state
  tc_accumulatedMs :: "32 word"
  tc_nextSequence :: "64 word"

text \<open>The tick callback and the read model, over the world they act on.\<close>

type_synonym 'w tick_fn = "nat \<Rightarrow> 'w \<Rightarrow> 'w \<times> unit result"
type_synonym 'w capture_fn = "'w \<Rightarrow> 'w \<times> tui_snapshot result"

definition syncCurrentFromCursor :: "tui_controller \<Rightarrow> tui_controller \<times> unit result" where
  "syncCurrentFromCursor c =
     (case HistoryBuffer_current (tc_history c) of
        None \<Rightarrow> (c, Error NotFound)
      | Some entry \<Rightarrow> (c\<lparr>tc_current := he_snapshot entry\<rparr>, Ok ()))"

text \<open>What the controller does with a captured snapshot: number it, append it and show it.\<close>

definition record_snapshot :: "tui_controller \<Rightarrow> tui_snapshot \<Rightarrow> tui_controller \<times> unit result" where
  "record_snapshot c snapshot =
     (let (c1, s1) = (if snap_sequence snapshot = 0
                      then let seq = tc_nextSequence c + 1 in (c\<lparr>tc_nextSequence := seq\<rparr>, snapshot\<lparr>snap_sequence := seq\<rparr>)
                      else if snap_sequence snapshot > tc_nextSequence c then (c\<lparr>tc_nextSequence := snap_sequence snapshot\<rparr>, snapshot)
                      else (c, snapshot));
          entry = \<lparr>he_sequence = unat (snap_sequence s1), he_snapshot = s1\<rparr>;
          (h, appended) = HistoryBuffer_append (tc_history c1) entry;
          c2 = c1\<lparr>tc_history := h\<rparr>
      in case appended of Error e \<Rightarrow> (c2, Error e) | Ok _ \<Rightarrow> syncCurrentFromCursor c2)"

definition captureSnapshot :: "'w capture_fn \<Rightarrow> tui_controller \<times> 'w \<Rightarrow> (tui_controller \<times> 'w) \<times> unit result" where
  "captureSnapshot capture cw =
     (let (w, captured) = capture (snd cw)
      in case captured of
           Error e \<Rightarrow> ((fst cw, w), Error e)
         | Ok snapshot \<Rightarrow> let (c, r) = record_snapshot (fst cw) snapshot in ((c, w), r))"

definition tickAndCapture ::
  "'w tick_fn \<Rightarrow> 'w capture_fn \<Rightarrow> nat \<Rightarrow> tui_controller \<times> 'w \<Rightarrow> (tui_controller \<times> 'w) \<times> unit result" where
  "tickAndCapture tick capture step cw =
     (let (w, tickResult) = tick step (snd cw)
      in case tickResult of Error e \<Rightarrow> ((fst cw, w), Error e) | Ok _ \<Rightarrow> captureSnapshot capture (fst cw, w))"

definition TuiController_new :: "'w capture_fn \<Rightarrow> nat \<Rightarrow> 'w \<Rightarrow> tui_controller \<times> 'w" where
  "TuiController_new capture historyCapacity w =
     fst (captureSnapshot capture
       (\<lparr>tc_history = HistoryBuffer_new historyCapacity, tc_current = default_snapshot,
         tc_playback = \<lparr>pb_intervalMs = 100, pb_step = 1\<rparr>, tc_state = Idle, tc_accumulatedMs = 0, tc_nextSequence = 0\<rparr>, w))"

text \<open>Moving the cursor and showing the snapshot there.\<close>

definition seek_to :: "tui_controller \<Rightarrow> history_buffer \<times> unit result \<Rightarrow> tui_controller \<times> unit result" where
  "seek_to c seek =
     (let c1 = c\<lparr>tc_history := fst seek\<rparr>
      in case snd seek of Error e \<Rightarrow> (c1, Error e) | Ok _ \<Rightarrow> syncCurrentFromCursor c1)"

definition TuiController_dispatch ::
  "'w tick_fn \<Rightarrow> 'w capture_fn \<Rightarrow> tui_command \<Rightarrow> tui_controller \<times> 'w \<Rightarrow> (tui_controller \<times> 'w) \<times> unit result" where
  "TuiController_dispatch tick capture command cw =
     (let c = fst cw; w = snd cw in
      case validateCommand command of Error e \<Rightarrow> (cw, Error e) | Ok _ \<Rightarrow>
      (case cmd_kind command of
         Tick \<Rightarrow>
           (let (w1, tickResult) = tick (cmd_step command) w
            in if isError tickResult \<and> tickResult \<noteq> Error NotFound then ((c, w1), tickResult)
               else captureSnapshot capture (c, w1))
       | AutoPlayStart \<Rightarrow>
           (let config = playbackConfigFromCommand command
            in case validatePlaybackConfig config of
                 Error e \<Rightarrow> (cw, Error e)
               | Ok _ \<Rightarrow> ((c\<lparr>tc_playback := config, tc_accumulatedMs := 0, tc_state := Playing\<rparr>, w), Ok ()))
       | AutoPlayStop \<Rightarrow> ((c\<lparr>tc_accumulatedMs := 0, tc_state := Idle\<rparr>, w), Ok ())
       | Pause \<Rightarrow> ((if tc_state c = Playing then c\<lparr>tc_state := Paused\<rparr> else c, w), Ok ())
       | SeekBackward \<Rightarrow>
           (let (c1, r) = seek_to c (HistoryBuffer_seekBackward (tc_history c) (cmd_step command)) in ((c1, w), r))
       | SeekForward \<Rightarrow>
           (let (c1, r) = seek_to c (HistoryBuffer_seekForward (tc_history c) (cmd_step command)) in ((c1, w), r))))"

text \<open>Capturing touches neither the playback settings nor the accumulated time.\<close>

lemma sync_keeps:
  "tc_accumulatedMs (fst (syncCurrentFromCursor c)) = tc_accumulatedMs c" "tc_playback (fst (syncCurrentFromCursor c)) = tc_playback c"
  "tc_state (fst (syncCurrentFromCursor c)) = tc_state c"
  by (simp_all add: syncCurrentFromCursor_def split: option.split)

lemma record_keeps:
  "tc_accumulatedMs (fst (record_snapshot c s)) = tc_accumulatedMs c" "tc_playback (fst (record_snapshot c s)) = tc_playback c"
  "tc_state (fst (record_snapshot c s)) = tc_state c"
  by (simp_all add: record_snapshot_def HistoryBuffer_append_def Let_def sync_keeps)

lemma tickAndCapture_keeps:
  assumes "tickAndCapture tick capture step cw = (cw', r)"
  shows "tc_accumulatedMs (fst cw') = tc_accumulatedMs (fst cw)" "tc_playback (fst cw') = tc_playback (fst cw)"
    "tc_state (fst cw') = tc_state (fst cw)"
  using assms record_keeps
  by (auto simp: tickAndCapture_def captureSnapshot_def Let_def split: prod.splits result.splits) (metis fst_conv)+

lemma word_sub_less: "b \<noteq> 0 \<Longrightarrow> b \<le> a \<Longrightarrow> unat (a - b) < unat (a :: 'a::len word)"
  using unat_gt_0 [of b] by (simp add: unat_sub word_le_nat_alt)

text \<open>
  The loop of \<^verbatim>\<open>advanceAutoplay\<close>. It is entered with a non-zero interval only, which the loop does not change; with
  interval 0 it would not end, hence the first test.
\<close>

function advance_loop ::
  "'w tick_fn \<Rightarrow> 'w capture_fn \<Rightarrow> tui_controller \<times> 'w \<Rightarrow> (tui_controller \<times> 'w) \<times> unit result" where
  "advance_loop tick capture cw =
     (let c = fst cw; interval = pb_intervalMs (tc_playback c) in
      if interval \<noteq> 0 \<and> tc_accumulatedMs c \<ge> interval then
        (case tickAndCapture tick capture (pb_step (tc_playback c)) (c\<lparr>tc_accumulatedMs := tc_accumulatedMs c - interval\<rparr>, snd cw) of
           (cw1, Error e) \<Rightarrow> (((fst cw1)\<lparr>tc_state := Paused\<rparr>, snd cw1), Error e)
         | (cw1, Ok _) \<Rightarrow> advance_loop tick capture cw1)
      else (cw, Ok ()))"
  by pat_completeness auto

termination
  by (relation "measure (\<lambda>(tick, capture, cw). unat (tc_accumulatedMs (fst cw)))")
    (auto dest!: tickAndCapture_keeps(1) [OF sym] simp: word_sub_less)

declare advance_loop.simps [simp del]

definition TuiController_advanceAutoplay ::
  "'w tick_fn \<Rightarrow> 'w capture_fn \<Rightarrow> 32 word \<Rightarrow> tui_controller \<times> 'w \<Rightarrow> (tui_controller \<times> 'w) \<times> unit result" where
  "TuiController_advanceAutoplay tick capture elapsedMs cw =
     (let c = fst cw in
      if tc_state c \<noteq> Playing then (cw, Ok ())
      else if pb_intervalMs (tc_playback c) = 0 \<or> pb_step (tc_playback c) = 0 then (cw, Error InvalidState)
      else advance_loop tick capture (c\<lparr>tc_accumulatedMs := tc_accumulatedMs c + elapsedMs\<rparr>, snd cw))"

definition TuiController_current :: "tui_controller \<Rightarrow> tui_snapshot" where "TuiController_current c = tc_current c"
definition TuiController_state :: "tui_controller \<Rightarrow> tui_controller_state" where "TuiController_state c = tc_state c"
definition TuiController_historySize :: "tui_controller \<Rightarrow> nat" where
  "TuiController_historySize c = HistoryBuffer_size (tc_history c)"
definition TuiController_historyCursor :: "tui_controller \<Rightarrow> nat" where
  "TuiController_historyCursor c = HistoryBuffer_cursor (tc_history c)"

section \<open>The read model of the kernel\<close>

text \<open>
  The read model refers to the kernel (through the diagnostics) and keeps the sequence counter; following a dangling
  reference while taking the snapshot is undefined behaviour.
\<close>

record tui_world =
  w_kernel :: kernel
  w_nextSequence :: "64 word"

definition tui_process_row :: "kernel_process_snapshot \<Rightarrow> tui_process_snapshot" where
  "tui_process_row process =
     \<lparr>tp_id = row_id process, tp_name = row_name process, tp_state = row_state process,
      tp_basePriority = row_basePriority process, tp_effectivePriority = row_effectivePriority process,
      tp_nice = row_nice process, tp_cpuTime = row_cpuTime process, tp_laneIndex = row_laneIndex process\<rparr>"

definition tui_snapshot_of :: "kernel_snapshot \<Rightarrow> 64 word \<Rightarrow> tui_snapshot" where
  "tui_snapshot_of ks sequence =
     \<lparr>snap_currentTick = ks_currentTick ks, snap_processCount = ks_processCount ks,
      snap_processes = map tui_process_row (ks_processes ks),
      snap_scheduler = \<lparr>ts_readyQueue = ks_readyQueue ks, ts_blockedQueue = ks_blockedQueue ks, ts_runningQueue = ks_runningPids ks,
        ts_perLaneReadyQueues = ks_perLaneReadyQueues ks, ts_readyCount = ks_readyCount ks, ts_blockedCount = ks_blockedCount ks,
        ts_policyName = ks_policyName ks\<rparr>,
      snap_memory = \<lparr>tm_totalVirtualSlots = ks_totalVirtualSlots ks, tm_freeVirtualSlots = ks_freeVirtualSlots ks,
        tm_totalFrames = ks_totalFrames ks, tm_freeFrames = ks_freeFrames ks, tm_frameOwners = ks_frameOwners ks\<rparr>,
      snap_sequence = sequence, snap_epoch = ks_currentTick ks\<rparr>"

definition KernelReadModel_new :: "kernel \<Rightarrow> tui_world" where
  "KernelReadModel_new k = \<lparr>w_kernel = k, w_nextSequence = 0\<rparr>"

definition KernelReadModel_captureSnapshot :: "tui_world capture_fn" where
  "KernelReadModel_captureSnapshot w =
     (case KernelDiagnostics_captureSnapshot (Some (w_kernel w)) of
        None \<Rightarrow> undefined
      | Some (Error e) \<Rightarrow> (w, Error e)
      | Some (Ok kernelSnapshot) \<Rightarrow>
          let seq = w_nextSequence w + 1 in (w\<lparr>w_nextSequence := seq\<rparr>, Ok (tui_snapshot_of kernelSnapshot seq)))"

text \<open>The tick callback of \<^verbatim>\<open>main\<close>.\<close>

definition run_kernel :: "tui_world tick_fn" where
  "run_kernel step w = (let (k, r) = Kernel_runForTicks (w_kernel w) step 0 in (w\<lparr>w_kernel := k\<rparr>, r))"

section \<open>The timeline a controller shows\<close>

text \<open>The last \<open>n\<close> elements of a list.\<close>

definition window :: "nat \<Rightarrow> 'a list \<Rightarrow> 'a list" where
  "window n xs = drop (length xs - n) xs"

lemma length_window [simp]: "length (window n xs) = min n (length xs)"
  by (simp add: window_def)

lemma window_eq_Nil [simp]: "window n xs = [] \<longleftrightarrow> n = 0 \<or> xs = []"
  by (cases xs) (auto simp: window_def)

lemma window_snoc:
  assumes "0 < n"
  shows "window n (xs @ [x]) = (if length (window n xs) = n then tl (window n xs) else window n xs) @ [x]"
proof (cases "n \<le> length xs")
  case True
  then have "drop (Suc (length xs) - n) xs = tl (drop (length xs - n) xs)" by (simp add: Suc_diff_le drop_Suc tl_drop)
  then show ?thesis using True assms by (simp add: window_def)
qed (use assms in \<open>simp add: window_def\<close>)

text \<open>
  A read model and a tick callback as the controller relies on them: ticks and calls from outside capture nothing, a
  capture succeeds and numbers the snapshots consecutively. \<open>shots\<close> is the list of all snapshots captured so far.
\<close>

datatype 'e tui_op = Command tui_command | Elapse "32 word" | Outside 'e

fun tui_exec :: "'w tick_fn \<Rightarrow> 'w capture_fn \<Rightarrow> ('e \<Rightarrow> 'w \<Rightarrow> 'w) \<Rightarrow> 'e tui_op \<Rightarrow> tui_controller \<times> 'w \<Rightarrow> tui_controller \<times> 'w" where
  "tui_exec tick capture env (Command command) cw = fst (TuiController_dispatch tick capture command cw)"
| "tui_exec tick capture env (Elapse ms) cw = fst (TuiController_advanceAutoplay tick capture ms cw)"
| "tui_exec tick capture env (Outside e) cw = (fst cw, env e (snd cw))"

definition entry_of :: "tui_snapshot \<Rightarrow> tui_history_entry" where
  "entry_of s = \<lparr>he_sequence = unat (snap_sequence s), he_snapshot = s\<rparr>"

text \<open>
  What a controller shows of the captured snapshots: the history is its last entries, as many as the capacity allows, the cursor is within
  it and the current snapshot is the one under the cursor.
\<close>

definition shows_log :: "tui_controller \<Rightarrow> tui_snapshot list \<Rightarrow> bool" where
  "shows_log c shots \<longleftrightarrow> shots \<noteq> [] \<and> 0 < hb_capacity (tc_history c)
     \<and> hb_entries (tc_history c) = map entry_of (window (hb_capacity (tc_history c)) shots)
     \<and> hb_cursor (tc_history c) < length (hb_entries (tc_history c))
     \<and> tc_current c = he_snapshot (hb_entries (tc_history c) ! hb_cursor (tc_history c))
     \<and> tc_nextSequence c = of_nat (length shots)"

lemma shows_logD:
  assumes "shows_log c shots"
  shows "shots \<noteq> []" "0 < hb_capacity (tc_history c)" "hb_entries (tc_history c) = map entry_of (window (hb_capacity (tc_history c)) shots)"
    "hb_cursor (tc_history c) < min (hb_capacity (tc_history c)) (length shots)"
    "tc_current c = window (hb_capacity (tc_history c)) shots ! hb_cursor (tc_history c)" "tc_nextSequence c = of_nat (length shots)"
  using assms by (auto simp: shows_log_def entry_of_def)

lemma shows_log_sync:
  assumes "shots \<noteq> []" "0 < hb_capacity (tc_history c)" "hb_entries (tc_history c) = map entry_of (window (hb_capacity (tc_history c)) shots)"
    "hb_cursor (tc_history c) < length (hb_entries (tc_history c))" "tc_nextSequence c = of_nat (length shots)"
  shows "shows_log (fst (syncCurrentFromCursor c)) shots" "snd (syncCurrentFromCursor c) = Ok ()"
  using assms by (auto simp: shows_log_def syncCurrentFromCursor_def HistoryBuffer_current_def)

lemma append_history:
  assumes "0 < hb_capacity h" "hb_entries h = map entry_of (window (hb_capacity h) shots)"
  shows "snd (HistoryBuffer_append h (entry_of s)) = Ok ()" "hb_capacity (fst (HistoryBuffer_append h (entry_of s))) = hb_capacity h"
    "hb_entries (fst (HistoryBuffer_append h (entry_of s))) = map entry_of (window (hb_capacity h) (shots @ [s]))"
    "hb_cursor (fst (HistoryBuffer_append h (entry_of s))) = length (window (hb_capacity h) (shots @ [s])) - 1"
  using assms by (auto simp: HistoryBuffer_append_def Let_def window_snoc map_tl)

text \<open>
  A sequence number 0, which only the wrap-around of the read model's counter gives, is replaced by the controller's own
  next number; that is 0 as well.
\<close>

lemma record_snapshot_history:
  assumes "snap_sequence s = tc_nextSequence c + 1" and "r = HistoryBuffer_append (tc_history c) (entry_of s)" "snd r = Ok ()"
  shows "record_snapshot c s = syncCurrentFromCursor (c\<lparr>tc_nextSequence := snap_sequence s, tc_history := fst r\<rparr>)"
proof (cases "snap_sequence s = 0")
  case True
  then have eq: "s\<lparr>snap_sequence := 0\<rparr> = s" by (cases s) simp
  show ?thesis using True assms by (auto simp: eq record_snapshot_def Let_def entry_of_def split: prod.split)
next
  case False
  then have "tc_nextSequence c < snap_sequence s" using assms(1) unatSuc [of "tc_nextSequence c"] by (simp add: word_less_nat_alt add.commute)
  then show ?thesis using False assms by (auto simp: record_snapshot_def Let_def entry_of_def split: prod.split)
qed

lemma record_shows:
  assumes "0 < hb_capacity (tc_history c)" "hb_entries (tc_history c) = map entry_of (window (hb_capacity (tc_history c)) shots)"
    "tc_nextSequence c = of_nat (length shots)" "snap_sequence s = of_nat (Suc (length shots))"
  shows "shows_log (fst (record_snapshot c s)) (shots @ [s])" "snd (record_snapshot c s) = Ok ()"
    "hb_capacity (tc_history (fst (record_snapshot c s))) = hb_capacity (tc_history c)"
    "hb_cursor (tc_history (fst (record_snapshot c s))) = length (window (hb_capacity (tc_history c)) (shots @ [s])) - 1"
proof -
  note a = append_history [OF assms(1,2), of s]
  let ?c = "c\<lparr>tc_nextSequence := snap_sequence s, tc_history := fst (HistoryBuffer_append (tc_history c) (entry_of s))\<rparr>"
  have r: "record_snapshot c s = syncCurrentFromCursor ?c" using assms(3,4) a(1) by (intro record_snapshot_history) simp_all
  have cur: "hb_cursor (tc_history ?c) < length (hb_entries (tc_history ?c))" using a(3,4) assms(1) by (auto simp: min_def)
  have "shows_log (fst (syncCurrentFromCursor ?c)) (shots @ [s])" "snd (syncCurrentFromCursor ?c) = Ok ()"
    by (rule shows_log_sync [of "shots @ [s]" ?c]; use a assms cur in simp)+
  then show "shows_log (fst (record_snapshot c s)) (shots @ [s])" "snd (record_snapshot c s) = Ok ()" unfolding r .
  have "tc_history (fst (syncCurrentFromCursor c')) = tc_history c'" for c' by (simp add: syncCurrentFromCursor_def split: option.split)
  then show "hb_capacity (tc_history (fst (record_snapshot c s))) = hb_capacity (tc_history c)"
    "hb_cursor (tc_history (fst (record_snapshot c s))) = length (window (hb_capacity (tc_history c)) (shots @ [s])) - 1"
    unfolding r using a by simp_all
qed

lemma shows_log_upd [simp]: "shows_log (c\<lparr>tc_accumulatedMs := a\<rparr>) l = shows_log c l" "shows_log (c\<lparr>tc_state := s\<rparr>) l = shows_log c l"
  "shows_log (c\<lparr>tc_playback := p\<rparr>) l = shows_log c l"
  by (simp_all add: shows_log_def)

lemma seek_to_cursor:
  assumes "shows_log c shots" "j < length (hb_entries (tc_history c))"
  shows "shows_log (fst (seek_to c ((tc_history c)\<lparr>hb_cursor := j\<rparr>, Ok ()))) shots" "snd (seek_to c ((tc_history c)\<lparr>hb_cursor := j\<rparr>, Ok ())) = Ok ()"
  using assms(2) shows_logD [OF assms(1)] by (auto simp: seek_to_def Let_def intro!: shows_log_sync(1) shows_log_sync(2) [of shots])

lemma seek_to_error: "seek_to c (tc_history c, Error e) = (c, Error e)"
  by (simp add: seek_to_def)

lemma seek_capacity:
  "hb_capacity (tc_history (fst (seek_to c (HistoryBuffer_seekBackward (tc_history c) n)))) = hb_capacity (tc_history c)"
  "hb_capacity (tc_history (fst (seek_to c (HistoryBuffer_seekForward (tc_history c) n)))) = hb_capacity (tc_history c)"
  by (auto simp: seek_to_def Let_def HistoryBuffer_seekBackward_def HistoryBuffer_seekForward_def syncCurrentFromCursor_def split: option.split result.split)

lemma seek_shows:
  assumes s: "shows_log c shots" and h: "h = tc_history c"
  shows "shows_log (fst (seek_to c (HistoryBuffer_seekBackward h n))) shots" "shows_log (fst (seek_to c (HistoryBuffer_seekForward h n))) shots"
    "snd (seek_to c (HistoryBuffer_seekBackward h n)) = (if n \<le> hb_cursor h then Ok () else Error NotFound)"
    "snd (seek_to c (HistoryBuffer_seekForward h n)) = (if hb_cursor h + n < length (hb_entries h) then Ok () else Error NotFound)"
proof -
  have c: "hb_cursor h < length (hb_entries h)" using s h unfolding shows_log_def by blast
  then have "HistoryBuffer_seekBackward h n = (if n \<le> hb_cursor h then (h\<lparr>hb_cursor := hb_cursor h - n\<rparr>, Ok ()) else (h, Error NotFound))"
    "HistoryBuffer_seekForward h n = (if hb_cursor h + n < length (hb_entries h) then (h\<lparr>hb_cursor := hb_cursor h + n\<rparr>, Ok ()) else (h, Error NotFound))"
    by (auto simp: HistoryBuffer_seekBackward_def HistoryBuffer_seekForward_def)
  then show "shows_log (fst (seek_to c (HistoryBuffer_seekBackward h n))) shots" "shows_log (fst (seek_to c (HistoryBuffer_seekForward h n))) shots"
    "snd (seek_to c (HistoryBuffer_seekBackward h n)) = (if n \<le> hb_cursor h then Ok () else Error NotFound)"
    "snd (seek_to c (HistoryBuffer_seekForward h n)) = (if hb_cursor h + n < length (hb_entries h) then Ok () else Error NotFound)"
    using seek_to_cursor [OF s] s c by (auto simp: h seek_to_error)
qed

lemma div_carry: "0 < i \<Longrightarrow> (x + y) div i = x div i + (x mod i + y) div (i :: nat)"
proof -
  assume "0 < i"
  moreover have "x + y = (x mod i + y) + i * (x div i)" by simp
  ultimately show ?thesis by (metis add.commute div_mult_self2 less_irrefl)
qed

lemma paused_autoplay:
  "tc_state c \<noteq> Playing \<Longrightarrow> fold (\<lambda>ms cw. fst (TuiController_advanceAutoplay tick capture ms cw)) es (c, w) = (c, w)"
  by (induction es) (simp_all add: TuiController_advanceAutoplay_def)

locale timeline =
  fixes tick :: "'w tick_fn" and capture :: "'w capture_fn" and env :: "'e \<Rightarrow> 'w \<Rightarrow> 'w"
    and valid :: "'w \<Rightarrow> bool" and env_ok :: "'e \<Rightarrow> bool" and shots :: "'w \<Rightarrow> tui_snapshot list"
  assumes tick_keeps: "valid w \<Longrightarrow> tick n w = (w', r) \<Longrightarrow> valid w' \<and> shots w' = shots w"
    and capture_next: "valid w \<Longrightarrow> \<exists>w' s. capture w = (w', Ok s) \<and> valid w' \<and> shots w' = shots w @ [s]
          \<and> snap_sequence s = of_nat (Suc (length (shots w)))"
    and env_keeps: "valid w \<Longrightarrow> env_ok e \<Longrightarrow> valid (env e w) \<and> shots (env e w) = shots w"
begin

lemma capture_ok:
  assumes v: "valid w" and h: "0 < hb_capacity (tc_history c)"
    "hb_entries (tc_history c) = map entry_of (window (hb_capacity (tc_history c)) (shots w))" "tc_nextSequence c = of_nat (length (shots w))"
    and e: "captureSnapshot capture (c, w) = ((c', w'), r)"
  shows "valid w'" "shows_log c' (shots w')" "r = Ok ()" "\<exists>s. shots w' = shots w @ [s]"
    "hb_capacity (tc_history c') = hb_capacity (tc_history c)"
proof -
  obtain w1 s where s: "capture w = (w1, Ok s)" "valid w1" "shots w1 = shots w @ [s]" "snap_sequence s = of_nat (Suc (length (shots w)))"
    using capture_next [OF v] by blast
  note r = record_shows [OF h(1,2,3) s(4)]
  show "valid w'" "shows_log c' (shots w')" "r = Ok ()" "\<exists>s. shots w' = shots w @ [s]" "hb_capacity (tc_history c') = hb_capacity (tc_history c)"
    using e s r by (auto simp: captureSnapshot_def split: prod.splits)
qed

lemma new_ok:
  assumes "valid w" "shots w = []" "TuiController_new capture n w = (c', w')"
  shows "valid w'" "shows_log c' (shots w')" "length (shots w') = 1" "hb_capacity (tc_history c') = max 1 n"
proof -
  let ?c = "\<lparr>tc_history = HistoryBuffer_new n, tc_current = default_snapshot,
         tc_playback = \<lparr>pb_intervalMs = 100, pb_step = 1\<rparr>, tc_state = Idle, tc_accumulatedMs = 0, tc_nextSequence = 0\<rparr>"
  obtain r where e: "captureSnapshot capture (?c, w) = ((c', w'), r)"
    using assms(3) unfolding TuiController_new_def by (metis prod.collapse)
  note o = capture_ok [OF assms(1) _ _ _ e]
  have "0 < hb_capacity (tc_history ?c)" "hb_capacity (tc_history ?c) = max 1 n" by (simp_all add: HistoryBuffer_new_def)
  then show "valid w'" "shows_log c' (shots w')" "length (shots w') = 1" "hb_capacity (tc_history c') = max 1 n"
    using o assms(2) by (auto simp: HistoryBuffer_new_def window_def split: if_splits)
qed

lemma tickAndCapture_ok:
  assumes v: "valid w" and s: "shows_log c (shots w)" and e: "tickAndCapture tick capture n (c, w) = ((c', w'), r)"
  shows "valid w'" "shows_log c' (shots w')" "hb_capacity (tc_history c') = hb_capacity (tc_history c)"
    "length (shots w') = length (shots w) + (if isOk r then 1 else 0)"
proof -
  obtain w1 t where t: "tick n w = (w1, t)" by fastforce
  note k = tick_keeps [OF v t]
  have c1: "captureSnapshot capture (c, w1) = ((c', w'), r)" if "t = Ok u" for u
    using e t that by (simp add: tickAndCapture_def)
  have ok: "valid w' \<and> shows_log c' (shots w') \<and> hb_capacity (tc_history c') = hb_capacity (tc_history c) \<and> r = Ok () \<and> (\<exists>s. shots w' = shots w @ [s])"
    if "t = Ok u" for u
    using capture_ok [OF _ _ _ _ c1 [OF that]] k shows_logD(2,3,6) [OF s] by simp
  have err: "valid w' \<and> shows_log c' (shots w') \<and> c' = c \<and> r = Error x \<and> shots w' = shots w" if "t = Error x" for x
    using e t that k s by (auto simp: tickAndCapture_def)
  show "valid w'" "shows_log c' (shots w')" "hb_capacity (tc_history c') = hb_capacity (tc_history c)"
    "length (shots w') = length (shots w) + (if isOk r then 1 else 0)"
    using ok err by (cases t; auto)+
qed

text \<open>The loop takes one snapshot for every interval that has passed, and pauses at the first error.\<close>

lemma advance_loop_ok:
  assumes "valid (snd cw)" "shows_log (fst cw) (shots (snd cw))" "pb_intervalMs (tc_playback (fst cw)) = i" "i \<noteq> 0" "unat (tc_accumulatedMs (fst cw)) = A"
    "advance_loop tick capture cw = ((c', w'), r)"
  shows "valid w' \<and> shows_log c' (shots w') \<and> hb_capacity (tc_history c') = hb_capacity (tc_history (fst cw)) \<and> tc_playback c' = tc_playback (fst cw)
    \<and> (\<exists>j. length (shots w') = length (shots (snd cw)) + j
        \<and> (if isOk r then j = A div unat i \<and> unat (tc_accumulatedMs c') = A mod unat i \<and> tc_state c' = tc_state (fst cw)
           else j < A div unat i \<and> tc_state c' = Paused))"
  using assms
proof (induction A arbitrary: cw rule: less_induct)
  case (less A)
  let ?c = "fst cw"
  let ?step = "tickAndCapture tick capture (pb_step (tc_playback ?c)) (?c\<lparr>tc_accumulatedMs := tc_accumulatedMs ?c - i\<rparr>, snd cw)"
  have i0: "0 < unat i" using less.prems(4) by (simp add: unat_gt_0)
  obtain c1 w1 t where t: "?step = ((c1, w1), t)" by (cases ?step, cases "fst ?step") simp
  have loop: "advance_loop tick capture cw = (if tc_accumulatedMs ?c \<ge> i
      then (case t of Error e \<Rightarrow> ((c1\<lparr>tc_state := Paused\<rparr>, w1), Error e) | Ok _ \<Rightarrow> advance_loop tick capture (c1, w1)) else (cw, Ok ()))"
    using less.prems(3,4) t by (subst advance_loop.simps) (simp add: Let_def)
  show ?case
  proof (cases "tc_accumulatedMs ?c \<ge> i")
    case False
    then have "A < unat i" using less.prems(5) by (simp add: word_le_nat_alt)
    then show ?thesis using less.prems loop False by auto
  next
    case True
    then have A: "unat i \<le> A" using less.prems(5) by (simp add: word_le_nat_alt)
    note dv = le_div_geq [OF i0 A] le_mod_geq [OF A]
    note k = tickAndCapture_keeps [OF t, simplified]
    note o = tickAndCapture_ok [OF less.prems(1) _ t]
    have s: "shows_log (?c\<lparr>tc_accumulatedMs := tc_accumulatedMs ?c - i\<rparr>) (shots (snd cw))" using less.prems(2) by simp
    show ?thesis
    proof (cases t)
      case (Error e)
      then show ?thesis using less.prems(6) loop True o [OF s] k dv by auto
    next
      case (Ok u)
      have A1: "unat (tc_accumulatedMs c1) = A - unat i" using k(1) True less.prems(5) by (simp add: unat_sub)
      have "advance_loop tick capture (c1, w1) = ((c', w'), r)" using less.prems(6) loop True Ok by simp
      from less.IH [of "A - unat i" "(c1, w1)", OF _ _ _ _ less.prems(4) _ this] obtain j where
        "valid w' \<and> shows_log c' (shots w') \<and> hb_capacity (tc_history c') = hb_capacity (tc_history c1) \<and> tc_playback c' = tc_playback c1"
        "length (shots w') = length (shots w1) + j"
        "if isOk r then j = (A - unat i) div unat i \<and> unat (tc_accumulatedMs c') = (A - unat i) mod unat i \<and> tc_state c' = tc_state c1
           else j < (A - unat i) div unat i \<and> tc_state c' = Paused"
        using o(1,2) [OF s] A1 k(2) less.prems(3) i0 A by auto
      then show ?thesis using o(3,4) [OF s] k(2,3) dv Ok by (intro conjI exI [of _ "Suc j"]) (auto split: if_splits)
    qed
  qed
qed

lemma advanceAutoplay_ok:
  assumes "valid w" "shows_log c (shots w)" "TuiController_advanceAutoplay tick capture ms (c, w) = ((c', w'), r)"
  shows "valid w' \<and> shows_log c' (shots w') \<and> hb_capacity (tc_history c') = hb_capacity (tc_history c)"
  using assms advance_loop_ok [of "(c\<lparr>tc_accumulatedMs := tc_accumulatedMs c + ms\<rparr>, w)" _ _ c' w' r]
  by (auto simp: TuiController_advanceAutoplay_def Let_def split: if_splits)

lemma dispatch_ok:
  assumes v: "valid w" and s: "shows_log c (shots w)" and e: "TuiController_dispatch tick capture command (c, w) = ((c', w'), r)"
  shows "valid w' \<and> shows_log c' (shots w') \<and> hb_capacity (tc_history c') = hb_capacity (tc_history c)"
proof (cases "validateCommand command")
  case (Ok u)
  show ?thesis
  proof (cases "cmd_kind command")
    case Tick
    obtain w1 t where t: "tick (cmd_step command) w = (w1, t)" by fastforce
    note k = tick_keeps [OF v t]
    then show ?thesis using e s Ok Tick t capture_ok [of w1 c c' w' r] shows_logD(2,3,6) [OF s]
      by (auto simp: TuiController_dispatch_def split: if_splits)
  next
    case SeekBackward
    then show ?thesis using e v Ok seek_shows(1) [OF s refl, of "cmd_step command"] seek_capacity
      by (auto simp: TuiController_dispatch_def split: prod.splits) (metis fst_conv)+
  next
    case SeekForward
    then show ?thesis using e v Ok seek_shows(2) [OF s refl, of "cmd_step command"] seek_capacity
      by (auto simp: TuiController_dispatch_def split: prod.splits) (metis fst_conv)+
  qed (use e v s Ok in \<open>auto simp: TuiController_dispatch_def Let_def split: result.splits if_splits\<close>)
qed (use e v s in \<open>simp add: TuiController_dispatch_def\<close>)

lemma exec_ok:
  assumes "valid (snd cw)" "shows_log (fst cw) (shots (snd cw))" "\<forall>e. oper = Outside e \<longrightarrow> env_ok e"
  shows "valid (snd (tui_exec tick capture env oper cw)) \<and> shows_log (fst (tui_exec tick capture env oper cw)) (shots (snd (tui_exec tick capture env oper cw)))
    \<and> hb_capacity (tc_history (fst (tui_exec tick capture env oper cw))) = hb_capacity (tc_history (fst cw))"
proof (cases oper)
  case (Command command)
  then show ?thesis using dispatch_ok [OF assms(1,2)] by (metis prod.collapse tui_exec.simps(1))
next
  case (Elapse ms)
  then show ?thesis using advanceAutoplay_ok [OF assms(1,2)] by (metis prod.collapse tui_exec.simps(2))
qed (use assms env_keeps in simp)

lemma run_ok:
  assumes "valid (snd cw)" "shows_log (fst cw) (shots (snd cw))" "\<forall>e. Outside e \<in> set ops \<longrightarrow> env_ok e"
  shows "valid (snd (fold (tui_exec tick capture env) ops cw))
    \<and> shows_log (fst (fold (tui_exec tick capture env) ops cw)) (shots (snd (fold (tui_exec tick capture env) ops cw)))
    \<and> hb_capacity (tc_history (fst (fold (tui_exec tick capture env) ops cw))) = hb_capacity (tc_history (fst cw))"
  using assms
proof (induction ops arbitrary: cw)
  case (Cons oper ops)
  then show ?case using exec_ok [of cw oper] by simp
qed simp

lemma autoplay_count:
  assumes "valid w" "shows_log c (shots w)" "tc_state c = Playing" "pb_intervalMs (tc_playback c) = i" "i \<noteq> 0" "pb_step (tc_playback c) \<noteq> 0"
    and "unat (tc_accumulatedMs c) < unat i" "\<forall>ms \<in> set es. unat ms + unat i \<le> 2 ^ 32" "T = unat (tc_accumulatedMs c) + sum_list (map unat es)"
    and "fold (\<lambda>ms cw. fst (TuiController_advanceAutoplay tick capture ms cw)) es (c, w) = (c', w')"
  shows "if tc_state c' = Playing then length (shots w') = length (shots w) + T div unat i \<and> unat (tc_accumulatedMs c') = T mod unat i
    else tc_state c' = Paused \<and> length (shots w') < length (shots w) + T div unat i"
  using assms
proof (induction es arbitrary: c w T)
  case (Cons ms es)
  let ?x = "unat (tc_accumulatedMs c) + unat ms" and ?S = "sum_list (map unat es)"
  let ?c = "c\<lparr>tc_accumulatedMs := tc_accumulatedMs c + ms\<rparr>"
  have i0: "0 < unat i" using Cons.prems(5) by (simp add: unat_gt_0)
  have x: "unat (tc_accumulatedMs c + ms) = ?x" using Cons.prems(7,8) by (intro unat_add_lem [THEN iffD1]) simp
  have x_S: "T = ?x + ?S" using Cons.prems(9) by simp
  have T: "T div unat i = ?x div unat i + (?x mod unat i + ?S) div unat i" "T mod unat i = (?x mod unat i + ?S) mod unat i"
    unfolding x_S by (rule div_carry [OF i0]) (simp only: mod_add_left_eq)
  obtain c1 w1 r where a: "advance_loop tick capture (?c, w) = ((c1, w1), r)" by (metis surj_pair)
  have "TuiController_advanceAutoplay tick capture ms (c, w) = ((c1, w1), r)"
    using Cons.prems(3-6) a by (simp add: TuiController_advanceAutoplay_def)
  then have f: "fold (\<lambda>ms cw. fst (TuiController_advanceAutoplay tick capture ms cw)) es (c1, w1) = (c', w')"
    using Cons.prems(10) by simp
  have "shows_log (fst (?c, w)) (shots (snd (?c, w)))" "valid (snd (?c, w))" using Cons.prems(1,2) by simp_all
  from advance_loop_ok [OF this(2,1) _ Cons.prems(5) _ a] obtain j where
    ok: "valid w1" "shows_log c1 (shots w1)" "tc_playback c1 = tc_playback c" "length (shots w1) = length (shots w) + j"
      "if isOk r then j = ?x div unat i \<and> unat (tc_accumulatedMs c1) = ?x mod unat i \<and> tc_state c1 = tc_state c
       else j < ?x div unat i \<and> tc_state c1 = Paused"
    using x Cons.prems(4) by auto
  show ?case
  proof (cases "isOk r")
    case True
    then show ?thesis
      using Cons.IH [OF ok(1,2) _ _ Cons.prems(5) _ _ _ refl f] ok(3-5) Cons.prems(3-8) i0 T by auto
  next
    case False
    then have "(c', w') = (c1, w1)" using paused_autoplay [of c1 tick capture es w1] ok(5) f by simp
    then show ?thesis using False ok(4,5) T(1) by auto
  qed
qed auto

end

section \<open>The controller of the kernel\<close>

text \<open>Recording what is captured, beside the world; the recording does not influence the controller.\<close>

definition recorded_tick :: "'w tick_fn \<Rightarrow> ('w \<times> tui_snapshot list) tick_fn" where
  "recorded_tick tick n wl = (let (w, r) = tick n (fst wl) in ((w, snd wl), r))"

definition recorded_capture :: "'w capture_fn \<Rightarrow> ('w \<times> tui_snapshot list) capture_fn" where
  "recorded_capture capture wl =
     (let (w, r) = capture (fst wl) in ((w, case r of Ok s \<Rightarrow> snd wl @ [s] | Error e \<Rightarrow> snd wl), r))"

definition recorded_env :: "('e \<Rightarrow> 'w \<Rightarrow> 'w) \<Rightarrow> 'e \<Rightarrow> 'w \<times> tui_snapshot list \<Rightarrow> 'w \<times> tui_snapshot list" where
  "recorded_env env e wl = (env e (fst wl), snd wl)"

lemma erase_capture:
  "captureSnapshot capture (map_prod id fst cw) = map_prod (map_prod id fst) id (captureSnapshot (recorded_capture capture) cw)"
  by (auto simp: captureSnapshot_def recorded_capture_def split: prod.splits result.splits)

lemma erase_tickAndCapture:
  "tickAndCapture tick capture n (map_prod id fst cw) = map_prod (map_prod id fst) id (tickAndCapture (recorded_tick tick) (recorded_capture capture) n cw)"
proof -
  obtain w t where "tick n (fst (snd cw)) = (w, t)" by fastforce
  then show ?thesis using erase_capture [of capture "(fst cw, (w, snd (snd cw)))"]
    by (auto simp: tickAndCapture_def recorded_tick_def split: result.splits)
qed

lemma erase_loop:
  "advance_loop tick capture (map_prod id fst cw) = map_prod (map_prod id fst) id (advance_loop (recorded_tick tick) (recorded_capture capture) cw)"
proof (induction "unat (tc_accumulatedMs (fst cw))" arbitrary: cw rule: less_induct)
  case less
  let ?c = "fst cw" and ?i = "pb_intervalMs (tc_playback (fst cw))"
  let ?go = "?i \<noteq> 0 \<and> tc_accumulatedMs ?c \<ge> ?i" and ?cw = "((fst cw)\<lparr>tc_accumulatedMs := tc_accumulatedMs (fst cw) - ?i\<rparr>, snd cw)"
  obtain c1 w1 t where t: "tickAndCapture (recorded_tick tick) (recorded_capture capture) (pb_step (tc_playback ?c)) ?cw = ((c1, w1), t)"
    by (metis surj_pair)
  then have t': "tickAndCapture tick capture (pb_step (tc_playback ?c)) (map_prod id fst ?cw) = ((c1, fst w1), t)"
    by (simp only: erase_tickAndCapture) simp
  have acc: "tc_accumulatedMs c1 = tc_accumulatedMs ?c - ?i" using tickAndCapture_keeps(1) [OF t] by simp
  have "advance_loop tick capture (c1, fst w1) = map_prod (map_prod id fst) id (advance_loop (recorded_tick tick) (recorded_capture capture) (c1, w1))" if ?go
    using less.hyps [of "(c1, w1)"] that by (simp add: acc word_sub_less)
  then show ?case using t t'
    by (subst (1 2) advance_loop.simps) (auto simp: Let_def split: result.split)
qed

lemma erase_dispatch:
  "TuiController_dispatch tick capture command (map_prod id fst cw)
     = map_prod (map_prod id fst) id (TuiController_dispatch (recorded_tick tick) (recorded_capture capture) command cw)"
proof (cases "cmd_kind command")
  case Tick
  obtain w t where "tick (cmd_step command) (fst (snd cw)) = (w, t)" by fastforce
  then show ?thesis using Tick erase_capture [of capture "(fst cw, (w, snd (snd cw)))"]
    by (auto simp: TuiController_dispatch_def recorded_tick_def Let_def split: result.splits)
qed (cases cw, auto simp: TuiController_dispatch_def Let_def split: result.splits prod.splits)+

lemma erase_exec:
  "tui_exec tick capture env oper (map_prod id fst cw)
     = map_prod id fst (tui_exec (recorded_tick tick) (recorded_capture capture) (recorded_env env) oper cw)"
proof (cases oper)
  case (Elapse ms)
  then show ?thesis using erase_loop [of tick capture "((fst cw)\<lparr>tc_accumulatedMs := tc_accumulatedMs (fst cw) + ms\<rparr>, snd cw)"]
    by (simp add: TuiController_advanceAutoplay_def Let_def)
qed (simp_all add: erase_dispatch recorded_env_def)

lemma erase_run:
  "fold (tui_exec tick capture env) ops (map_prod id fst cw)
     = map_prod id fst (fold (tui_exec (recorded_tick tick) (recorded_capture capture) (recorded_env env)) ops cw)"
  by (induction ops arbitrary: cw) (simp_all add: erase_exec)

lemma erase_new: "TuiController_new capture n w = map_prod id fst (TuiController_new (recorded_capture capture) n (w, l))"
  using erase_capture [of capture "(_, (w, l))"] by (simp add: TuiController_new_def)

text \<open>
  A snapshot is consistent when every process it lists is in exactly one of its queues, the rows are in increasing order of
  the ids, and the counts agree with the lists.
\<close>

definition snapshot_consistent :: "tui_snapshot \<Rightarrow> bool" where
  "snapshot_consistent s \<longleftrightarrow>
     (let sch = snap_scheduler s; queues = ts_readyQueue sch @ ts_runningQueue sch @ ts_blockedQueue sch; ids = map tp_id (snap_processes s) in
      distinct queues \<and> set queues = set ids \<and> sorted ids \<and> distinct ids \<and> ts_readyCount sch = length (ts_readyQueue sch)
      \<and> ts_blockedCount sch = length (ts_blockedQueue sch) \<and> snap_processCount s = length ids
      \<and> tm_totalVirtualSlots (snap_memory s) - tm_freeVirtualSlots (snap_memory s) = snap_processCount s)"

lemma kernel_snapshot_shown:
  assumes i: "kernel_inv k"
  shows "\<exists>s. Kernel_snapshot k = Some s \<and> snapshot_consistent (tui_snapshot_of s n)"
proof -
  note d = kernel_invD [OF i] and md = machine_invD [OF kernel_invD(1) [OF i]]
  have fin: "finite (dom (m_images (k_machine k)))" by (rule machine_images_finite [OF d(1)])
  have live: "{pid. Kernel_hasProcess k pid} = dom (m_images (k_machine k))"
    by (auto simp: Kernel_hasProcess_def Dispatcher_hasProcess_def d)
  obtain s where s: "Kernel_snapshot k = Some s" "map row_id (ks_processes s) = sorted_list_of_set (dom (m_images (k_machine k)))"
    "ks_processCount s = length (ks_processes s)" "ks_totalVirtualSlots s - ks_freeVirtualSlots s = ks_processCount s"
    using kernel_inv_snapshot [OF i] unfolding live by blast
  note f = snapshot_fields [OF i s(1)]
  have "map tp_id (map tui_process_row (ks_processes s)) = sorted_list_of_set (dom (m_images (k_machine k)))"
    using s(2) by (simp add: tui_process_row_def comp_def)
  moreover have "distinct (ks_readyQueue s @ ks_runningPids s @ ks_blockedQueue s)"
    using sched_inv_queued_once [OF md(1)] f(3,5,7) by simp
  moreover have "set (ks_readyQueue s @ ks_runningPids s @ ks_blockedQueue s) = dom (m_images (k_machine k))"
    using snapshots_queued [OF md(1)] md(2,3) f(3,5,7) by simp
  moreover have "length (ks_processes s) = card (dom (m_images (k_machine k)))" using arg_cong [OF s(2), of length] by simp
  ultimately have "snapshot_consistent (tui_snapshot_of s n)"
    using s(3,4) f(4,6) fin unfolding snapshot_consistent_def tui_snapshot_of_def Let_def by simp
  then show ?thesis using s(1) by blast
qed

text \<open>Calls of the kernel from outside the user interface.\<close>

definition kernel_call :: "kernel_op \<Rightarrow> tui_world \<Rightarrow> tui_world" where
  "kernel_call oper w = w\<lparr>w_kernel := kernel_exec oper (w_kernel w)\<rparr>"

definition world_ok :: "tui_world \<times> tui_snapshot list \<Rightarrow> bool" where
  "world_ok wl \<longleftrightarrow> kernel_inv (w_kernel (fst wl)) \<and> w_nextSequence (fst wl) = of_nat (length (snd wl))
     \<and> (\<forall>i < length (snd wl). snap_sequence (snd wl ! i) = of_nat (Suc i)) \<and> (\<forall>s \<in> set (snd wl). snapshot_consistent s)"

interpretation kernel_view: timeline "recorded_tick run_kernel" "recorded_capture KernelReadModel_captureSnapshot" "recorded_env kernel_call"
  world_ok kernel_op_ok snd
proof (unfold_locales, goal_cases)
  case (1 w n w' r)
  then show ?case using runForTicks_inv [of "w_kernel (fst w)" n False 0]
    by (auto simp: recorded_tick_def run_kernel_def Kernel_runForTicks_def world_ok_def Let_def split: prod.splits)
next
  case (2 w)
  obtain s where s: "Kernel_snapshot (w_kernel (fst w)) = Some s" "snapshot_consistent (tui_snapshot_of s (w_nextSequence (fst w) + 1))"
    using kernel_snapshot_shown 2 unfolding world_ok_def by blast
  then show ?case using 2
    by (auto simp: recorded_capture_def KernelReadModel_captureSnapshot_def KernelDiagnostics_captureSnapshot_def world_ok_def Let_def
        tui_snapshot_of_def nth_append less_Suc_eq)
next
  case (3 w e)
  then show ?case using kernel_exec_inv by (auto simp: recorded_env_def kernel_call_def world_ok_def)
qed

lemma world_ok_new: "kernel_inv k \<Longrightarrow> world_ok (KernelReadModel_new k, [])"
  by (simp add: world_ok_def KernelReadModel_new_def)

lemma history_of_run:
  assumes "kernel_inv k" "\<forall>oper. Outside oper \<in> set ops \<longrightarrow> kernel_op_ok oper"
    and "(c, w) = fold (tui_exec run_kernel KernelReadModel_captureSnapshot kernel_call) ops
        (TuiController_new KernelReadModel_captureSnapshot n (KernelReadModel_new k))"
  shows "\<exists>l. (c, (w, l)) = fold (tui_exec (recorded_tick run_kernel) (recorded_capture KernelReadModel_captureSnapshot) (recorded_env kernel_call)) ops
        (TuiController_new (recorded_capture KernelReadModel_captureSnapshot) n (KernelReadModel_new k, []))
    \<and> map he_snapshot (hb_entries (tc_history c)) = window (max 1 n) l \<and> l \<noteq> []
    \<and> TuiController_historyCursor c < TuiController_historySize c
    \<and> TuiController_current c = window (max 1 n) l ! TuiController_historyCursor c
    \<and> (\<forall>i < length l. snap_sequence (l ! i) = of_nat (Suc i)) \<and> (\<forall>s \<in> set l. snapshot_consistent s)
    \<and> kernel_inv (w_kernel w)"
proof -
  let ?new = "TuiController_new (recorded_capture KernelReadModel_captureSnapshot) n (KernelReadModel_new k, [])"
  let ?run = "fold (tui_exec (recorded_tick run_kernel) (recorded_capture KernelReadModel_captureSnapshot) (recorded_env kernel_call)) ops ?new"
  note nw = kernel_view.new_ok [OF world_ok_new [OF assms(1)] _ prod.collapse [symmetric], of n, simplified]
  have r: "world_ok (snd ?run)" "shows_log (fst ?run) (snd (snd ?run))" "hb_capacity (tc_history (fst ?run)) = max 1 n"
    using kernel_view.run_ok [OF nw(1,2) assms(2)] nw(4) by simp_all
  have "(c, w) = map_prod id fst ?run" unfolding assms(3) erase_run [symmetric] erase_new [of _ n "KernelReadModel_new k" "[]"] ..
  then have cw: "c = fst ?run" "w = fst (snd ?run)" by (simp_all add: prod_eq_iff)
  note d = shows_logD [OF r(2), folded cw(1)]
  have s: "map he_snapshot (hb_entries (tc_history c)) = window (max 1 n) (snd (snd ?run))"
    using d(3) r(3) cw(1) by (simp add: entry_of_def comp_def)
  show ?thesis using d s r cw
    by (intro exI [of _ "snd (snd ?run)"])
      (auto simp: world_ok_def TuiController_historyCursor_def TuiController_historySize_def HistoryBuffer_cursor_def HistoryBuffer_size_def TuiController_current_def)
qed




definition demo_play :: "tui_controller \<times> tui_world \<times> tui_snapshot list" where
  "demo_play = fold (tui_exec (recorded_tick run_kernel) (recorded_capture KernelReadModel_captureSnapshot) (recorded_env kernel_call))
     ([] @ [Command \<lparr>cmd_kind = AutoPlayStart, cmd_step = 1, cmd_intervalMs = 50\<rparr>])
     (TuiController_new (recorded_capture KernelReadModel_captureSnapshot) 8 (KernelReadModel_new demo_kernel, []))"

definition demo_played :: "tui_controller \<times> tui_world \<times> tui_snapshot list" where
  "demo_played = fold (\<lambda>ms cw. fst (TuiController_advanceAutoplay (recorded_tick run_kernel) (recorded_capture KernelReadModel_captureSnapshot) ms cw))
     [40, 30, 40] demo_play"


text \<open>
  Seeking moves in the history and nothing else. A step of 0 is rejected, a step beyond the oldest retained snapshot fails
  with \<^verbatim>\<open>NotFound\<close>, both changing nothing; any other step back succeeds, shows the snapshot that many entries earlier, touches
  neither kernel nor read model, and the same step forward restores the controller exactly.
\<close>

theorem seek_roundtrip:
  assumes "shows_log c l" "bwd = \<lparr>cmd_kind = SeekBackward, cmd_step = n, cmd_intervalMs = 0\<rparr>"
    "fwd = \<lparr>cmd_kind = SeekForward, cmd_step = n, cmd_intervalMs = 0\<rparr>"
  shows "(n = 0 \<longrightarrow> TuiController_dispatch tick capture bwd (c, w) = ((c, w), Error InvalidArgument))
    \<and> (TuiController_historyCursor c < n \<longrightarrow> TuiController_dispatch tick capture bwd (c, w) = ((c, w), Error NotFound))
    \<and> (0 < n \<and> n \<le> TuiController_historyCursor c \<longrightarrow>
        (\<exists>c'. TuiController_dispatch tick capture bwd (c, w) = ((c', w), Ok ())
          \<and> TuiController_historyCursor c' = TuiController_historyCursor c - n
          \<and> TuiController_current c' = he_snapshot (hb_entries (tc_history c) ! (TuiController_historyCursor c - n))
          \<and> TuiController_dispatch tick capture fwd (c', w) = ((c, w), Ok ())))"
proof -
  have e: "hb_entries (tc_history c) \<noteq> []" "hb_cursor (tc_history c) < length (hb_entries (tc_history c))"
      "TuiController_historyCursor c = hb_cursor (tc_history c)" "tc_current c = he_snapshot (hb_entries (tc_history c) ! hb_cursor (tc_history c))"
    using shows_logD(1,2,3) [OF assms(1)] assms(1) by (auto simp: TuiController_historyCursor_def HistoryBuffer_cursor_def shows_log_def)
  let ?c = "c\<lparr>tc_history := (tc_history c)\<lparr>hb_cursor := hb_cursor (tc_history c) - n\<rparr>,
    tc_current := he_snapshot (hb_entries (tc_history c) ! (hb_cursor (tc_history c) - n))\<rparr>"
  note defs = TuiController_dispatch_def validateCommand_def commandRequiresStep_def commandRequiresInterval_def assms(2,3)
    HistoryBuffer_seekBackward_def HistoryBuffer_seekForward_def seek_to_def syncCurrentFromCursor_def HistoryBuffer_current_def
  have same: "c\<lparr>tc_history := (tc_history c)\<lparr>hb_cursor := hb_cursor (tc_history c)\<rparr>, tc_current := tc_current c\<rparr> = c" by simp
  have b1: "TuiController_dispatch tick capture bwd (c, w) = ((?c, w), Ok ())"
    and f1: "TuiController_dispatch tick capture fwd (?c, w) = ((c, w), Ok ())" if "0 < n" "n \<le> hb_cursor (tc_history c)"
    using that e by (simp add: defs Let_def) (use that e same in \<open>simp add: defs Let_def\<close>)
  have "TuiController_dispatch tick capture bwd (c, w) = ((c, w), Error InvalidArgument)" if "n = 0" using that by (simp add: defs)
  moreover have "TuiController_dispatch tick capture bwd (c, w) = ((c, w), Error NotFound)" if "hb_cursor (tc_history c) < n"
    using that e by (simp add: defs)
  ultimately show ?thesis using b1 f1 e
    by (auto simp: TuiController_historyCursor_def HistoryBuffer_cursor_def TuiController_current_def intro!: exI [of _ ?c])
qed

definition demo_controller :: tui_controller where
  "demo_controller = fst (record_snapshot (fst (record_snapshot
     \<lparr>tc_history = HistoryBuffer_new 4, tc_current = default_snapshot, tc_playback = \<lparr>pb_intervalMs = 100, pb_step = 1\<rparr>,
      tc_state = Idle, tc_accumulatedMs = 0, tc_nextSequence = 0\<rparr>
     (default_snapshot\<lparr>snap_sequence := 1\<rparr>))) (default_snapshot\<lparr>snap_sequence := 2\<rparr>))"

theorem seek_roundtrip_witness:
  "\<exists>c'. TuiController_dispatch run_kernel KernelReadModel_captureSnapshot \<lparr>cmd_kind = SeekBackward, cmd_step = 1, cmd_intervalMs = 0\<rparr>
        (demo_controller, KernelReadModel_new demo_kernel) = ((c', KernelReadModel_new demo_kernel), Ok ())
     \<and> TuiController_current c' = default_snapshot\<lparr>snap_sequence := 1\<rparr>
     \<and> TuiController_dispatch run_kernel KernelReadModel_captureSnapshot \<lparr>cmd_kind = SeekForward, cmd_step = 1, cmd_intervalMs = 0\<rparr>
        (c', KernelReadModel_new demo_kernel) = ((demo_controller, KernelReadModel_new demo_kernel), Ok ())"
proof -
  let ?s1 = "default_snapshot\<lparr>snap_sequence := 1\<rparr>" and ?s2 = "default_snapshot\<lparr>snap_sequence := 2\<rparr>"
  have "shows_log demo_controller ([?s1] @ [?s2])" unfolding demo_controller_def
    by (rule record_shows(1)) (simp_all add: record_snapshot_def HistoryBuffer_append_def HistoryBuffer_new_def syncCurrentFromCursor_def
        HistoryBuffer_current_def window_def entry_of_def Let_def)
  moreover have "TuiController_historyCursor demo_controller = 1" "he_snapshot (hb_entries (tc_history demo_controller) ! 0) = ?s1" by code_simp+
  ultimately show ?thesis
    using seek_roundtrip [OF _ refl refl, of demo_controller "[?s1] @ [?s2]" 1 run_kernel KernelReadModel_captureSnapshot] by auto
qed

end
