(* ===== verification/Devices.thy ===== *)
theory Devices
  imports Core
begin

text \<open>
  Devices: \<^verbatim>\<open>io/console_device.cpp\<close>, \<^verbatim>\<open>io/network_device.cpp\<close> and \<^verbatim>\<open>io/device_manager.cpp\<close>. The two implementations of
  \<^verbatim>\<open>IDevice\<close> are the constructors of \<open>device\<close>; what the console prints is kept as text. The manager's mutexes serialise
  its operations, so an operation is one step of the model; the table of device locks is kept as the set of its keys.
\<close>

section \<open>The console\<close>

record console_device =
  cd_lastValue :: register_value
  cd_out :: string

definition CONSOLE_DEVICE_ID :: device_id where "CONSOLE_DEVICE_ID = 1"

definition ConsoleDevice_new :: console_device where
  "ConsoleDevice_new = \<lparr>cd_lastValue = 0, cd_out = ''''\<rparr>"

definition ConsoleDevice_id :: "console_device \<Rightarrow> device_id" where "ConsoleDevice_id d = CONSOLE_DEVICE_ID"
definition ConsoleDevice_name :: "console_device \<Rightarrow> string" where "ConsoleDevice_name d = ''Console''"

definition ConsoleDevice_read :: "console_device \<Rightarrow> console_device \<times> register_value result" where
  "ConsoleDevice_read d = (d, Ok (cd_lastValue d))"

text \<open>A printable value is written as a character, any other as a signed number.\<close>

definition ConsoleDevice_write :: "console_device \<Rightarrow> register_value \<Rightarrow> console_device \<times> unit result" where
  "ConsoleDevice_write d value =
     (d\<lparr>cd_lastValue := value,
        cd_out := cd_out d @ (if 32 \<le> sint value \<and> sint value < 127 then [char_of (nat (sint value))] else int_text (sint value))\<rparr>,
      Ok ())"

definition ConsoleDevice_isReady :: "console_device \<Rightarrow> bool" where "ConsoleDevice_isReady d = True"

section \<open>The network device\<close>

record network_device =
  nd_capacity :: nat
  nd_buffer :: "register_value list"

definition NETWORK_DEVICE_ID :: device_id where "NETWORK_DEVICE_ID = 2"

definition NetworkDevice_new :: "nat \<Rightarrow> network_device" where
  "NetworkDevice_new bufferCapacity = \<lparr>nd_capacity = bufferCapacity, nd_buffer = []\<rparr>"

definition NetworkDevice_id :: "network_device \<Rightarrow> device_id" where "NetworkDevice_id d = NETWORK_DEVICE_ID"
definition NetworkDevice_name :: "network_device \<Rightarrow> string" where "NetworkDevice_name d = ''Network''"

definition NetworkDevice_read :: "network_device \<Rightarrow> network_device \<times> register_value result" where
  "NetworkDevice_read d =
     (case nd_buffer d of
        [] \<Rightarrow> (d, Error BufferEmpty)
      | value # rest \<Rightarrow> (d\<lparr>nd_buffer := rest\<rparr>, Ok value))"

definition NetworkDevice_write :: "network_device \<Rightarrow> register_value \<Rightarrow> network_device \<times> unit result" where
  "NetworkDevice_write d value =
     (if nd_capacity d \<le> length (nd_buffer d) then (d, Error BufferFull)
      else (d\<lparr>nd_buffer := nd_buffer d @ [value]\<rparr>, Ok ()))"

definition NetworkDevice_isReady :: "network_device \<Rightarrow> bool" where
  "NetworkDevice_isReady d \<longleftrightarrow> length (nd_buffer d) < nd_capacity d"

definition NetworkDevice_bufferSize :: "network_device \<Rightarrow> nat" where "NetworkDevice_bufferSize d = length (nd_buffer d)"
definition NetworkDevice_hasData :: "network_device \<Rightarrow> bool" where "NetworkDevice_hasData d \<longleftrightarrow> nd_buffer d \<noteq> []"

section \<open>Any device\<close>

datatype device = Console console_device | Network network_device

fun device_id_of :: "device \<Rightarrow> device_id" where
  "device_id_of (Console d) = ConsoleDevice_id d"
| "device_id_of (Network d) = NetworkDevice_id d"

fun device_read :: "device \<Rightarrow> device \<times> register_value result" where
  "device_read (Console d) = (case ConsoleDevice_read d of (d1, r) \<Rightarrow> (Console d1, r))"
| "device_read (Network d) = (case NetworkDevice_read d of (d1, r) \<Rightarrow> (Network d1, r))"

fun device_write :: "device \<Rightarrow> register_value \<Rightarrow> device \<times> unit result" where
  "device_write (Console d) v = (case ConsoleDevice_write d v of (d1, r) \<Rightarrow> (Console d1, r))"
| "device_write (Network d) v = (case NetworkDevice_write d v of (d1, r) \<Rightarrow> (Network d1, r))"

fun device_isReady :: "device \<Rightarrow> bool" where
  "device_isReady (Console d) = ConsoleDevice_isReady d"
| "device_isReady (Network d) = NetworkDevice_isReady d"

section \<open>The manager\<close>

record device_manager =
  dm_devices :: "device list"
  dm_deviceLocks :: "device_id set"

definition DeviceManager_new :: device_manager where
  "DeviceManager_new = \<lparr>dm_devices = [], dm_deviceLocks = {}\<rparr>"

definition findDevice :: "device_manager \<Rightarrow> device_id \<Rightarrow> device option" where
  "findDevice m i = find (\<lambda>d. device_id_of d = i) (dm_devices m)"

text \<open>The device of an id with its lock, which is made when it is missing.\<close>

definition lockableDevice :: "device_manager \<Rightarrow> device_id \<Rightarrow> device_manager \<times> device option" where
  "lockableDevice m i =
     (case findDevice m i of
        None \<Rightarrow> (m, None)
      | Some d \<Rightarrow> (m\<lparr>dm_deviceLocks := insert i (dm_deviceLocks m)\<rparr>, Some d))"

definition DeviceManager_registerDevice :: "device_manager \<Rightarrow> device option \<Rightarrow> device_manager \<times> unit result" where
  "DeviceManager_registerDevice m device =
     (case device of
        None \<Rightarrow> (m, Error InvalidArgument)
      | Some d \<Rightarrow>
          if findDevice m (device_id_of d) \<noteq> None then (m, Error AlreadyExists)
          else (m\<lparr>dm_devices := dm_devices m @ [d], dm_deviceLocks := insert (device_id_of d) (dm_deviceLocks m)\<rparr>, Ok ()))"

fun erase_device :: "device_id \<Rightarrow> device list \<Rightarrow> device list" where
  "erase_device i [] = []"
| "erase_device i (d # ds) = (if device_id_of d = i then ds else d # erase_device i ds)"

definition DeviceManager_unregisterDevice :: "device_manager \<Rightarrow> device_id \<Rightarrow> device_manager \<times> unit result" where
  "DeviceManager_unregisterDevice m i =
     (if findDevice m i = None then (m, Error NotFound)
      else (m\<lparr>dm_devices := erase_device i (dm_devices m), dm_deviceLocks := dm_deviceLocks m - {i}\<rparr>, Ok ()))"

definition DeviceManager_getDevice :: "device_manager \<Rightarrow> device_id \<Rightarrow> device option" where
  "DeviceManager_getDevice m i = findDevice m i"

text \<open>A call on the device of an id changes the device in place.\<close>

fun store_device :: "device \<Rightarrow> device list \<Rightarrow> device list" where
  "store_device d1 [] = []"
| "store_device d1 (d # ds) = (if device_id_of d = device_id_of d1 then d1 # ds else d # store_device d1 ds)"

definition DeviceManager_write :: "device_manager \<Rightarrow> device_id \<Rightarrow> register_value \<Rightarrow> device_manager \<times> unit result" where
  "DeviceManager_write m i value =
     (case lockableDevice m i of
        (m1, None) \<Rightarrow> (m1, Error NotFound)
      | (m1, Some d) \<Rightarrow>
          if \<not> device_isReady d then (m1, Error DeviceError)
          else case device_write d value of (d1, r) \<Rightarrow> (m1\<lparr>dm_devices := store_device d1 (dm_devices m1)\<rparr>, r))"

definition DeviceManager_read :: "device_manager \<Rightarrow> device_id \<Rightarrow> device_manager \<times> register_value result" where
  "DeviceManager_read m i =
     (case lockableDevice m i of
        (m1, None) \<Rightarrow> (m1, Error NotFound)
      | (m1, Some d) \<Rightarrow>
          if \<not> device_isReady d then (m1, Error DeviceError)
          else case device_read d of (d1, r) \<Rightarrow> (m1\<lparr>dm_devices := store_device d1 (dm_devices m1)\<rparr>, r))"

definition DeviceManager_deviceCount :: "device_manager \<Rightarrow> nat" where
  "DeviceManager_deviceCount m = length (dm_devices m)"

definition DeviceManager_hasDevice :: "device_manager \<Rightarrow> device_id \<Rightarrow> bool" where
  "DeviceManager_hasDevice m i \<longleftrightarrow> findDevice m i \<noteq> None"

section \<open>The contract of a device call\<close>

text \<open>
  The manager relies on one law of a call on a device: it keeps the identity of the device. Then the registry keeps its
  ids, the called device is replaced and no other device is touched.
\<close>

locale device_call =
  fixes call :: "device \<Rightarrow> device \<times> 'r result"
  assumes call_id: "device_id_of (fst (call d)) = device_id_of d"
begin

lemma call_ids: "map device_id_of (store_device (fst (call d)) ds) = map device_id_of ds"
  by (induction ds) (auto simp: call_id)

lemma call_found:
  assumes "find (\<lambda>d. device_id_of d = i) ds = Some d"
  shows "find (\<lambda>d. device_id_of d = j) (store_device (fst (call d)) ds) = (if j = i then Some (fst (call d)) else find (\<lambda>d. device_id_of d = j) ds)"
proof -
  have d: "device_id_of (fst (call d)) = i" using assms by (auto simp: call_id find_Some_iff)
  show ?thesis using assms
  proof (induction ds)
    case (Cons e es)
    then show ?case by (cases "device_id_of e = i") (auto simp: d)
  qed simp
qed

end

interpretation dev_read: device_call device_read
proof
  show "device_id_of (fst (device_read d)) = device_id_of d" for d
    by (cases d) (auto simp: ConsoleDevice_read_def NetworkDevice_read_def ConsoleDevice_id_def NetworkDevice_id_def split: list.splits)
qed

interpretation dev_write: device_call "\<lambda>d. device_write d v" for v
proof
  show "device_id_of (fst (device_write d v)) = device_id_of d" for d
    by (cases d) (auto simp: ConsoleDevice_write_def NetworkDevice_write_def ConsoleDevice_id_def NetworkDevice_id_def)
qed

section \<open>Invariant and views\<close>

definition dm_inv :: "device_manager \<Rightarrow> bool" where
  "dm_inv m \<longleftrightarrow> distinct (map device_id_of (dm_devices m)) \<and> dm_deviceLocks m = device_id_of ` set (dm_devices m)"

lemma findDevice_None: "findDevice m i = None \<longleftrightarrow> i \<notin> device_id_of ` set (dm_devices m)"
  by (auto simp: findDevice_def find_None_iff)

lemma findDevice_id: "findDevice m i = Some d \<Longrightarrow> device_id_of d = i \<and> d \<in> set (dm_devices m)"
  by (auto simp: findDevice_def find_Some_iff)

lemma lockable_view:
  assumes "dm_inv m"
  shows "lockableDevice m i = (m, findDevice m i)"
proof (cases "findDevice m i")
  case (Some d)
  then have "insert i (dm_deviceLocks m) = dm_deviceLocks m" using assms findDevice_id [OF Some] by (auto simp: dm_inv_def)
  then show ?thesis using Some by (simp add: lockableDevice_def)
qed (simp add: lockableDevice_def)

lemma ids_inv: "dm_inv m \<Longrightarrow> map device_id_of ds = map device_id_of (dm_devices m) \<Longrightarrow> dm_inv (m\<lparr>dm_devices := ds\<rparr>)"
  unfolding dm_inv_def by (metis (no_types, lifting) device_manager.select_convs(1,2) device_manager.surjective device_manager.update_convs(1) list.set_map)

text \<open>What the manager does on a device it can call.\<close>

lemma manager_write:
  assumes "dm_inv m" "findDevice m i = Some d"
  shows "snd (DeviceManager_write m i v) = (if device_isReady d then snd (device_write d v) else Error DeviceError)"
    "dm_inv (fst (DeviceManager_write m i v))"
    "findDevice (fst (DeviceManager_write m i v)) j = (if j = i \<and> device_isReady d then Some (fst (device_write d v)) else findDevice m j)"
proof -
  have w: "DeviceManager_write m i v = (if \<not> device_isReady d then (m, Error DeviceError)
      else (m\<lparr>dm_devices := store_device (fst (device_write d v)) (dm_devices m)\<rparr>, snd (device_write d v)))"
    using assms by (simp add: DeviceManager_write_def lockable_view split_beta)
  show "snd (DeviceManager_write m i v) = (if device_isReady d then snd (device_write d v) else Error DeviceError)" by (simp add: w)
  show "dm_inv (fst (DeviceManager_write m i v))" using assms(1) by (simp add: w ids_inv dev_write.call_ids)
  show "findDevice (fst (DeviceManager_write m i v)) j = (if j = i \<and> device_isReady d then Some (fst (device_write d v)) else findDevice m j)"
    using dev_write.call_found [of i "dm_devices m" d j v] assms(2) by (auto simp: w findDevice_def)
qed

lemma manager_read:
  assumes "dm_inv m" "findDevice m i = Some d"
  shows "snd (DeviceManager_read m i) = (if device_isReady d then snd (device_read d) else Error DeviceError)"
    "dm_inv (fst (DeviceManager_read m i))"
    "findDevice (fst (DeviceManager_read m i)) j = (if j = i \<and> device_isReady d then Some (fst (device_read d)) else findDevice m j)"
proof -
  have r: "DeviceManager_read m i = (if \<not> device_isReady d then (m, Error DeviceError)
      else (m\<lparr>dm_devices := store_device (fst (device_read d)) (dm_devices m)\<rparr>, snd (device_read d)))"
    using assms by (simp add: DeviceManager_read_def lockable_view split_beta)
  show "snd (DeviceManager_read m i) = (if device_isReady d then snd (device_read d) else Error DeviceError)" by (simp add: r)
  show "dm_inv (fst (DeviceManager_read m i))" using assms(1) by (simp add: r ids_inv dev_read.call_ids)
  show "findDevice (fst (DeviceManager_read m i)) j = (if j = i \<and> device_isReady d then Some (fst (device_read d)) else findDevice m j)"
    using dev_read.call_found [of i "dm_devices m" d j] assms(2) by (auto simp: r findDevice_def)
qed

lemma manager_missing:
  assumes "dm_inv m" "findDevice m i = None"
  shows "DeviceManager_write m i v = (m, Error NotFound)" "DeviceManager_read m i = (m, Error NotFound)"
  using assms by (simp_all add: DeviceManager_write_def DeviceManager_read_def lockable_view)


section \<open>Sequences of calls\<close>

datatype dev_op = DevWrite device_id register_value | DevRead device_id | DevRegister "device option" | DevUnregister device_id

fun dev_exec :: "dev_op \<Rightarrow> device_manager \<Rightarrow> device_manager" where
  "dev_exec (DevWrite i v) m = fst (DeviceManager_write m i v)"
| "dev_exec (DevRead i) m = fst (DeviceManager_read m i)"
| "dev_exec (DevRegister d) m = fst (DeviceManager_registerDevice m d)"
| "dev_exec (DevUnregister i) m = fst (DeviceManager_unregisterDevice m i)"

lemma erase_device_ids: "distinct (map device_id_of ds) \<Longrightarrow> device_id_of ` set (erase_device i ds) = device_id_of ` set ds - {i}"
proof (induction ds)
  case (Cons d ds)
  then show ?case by (cases "device_id_of d = i") (simp_all add: insert_Diff_if)
qed simp

lemma erase_device_distinct: "distinct (map device_id_of ds) \<Longrightarrow> distinct (map device_id_of (erase_device i ds))"
proof (induction ds)
  case (Cons d ds)
  then show ?case using erase_device_ids [of ds i] by auto
qed simp

lemma erase_device_find:
  "distinct (map device_id_of ds) \<Longrightarrow> find (\<lambda>d. device_id_of d = j) (erase_device i ds) = (if j = i then None else find (\<lambda>d. device_id_of d = j) ds)"
proof (induction ds)
  case (Cons d ds)
  then show ?case by (cases "device_id_of d = i") (auto simp: find_None_iff rev_image_eqI)
qed simp

lemma dm_register_inv: "dm_inv m \<Longrightarrow> dm_inv (fst (DeviceManager_registerDevice m d))"
  by (cases d) (auto simp: DeviceManager_registerDevice_def dm_inv_def findDevice_None)

lemma unregister_inv: "dm_inv m \<Longrightarrow> dm_inv (fst (DeviceManager_unregisterDevice m i))"
  by (simp add: DeviceManager_unregisterDevice_def dm_inv_def erase_device_ids erase_device_distinct)

lemma dev_exec_inv: "dm_inv m \<Longrightarrow> dm_inv (dev_exec oper m)"
proof (induction oper m rule: dev_exec.induct)
  case (1 i v m)
  then show ?case by (cases "findDevice m i") (simp_all add: manager_missing manager_write(2))
next
  case (2 i m)
  then show ?case by (cases "findDevice m i") (simp_all add: manager_missing manager_read(2))
qed (simp_all add: dm_register_inv unregister_inv)

lemma dev_run_inv: "dm_inv m \<Longrightarrow> dm_inv (fold dev_exec ops m)"
  by (induction ops arbitrary: m) (simp_all add: dev_exec_inv)

lemma dm_new_inv: "dm_inv DeviceManager_new"
  by (simp add: dm_inv_def DeviceManager_new_def)

text \<open>
  What has been accepted by and what has been read from the network device in a sequence of calls, as the results report.
\<close>

fun net_log :: "dev_op list \<Rightarrow> device_manager \<Rightarrow> register_value list \<times> register_value list" where
  "net_log [] m = ([], [])"
| "net_log (oper # ops) m =
     (case net_log ops (dev_exec oper m) of
        (sent, got) \<Rightarrow>
          (case oper of
             DevWrite i v \<Rightarrow> if i = NETWORK_DEVICE_ID \<and> isOk (snd (DeviceManager_write m i v)) then (v # sent, got) else (sent, got)
           | DevRead i \<Rightarrow> (case snd (DeviceManager_read m i) of
                             Ok v \<Rightarrow> if i = NETWORK_DEVICE_ID then (sent, v # got) else (sent, got)
                           | Error e \<Rightarrow> (sent, got))
           | _ \<Rightarrow> (sent, got)))"

text \<open>Calls that leave the network device registered.\<close>

fun keeps_network :: "dev_op \<Rightarrow> bool" where
  "keeps_network (DevUnregister i) \<longleftrightarrow> i \<noteq> NETWORK_DEVICE_ID"
| "keeps_network _ \<longleftrightarrow> True"

lemma network_other [simp]: "ConsoleDevice_id c \<noteq> NETWORK_DEVICE_ID" "NetworkDevice_id d = NETWORK_DEVICE_ID"
  by (simp_all add: ConsoleDevice_id_def NetworkDevice_id_def CONSOLE_DEVICE_ID_def NETWORK_DEVICE_ID_def)

lemma find_snoc: "find P xs = Some x \<Longrightarrow> find P (xs @ ys) = Some x"
  by (induction xs) auto

text \<open>One call: the device stays, and what it accepts and hands out are the end and the front of its buffer.\<close>

lemma net_call:
  assumes i: "dm_inv m" and n: "findDevice m NETWORK_DEVICE_ID = Some (Network n)" and k: "keeps_network oper" and l: "net_log [oper] m = (sent, got)"
    and b: "length (nd_buffer n) \<le> nd_capacity n"
  shows "\<exists>n'. findDevice (dev_exec oper m) NETWORK_DEVICE_ID = Some (Network n') \<and> nd_capacity n' = nd_capacity n
    \<and> nd_buffer n @ sent = got @ nd_buffer n' \<and> length (nd_buffer n') \<le> nd_capacity n'"
proof (cases oper)
  case (DevWrite i v)
  show ?thesis
  proof (cases "i = NETWORK_DEVICE_ID")
    case True
    then show ?thesis using DevWrite l b n manager_write(1,3) [OF \<open>dm_inv m\<close> n, of v]
      by (auto simp: NetworkDevice_isReady_def NetworkDevice_write_def split: if_splits)
  next
    case False
    then show ?thesis using DevWrite l b n manager_missing(1) [OF \<open>dm_inv m\<close>, of i v] manager_write(3) [OF \<open>dm_inv m\<close>, of i _ v]
      by (cases "findDevice m i") auto
  qed
next
  case (DevRead i)
  show ?thesis
  proof (cases "i = NETWORK_DEVICE_ID")
    case True
    then show ?thesis using DevRead l b n manager_read(1,3) [OF \<open>dm_inv m\<close> n]
      by (auto simp: NetworkDevice_isReady_def NetworkDevice_read_def split: if_splits list.splits)
  next
    case False
    then show ?thesis using DevRead l b n manager_missing(2) [OF \<open>dm_inv m\<close>, of i] manager_read(3) [OF \<open>dm_inv m\<close>, of i]
      by (cases "findDevice m i") (auto split: result.splits)
  qed
next
  case (DevRegister d)
  have "findDevice (dev_exec oper m) NETWORK_DEVICE_ID = Some (Network n)"
    using n DevRegister find_snoc by (cases d) (auto simp: DeviceManager_registerDevice_def findDevice_def)
  then show ?thesis using DevRegister l b by auto
next
  case (DevUnregister i)
  then have "findDevice (dev_exec oper m) NETWORK_DEVICE_ID = Some (Network n)"
    using n k i by (auto simp: DeviceManager_unregisterDevice_def findDevice_def dm_inv_def erase_device_find)
  then show ?thesis using DevUnregister l b by auto
qed

lemma net_log_append: "net_log (oper # ops) m = (case net_log [oper] m of (s1, g1) \<Rightarrow> case net_log ops (dev_exec oper m) of (s2, g2) \<Rightarrow> (s1 @ s2, g1 @ g2))"
  by (cases "net_log ops (dev_exec oper m)") (auto split: dev_op.splits result.splits)

section \<open>Properties\<close>

text \<open>
  C37: The network device is a queue. In any sequence of calls of the device manager that leaves the network device
  registered, the values it accepted are the values that were read from it followed by the values in its buffer: nothing is
  lost, duplicated or reordered, and the buffer never exceeds its capacity.
\<close>

theorem network_loopback:
  assumes "dm_inv m" "findDevice m NETWORK_DEVICE_ID = Some (Network (NetworkDevice_new capacity))" "\<forall>oper \<in> set ops. keeps_network oper"
    and "net_log ops m = (sent, got)"
  shows "\<exists>n. findDevice (fold dev_exec ops m) NETWORK_DEVICE_ID = Some (Network n) \<and> nd_capacity n = capacity
    \<and> sent = got @ nd_buffer n \<and> length (nd_buffer n) \<le> capacity"
proof -
  have "\<exists>n'. findDevice (fold dev_exec ops m) NETWORK_DEVICE_ID = Some (Network n') \<and> nd_capacity n' = nd_capacity n
      \<and> nd_buffer n @ sent = got @ nd_buffer n' \<and> length (nd_buffer n') \<le> nd_capacity n'"
    if "dm_inv m" "findDevice m NETWORK_DEVICE_ID = Some (Network n)" "\<forall>oper \<in> set ops. keeps_network oper" "net_log ops m = (sent, got)"
      "length (nd_buffer n) \<le> nd_capacity n" for m n sent got
    using that
  proof (induction ops arbitrary: m n sent got)
    case (Cons oper ops)
    obtain s1 g1 s2 g2 where l: "net_log [oper] m = (s1, g1)" "net_log ops (dev_exec oper m) = (s2, g2)" by fastforce
    then have sg: "sent = s1 @ s2" "got = g1 @ g2" using Cons.prems(4) net_log_append [of oper ops m] by (simp_all only: prod.case prod.inject)
    obtain n1 where n1: "findDevice (dev_exec oper m) NETWORK_DEVICE_ID = Some (Network n1)" "nd_capacity n1 = nd_capacity n"
      "nd_buffer n @ s1 = g1 @ nd_buffer n1" "length (nd_buffer n1) \<le> nd_capacity n1"
      using net_call [OF Cons.prems(1,2) _ l(1) Cons.prems(5)] Cons.prems(3) by auto
    obtain n2 where n2: "findDevice (fold dev_exec ops (dev_exec oper m)) NETWORK_DEVICE_ID = Some (Network n2)" "nd_capacity n2 = nd_capacity n1"
      "nd_buffer n1 @ s2 = g2 @ nd_buffer n2" "length (nd_buffer n2) \<le> nd_capacity n2"
      using Cons.IH [OF dev_exec_inv [OF Cons.prems(1)] n1(1) _ l(2) n1(4)] Cons.prems(3) by auto
    have "nd_buffer n @ sent = got @ nd_buffer n2" unfolding sg using n1(3) n2(3) by (metis append.assoc)
    then show ?case using n2 n1(2) by auto
  qed auto
  from this [OF assms(1,2,3,4)] show ?thesis by (auto simp: NetworkDevice_new_def)
qed

definition demo_dm :: device_manager where
  "demo_dm = fst (DeviceManager_registerDevice (fst (DeviceManager_registerDevice DeviceManager_new (Some (Console ConsoleDevice_new))))
     (Some (Network (NetworkDevice_new 3))))"

lemma demo_dm_inv: "dm_inv demo_dm"
  by (simp add: demo_dm_def dm_register_inv dm_new_inv)

theorem network_loopback_witness:
  "\<exists>n. findDevice (fold dev_exec [DevWrite 2 5, DevWrite 2 6, DevRead 2, DevWrite 1 65] demo_dm) NETWORK_DEVICE_ID = Some (Network n)
     \<and> nd_buffer n = [6]"
proof -
  have "net_log [DevWrite 2 5, DevWrite 2 6, DevRead 2, DevWrite 1 65] demo_dm = ([5, 6], [5])"
    "findDevice demo_dm NETWORK_DEVICE_ID = Some (Network (NetworkDevice_new 3))" by code_simp+
  from network_loopback [OF demo_dm_inv this(2) _ this(1)] show ?thesis by auto
qed

text \<open>
  C38: A full network device is stuck. The manager asks a device whether it is ready before a read as well as before a
  write, and the network device is ready only while its buffer has room; so once the buffer is full, every read and write
  through the manager fails with \<^verbatim>\<open>DeviceError\<close> and leaves it full, whatever the sequence of calls that keeps it registered.
\<close>

theorem full_network_stuck:
  assumes "dm_inv m" "findDevice m NETWORK_DEVICE_ID = Some (Network n)" "length (nd_buffer n) = nd_capacity n" "\<forall>oper \<in> set ops. keeps_network oper"
  shows "findDevice (fold dev_exec ops m) NETWORK_DEVICE_ID = Some (Network n)
    \<and> snd (DeviceManager_read (fold dev_exec ops m) NETWORK_DEVICE_ID) = Error DeviceError
    \<and> snd (DeviceManager_write (fold dev_exec ops m) NETWORK_DEVICE_ID v) = Error DeviceError"
proof -
  have stuck: "snd (DeviceManager_read m NETWORK_DEVICE_ID) = Error DeviceError" "snd (DeviceManager_write m NETWORK_DEVICE_ID v) = Error DeviceError"
    if "dm_inv m" "findDevice m NETWORK_DEVICE_ID = Some (Network n)" for m v
    using manager_read(1) [OF that] manager_write(1) [OF that] assms(3) by (simp_all add: NetworkDevice_isReady_def)
  have "findDevice (fold dev_exec ops m) NETWORK_DEVICE_ID = Some (Network n)"
    if "dm_inv m" "findDevice m NETWORK_DEVICE_ID = Some (Network n)" "\<forall>oper \<in> set ops. keeps_network oper" for m
    using that
  proof (induction ops arbitrary: m)
    case (Cons oper ops)
    have log: "net_log [oper] m = ([], [])" using stuck [OF Cons.prems(1,2)] by (auto split: dev_op.splits result.splits)
    obtain n' where "findDevice (dev_exec oper m) NETWORK_DEVICE_ID = Some (Network n')" "nd_capacity n' = nd_capacity n" "nd_buffer n' = nd_buffer n"
      using net_call [OF Cons.prems(1,2) _ log] Cons.prems(3) assms(3) by auto
    then show ?case using Cons.IH [OF dev_exec_inv [OF Cons.prems(1)]] Cons.prems(3) by simp
  qed simp
  from this [OF assms(1,2,4)] show ?thesis using stuck dev_run_inv [OF assms(1)] by blast
qed

theorem full_network_stuck_witness:
  "snd (DeviceManager_read (fold dev_exec [DevRead 2, DevWrite 2 9] (fold dev_exec [DevWrite 2 1, DevWrite 2 2, DevWrite 2 3] demo_dm)) NETWORK_DEVICE_ID) = Error DeviceError"
proof -
  let ?m = "fold dev_exec [DevWrite 2 1, DevWrite 2 2, DevWrite 2 3] demo_dm"
  have f: "findDevice ?m NETWORK_DEVICE_ID = Some (Network \<lparr>nd_capacity = 3, nd_buffer = [1, 2, 3]\<rparr>)" by code_simp
  show ?thesis using full_network_stuck [OF dev_run_inv [OF demo_dm_inv] f, of "[DevRead 2, DevWrite 2 9]"] by simp
qed

end
