(* ===== verification/Tui_App.thy ===== *)
theory Tui_App
  imports Tui Devices Tracing
begin

text \<open>
  The interactive application and the off-screen renderer: \<^verbatim>\<open>tui/ftxui_app.cpp\<close> and \<^verbatim>\<open>tui/ftxui_renderer.cpp\<close>. A view is
  the tree of calls the code makes on the FTXUI library (texts, boxes, windows and their decorations); how the library paints
  such a tree is a parameter of the renderer. Strings are the bytes of their UTF-8 encoding, since \<^verbatim>\<open>std::string::size\<close> counts
  bytes. The event loop and the timer thread of \<^verbatim>\<open>run\<close> are steps that may follow each other in any order; each runs
  undisturbed, which the code does not ensure (it takes no lock).
\<close>

section \<open>View trees\<close>

datatype color = Blue | Cyan | GrayDark | GrayLight | Green | Magenta | Red | White | Yellow

datatype decorator = Bold | Dim | Color color | Border | Flex | XFlex

datatype element = Text string | Separator | HBox "element list" | VBox "element list" | Window element element | Decorate decorator element

definition styled :: "decorator list \<Rightarrow> element \<Rightarrow> element" where
  "styled ds e = fold Decorate ds e"

text \<open>UTF-8 of an em dash, an ellipsis, a horizontal line, and of the symbols for playing, paused and stopped.\<close>

definition em_dash :: string where "em_dash = [CHR 0xE2, CHR 0x80, CHR 0x94]"
definition ellipsis :: string where "ellipsis = [CHR 0xE2, CHR 0x80, CHR 0xA6]"
definition h_line :: string where "h_line = [CHR 0xE2, CHR 0x94, CHR 0x80]"
definition play_sign :: string where "play_sign = [CHR 0xE2, CHR 0x96, CHR 0xB6]"
definition pause_sign :: string where "pause_sign = [CHR 0xE2, CHR 0x8F, CHR 0xB8]"
definition stop_sign :: string where "stop_sign = [CHR 0xE2, CHR 0x96, CHR 0xA0]"

definition kVisibleKernelLogRows :: nat where "kVisibleKernelLogRows = 5"

fun stateColorApp :: "process_state \<Rightarrow> color" where
  "stateColorApp Running = Green"
| "stateColorApp Ready = Cyan"
| "stateColorApp Blocked = Yellow"
| "stateColorApp Suspended = Magenta"
| "stateColorApp Terminated = Red"
| "stateColorApp New = White"

text \<open>The loop over the shown ids, with the separator before all but the first.\<close>

fun joined :: "string \<Rightarrow> string list \<Rightarrow> string" where
  "joined sep [] = []"
| "joined sep [s] = s"
| "joined sep (s # t # ts) = s @ sep @ joined sep (t # ts)"

definition pidList :: "process_id list \<Rightarrow> nat \<Rightarrow> string" where
  "pidList pids mx =
     (if pids = [] then em_dash
      else ''['' @ joined '','' (map (\<lambda>p. to_string (unat p)) (take mx pids))
        @ (if length pids > mx then '','' @ ellipsis @ ''+'' @ to_string (length pids - mx) else []) @ '']'')"

function padRight :: "string \<Rightarrow> nat \<Rightarrow> string" where
  "padRight s w = (if length s < w then padRight (s @ '' '') w else s)"
  by pat_completeness auto

termination by (relation "measure (\<lambda>(s, w). w - length s)") auto

function padLeft :: "string \<Rightarrow> nat \<Rightarrow> string" where
  "padLeft s w = (if length s < w then padLeft ('' '' @ s) w else s)"
  by pat_completeness auto

termination by (relation "measure (\<lambda>(s, w). w - length s)") auto

declare padRight.simps [simp del] padLeft.simps [simp del]

definition headerBlock :: "string \<Rightarrow> element" where
  "headerBlock value = Text (''  '' @ value @ ''  '')"

definition headerCell :: "string \<Rightarrow> string \<Rightarrow> color \<Rightarrow> bool \<Rightarrow> element" where
  "headerCell label value valueColor valueBold =
     HBox [styled [Bold] (Text (''  '' @ label @ '' '')), styled (Color valueColor # (if valueBold then [Bold] else [])) (Text value), Text ''  '']"

section \<open>The panels of the application\<close>

definition policy_text :: "tui_snapshot \<Rightarrow> string" where
  "policy_text shot = (if ts_policyName (snap_scheduler shot) = [] then em_dash else ts_policyName (snap_scheduler shot))"

fun state_label :: "tui_controller_state \<Rightarrow> string \<times> color" where
  "state_label Playing = (play_sign @ '' PLAYING'', Green)"
| "state_label Paused = (pause_sign @ '' PAUSED'', Yellow)"
| "state_label tui_controller_state.Idle = (stop_sign @ '' IDLE'', GrayLight)"

definition buildHeaderBar :: "tui_snapshot \<Rightarrow> tui_controller_state \<Rightarrow> 32 word \<Rightarrow> element" where
  "buildHeaderBar shot ctrlState intervalMs =
     styled [Border] (HBox
       [styled [Bold, Color Blue] (headerBlock ''CONTUR2 OS Simulator''), Separator,
        headerCell ''Tick:'' (to_string (unat (snap_currentTick shot))) Cyan True, Separator,
        headerCell ''Policy:'' (policy_text shot) White False, Separator,
        headerCell ''Procs:'' (to_string (snap_processCount shot)) White False, Separator,
        headerCell ''Speed:'' (to_string (unat intervalMs) @ ''ms'') GrayLight False, Separator,
        styled [Color (snd (state_label ctrlState)), Bold] (headerBlock (fst (state_label ctrlState)))])"

text \<open>The names of the levels in \<^verbatim>\<open>process/priority.h\<close>.\<close>

fun priorityLevelName :: "priority_level \<Rightarrow> string" where
  "priorityLevelName Realtime = ''Realtime''"
| "priorityLevelName High = ''High''"
| "priorityLevelName AboveNormal = ''AboveNormal''"
| "priorityLevelName Normal = ''Normal''"
| "priorityLevelName BelowNormal = ''BelowNormal''"
| "priorityLevelName Low = ''Low''"
| "priorityLevelName priority_level.Idle = ''Idle''"

definition table_header :: "string list" where
  "table_header = [padRight '' PID'' 5, padRight '' Name'' 16, padRight '' State'' 11, padRight '' Priority'' 12, padLeft ''Nice'' 5, padLeft ''CPU'' 6]"

definition table_cells :: "tui_process_snapshot \<Rightarrow> string list" where
  "table_cells p =
     [padRight ('' '' @ to_string (unat (tp_id p))) 5, padRight ('' '' @ take 14 (tp_name p)) 16,
      padRight ('' '' @ processStateName (tp_state p)) 11, padRight ('' '' @ priorityLevelName (tp_effectivePriority p)) 12,
      padLeft (int_text (sint (tp_nice p))) 5, padLeft (to_string (unat (tp_cpuTime p))) 6]"

text \<open>A row of the table: styled texts with separators between them.\<close>

fun separated :: "element list \<Rightarrow> element list" where
  "separated [] = []"
| "separated [e] = [e]"
| "separated (e # f # es) = e # Separator # separated (f # es)"

definition table_row :: "tui_process_snapshot \<Rightarrow> element" where
  "table_row p = HBox (separated (map2 (\<lambda>c s. styled [Color c] (Text s)) [White, White, stateColorApp (tp_state p), White, White, White] (table_cells p)))"

definition buildProcessTable :: "tui_snapshot \<Rightarrow> element" where
  "buildProcessTable shot =
     styled [Flex] (Window (Text (h_line @ '' PROCESSES ('' @ to_string (snap_processCount shot) @ '') ''))
       (VBox ([HBox (separated (map (\<lambda>s. styled [Bold] (Text s)) table_header)), Separator]
          @ (if snap_processes shot = [] then [styled [Dim] (Text ''  (no processes)'')] else []) @ map table_row (snap_processes shot))))"

definition lane_rows :: "(process_id list \<Rightarrow> string) \<Rightarrow> tui_scheduler_snapshot \<Rightarrow> element list" where
  "lane_rows pids s =
     (if ts_perLaneReadyQueues s = [] then []
      else [Separator, styled [Bold, Dim] (Text ''Per-lane:'')]
        @ map (\<lambda>(i, q). HBox [styled [Dim] (Text (''  Lane '' @ to_string i @ '': '')), styled [Dim] (Text (pids q))])
            (enumerate 0 (ts_perLaneReadyQueues s)))"

definition buildSchedulerPanel :: "tui_snapshot \<Rightarrow> element" where
  "buildSchedulerPanel shot =
     (let s = snap_scheduler shot in
      styled [Flex] (Window (Text (h_line @ '' SCHEDULER ''))
        (VBox ([HBox [styled [Bold] (Text ''Policy:  ''), styled [Color Cyan] (Text (policy_text shot))], Separator,
           HBox [styled [Bold, Color Green] (Text ''Running:  ''), styled [Color Green] (Text (pidList (ts_runningQueue s) 6))],
           HBox [styled [Bold, Color Cyan] (Text ''Ready:    ''),
             styled [Color Cyan] (Text (pidList (ts_readyQueue s) 6 @ '' ('' @ to_string (ts_readyCount s) @ '')''))],
           HBox [styled [Bold, Color Yellow] (Text ''Blocked:  ''),
             styled [Color Yellow] (Text (pidList (ts_blockedQueue s) 6 @ '' ('' @ to_string (ts_blockedCount s) @ '')''))]]
          @ lane_rows (\<lambda>q. pidList q 6) s))))"

definition used_slots :: "tui_memory_snapshot \<Rightarrow> nat" where
  "used_slots m = (if tm_totalVirtualSlots m > tm_freeVirtualSlots m then tm_totalVirtualSlots m - tm_freeVirtualSlots m else 0)"

definition used_frames :: "nat \<Rightarrow> tui_memory_snapshot \<Rightarrow> nat" where
  "used_frames frames m = (let free = (case tm_freeFrames m of Some f \<Rightarrow> f | None \<Rightarrow> 0) in if frames > free then frames - free else 0)"

definition usage_filled :: "nat \<Rightarrow> nat \<Rightarrow> nat" where
  "usage_filled usedP frames = usedP * 20 div frames"

definition usage_bar :: "nat \<Rightarrow> nat \<Rightarrow> string" where
  "usage_bar usedP frames = replicate (usage_filled usedP frames) (CHR ''#'') @ replicate (20 - usage_filled usedP frames) (CHR ''.'')"

text \<open>The map of frames, \<open>perRow\<close> frames to a row, up to the row that reaches \<open>limit\<close>.\<close>

definition frame_cell :: "(process_id \<Rightarrow> string) \<Rightarrow> process_id option \<Rightarrow> element" where
  "frame_cell label owner =
     (case owner of Some pid \<Rightarrow> styled [Color Green] (Text (''['' @ label pid @ '']'')) | None \<Rightarrow> styled [Color GrayDark] (Text ''[  ]''))"

function frame_rows :: "nat \<Rightarrow> nat \<Rightarrow> element list \<Rightarrow> element list list" where
  "frame_rows perRow limit es =
     (if 0 < perRow \<and> es \<noteq> [] \<and> 0 < limit then take perRow es # frame_rows perRow (limit - perRow) (drop perRow es) else [])"
  by pat_completeness auto

termination by (relation "measure (\<lambda>(perRow, limit, es). length es)") auto

declare frame_rows.simps [simp del]

definition buildMemoryPanel :: "tui_snapshot \<Rightarrow> element" where
  "buildMemoryPanel shot =
     (let m = snap_memory shot; owners = tm_frameOwners m in
      styled [Flex] (Window (Text (h_line @ '' MEMORY ''))
        (VBox ([HBox [styled [Bold] (Text ''Virtual:  ''),
             styled [Color White] (Text (to_string (used_slots m) @ ''/'' @ to_string (tm_totalVirtualSlots m) @ '' used''))]]
          @ (case tm_totalFrames m of
               None \<Rightarrow> []
             | Some frames \<Rightarrow>
                 [HBox [styled [Bold] (Text ''Physical: ''),
                    styled [Color White] (Text (to_string (used_frames frames m) @ ''/'' @ to_string frames @ '' frames''))]]
                 @ (if frames > 0 then
                      [HBox [styled [Dim] (Text ''[''),
                         styled [Color (if usage_filled (used_frames frames m) frames > 20 * 2 div 3 then Red else Green)] (Text (usage_bar (used_frames frames m) frames)),
                         styled [Dim] (Text '']'')]]
                    else []))
          @ (if owners = [] then []
             else [Separator, styled [Bold, Dim] (Text ''Frames:'')]
               @ map HBox (frame_rows 12 48 (map (frame_cell (\<lambda>pid. padLeft (to_string (unat pid)) 2)) owners))
               @ (if length owners > 48 then [styled [Dim] (Text (''  '' @ ellipsis @ ''+'' @ to_string (length owners - 48) @ '' more''))] else []))))))"

definition history_filled :: "nat \<Rightarrow> nat \<Rightarrow> nat" where
  "history_filled cursor entries = min (if entries > 1 then cursor * 40 div (entries - 1) else 40) 40"

definition history_bar :: "nat \<Rightarrow> nat \<Rightarrow> string" where
  "history_bar cursor entries =
     (let filled = history_filled cursor entries
      in replicate filled (CHR ''='') @ (if filled < 40 then ''>'' else []) @ replicate (40 - filled - 1) (CHR '' ''))"

definition buildHistoryBar :: "nat \<Rightarrow> nat \<Rightarrow> element" where
  "buildHistoryBar cursor entries =
     styled [Border] (HBox
       [styled [Bold] (Text ''  History  [''), styled [Color Cyan] (Text (history_bar cursor entries)), styled [Bold] (Text '']  ''),
        styled [Color White] (Text (to_string (cursor + 1) @ '' / '' @ to_string entries))])"

definition max_log_offset :: "nat \<Rightarrow> nat" where
  "max_log_offset lineCount = (if lineCount > kVisibleKernelLogRows then lineCount - kVisibleKernelLogRows else 0)"

text \<open>First and last index of the log lines in view, and those lines.\<close>

definition log_start :: "nat \<Rightarrow> nat \<Rightarrow> nat" where
  "log_start lineCount offsetFromBottom =
     (if lineCount > kVisibleKernelLogRows then lineCount - kVisibleKernelLogRows - min offsetFromBottom (max_log_offset lineCount) else 0)"

definition log_end :: "nat \<Rightarrow> nat \<Rightarrow> nat" where
  "log_end lineCount offsetFromBottom = min lineCount (log_start lineCount offsetFromBottom + kVisibleKernelLogRows)"

definition visible_logs :: "string list \<Rightarrow> nat \<Rightarrow> string list" where
  "visible_logs lines offsetFromBottom =
     map (\<lambda>i. lines ! i) [log_start (length lines) offsetFromBottom..<log_end (length lines) offsetFromBottom]"

definition buildKernelLogsPanel :: "string list \<Rightarrow> nat \<Rightarrow> element" where
  "buildKernelLogsPanel lines offsetFromBottom =
     (if lines = [] then styled [XFlex] (Window (Text ''- KERNEL LOGS '') (VBox [styled [Dim] (Text ''  (no kernel logs yet)'')]))
      else styled [XFlex] (Window
        (Text (''- KERNEL LOGS '' @ to_string (log_end (length lines) offsetFromBottom) @ ''/'' @ to_string (length lines)
           @ (if min offsetFromBottom (max_log_offset (length lines)) > 0 then '' [SCROLLED]'' else [])))
        (VBox (map (\<lambda>line. styled [Color GrayLight] (Text ('' '' @ line))) (visible_logs lines offsetFromBottom)))))"

definition buildFooter :: element where
  "buildFooter =
     styled [Border] (HBox
       [styled [Bold, Color Green] (headerBlock ''[Space] Play/Pause''), Separator,
        styled [Color Cyan] (headerBlock ''[h][l] Seek''), Separator,
        styled [Color White] (headerBlock ''[t] Tick''), Separator,
        styled [Color GrayLight] (headerBlock ''[j][k] Logs''), Separator,
        styled [Color Yellow] (headerBlock ''[+][-] Speed''), Separator,
        styled [Bold, Color Red] (headerBlock ''[q] Quit'')])"

section \<open>The application\<close>

record 'w ftxui_app_config =
  ac_defaultIntervalMs :: "32 word"
  ac_defaultStep :: nat
  ac_frameIntervalMs :: "32 word"
  ac_minIntervalMs :: "32 word"
  ac_maxIntervalMs :: "32 word"
  ac_logProvider :: "('w \<Rightarrow> string list) option"

record 'w ftxui_app =
  app_cfg :: "'w ftxui_app_config"
  app_currentIntervalMs :: "32 word"
  app_logOffset :: nat
  app_running :: bool

text \<open>The application with the controller it drives and the world behind the controller.\<close>

type_synonym 'w session = "'w ftxui_app \<times> tui_controller \<times> 'w"

definition FtxuiApp_new :: "'w ftxui_app_config \<Rightarrow> 'w ftxui_app" where
  "FtxuiApp_new config = \<lparr>app_cfg = config, app_currentIntervalMs = ac_defaultIntervalMs config, app_logOffset = 0, app_running = False\<rparr>"

definition send :: "'w tick_fn \<Rightarrow> 'w capture_fn \<Rightarrow> tui_command_kind \<Rightarrow> nat \<Rightarrow> 32 word \<Rightarrow> 'w session \<Rightarrow> 'w session" where
  "send tick capture kind step interval s =
     (fst s, fst (TuiController_dispatch tick capture \<lparr>cmd_kind = kind, cmd_step = step, cmd_intervalMs = interval\<rparr> (snd s)))"

definition togglePlay :: "'w tick_fn \<Rightarrow> 'w capture_fn \<Rightarrow> 'w session \<Rightarrow> 'w session" where
  "togglePlay tick capture s =
     (if TuiController_state (fst (snd s)) = Playing then send tick capture Pause 1 (app_currentIntervalMs (fst s)) s
      else send tick capture AutoPlayStart (ac_defaultStep (app_cfg (fst s))) (app_currentIntervalMs (fst s)) s)"

text \<open>Autoplay restarts with the new interval if it is playing.\<close>

definition restart_play :: "'w tick_fn \<Rightarrow> 'w capture_fn \<Rightarrow> 'w session \<Rightarrow> 'w session" where
  "restart_play tick capture s =
     (if TuiController_state (fst (snd s)) = Playing
      then send tick capture AutoPlayStart (ac_defaultStep (app_cfg (fst s))) (app_currentIntervalMs (fst s))
        (send tick capture AutoPlayStop 1 0 s)
      else s)"

definition speedUp :: "'w tick_fn \<Rightarrow> 'w capture_fn \<Rightarrow> 'w session \<Rightarrow> 'w session" where
  "speedUp tick capture s =
     (let app = fst s
      in restart_play tick capture (app\<lparr>app_currentIntervalMs := max (ac_minIntervalMs (app_cfg app)) (app_currentIntervalMs app div 2)\<rparr>, snd s))"

definition speedDown :: "'w tick_fn \<Rightarrow> 'w capture_fn \<Rightarrow> 'w session \<Rightarrow> 'w session" where
  "speedDown tick capture s =
     (let app = fst s
      in restart_play tick capture (app\<lparr>app_currentIntervalMs := min (ac_maxIntervalMs (app_cfg app)) (app_currentIntervalMs app * 2)\<rparr>, snd s))"

definition kernelLogs :: "'w session \<Rightarrow> string list" where
  "kernelLogs s = (case ac_logProvider (app_cfg (fst s)) of None \<Rightarrow> [] | Some provider \<Rightarrow> provider (snd (snd s)))"

definition normalizeKernelLogOffset :: "'w ftxui_app \<Rightarrow> nat \<Rightarrow> 'w ftxui_app" where
  "normalizeKernelLogOffset app totalLogLines = app\<lparr>app_logOffset := min (app_logOffset app) (max_log_offset totalLogLines)\<rparr>"

definition scrollKernelLogsUp :: "'w session \<Rightarrow> 'w session" where
  "scrollKernelLogsUp s =
     (if app_logOffset (fst s) < max_log_offset (length (kernelLogs s)) then ((fst s)\<lparr>app_logOffset := app_logOffset (fst s) + 1\<rparr>, snd s) else s)"

definition scrollKernelLogsDown :: "'w session \<Rightarrow> 'w session" where
  "scrollKernelLogsDown s = (if app_logOffset (fst s) > 0 then ((fst s)\<lparr>app_logOffset := app_logOffset (fst s) - 1\<rparr>, snd s) else s)"

definition buildFrame :: "'w session \<Rightarrow> 'w session \<times> element" where
  "buildFrame s =
     (let c = fst (snd s); shot = TuiController_current c; logs = kernelLogs s; app = normalizeKernelLogOffset (fst s) (length logs)
      in ((app, snd s),
          VBox [buildHeaderBar shot (TuiController_state c) (app_currentIntervalMs app),
            styled [Flex] (HBox [buildProcessTable shot, buildSchedulerPanel shot, buildMemoryPanel shot]),
            buildKernelLogsPanel logs (app_logOffset app),
            buildHistoryBar (TuiController_historyCursor c) (TuiController_historySize c),
            buildFooter]))"

text \<open>The events \<^verbatim>\<open>run\<close> tests for; the handler returns whether it consumed the event.\<close>

datatype ui_event = Character char | Escape | OtherEvent

definition handleEvent :: "'w tick_fn \<Rightarrow> 'w capture_fn \<Rightarrow> ui_event \<Rightarrow> 'w session \<Rightarrow> 'w session \<times> bool" where
  "handleEvent tick capture e s =
     (if e = Character (CHR ''q'') \<or> e = Escape then (((fst s)\<lparr>app_running := False\<rparr>, snd s), True)
      else if e = Character (CHR '' '') \<or> e = Character (CHR ''p'') then (togglePlay tick capture s, True)
      else if e = Character (CHR ''t'') \<or> e = Character (CHR ''n'') then (send tick capture Tick 1 0 s, True)
      else if e = Character (CHR ''h'') then (send tick capture SeekBackward 1 0 s, True)
      else if e = Character (CHR ''l'') then (send tick capture SeekForward 1 0 s, True)
      else if e = Character (CHR ''H'') then (send tick capture SeekBackward 10 0 s, True)
      else if e = Character (CHR ''L'') then (send tick capture SeekForward 10 0 s, True)
      else if e = Character (CHR ''+'') \<or> e = Character (CHR ''='') then (speedUp tick capture s, True)
      else if e = Character (CHR ''-'') \<or> e = Character (CHR ''_'') then (speedDown tick capture s, True)
      else if e = Character (CHR ''k'') then (scrollKernelLogsUp s, True)
      else if e = Character (CHR ''j'') then (scrollKernelLogsDown s, True)
      else (s, False))"

text \<open>One round of the timer thread.\<close>

definition timer_round :: "'w tick_fn \<Rightarrow> 'w capture_fn \<Rightarrow> 'w session \<Rightarrow> 'w session" where
  "timer_round tick capture s =
     (if app_running (fst s)
      then (fst s, fst (TuiController_advanceAutoplay tick capture (ac_frameIntervalMs (app_cfg (fst s))) (snd s)))
      else s)"

definition run_start :: "'w session \<Rightarrow> 'w session" where
  "run_start s = ((fst s)\<lparr>app_running := True\<rparr>, snd s)"

section \<open>The off-screen renderer\<close>

text \<open>Its panels differ from those of the application in texts, widths and limits.\<close>

fun stateColor :: "process_state \<Rightarrow> color" where
  "stateColor Running = Green"
| "stateColor Ready = Cyan"
| "stateColor Blocked = Yellow"
| "stateColor Suspended = Magenta"
| "stateColor Terminated = Red"
| "stateColor New = White"

definition pidListStr :: "process_id list \<Rightarrow> nat \<Rightarrow> string" where
  "pidListStr pids maxShow =
     (if pids = [] then em_dash
      else ''['' @ joined '', '' (map (\<lambda>p. to_string (unat p)) (take maxShow pids))
        @ (if length pids > maxShow then '', +'' @ to_string (length pids - maxShow) @ '' more'' else []) @ '']'')"

definition panel_cells :: "tui_process_snapshot \<Rightarrow> string list" where
  "panel_cells p =
     [padLeft (to_string (unat (tp_id p))) 4, padRight (take 17 (tp_name p)) 17, padRight (processStateName (tp_state p)) 10,
      padRight (priorityLevelName (tp_effectivePriority p)) 11, padLeft (int_text (sint (tp_nice p))) 4, padLeft (to_string (unat (tp_cpuTime p))) 4]"

definition panel_header :: "string list" where
  "panel_header = ['' PID  '', '' Name              '', '' State      '', '' Priority    '', '' Nice '', '' CPU  '']"

definition panel_row :: "tui_process_snapshot \<Rightarrow> element" where
  "panel_row p = HBox (separated (map2 (\<lambda>c s. styled [Color c] (Text ('' '' @ s @ '' ''))) [White, White, stateColor (tp_state p), White, White, White] (panel_cells p)))"

definition buildProcessPanel :: "tui_snapshot \<Rightarrow> element" where
  "buildProcessPanel shot =
     Window (Text (h_line @ '' PROCESSES ('' @ to_string (snap_processCount shot) @ '') ''))
       (VBox ([HBox (separated (map (\<lambda>s. styled [Bold] (Text s)) panel_header)), Separator]
          @ (if snap_processes shot = [] then [styled [Dim] (Text ''  (no processes)'')] else []) @ map panel_row (snap_processes shot)))"

definition renderer_SchedulerPanel :: "tui_snapshot \<Rightarrow> element" where
  "renderer_SchedulerPanel shot =
     (let s = snap_scheduler shot in
      Window (Text (h_line @ '' SCHEDULER ''))
        (VBox ([HBox [styled [Bold] (Text ''Policy: ''), styled [Color Cyan] (Text (policy_text shot))], Separator,
           HBox [styled [Bold, Color Green] (Text ''Running:  ''), styled [Color Green] (Text (pidListStr (ts_runningQueue s) 8))],
           HBox [styled [Bold, Color Cyan] (Text ''Ready:    ''),
             styled [Color Cyan] (Text (pidListStr (ts_readyQueue s) 8 @ ''  ('' @ to_string (ts_readyCount s) @ '')''))],
           HBox [styled [Bold, Color Yellow] (Text ''Blocked:  ''),
             styled [Color Yellow] (Text (pidListStr (ts_blockedQueue s) 8 @ ''  ('' @ to_string (ts_blockedCount s) @ '')''))]]
          @ lane_rows (\<lambda>q. pidListStr q 8) s)))"

definition frame_label :: "process_id \<Rightarrow> string" where
  "frame_label pid = (let cell = to_string (unat pid) in if length cell < 2 then '' '' @ cell else cell)"

definition renderer_MemoryPanel :: "tui_snapshot \<Rightarrow> element" where
  "renderer_MemoryPanel shot =
     (let m = snap_memory shot; owners = tm_frameOwners m in
      Window (Text (h_line @ '' MEMORY ''))
        (VBox ([HBox [styled [Bold] (Text ''Virtual:  ''), Text (to_string (used_slots m) @ '' / '' @ to_string (tm_totalVirtualSlots m) @ '' used'')]]
          @ (case tm_totalFrames m of
               None \<Rightarrow> []
             | Some frames \<Rightarrow> [HBox [styled [Bold] (Text ''Physical: ''),
                 Text (to_string (used_frames frames m) @ '' / '' @ to_string frames @ '' frames used'')]])
          @ (if owners = [] then []
             else [Separator, styled [Bold, Dim] (Text ''Frame map:'')] @ map HBox (frame_rows 16 (length owners) (map (frame_cell frame_label) owners))))))"

definition buildHeader :: "tui_snapshot \<Rightarrow> element" where
  "buildHeader shot =
     styled [Border] (HBox
       [styled [Bold, Color Blue] (Text '' CONTUR2 OS Simulator ''), Separator,
        styled [Bold] (Text '' Tick: ''), styled [Color Cyan] (Text (to_string (unat (snap_currentTick shot)))), Separator,
        styled [Bold] (Text '' Seq: ''), styled [Color GrayLight] (Text (to_string (unat (snap_sequence shot)))), Separator,
        styled [Bold] (Text '' Epoch: ''), styled [Color GrayLight] (Text (to_string (unat (snap_epoch shot))))])"

record ftxui_renderer =
  fr_width :: "32 word"
  fr_height :: "32 word"
  fr_lastOutput :: string
  fr_hasContent :: bool

definition FtxuiRenderer_new :: "32 word \<Rightarrow> 32 word \<Rightarrow> ftxui_renderer" where
  "FtxuiRenderer_new w h = \<lparr>fr_width = w, fr_height = h, fr_lastOutput = [], fr_hasContent = False\<rparr>"

text \<open>\<open>paint\<close> stands for FTXUI: it creates a screen of a fixed size, renders the tree on it and prints it.\<close>

definition renderSnapshot :: "(32 word \<Rightarrow> 32 word \<Rightarrow> element \<Rightarrow> string) \<Rightarrow> ftxui_renderer \<Rightarrow> tui_snapshot \<Rightarrow> ftxui_renderer" where
  "renderSnapshot paint r shot =
     r\<lparr>fr_lastOutput := paint (fr_width r) (fr_height r)
          (VBox [buildHeader shot,
             styled [Flex] (HBox [styled [Flex] (buildProcessPanel shot), styled [Flex] (renderer_SchedulerPanel shot), styled [Flex] (renderer_MemoryPanel shot)])]),
        fr_hasContent := True\<rparr>"

definition FtxuiRenderer_render ::
  "(32 word \<Rightarrow> 32 word \<Rightarrow> element \<Rightarrow> string) \<Rightarrow> ftxui_renderer \<Rightarrow> tui_snapshot \<Rightarrow> ftxui_renderer \<times> unit result" where
  "FtxuiRenderer_render paint r shot = (renderSnapshot paint r shot, Ok ())"

definition FtxuiRenderer_clear :: "ftxui_renderer \<Rightarrow> ftxui_renderer" where
  "FtxuiRenderer_clear r = r\<lparr>fr_lastOutput := [], fr_hasContent := False\<rparr>"

definition FtxuiRenderer_lastRendered :: "ftxui_renderer \<Rightarrow> string" where "FtxuiRenderer_lastRendered r = fr_lastOutput r"
definition FtxuiRenderer_hasContent :: "ftxui_renderer \<Rightarrow> bool" where "FtxuiRenderer_hasContent r \<longleftrightarrow> fr_hasContent r"
definition FtxuiRenderer_width :: "ftxui_renderer \<Rightarrow> 32 word" where "FtxuiRenderer_width r = fr_width r"
definition FtxuiRenderer_height :: "ftxui_renderer \<Rightarrow> 32 word" where "FtxuiRenderer_height r = fr_height r"

section \<open>Sessions\<close>

datatype ui_step = Event ui_event | Timer | Draw

fun session_exec :: "'w tick_fn \<Rightarrow> 'w capture_fn \<Rightarrow> ui_step \<Rightarrow> 'w session \<Rightarrow> 'w session" where
  "session_exec tick capture (Event e) s = fst (handleEvent tick capture e s)"
| "session_exec tick capture Timer s = timer_round tick capture s"
| "session_exec tick capture Draw s = fst (buildFrame s)"

text \<open>What a step does to the controller is a sequence of commands and elapsed time.\<close>

definition driven :: "('e \<Rightarrow> 'w \<Rightarrow> 'w) \<Rightarrow> 'w tick_fn \<Rightarrow> 'w capture_fn \<Rightarrow> tui_controller \<times> 'w \<Rightarrow> tui_controller \<times> 'w \<Rightarrow> bool" where
  "driven env tick capture cw cw' \<longleftrightarrow> (\<exists>ops. cw' = fold (tui_exec tick capture env) ops cw \<and> (\<forall>e. Outside e \<notin> set ops))"

lemma driven_refl: "driven env tick capture cw cw"
  unfolding driven_def by (rule exI [of _ "[]"]) simp

lemma driven_trans: "driven env tick capture a b \<Longrightarrow> driven env tick capture b c \<Longrightarrow> driven env tick capture a c"
  unfolding driven_def by clarify (rule exI [of _ "_ @ _"], auto)

lemma driven_command: "driven env tick capture cw (fst (TuiController_dispatch tick capture command cw))"
  unfolding driven_def by (rule exI [of _ "[Command command]"]) simp

lemma driven_elapse: "driven env tick capture cw (fst (TuiController_advanceAutoplay tick capture ms cw))"
  unfolding driven_def by (rule exI [of _ "[Elapse ms]"]) simp

lemma driven_send: "driven env tick capture (snd s) (snd (send tick capture kind n i s))"
  by (simp add: send_def driven_command)

lemmas session_defs = handleEvent_def togglePlay_def speedUp_def speedDown_def restart_play_def scrollKernelLogsUp_def
  scrollKernelLogsDown_def timer_round_def buildFrame_def normalizeKernelLogOffset_def

lemma driven_restart: "driven env tick capture (snd s) (snd (restart_play tick capture s))"
  by (auto simp: restart_play_def driven_refl intro: driven_trans [OF driven_send driven_send])

lemma session_driven: "driven env tick capture (snd s) (snd (session_exec tick capture st s))"
proof (cases st)
  case (Event e)
  have "driven env tick capture (snd s) (snd (speedUp tick capture s))" "driven env tick capture (snd s) (snd (speedDown tick capture s))"
    using driven_restart [of env tick capture "(_, snd s)"] by (simp_all add: speedUp_def speedDown_def Let_def)
  then show ?thesis using Event
    by (auto simp: handleEvent_def togglePlay_def scrollKernelLogsUp_def scrollKernelLogsDown_def driven_refl driven_send)
qed (auto simp: timer_round_def buildFrame_def Let_def driven_refl driven_elapse)

lemma session_run_driven: "driven env tick capture (snd s) (snd (fold (session_exec tick capture) sts s))"
proof (induction sts arbitrary: s)
  case (Cons st sts)
  show ?case using driven_trans [OF session_driven Cons.IH] by simp
qed (simp add: driven_refl)

text \<open>Sound settings: a speed between the bounds, bounds that can be doubled in 32 bits, and steps that advance.\<close>

definition config_ok :: "'w ftxui_app_config \<Rightarrow> bool" where
  "config_ok cfg \<longleftrightarrow> 0 < ac_minIntervalMs cfg \<and> ac_minIntervalMs cfg \<le> ac_defaultIntervalMs cfg \<and> ac_defaultIntervalMs cfg \<le> ac_maxIntervalMs cfg
     \<and> unat (ac_maxIntervalMs cfg) < 2 ^ 31 \<and> ac_defaultStep cfg \<noteq> 0"

definition speed_ok :: "'w session \<Rightarrow> bool" where
  "speed_ok s \<longleftrightarrow> (let app = fst s; c = fst (snd s) in config_ok (app_cfg app)
     \<and> ac_minIntervalMs (app_cfg app) \<le> app_currentIntervalMs app \<and> app_currentIntervalMs app \<le> ac_maxIntervalMs (app_cfg app)
     \<and> (tc_state c = Playing \<longrightarrow> tc_playback c = \<lparr>pb_intervalMs = app_currentIntervalMs app, pb_step = ac_defaultStep (app_cfg app)\<rparr>))"

lemma capture_keeps:
  "tc_playback (fst (fst (captureSnapshot capture cw))) = tc_playback (fst cw)" "tc_state (fst (fst (captureSnapshot capture cw))) = tc_state (fst cw)"
  using record_keeps by (auto simp: captureSnapshot_def Let_def split: prod.splits result.splits) (metis fst_conv)+

lemma seek_keeps: "tc_playback (fst (seek_to c r)) = tc_playback c" "tc_state (fst (seek_to c r)) = tc_state c"
  by (auto simp: seek_to_def Let_def syncCurrentFromCursor_def split: result.split option.split)

lemma advance_keeps:
  "tc_playback (fst (fst (advance_loop tick capture cw))) = tc_playback (fst cw)
     \<and> tc_state (fst (fst (advance_loop tick capture cw))) \<in> {tc_state (fst cw), Paused}"
proof (induction "unat (tc_accumulatedMs (fst cw))" arbitrary: cw rule: less_induct)
  case less
  let ?c = "fst cw" and ?i = "pb_intervalMs (tc_playback (fst cw))"
  let ?cw = "(?c\<lparr>tc_accumulatedMs := tc_accumulatedMs ?c - ?i\<rparr>, snd cw)"
  obtain cw1 t where t: "tickAndCapture tick capture (pb_step (tc_playback ?c)) ?cw = (cw1, t)" by fastforce
  note k = tickAndCapture_keeps [OF t]
  show ?case using less.hyps [of cw1] t k by (subst (1 2) advance_loop.simps) (auto simp: Let_def word_sub_less split: result.split)
qed

lemma send_keeps:
  assumes "kind \<in> {Tick, SeekBackward, SeekForward}"
  shows "tc_playback (fst (snd (send tick capture kind n i s))) = tc_playback (fst (snd s))" "tc_state (fst (snd (send tick capture kind n i s))) = tc_state (fst (snd s))"
  using assms by (auto simp: send_def TuiController_dispatch_def Let_def case_prod_beta capture_keeps seek_keeps split: result.split)

lemma fst_send [simp]: "fst (send tick capture kind n i s) = fst s"
  by (simp add: send_def)

lemma send_start:
  "n \<noteq> 0 \<Longrightarrow> i \<noteq> 0 \<Longrightarrow> tc_playback (fst (snd (send tick capture AutoPlayStart n i s))) = \<lparr>pb_intervalMs = i, pb_step = n\<rparr>"
  by (simp add: send_def TuiController_dispatch_def validateCommand_def commandRequiresStep_def commandRequiresInterval_def
      playbackConfigFromCommand_def validatePlaybackConfig_def)

lemma send_pause: "tc_state (fst (snd (send tick capture Pause n i s))) \<noteq> Playing"
  by (simp add: send_def TuiController_dispatch_def validateCommand_def commandRequiresStep_def commandRequiresInterval_def Let_def)

lemma word_double: "unat (x :: 32 word) < 2 ^ 31 \<Longrightarrow> x \<le> x * 2"
proof -
  assume "unat x < 2 ^ 31"
  then have "unat (x * 2) = unat x * 2" by (subst unat_mult_lem [THEN iffD1]) simp_all
  then show ?thesis by (simp add: word_le_nat_alt)
qed

lemma word_half: "x div 2 \<le> (x :: 32 word)"
  by (simp add: word_le_nat_alt unat_div)

lemma restart_speed:
  assumes "config_ok (app_cfg (fst s))" "ac_minIntervalMs (app_cfg (fst s)) \<le> app_currentIntervalMs (fst s)"
    "app_currentIntervalMs (fst s) \<le> ac_maxIntervalMs (app_cfg (fst s))"
  shows "speed_ok (restart_play tick capture s)"
proof -
  have "app_currentIntervalMs (fst s) \<noteq> 0" using assms(1,2) by (auto simp: config_ok_def word_le_nat_alt word_less_nat_alt)
  then show ?thesis using assms
    by (auto simp: send_start restart_play_def speed_ok_def Let_def config_ok_def TuiController_state_def)
qed

lemma session_speed:
  assumes ok: "speed_ok s"
  shows "speed_ok (session_exec tick capture st s)"
proof -
  let ?cur = "app_currentIntervalMs (fst s)" and ?cfg = "app_cfg (fst s)"
  have b: "config_ok ?cfg" "ac_minIntervalMs ?cfg \<le> ?cur" "?cur \<le> ac_maxIntervalMs ?cfg" using ok by (simp_all add: speed_ok_def Let_def)
  have mm: "ac_minIntervalMs ?cfg \<le> ac_maxIntervalMs ?cfg" using b by simp
  have "unat ?cur < 2 ^ 31" using b(1,3) by (simp add: config_ok_def word_le_nat_alt)
  then have "?cur \<le> ?cur * 2" by (rule word_double)
  then have down: "speed_ok (speedDown tick capture s)" unfolding speedDown_def Let_def using b mm by (intro restart_speed) (auto simp: min_def)
  have "?cur div 2 \<le> ac_maxIntervalMs ?cfg" using word_half b(3) by (rule order_trans)
  then have up: "speed_ok (speedUp tick capture s)" unfolding speedUp_def Let_def using b mm by (intro restart_speed) (auto simp: max_def)
  have "?cur \<noteq> 0" using b(1,2) by (auto simp: config_ok_def word_le_nat_alt word_less_nat_alt)
  then have toggle: "speed_ok (togglePlay tick capture s)" using ok b(1) send_pause [of tick capture 1 ?cur s]
    by (auto simp: togglePlay_def speed_ok_def Let_def send_start config_ok_def TuiController_state_def)
  have keep: "speed_ok (send tick capture kind n i s)" if "kind \<in> {Tick, SeekBackward, SeekForward}" for kind n i
    using ok send_keeps [OF that, of tick capture n i s] by (simp add: speed_ok_def Let_def)
  have app: "speed_ok (a, snd s)" if "app_cfg a = ?cfg" "app_currentIntervalMs a = ?cur" for a
    using ok that by (simp add: speed_ok_def Let_def)
  show ?thesis
  proof (cases st)
    case (Event e)
    then show ?thesis using down up toggle keep app ok
      by (auto simp: handleEvent_def scrollKernelLogsUp_def scrollKernelLogsDown_def)
  next
    case Timer
    have "tc_state (fst (fst (TuiController_advanceAutoplay tick capture ms (snd s)))) = Playing
        \<Longrightarrow> tc_state (fst (snd s)) = Playing \<and> tc_playback (fst (fst (TuiController_advanceAutoplay tick capture ms (snd s)))) = tc_playback (fst (snd s))" for ms
      using advance_keeps [of tick capture "((fst (snd s))\<lparr>tc_accumulatedMs := tc_accumulatedMs (fst (snd s)) + ms\<rparr>, snd (snd s))"]
      by (auto simp: TuiController_advanceAutoplay_def Let_def split: if_splits)
    then show ?thesis using Timer ok by (auto simp: timer_round_def speed_ok_def Let_def)
  qed (use app in \<open>simp add: buildFrame_def normalizeKernelLogOffset_def Let_def\<close>)
qed

lemma session_run_speed: "speed_ok s \<Longrightarrow> speed_ok (fold (session_exec tick capture) sts s)"
  by (induction sts arbitrary: s) (simp_all add: session_speed)


definition demo_app_config :: "tui_world ftxui_app_config" where
  "demo_app_config = \<lparr>ac_defaultIntervalMs = 300, ac_defaultStep = 1, ac_frameIntervalMs = 33, ac_minIntervalMs = 50, ac_maxIntervalMs = 2000, ac_logProvider = None\<rparr>"

definition demo_session :: "tui_world session" where
  "demo_session = fold (session_exec run_kernel KernelReadModel_captureSnapshot)
     [Event (Character (CHR '' '')), Timer, Event (Character (CHR ''+'')), Draw, Event (Character (CHR ''h'')), Timer]
     (run_start (FtxuiApp_new demo_app_config, TuiController_new KernelReadModel_captureSnapshot 512 (KernelReadModel_new demo_kernel)))"


section \<open>Layout\<close>

lemma padRight_eq: "padRight s w = s @ replicate (w - length s) (CHR '' '')"
proof (induction s w rule: padRight.induct)
  case (1 s w)
  then show ?case by (subst padRight.simps) (auto simp flip: replicate_Suc simp: Suc_diff_Suc)
qed

lemma padLeft_eq: "padLeft s w = replicate (w - length s) (CHR '' '') @ s"
proof (induction s w rule: padLeft.induct)
  case (1 s w)
  then have "length s < w \<Longrightarrow> replicate (w - Suc (length s)) (CHR '' '') @ CHR '' '' # s = replicate (w - length s) (CHR '' '') @ s"
    by (metis Suc_diff_Suc append.assoc append_Cons append_Nil replicate_Suc replicate_append_same)
  then show ?case using 1 by (subst padLeft.simps) auto
qed

lemma to_string_length: "n < 10 ^ k \<Longrightarrow> 0 < k \<Longrightarrow> length (to_string n) \<le> k"
proof (induction n arbitrary: k rule: to_string.induct)
  case (1 n)
  show ?case
  proof (cases "n < 10")
    case False
    then have "1 < k" using "1.prems" by (cases k) (auto simp: less_Suc_eq intro: Suc_lessI)
    then obtain j where j: "k = Suc j" "0 < j" by (cases k) auto
    then have "n div 10 < 10 ^ j" using "1.prems" by (simp add: less_mult_imp_div_less mult.commute)
    then show ?thesis using "1.IH" [OF False _ j(2)] False j by (subst to_string.simps) simp
  qed (use 1 in \<open>subst to_string.simps, simp\<close>)
qed

lemma int_text_length: "- (10 ^ k) < i \<Longrightarrow> i < 10 ^ Suc k \<Longrightarrow> 0 < k \<Longrightarrow> length (int_text i) \<le> Suc k"
  using to_string_length [of "nat (- i)" k] to_string_length [of "nat i" "Suc k"]
  by (auto simp: int_text_def nat_less_iff)

lemma names_length: "length (processStateName st) \<le> 10" "length (priorityLevelName l) \<le> 11"
  by (cases st; simp) (cases l; simp)

lemma concat_frame_rows:
  "0 < perRow \<Longrightarrow> perRow dvd limit \<Longrightarrow> concat (frame_rows perRow limit es) = take limit es \<and> (\<forall>row \<in> set (frame_rows perRow limit es). length row \<le> perRow)"
proof (induction perRow limit es rule: frame_rows.induct)
  case (1 perRow limit es)
  show ?case
  proof (cases "es \<noteq> [] \<and> 0 < limit")
    case True
    have e: "frame_rows perRow limit es = take perRow es # frame_rows perRow (limit - perRow) (drop perRow es)"
      using "1.prems" True by (subst frame_rows.simps) simp
    have "perRow \<le> limit" using "1.prems" True by (simp add: dvd_imp_le)
    then have t: "take limit es = take perRow es @ take (limit - perRow) (drop perRow es)" by (metis le_add_diff_inverse take_add)
    have "concat (frame_rows perRow (limit - perRow) (drop perRow es)) = take (limit - perRow) (drop perRow es)
        \<and> (\<forall>row \<in> set (frame_rows perRow (limit - perRow) (drop perRow es)). length row \<le> perRow)"
      using "1.IH" "1.prems" True by simp
    then show ?thesis unfolding e t by simp
  qed (auto simp: frame_rows.simps [of perRow limit es])
qed

lemma visible_logs_window:
  "visible_logs logs off = window kVisibleKernelLogRows (take (length logs - min off (length logs - kVisibleKernelLogRows)) logs)"
proof -
  have "map (\<lambda>i. logs ! i) [a..<b] = drop a (take b logs)" if "b \<le> length logs" for a b
    using that by (intro nth_equalityI) simp_all
  moreover have "log_start (length logs) off = log_end (length logs) off - kVisibleKernelLogRows"
    "log_end (length logs) off = length logs - min off (length logs - kVisibleKernelLogRows)"
    by (auto simp: log_end_def log_start_def max_log_offset_def kVisibleKernelLogRows_def min_def)
  ultimately show ?thesis by (simp add: visible_logs_def window_def)
qed

text \<open>
  The layout of the screen is stable. The history bar is 40 characters wide for every cursor and history and the usage bar
  20 for every number of free frames; the log panel shows the last five lines that remain after scrolling, never more and never
  past the first; the map shows each of the first 48 frames once and in order, at most 12 in a row; and the cells of a process row are as
  wide as those of the header as long as its numbers have at most as many digits as the columns.
\<close>

theorem frame_layout:
  "length (history_bar cursor sz) = 40
     \<and> (0 < frames \<longrightarrow> length (usage_bar (used_frames frames m) frames) = 20)
     \<and> visible_logs logs off = window kVisibleKernelLogRows (take (length logs - min off (length logs - kVisibleKernelLogRows)) logs)
     \<and> length (visible_logs logs off) = min kVisibleKernelLogRows (length logs)
     \<and> concat (frame_rows 12 48 es) = take 48 es \<and> (\<forall>row \<in> set (frame_rows 12 48 es). length row \<le> 12)
     \<and> (unat (tp_id p) < 10 ^ 4 \<and> - (10 ^ 4) < sint (tp_nice p) \<and> sint (tp_nice p) < 10 ^ 5 \<and> unat (tp_cpuTime p) < 10 ^ 6
        \<longrightarrow> map length (table_cells p) = map length table_header)"
proof (intro conjI impI)
  show "length (history_bar cursor sz) = 40" by (auto simp: history_bar_def Let_def history_filled_def min_def)
next
  assume f: "0 < frames"
  have "used_frames frames m \<le> frames" by (simp add: used_frames_def Let_def)
  then have "used_frames frames m * 20 div frames \<le> frames * 20 div frames" by (intro div_le_mono mult_le_mono1)
  then show "length (usage_bar (used_frames frames m) frames) = 20" using f by (simp add: usage_bar_def usage_filled_def)
next
  show "length (visible_logs logs off) = min kVisibleKernelLogRows (length logs)"
    by (auto simp: visible_logs_window kVisibleKernelLogRows_def)
next
  assume b: "unat (tp_id p) < 10 ^ 4 \<and> - (10 ^ 4) < sint (tp_nice p) \<and> sint (tp_nice p) < 10 ^ 5 \<and> unat (tp_cpuTime p) < 10 ^ 6"
  have "length (to_string (unat (tp_id p))) \<le> 4" "length (to_string (unat (tp_cpuTime p))) \<le> 6" "length (int_text (sint (tp_nice p))) \<le> 5"
    using b to_string_length [of _ 4] to_string_length [of _ 6] int_text_length [of 4 "sint (tp_nice p)"] by simp_all
  then show "map length (table_cells p) = map length table_header"
    using names_length(1) [of "tp_state p"] names_length(2) [of "tp_effectivePriority p"] by (simp add: table_cells_def table_header_def padRight_eq padLeft_eq)
qed (use concat_frame_rows [of 12 48 es] visible_logs_window in simp_all)

theorem frame_layout_witness:
  "length (usage_bar (used_frames 64 (snap_memory default_snapshot)) 64) = 20
     \<and> map length (table_cells \<lparr>tp_id = 6, tp_name = ''idle-task-with-a-long-name'', tp_state = Ready, tp_basePriority = priority_level.Idle,
         tp_effectivePriority = priority_level.Idle, tp_nice = 19, tp_cpuTime = 0, tp_laneIndex = None\<rparr>) = map length table_header"
  using frame_layout [where frames = 64 and m = "snap_memory default_snapshot" and p = "\<lparr>tp_id = 6, tp_name = ''idle-task-with-a-long-name'', tp_state = Ready,
      tp_basePriority = priority_level.Idle, tp_effectivePriority = priority_level.Idle, tp_nice = 19, tp_cpuTime = 0, tp_laneIndex = None\<rparr>"]
  by simp

end
