(* ===== verification/App.thy ===== *)
theory App
  imports Tui_App
begin

text \<open>
  The application, \<^verbatim>\<open>app/main.cpp\<close>: the kernel it builds, the processes it starts, the wiring of the user interface and
  the text of the trace. The programs of the processes are in the theory of the execution engine. The trace buffer is
  empty unless the library was compiled with tracing, so it is an argument here.
\<close>

section \<open>The trace\<close>

definition SharedBufferTraceSink_write :: "trace_sink \<Rightarrow> trace_event \<Rightarrow> trace_sink" where
  "SharedBufferTraceSink_write sink ev = sink_write sink ev"

definition formatTraceEventLine :: "trace_event \<Rightarrow> string" where
  "formatTraceEventLine ev =
     ''['' @ to_string (unat (ev_timestamp ev)) @ '']'' @ ''['' @ traceLevelToString (ev_level ev) @ ''] ''
       @ ev_subsystem ev @ ''.'' @ ev_operation ev @ (if ev_details ev \<noteq> [] then '' :: '' @ ev_details ev else [])"

definition formatKernelLogs :: "trace_sink \<Rightarrow> string list" where
  "formatKernelLogs sink = map formatTraceEventLine (BufferSink_snapshot sink)"

definition renderKernelTraceDump :: "trace_sink \<Rightarrow> string" where
  "renderKernelTraceDump sink =
     [CHR 0x0A] @ ''=== Kernel Trace Dump ==='' @ [CHR 0x0A]
       @ concat (map (\<lambda>ev. formatTraceEventLine ev @ [CHR 0x0A]) (BufferSink_snapshot sink))
       @ ''=== End Kernel Trace Dump ('' @ to_string (length (BufferSink_snapshot sink)) @ '' entries) ==='' @ [CHR 0x0A]"

section \<open>The kernel and its processes\<close>

definition app_machine :: machine where
  "app_machine = machine_new (PhysicalMemory_new 64) (FifoReplacement Fifo_new) 1024 (Some (RoundRobinPolicy 4)) Cpu_new"

definition app_dependencies :: kernel_dependencies where
  "app_dependencies = fold builder_with
     [WithClock True, WithMemory True, WithMmu True, WithVirtualMemory True, WithCpu True, WithExecutionEngine True,
      WithScheduler True, WithDispatcher True, WithTracer True, WithFileSystem True, WithIpcManager True,
      WithSyscallTable True, WithDefaultTickBudget 1] KernelBuilder_new"

definition buildDemoKernel :: "kernel result \<times> trace_sink" where
  "buildDemoKernel = (snd (KernelBuilder_build app_dependencies app_machine SyscallTable_new), BufferSink [])"

definition demos :: "(string \<times> priority_level \<times> 32 word \<times> block list) list" where
  "demos =
     [(''calc-1-plus-1'', Realtime, 0, makeProgramAddOnePlusOne), (''counter'', High, 0, makeProgramCounterLoop),
      (''worker-1'', Normal, 0, makeProgramCpuHeavy), (''worker-2'', Normal, 5, makeProgramLongNop 24),
      (''background'', Low, 10, makeProgramLongNop 48), (''idle-task'', priority_level.Idle, 19, makeProgramLongNop 96)]"

definition demo_config :: "string \<times> priority_level \<times> 32 word \<times> block list \<Rightarrow> process_config" where
  "demo_config d = (case d of (name, pri, nice, code) \<Rightarrow>
     \<lparr>cfg_id = INVALID_PID, cfg_name = name, cfg_code = code, cfg_priority = Priority_make pri pri nice, cfg_arrivalTime = 0\<rparr>)"

text \<open>
  The loop of \<^verbatim>\<open>spawnDemoProcesses\<close>; \<open>iter\<close> gives the iteration orders of the hash sets met in each round. The results, which the
  code discards, are collected.
\<close>

fun spawn_loop :: "(nat \<Rightarrow> nat \<Rightarrow> frame_id set \<Rightarrow> frame_id list) \<Rightarrow> process_config list \<Rightarrow> kernel \<Rightarrow> kernel \<times> process_id result list" where
  "spawn_loop iter [] k = (k, [])"
| "spawn_loop iter (cfg # cfgs) k =
     (let (k1, r) = Kernel_createProcess (iter (length cfgs)) k cfg; (k2, rs) = spawn_loop iter cfgs k1 in (k2, r # rs))"

definition spawnDemoProcesses :: "(nat \<Rightarrow> nat \<Rightarrow> frame_id set \<Rightarrow> frame_id list) \<Rightarrow> kernel \<Rightarrow> kernel" where
  "spawnDemoProcesses iter k = fst (spawn_loop iter (map demo_config demos) k)"

text \<open>The session \<^verbatim>\<open>main\<close> starts, or its exit code.\<close>

definition main_config :: "trace_sink \<Rightarrow> 'w ftxui_app_config" where
  "main_config sink = \<lparr>ac_defaultIntervalMs = 300, ac_defaultStep = 1, ac_frameIntervalMs = 33, ac_minIntervalMs = 50,
     ac_maxIntervalMs = 2000, ac_logProvider = Some (\<lambda>_. formatKernelLogs sink)\<rparr>"

definition main_start :: "(nat \<Rightarrow> nat \<Rightarrow> frame_id set \<Rightarrow> frame_id list) \<Rightarrow> trace_sink \<Rightarrow> nat + tui_world session" where
  "main_start iter sink =
     (case fst buildDemoKernel of
        Error _ \<Rightarrow> Inl 1
      | Ok k \<Rightarrow> Inr (FtxuiApp_new (main_config sink),
          TuiController_new KernelReadModel_captureSnapshot 512 (KernelReadModel_new (spawnDemoProcesses iter k))))"

section \<open>How much memory a process needs\<close>

lemma create_as_frames:
  assumes i: "kernel_inv k" and it: "\<forall>n. iter_ok (iter n)" and len: "length (cfg_code config) \<le> 2 ^ 32" "cfg_code config \<noteq> []"
    and e: "create_as iter k config pid = (k', r)"
  shows "PhysicalMemory_size (m_mem (k_machine k')) = PhysicalMemory_size (m_mem (k_machine k)) \<and> maxSlots (m_vm (k_machine k')) = maxSlots (m_vm (k_machine k))
    \<and> (isOk r \<longrightarrow> length (cfg_code config) \<le> PhysicalMemory_size (m_mem (k_machine k)))
    \<and> (isOk r \<and> length (cfg_code config) \<le> Mmu_freeFrames (m_mmu (k_machine k)) \<longrightarrow>
        Mmu_freeFrames (m_mmu (k_machine k')) = Mmu_freeFrames (m_mmu (k_machine k)) - length (cfg_code config))"
proof -
  let ?now = "Clock_now (m_clock (k_machine k))"
  obtain m c where m: "Dispatcher_createProcess iter (k_machine k) (Some (config_image config pid ?now)) ?now = (m, c)" by fastforce
  have n: "max 1 (length (im_code (config_image config pid ?now))) = length (cfg_code config)" using len(2) by (cases "cfg_code config") auto
  note f = create_frames [OF kernel_invD(1) [OF i] it _ m, unfolded n]
  have "k_machine k' = m" "isOk r \<longleftrightarrow> c = Ok ()" using e m by (auto simp: create_as_def Let_def split: result.splits)
  then show ?thesis using f len(1) by simp
qed

lemma create_kernel_frames:
  assumes i: "kernel_inv k" and it: "\<forall>n. iter_ok (iter n)" and len: "length (cfg_code config) \<le> 2 ^ 32" "cfg_code config \<noteq> []"
    and e: "Kernel_createProcess iter k config = (k', r)"
  shows "PhysicalMemory_size (m_mem (k_machine k')) = PhysicalMemory_size (m_mem (k_machine k)) \<and> maxSlots (m_vm (k_machine k')) = maxSlots (m_vm (k_machine k))
    \<and> (isOk r \<longrightarrow> length (cfg_code config) \<le> PhysicalMemory_size (m_mem (k_machine k)))
    \<and> (isOk r \<and> length (cfg_code config) \<le> Mmu_freeFrames (m_mmu (k_machine k)) \<longrightarrow>
        Mmu_freeFrames (m_mmu (k_machine k')) = Mmu_freeFrames (m_mmu (k_machine k)) - length (cfg_code config))"
proof -
  obtain k1 pid where p: "allocatePid k = (k1, pid)" by fastforce
  have k1: "k1 = k\<lparr>k_nextPid := k_nextPid k1\<rparr>" by (rule allocatePid_view(1) [OF p kernel_invD(5) [OF i]])
  then have m: "k_machine k1 = k_machine k" by (metis kernel.select_convs(2) kernel.surjective kernel.update_convs)
  have i1: "kernel_inv k1" using kernel_inv_nextPid [OF i] k1 by metis
  show ?thesis using create_as_frames [OF i1 it len, of pid k' r] create_as_frames [OF i it len, of "cfg_id config" k' r] e p m len(2)
    by (auto simp: Kernel_createProcess_def split: if_splits)
qed

text \<open>
  A process needs as many frames as it has instructions. Swapping can make room by evicting the pages of other processes
  but never its own, so whatever the state of the kernel, a program longer than the physical memory is refused, and one that
  fits into the free frames takes exactly its length from them. The size of memory and the number of slots never change.
\<close>

theorem create_needs_frames:
  assumes "kernel_inv k" "\<forall>n. iter_ok (iter n)" "length (cfg_code config) \<le> 2 ^ 32" "cfg_code config \<noteq> []"
    and "Kernel_createProcess iter k config = (k', r)"
  shows "(PhysicalMemory_size (m_mem (k_machine k)) < length (cfg_code config) \<longrightarrow> isError r)
    \<and> (isOk r \<and> length (cfg_code config) \<le> Mmu_freeFrames (m_mmu (k_machine k)) \<longrightarrow>
        Mmu_freeFrames (m_mmu (k_machine k')) = Mmu_freeFrames (m_mmu (k_machine k)) - length (cfg_code config))
    \<and> PhysicalMemory_size (m_mem (k_machine k')) = PhysicalMemory_size (m_mem (k_machine k))
    \<and> VirtualMemory_totalSlots (m_vm (k_machine k')) = VirtualMemory_totalSlots (m_vm (k_machine k))"
  using create_kernel_frames [OF assms] by (cases r) (auto simp: VirtualMemory_totalSlots_def)

theorem create_needs_frames_witness:
  "isError (snd (Kernel_createProcess (\<lambda>_. sorted_list_of_set) demo_kernel (halt_config\<lparr>cfg_code := makeProgramLongNop 2\<rparr>)))"
proof -
  obtain k' r where e: "Kernel_createProcess (\<lambda>_. sorted_list_of_set) demo_kernel (halt_config\<lparr>cfg_code := makeProgramLongNop 2\<rparr>) = (k', r)" by fastforce
  have "PhysicalMemory_size (m_mem (k_machine demo_kernel)) < length (makeProgramLongNop 2)"
    by (simp add: demo_kernel_def Kernel_new_def demo_machine_def machine_new_def demo_memory_def PhysicalMemory_size_def PhysicalMemory_new_def makeProgramLongNop_def)
  then show ?thesis using create_needs_frames [OF demo_kernel_inv _ _ _ e] e by (simp add: iter_ok_sorted makeProgramLongNop_def)
qed

section \<open>The processes of the application\<close>

definition memory_state :: "kernel \<Rightarrow> nat \<Rightarrow> nat \<Rightarrow> bool" where
  "memory_state k size_of_memory slots_count \<longleftrightarrow> kernel_inv k \<and> PhysicalMemory_size (m_mem (k_machine k)) = size_of_memory
     \<and> maxSlots (m_vm (k_machine k)) = slots_count"

lemma process_count: "kernel_inv k \<Longrightarrow> Kernel_processCount k = card (dom (m_images (k_machine k)))"
  by (simp add: Kernel_processCount_def Dispatcher_processCount_def kernel_invD(5))

lemma spawn_any:
  assumes s: "memory_state k a b" and it: "\<forall>n. iter_ok (iter n)" and cfg: "cfg_code cfg \<noteq> []" "length (cfg_code cfg) \<le> 2 ^ 32"
    and e: "Kernel_createProcess iter k cfg = (k', r)"
  shows "memory_state k' a b" "Kernel_processCount k' = Kernel_processCount k + (if isOk r then 1 else 0)" "a < length (cfg_code cfg) \<Longrightarrow> isError r"
proof -
  have i: "kernel_inv k" using s by (simp add: memory_state_def)
  note v = createProcess_kernel [OF i it cfg(2) e] and f = create_kernel_frames [OF i it cfg(2,1) e]
  have i': "kernel_inv k'" using v by blast
  show "memory_state k' a b" using s f i' by (simp add: memory_state_def)
  show "Kernel_processCount k' = Kernel_processCount k + (if isOk r then 1 else 0)"
  proof (cases r)
    case (Ok pid)
    with conjunct1 [OF conjunct2 [OF v]] obtain im where new: "\<not> Kernel_hasProcess k pid" and "m_images (k_machine k') = (m_images (k_machine k))(pid \<mapsto> im)"
      by auto
    moreover have "pid \<notin> dom (m_images (k_machine k))" using new by (auto simp: Kernel_hasProcess_def Dispatcher_hasProcess_def kernel_invD(5) [OF i])
    ultimately show ?thesis using Ok machine_images_finite [OF kernel_invD(1) [OF i]] by (simp add: process_count [OF i] process_count [OF i'])
  next
    case (Error x)
    with conjunct1 [OF conjunct2 [OF conjunct2 [OF v]]] have "m_images (k_machine k') = m_images (k_machine k)" by (metis isError.simps(2))
    then show ?thesis using Error by (simp add: process_count [OF i] process_count [OF i'])
  qed
  show "isError r" if "a < length (cfg_code cfg)" using that f s by (cases r) (auto simp: memory_state_def)
qed

lemma spawn_fits:
  assumes s: "memory_state k a b" and it: "\<forall>n. iter_ok (iter n)" and cfg: "cfg_code cfg \<noteq> []" "length (cfg_code cfg) \<le> 2 ^ 32" "cfg_id cfg = INVALID_PID"
    and e: "Kernel_createProcess iter k cfg = (k', r)"
    and room: "length (cfg_code cfg) \<le> Mmu_freeFrames (m_mmu (k_machine k))" "Kernel_processCount k < MAX_PROCESSES" "Kernel_processCount k < b"
  shows "isOk r" "Mmu_freeFrames (m_mmu (k_machine k')) = Mmu_freeFrames (m_mmu (k_machine k)) - length (cfg_code cfg)"
proof -
  have i: "kernel_inv k" using s by (simp add: memory_state_def)
  have "0 < VirtualMemory_freeSlots (m_vm (k_machine k))"
    using room(3) s machine_invD(4) [OF kernel_invD(1) [OF i]] by (simp add: VirtualMemory_freeSlots_def process_count [OF i] memory_state_def)
  then show ok: "isOk r" using createProcess_kernel [OF i it cfg(2) e] cfg room by simp
  show "Mmu_freeFrames (m_mmu (k_machine k')) = Mmu_freeFrames (m_mmu (k_machine k)) - length (cfg_code cfg)"
    using create_kernel_frames [OF i it cfg(2,1) e] ok room(1) by simp
qed

lemma spawn_loop_append:
  "spawn_loop iter (xs @ ys) k = (let (k1, rs) = spawn_loop (\<lambda>i. iter (i + length ys)) xs k; (k2, rs') = spawn_loop iter ys k1 in (k2, rs @ rs'))"
  by (induction xs arbitrary: k) (auto simp: Let_def split: prod.splits)

lemma spawn_loop_any:
  assumes "memory_state k a b" "\<forall>i n. iter_ok (iter i n)" "\<forall>cfg \<in> set cfgs. cfg_code cfg \<noteq> [] \<and> length (cfg_code cfg) \<le> 2 ^ 32"
    "spawn_loop iter cfgs k = (k', rs)"
  shows "memory_state k' a b \<and> length rs = length cfgs \<and> Kernel_processCount k' = Kernel_processCount k + length (filter isOk rs)
    \<and> (\<forall>i < length cfgs. a < length (cfg_code (cfgs ! i)) \<longrightarrow> isError (rs ! i))"
  using assms
proof (induction cfgs arbitrary: k rs)
  case (Cons cfg cfgs)
  obtain k1 r where e: "Kernel_createProcess (iter (length cfgs)) k cfg = (k1, r)" by fastforce
  obtain rs' where rs: "spawn_loop iter cfgs k1 = (k', rs')" "rs = r # rs'" using Cons.prems(4) e by (auto split: prod.splits)
  note s = spawn_any [OF Cons.prems(1) _ _ _ e] and ih = Cons.IH [OF _ Cons.prems(2) _ rs(1)]
  show ?case using s ih rs(2) Cons.prems(2,3) by (auto simp: nth_Cons split: nat.split)
qed simp

lemma spawn_loop_fits:
  assumes "memory_state k a b" "\<forall>i n. iter_ok (iter i n)"
    "\<forall>cfg \<in> set cfgs. cfg_code cfg \<noteq> [] \<and> length (cfg_code cfg) \<le> 2 ^ 32 \<and> cfg_id cfg = INVALID_PID"
    "(\<Sum>cfg \<leftarrow> cfgs. length (cfg_code cfg)) \<le> Mmu_freeFrames (m_mmu (k_machine k))"
    "Kernel_processCount k + length cfgs \<le> MAX_PROCESSES" "Kernel_processCount k + length cfgs \<le> b" "spawn_loop iter cfgs k = (k', rs)"
  shows "\<forall>r \<in> set rs. isOk r"
  using assms
proof (induction cfgs arbitrary: k rs)
  case (Cons cfg cfgs)
  obtain k1 r where e: "Kernel_createProcess (iter (length cfgs)) k cfg = (k1, r)" by fastforce
  obtain rs' where rs: "spawn_loop iter cfgs k1 = (k', rs')" "rs = r # rs'" using Cons.prems(7) e by (auto split: prod.splits)
  note s = spawn_any [OF Cons.prems(1) _ _ _ e] and f = spawn_fits [OF Cons.prems(1) _ _ _ _ e] and ih = Cons.IH [OF _ Cons.prems(2) _ _ _ _ rs(1)]
  have "isOk r" "Mmu_freeFrames (m_mmu (k_machine k1)) = Mmu_freeFrames (m_mmu (k_machine k)) - length (cfg_code cfg)"
    using f Cons.prems(2-6) by simp_all
  then show ?case using s ih rs(2) Cons.prems(2-6) by simp
qed simp

lemma app_build:
  "\<exists>k. fst buildDemoKernel = Ok k \<and> memory_state k 64 1024 \<and> Mmu_freeFrames (m_mmu (k_machine k)) = 64 \<and> Kernel_processCount k = 0"
proof -
  let ?k = "Kernel_new app_dependencies app_machine SyscallTable_new"
  have b: "snd (KernelBuilder_build app_dependencies app_machine SyscallTable_new) = Ok ?k"
    by (simp add: KernelBuilder_build_def app_dependencies_def KernelBuilder_new_def hasAllRequiredDependencies_def)
  have mi: "machine_inv app_machine" unfolding app_machine_def
    by (rule machine_new_inv) (auto simp: PhysicalMemory_size_def PhysicalMemory_new_def Fifo_new_def)
  have im: "m_images app_machine = Map.empty" by (simp add: app_machine_def machine_new_def)
  have i: "kernel_inv ?k" by (rule kernel_built_inv [OF mi im b])
  have m: "k_machine ?k = app_machine" by (simp add: Kernel_new_def)
  have mem: "PhysicalMemory_size (m_mem app_machine) = 64" by (simp add: app_machine_def machine_new_def PhysicalMemory_size_def PhysicalMemory_new_def)
  have "vmap (m_mmu app_machine) = Map.empty" by (simp add: app_machine_def machine_new_def Mmu_new_def vmap_def fun_eq_iff)
  then have "Mmu_freeFrames (m_mmu app_machine) = 64"
    using inv_frame_count [OF machine_invD(6) [OF mi]] view_okD(4) [OF mmu_invD(2) [OF machine_invD(6) [OF mi]]] mem by (simp add: Mmu_totalFrames_def)
  moreover have "maxSlots (m_vm app_machine) = 1024" by (simp add: app_machine_def machine_new_def VirtualMemory_new_def)
  ultimately show ?thesis using i b m mem im by (intro exI [of _ ?k]) (simp add: buildDemoKernel_def memory_state_def process_count)
qed

text \<open>
  The processes of the application. The kernel is built, and whatever the iteration orders of its hash containers, the first
  four demo processes are created; the sixth, \<^verbatim>\<open>idle-task\<close> with its 97 instructions, never is, since the memory has 64
  cells. The kernel then runs with four or five processes and is consistent.
\<close>

theorem demo_processes:
  assumes "\<forall>i n. iter_ok (iter i n)"
  shows "\<exists>k0 k rs. fst buildDemoKernel = Ok k0 \<and> spawn_loop iter (map demo_config demos) k0 = (k, rs) \<and> spawnDemoProcesses iter k0 = k
    \<and> length rs = 6 \<and> (\<forall>i < 4. isOk (rs ! i)) \<and> isError (rs ! 5) \<and> kernel_inv k \<and> Kernel_processCount k \<in> {4, 5}"
proof -
  obtain k0 where k0: "fst buildDemoKernel = Ok k0" "memory_state k0 64 1024" "Mmu_freeFrames (m_mmu (k_machine k0)) = 64" "Kernel_processCount k0 = 0"
    using app_build by blast
  let ?a = "map demo_config (take 4 demos)" and ?b = "map demo_config (drop 4 demos)"
  obtain k1 rs1 where e1: "spawn_loop (\<lambda>i. iter (i + length ?b)) ?a k0 = (k1, rs1)" by fastforce
  obtain k rs2 where e2: "spawn_loop iter ?b k1 = (k, rs2)" by fastforce
  have "map demo_config demos = ?a @ ?b" by (simp flip: map_append)
  then have run: "spawn_loop iter (map demo_config demos) k0 = (k, rs1 @ rs2)" using e1 e2 by (simp add: spawn_loop_append)
  have codes: "map (\<lambda>d. length (cfg_code (demo_config d))) demos = [3, 5, 8, 25, 49, 97]"
    by (simp add: demos_def demo_config_def makeProgramAddOnePlusOne_def makeProgramCounterLoop_def makeProgramCpuHeavy_def makeProgramLongNop_def)
  have ids: "cfg_id (demo_config d) = INVALID_PID" for d by (simp add: demo_config_def split: prod.split)
  have len: "0 < length (cfg_code (demo_config d)) \<and> length (cfg_code (demo_config d)) \<le> 97" if "d \<in> set demos" for d
  proof -
    have "length (cfg_code (demo_config d)) \<in> set [3, 5, 8, 25, 49, 97]" unfolding codes [symmetric] using that by simp
    then show ?thesis by auto
  qed
  have okc: "cfg_code (demo_config d) \<noteq> [] \<and> length (cfg_code (demo_config d)) \<le> 2 ^ 32" if "d \<in> set demos" for d using len [OF that] by fastforce
  have six: "length demos = 6" by (simp add: demos_def)
  have sum: "(\<Sum>cfg \<leftarrow> ?a. length (cfg_code cfg)) = sum_list (take 4 [3, 5, 8, 25, 49, 97])" unfolding codes [symmetric] by (simp add: take_map comp_def)
  have it: "\<forall>i n. iter_ok (iter (i + length ?b) n)" using assms by simp
  have conf: "\<forall>cfg \<in> set ?a. cfg_code cfg \<noteq> [] \<and> length (cfg_code cfg) \<le> 2 ^ 32 \<and> cfg_id cfg = INVALID_PID"
      "\<forall>cfg \<in> set ?a. cfg_code cfg \<noteq> [] \<and> length (cfg_code cfg) \<le> 2 ^ 32" "\<forall>cfg \<in> set ?b. cfg_code cfg \<noteq> [] \<and> length (cfg_code cfg) \<le> 2 ^ 32"
    using okc ids by (auto dest!: in_set_takeD in_set_dropD)
  have ok4: "\<forall>r \<in> set rs1. isOk r"
  proof (rule spawn_loop_fits [OF k0(2) it conf(1) _ _ _ e1])
    show "(\<Sum>cfg \<leftarrow> ?a. length (cfg_code cfg)) \<le> Mmu_freeFrames (m_mmu (k_machine k0))" unfolding sum k0(3) by simp
  qed (simp_all add: k0(4) six MAX_PROCESSES_def)
  have s1: "memory_state k1 64 1024" "length rs1 = 4" "Kernel_processCount k1 = length (filter isOk rs1)"
    using spawn_loop_any [OF k0(2) it conf(2) e1] k0(4) six by simp_all
  then have c1: "Kernel_processCount k1 = 4" using ok4 by simp
  have s2: "memory_state k 64 1024" "length rs2 = 2" "Kernel_processCount k = 4 + length (filter isOk rs2)"
    "\<forall>i < 2. 64 < length (cfg_code (?b ! i)) \<longrightarrow> isError (rs2 ! i)"
    using spawn_loop_any [OF s1(1) assms conf(3) e2] c1 six by simp_all
  have "length (cfg_code (?b ! 1)) = 97" using six arg_cong [OF codes, of "\<lambda>l. l ! 5"] by simp
  then have last: "isError (rs2 ! 1)" using s2(4) by simp
  obtain r5 r6 where rs2: "rs2 = [r5, r6]" using s2(2) by (auto simp: length_Suc_conv eval_nat_numeral)
  have "kernel_inv k" "Kernel_processCount k \<in> {4, 5}" using s2(1,3) last rs2 by (cases r6; simp add: memory_state_def)+
  moreover have "isOk ((rs1 @ rs2) ! i)" if "i < 4" for i using that ok4 s1(2) by (simp add: nth_append)
  moreover have "isError ((rs1 @ rs2) ! 5)" using last s1(2) by (simp add: nth_append)
  ultimately show ?thesis using k0(1) run s1(2) s2(2) by (intro exI [of _ k0] exI [of _ k] exI [of _ "rs1 @ rs2"]) (simp add: spawnDemoProcesses_def)
qed

theorem demo_processes_witness:
  "\<exists>k0. fst buildDemoKernel = Ok k0 \<and> Kernel_processCount (spawnDemoProcesses (\<lambda>_ _. sorted_list_of_set) k0) \<le> 5"
  using demo_processes [of "\<lambda>_ _. sorted_list_of_set"] by (auto simp: iter_ok_sorted)

end
