(* ===== verification/Workload.thy ===== *)
theory Workload
  imports Kernel
begin

text \<open>
  What the layers from the CPU to the kernel achieve together: programs that make progress with every cycle
  finish under every scheduling policy and every tick budget, within as many dispatches as they have cycles left.
  The locale \<open>progress\<close> is the contract between a class of programs and the machine; its interpretation \<open>forward\<close> are the programs without
  backward jumps, among them those \<^verbatim>\<open>app/main.cpp\<close> builds with \<^verbatim>\<open>makeProgramLongNop\<close> and \<^verbatim>\<open>makeProgramAddOnePlusOne\<close>.
\<close>

section \<open>Programs that make progress\<close>

text \<open>The code is at the base of memory, where the engine loads it.\<close>

definition loaded :: "physical_memory \<Rightarrow> block list \<Rightarrow> bool" where
  "loaded m code \<longleftrightarrow> (\<forall>i < length code. PhysicalMemory_read m (word_of_nat i) = Ok (code ! i))"

lemma loaded_fetch:
  assumes "loaded m code" "unat pc < length code"
  shows "PhysicalMemory_read m pc = Ok (code ! unat pc)"
proof -
  have "PhysicalMemory_read m (word_of_nat (unat pc)) = Ok (code ! unat pc)" using assms by (simp only: loaded_def)
  then show ?thesis by simp
qed

lemma loadCode_loaded:
  assumes "loadCode m im = (m', True)" "length (im_code im) < 2 ^ 32"
  shows "loaded m' (im_code im)"
proof -
  have fits: "length (im_code im) \<le> PhysicalMemory_size m" using assms(1) by (auto simp: loadCode_def split: if_splits)
  show ?thesis
    using loadCode_read(3) [OF fits assms(2)] assms by (auto simp: loaded_def unat_of_nat take_bit_nat_eq_self)
qed

section \<open>The work of a machine\<close>

text \<open>The processes that can be dispatched, and the program state of a process, which only its own bursts change.\<close>

definition active :: "machine \<Rightarrow> process_id set" where
  "active d = {p. \<exists>im. m_images d p = Some im \<and> pcb_state (im_pcb im) \<noteq> Blocked}"

definition program :: "machine \<Rightarrow> process_id \<Rightarrow> (block list \<times> register_file) option" where
  "program d p = map_option (\<lambda>im. (im_code im, im_registers im)) (m_images d p)"

definition cycles_left :: "(block list \<Rightarrow> register_file \<Rightarrow> nat) \<Rightarrow> machine \<Rightarrow> process_id \<Rightarrow> nat" where
  "cycles_left left d p = (case program d p of None \<Rightarrow> 0 | Some (code, regs) \<Rightarrow> left code regs)"

definition work_left :: "(block list \<Rightarrow> register_file \<Rightarrow> nat) \<Rightarrow> machine \<Rightarrow> nat" where
  "work_left left d = (\<Sum>p \<in> active d. cycles_left left d p)"

text \<open>A scheduler with a single lane and a policy, as the kernel uses it.\<close>

definition single_lane :: "scheduler \<Rightarrow> bool" where
  "single_lane sch \<longleftrightarrow> length (readyByLane sch) = 1 \<and> sch_policy sch \<noteq> None"

text \<open>A process that can still be there when nothing is active any more: it was blocked before, or its program interrupts.\<close>

definition may_remain :: "machine \<Rightarrow> process_id \<Rightarrow> process_image \<Rightarrow> bool" where
  "may_remain d q im \<longleftrightarrow> m_images d q = Some im \<and> q \<notin> active d
     \<or> (\<exists>im0. m_images d q = Some im0 \<and> im_code im0 = im_code im \<and> (\<exists>b \<in> set (im_code im). b_code b = Interrupt))"

lemma may_remain_idle: "m_images d q = Some im \<Longrightarrow> q \<notin> active d \<Longrightarrow> may_remain d q im"
  by (simp add: may_remain_def)

lemma selectNext_lanes:
  "Scheduler_selectNext sch store now = ((sch', store'), r) \<Longrightarrow> single_lane sch' = single_lane sch"
  by (auto simp: Scheduler_selectNext_def selectNextForLane_nolock_def start_candidate_def single_lane_def Let_def
      split: if_splits prod.splits option.splits list.splits)

lemma blockProcess_lanes:
  "Scheduler_blockProcess sch store pid now = ((sch', store'), r) \<Longrightarrow> single_lane sch' = single_lane sch"
  by (auto simp: Scheduler_blockProcess_def block_lane_def single_lane_def Let_def
      split: if_splits prod.splits option.splits)

lemma terminate_lanes:
  "Scheduler_terminate sch store pid now = ((sch', store'), r) \<Longrightarrow> single_lane sch' = single_lane sch"
  by (auto simp: Scheduler_terminate_def removeFromAllReady_def single_lane_def Let_def
      split: if_splits prod.splits option.splits)

lemma dispatch_stop_lanes: "dispatch_stop d pid reason = (d', r) \<Longrightarrow> single_lane (m_sched d') = single_lane (m_sched d)"
  by (auto simp: dispatch_stop_def Let_def split: stop_reason.splits prod.splits result.splits
      dest!: blockProcess_lanes terminate_lanes)

lemma dispatch_lanes:
  assumes "machine_inv d" "Dispatcher_dispatch d n = (d', r)"
  shows "single_lane (m_sched d') = single_lane (m_sched d)"
  using assms
proof (cases rule: dispatch_parts)
  case (run sch store pid im d1 d2 er)
  then show ?thesis
    using dispatch_stop_lanes [OF run(10)] selectNext_lanes [OF run(2)] dispatch_run_inv [OF run(4,8,9)] by simp
qed simp_all

lemma program_commit [simp]: "program (d\<lparr>m_images := commit (m_images d) store\<rparr>) q = program d q"
  by (cases "m_images d q") (simp_all add: program_def commit_def)

lemma dispatch_stop_program:
  "dispatch_stop d pid reason = (d', r) \<Longrightarrow> program d' q = program d q \<or> program d' q = None"
  by (cases "m_images d q")
    (auto simp: dispatch_stop_def Let_def program_def commit_def
      split: stop_reason.splits prod.splits result.splits if_splits)

lemma dispatch_code:
  assumes "machine_inv d" "Dispatcher_dispatch d n = (d', r)" "m_images d' q = Some im"
  shows "\<exists>im0. m_images d q = Some im0 \<and> im_code im0 = im_code im"
  using assms(1,2)
proof (cases rule: dispatch_parts)
  case (run sch store pid im0 d1 d2 er)
  have "program d2 q = Some (im_code im, im_registers im)"
    using dispatch_stop_program [OF run(10), of q] assms(3) by (auto simp: program_def)
  then have "\<exists>im1. m_images d1 q = Some im1 \<and> im_code im1 = im_code im"
    using run(8,9) by (auto simp: program_def dispatch_run_def dest!: execute_pcb split: prod.splits if_splits)
  then show ?thesis using run(3) by (auto simp: commit_def)
qed (use assms(3) in auto)

lemma active_lane:
  assumes i: "machine_inv d" and l: "single_lane (m_sched d)"
  shows "active d = on_lane (m_sched d) 0"
proof -
  note d = machine_invD [OF i]
  note s = sched_invD [OF d(1)]
  have n: "length (readyByLane (m_sched d)) = 1" using l by (simp add: single_lane_def)
  have q: "on_lane (m_sched d) 0 \<union> set (sch_blocked (m_sched d)) = dom (m_images d)"
    using d(2,3) n by (simp add: queued_def lessThan_Suc)
  have st: "pcb_state (store_of (m_images d) p) \<noteq> Blocked" if "p \<in> on_lane (m_sched d) 0" for p
    using that s(6,7) [of 0 p] n by (auto simp: on_lane_def elem_set)
  show ?thesis
  proof
    have "p \<in> on_lane (m_sched d) 0" if "m_images d p = Some im" "pcb_state (im_pcb im) \<noteq> Blocked" for p im
      using that q s(9) [of p] domI [of "m_images d" p im] by (auto simp: store_of_def)
    then show "active d \<subseteq> on_lane (m_sched d) 0" by (auto simp: active_def)
    show "on_lane (m_sched d) 0 \<subseteq> active d"
      using q st by (fastforce simp: active_def store_of_def)
  qed
qed

text \<open>What the scheduler selects on the lane of the machine.\<close>

lemma selectNext_machine:
  assumes i: "machine_inv d" and l: "single_lane (m_sched d)"
    and e: "Scheduler_selectNext (m_sched d) (store_of (m_images d)) now = ((sch, store), r)"
  shows "r = selected (the (sch_policy (m_sched d))) (m_sched d) (store_of (m_images d)) 0 now"
    "on_lane sch 0 = on_lane (m_sched d) 0" "r = Ok p \<Longrightarrow> p \<in> active d"
proof -
  have n0: "0 < length (readyByLane (m_sched d))" using l by (simp add: single_lane_def)
  obtain pol where pol: "sch_policy (m_sched d) = Some pol" using l by (auto simp: single_lane_def)
  note v = select_view [OF machine_invD(1) [OF i] n0 pol e [unfolded Scheduler_selectNext_def]]
  show "r = selected (the (sch_policy (m_sched d))) (m_sched d) (store_of (m_images d)) 0 now"
    "on_lane sch 0 = on_lane (m_sched d) 0" using v pol by simp_all
  show "p \<in> active d" if "r = Ok p" using v active_lane [OF i l] that by blast
qed

text \<open>What a dispatch does to the active processes and their programs.\<close>

lemma dispatch_idle:
  assumes i: "machine_inv d" and l: "single_lane (m_sched d)" and e: "Dispatcher_dispatch d n = (d', r)"
    and a: "active d = {}"
  shows "d' = d \<and> r = Error NotFound"
  using i e
proof (cases rule: dispatch_parts)
  case (none sch store x)
  then show ?thesis
    using selectNext_machine(1) [OF i l none(4)] active_lane [OF i l] a by (simp add: selected_def on_lane_def)
next
  case (run sch store pid im d1 d2 er)
  then show ?thesis using selectNext_machine(3) [OF i l run(2)] a by blast
qed simp

lemma dispatch_active:
  assumes i: "machine_inv d" and l: "single_lane (m_sched d)" and e: "Dispatcher_dispatch d n = (d', r)"
    and a: "active d \<noteq> {}"
  obtains pid im pcb en c m im' er where "pid \<in> active d" "m_images d pid = Some im" "r = Ok ()"
    "InterpreterEngine_execute (m_engine d) (m_cpu d) (m_mem d) (im\<lparr>im_pcb := pcb\<rparr>) n = (en, c, m, im', er)"
    "Clock_now (m_clock d') = Clock_now (m_clock d) + of_nat (er_ticks er)"
    "active d' = (if er_reason er = BudgetExhausted then active d else active d - {pid})"
    "program d' pid \<noteq> None \<longrightarrow> program d' pid = Some (im_code im', im_registers im') \<and> er_reason er \<in> {BudgetExhausted, Interrupted}"
    "er_reason er = BudgetExhausted \<longrightarrow> program d' pid = Some (im_code im', im_registers im')"
    "\<forall>q. q \<noteq> pid \<longrightarrow> program d' q = program d q"
  using i e
proof (cases rule: dispatch_parts)
  case empty
  then show thesis using a by (auto simp: active_def)
next
  case (none sch store x)
  then show thesis
    using selectNext_machine(1) [OF i l none(4)] active_lane [OF i l] a
    by (auto simp: selected_def on_lane_def Let_def split: option.splits if_splits)
next
  case (run sch store pid im d1 d2 er)
  let ?im = "im\<lparr>im_pcb := store pid\<rparr>"
  note w = dispatch_run_inv [OF run(4,8,9)]
  obtain en c m im' er' where x: "InterpreterEngine_execute (m_engine d) (m_cpu d) (m_mem d) ?im n = (en, c, m, im', er')"
    by (metis prod_cases5)
  have f: "m_images d2 pid = Some im'" "er' = er" using run(3,9) x by (auto simp: dispatch_run_def)
  have "machine_inv d2" "Some pid \<in> set (runningByLane (m_sched d2))" using w run(3,5) by auto
  note y = dispatch_stop_view [OF this f(1) run(10)]
  have pid: "pid \<in> active d" by (rule selectNext_machine(3) [OF i l run(2)]) simp
  have "single_lane (m_sched d1)" using selectNext_lanes [OF run(2)] l run(3) by simp
  then have a1: "active d1 = active d"
    using active_lane [OF run(4)] active_lane [OF i l] selectNext_machine(2) [OF i l run(2)] run(3) by simp
  have same: "m_images d' q = m_images d1 q" if "q \<noteq> pid" for q using y w that by simp
  have p1: "program d1 q = program d q" for q using run(3) by (cases "m_images d q") (simp_all add: program_def commit_def)
  have "pid \<in> active d1" using pid a1 by simp
  then have st: "pcb_state (im_pcb im') \<noteq> Blocked" using run(8) execute_pcb [OF x] by (simp add: active_def)
  have bl: "pcb_state (store_of (m_images d') pid) = Blocked" if "er_reason er = Interrupted"
    using y that sched_invD(9) [OF machine_invD(1), of d' pid] by simp
  have "active d' = (if er_reason er = BudgetExhausted then active d else active d - {pid})"
  proof -
    have o: "q \<in> active d' \<longleftrightarrow> q \<in> active d" if "q \<noteq> pid" for q
      using same [OF that] a1 by (auto simp: active_def)
    have "pid \<in> active d' \<longleftrightarrow> er_reason er = BudgetExhausted"
      using y f(1) st bl by (cases "er_reason er") (auto simp: active_def store_of_def)
    then show ?thesis using o pid by (intro set_eqI) (metis Diff_iff insertE insertI1 singletonD)
  qed
  moreover have "program d' pid \<noteq> None \<longrightarrow> program d' pid = Some (im_code im', im_registers im') \<and> er_reason er \<in> {BudgetExhausted, Interrupted}"
    using dispatch_stop_program [OF run(10), of pid] y f(1) by (cases "er_reason er") (auto simp: program_def)
  moreover have "er_reason er = BudgetExhausted \<longrightarrow> program d' pid = Some (im_code im', im_registers im')"
    using y f(1) by (auto simp: program_def)
  ultimately show thesis
    using that [OF pid run(7)] x f(2) y w same p1 run(3) by (simp add: program_def)
qed

section \<open>The contract between programs and the machine\<close>

text \<open>
  A class of programs: the states \<open>good\<close> of a program's registers, and the cycles it has at most left. A cycle
  from a good state either raises an interrupt or leads to a good state with fewer cycles left, and never touches the code.
\<close>

locale progress =
  fixes good :: "block list \<Rightarrow> register_file \<Rightarrow> bool" and left :: "block list \<Rightarrow> register_file \<Rightarrow> nat"
  assumes in_code: "good code regs \<Longrightarrow> unat (RegisterFile_pc regs) < length code \<and> length code < 2 ^ 32"
    and left_pos: "good code regs \<Longrightarrow> 0 < left code regs"
    and cycle: "good code regs \<Longrightarrow> loaded m code \<Longrightarrow> Cpu_step c m regs = (c', m', regs', IntOk)
      \<Longrightarrow> good code regs' \<and> loaded m' code \<and> left code regs' < left code regs"
begin

lemma interrupts:
  assumes g: "good code regs" and l: "loaded m code" and s: "Cpu_step c m regs = (c', m', regs', i)"
    and r: "stop_of pid n i = Some r" "er_reason r = Interrupted"
  shows "\<exists>b \<in> set code. b_code b = Interrupt"
proof -
  have pc: "unat (RegisterFile_pc regs) < length code" using in_code [OF g] by simp
  let ?b = "code ! unat (RegisterFile_pc regs)"
  have "i \<in> {IntOk, IntExit, IntDivByZero, IntError}" if "b_code ?b \<noteq> Interrupt"
    using s loaded_fetch [OF l pc] that
    by (cases "b_code ?b")
      (auto simp: Cpu_step_def Let_def executeAluOp_def isJump_def split: result.splits prod.splits if_splits)
  moreover have "i \<notin> {IntOk, IntExit, IntDivByZero, IntError}" using r by (auto simp: ER_exited_def ER_error_def)
  ultimately have "b_code ?b = Interrupt" by blast
  then show ?thesis using pc nth_mem by blast
qed

text \<open>One burst: it uses at most the cycles left, and if it exhausts its budget that many fewer are left.\<close>

lemma run_loop_progress:
  assumes "good code regs" "loaded m code" "run_loop e c m regs pid t n = (e', c', m', regs', r)"
  shows "er_ticks r \<le> t + left code regs
    \<and> (er_reason r = BudgetExhausted \<longrightarrow> good code regs' \<and> left code regs' + n \<le> left code regs \<and> er_ticks r = t + n)
    \<and> (er_reason r = Interrupted \<longrightarrow> (\<exists>b \<in> set code. b_code b = Interrupt))"
  using assms
proof (induction n arbitrary: c m regs t)
  case 0
  then show ?case by (auto simp: ER_budgetExhausted_def)
next
  case (Suc n)
  obtain c1 m1 regs1 i where s: "Cpu_step c m regs = (c1, m1, regs1, i)" by (metis prod_cases4)
  show ?case
  proof (cases "pid \<in> haltedPids e")
    case True
    then show ?thesis using Suc.prems by (auto simp: ER_halted_def)
  next
    case run: False
    show ?thesis
    proof (cases "stop_of pid (Suc t) i")
      case None
      then have "i = IntOk" by (simp add: stop_of_None)
      with cycle [OF Suc.prems(1,2)] s have c: "good code regs1" "loaded m1 code" "left code regs1 < left code regs" by auto
      have "run_loop e c1 m1 regs1 pid (Suc t) n = (e', c', m', regs', r)" using Suc.prems(3) run s None by simp
      from Suc.IH [OF c(1,2) this] c(3) show ?thesis by auto
    next
      case (Some r')
      then have "r = r'" using Suc.prems(3) run s by auto
      then show ?thesis
        using Some stop_of_Some [OF Some] left_pos [OF Suc.prems(1)] interrupts [OF Suc.prems(1,2) s] by auto
    qed
  qed
qed

lemma execute_progress:
  assumes g: "good (im_code im) (im_registers im)" and x: "InterpreterEngine_execute e c m im n = (e', c', m', im', r)"
  shows "er_ticks r \<le> left (im_code im) (im_registers im)
    \<and> (er_reason r = BudgetExhausted \<longrightarrow> good (im_code im') (im_registers im')
        \<and> left (im_code im') (im_registers im') + n \<le> left (im_code im) (im_registers im) \<and> er_ticks r = n)
    \<and> (er_reason r = Interrupted \<longrightarrow> (\<exists>b \<in> set (im_code im). b_code b = Interrupt))"
proof (cases "ProcessImage_id im \<in> haltedPids e \<or> \<not> snd (loadCode m im)")
  case True
  then show ?thesis using x
    by (auto simp: InterpreterEngine_execute_def Let_def ER_halted_def ER_error_def split: if_splits prod.splits)
next
  case False
  then obtain m1 where m1: "loadCode m im = (m1, True)" by (metis prod.collapse)
  have ld: "loaded m1 (im_code im)" using loadCode_loaded [OF m1] in_code [OF g] by simp
  obtain regs where l: "run_loop e c m1 (im_registers im) (ProcessImage_id im) 0 n = (e', c', m', regs, r)"
      "im' = im\<lparr>im_registers := regs\<rparr>"
    using x False by (auto simp: execute_loaded [OF _ m1] split: prod.splits)
  from run_loop_progress [OF g ld l(1)] l(2) show ?thesis by simp
qed

definition all_good :: "machine \<Rightarrow> bool" where
  "all_good d \<longleftrightarrow> (\<forall>p \<in> active d. \<forall>code regs. program d p = Some (code, regs) \<longrightarrow> good code regs)"

text \<open>
  A dispatch with some active process takes at least one cycle off the work that is left, and at least the ticks it
  consumes.
\<close>

lemma dispatch_progress:
  assumes i: "machine_inv d" and l: "single_lane (m_sched d)" and e: "Dispatcher_dispatch d n = (d', r)"
    and a: "active d \<noteq> {}" and g: "all_good d" and n: "0 < n"
  shows "r = Ok () \<and> all_good d'
    \<and> (\<exists>t. Clock_now (m_clock d') = Clock_now (m_clock d) + of_nat t \<and> work_left left d' + max 1 t \<le> work_left left d)
    \<and> (\<forall>q code regs. q \<in> active d - active d' \<and> program d' q = Some (code, regs) \<longrightarrow> (\<exists>b \<in> set code. b_code b = Interrupt))"
  using i l e a
proof (cases rule: dispatch_active)
  case (1 pid im pcb en c m im' er)
  have p: "program d pid = Some (im_code im, im_registers im)" using 1(2) by (simp add: program_def)
  then have "good (im_code im) (im_registers im)" using g 1(1) by (auto simp: all_good_def)
  then have gi: "good (im_code (im\<lparr>im_pcb := pcb\<rparr>)) (im_registers (im\<lparr>im_pcb := pcb\<rparr>))" by simp
  note x = execute_progress [OF gi 1(4)]
  have cl: "cycles_left left d' q = cycles_left left d q" if "q \<noteq> pid" for q using 1(9) that by (simp add: cycles_left_def)
  have fin: "finite (active d)" using finite_subset [OF _ machine_images_finite [OF i], of "active d"] by (auto simp: active_def)
  have sum: "work_left left d = cycles_left left d pid + (\<Sum>q \<in> active d - {pid}. cycles_left left d q)"
    unfolding work_left_def by (rule sum.remove [OF fin 1(1)])
  have rest: "(\<Sum>q \<in> active d - {pid}. cycles_left left d' q) = (\<Sum>q \<in> active d - {pid}. cycles_left left d q)"
    by (rule sum.cong) (simp_all add: cl)
  have pl: "cycles_left left d pid = left (im_code im) (im_registers im)" using p by (simp add: cycles_left_def)
  have c: "im_code im' = im_code im" using execute_pcb [OF 1(4)] by simp
  have "work_left left d' + max 1 (er_ticks er) \<le> work_left left d"
  proof (cases "er_reason er = BudgetExhausted")
    case True
    then have "work_left left d' = left (im_code im') (im_registers im') + (\<Sum>q \<in> active d - {pid}. cycles_left left d q)"
      using 1(6,8) sum.remove [OF fin 1(1), of "cycles_left left d'"] rest by (simp add: work_left_def cycles_left_def)
    then show ?thesis using True x sum pl n by auto
  next
    case False
    then have "work_left left d' = (\<Sum>q \<in> active d - {pid}. cycles_left left d q)" using 1(6) rest by (simp add: work_left_def)
    then show ?thesis using x sum pl left_pos [OF gi] by auto
  qed
  moreover have "all_good d'"
    unfolding all_good_def
  proof (intro ballI allI impI)
    fix q code regs
    assume q: "q \<in> active d'" "program d' q = Some (code, regs)"
    show "good code regs"
      using q g 1(6-9) x by (cases "q = pid") (auto simp: all_good_def split: if_splits)
  qed
  moreover have "\<exists>b \<in> set code. b_code b = Interrupt"
    if "q \<in> active d - active d'" "program d' q = Some (code, regs)" for q code regs
    using that 1(6,7) x c by (auto split: if_splits)
  ultimately show ?thesis using 1(3,5) by blast
qed

text \<open>The loop of the kernel over such a machine.\<close>

lemma tick_progress:
  assumes i: "kernel_inv k" and l: "single_lane (m_sched (k_machine k))" and e: "Kernel_tick k b = (k', r)"
    and g: "all_good (k_machine k)"
  shows "kernel_inv k' \<and> single_lane (m_sched (k_machine k')) \<and> k_deps k' = k_deps k
    \<and> (if active (k_machine k) = {} then r = Error NotFound \<and> k_machine k' = k_machine k
       else r = Ok () \<and> all_good (k_machine k')
         \<and> (\<exists>t. Clock_now (m_clock (k_machine k')) = Clock_now (m_clock (k_machine k)) + of_nat t
              \<and> work_left left (k_machine k') + max 1 t \<le> work_left left (k_machine k)))
    \<and> (\<forall>q im. may_remain (k_machine k') q im \<longrightarrow> may_remain (k_machine k) q im)"
proof -
  note d = kernel_invD [OF i]
  obtain m rm where m: "Dispatcher_dispatch (k_machine k) (tick_budget k b) = (m, rm)" by fastforce
  have f: "k_machine k' = m" "r = rm" "k_deps k' = k_deps k"
    using tick_view(1) [OF i, of b] e m by auto
  have b: "0 < tick_budget k b" and ki: "kernel_inv k'" using tick_view(2,3) [OF i, of b] e by simp_all
  have sl: "single_lane (m_sched m)" using dispatch_lanes [OF d(1) m] l by simp
  note im = dispatch_images [OF d(1) m]
  show ?thesis
  proof (cases "active (k_machine k) = {}")
    case True
    then show ?thesis using dispatch_idle [OF d(1) l m] ki sl f by auto
  next
    case False
    note p = dispatch_progress [OF d(1) l m False g b]
    have "may_remain (k_machine k) q im" if q: "m_images m q = Some im" "q \<notin> active m" for q im
    proof (cases "q \<in> active (k_machine k)")
      case True
      moreover have "program m q = Some (im_code im, im_registers im)" using q(1) by (simp add: program_def)
      ultimately have "\<exists>b \<in> set (im_code im). b_code b = Interrupt" using p q(2) by blast
      then show ?thesis using dispatch_code [OF d(1) m q(1)] by (simp add: may_remain_def)
    next
      case False
      then show ?thesis using im q by (auto simp: active_def dom_def may_remain_def)
    qed
    moreover have "may_remain (k_machine k) q im"
      if "m_images m q = Some im0" "im_code im0 = im_code im" "\<exists>b \<in> set (im_code im). b_code b = Interrupt" for q im im0
      using that dispatch_code [OF d(1) m that(1)] by (auto simp: may_remain_def)
    ultimately have "may_remain (k_machine k) q im" if "may_remain m q im" for q im
      using that unfolding may_remain_def [of m] by blast
    then show ?thesis using p ki sl f False by auto
  qed
qed

lemma no_work:
  assumes i: "machine_inv d" and g: "all_good d" and w: "work_left left d = 0"
  shows "active d = {}"
proof -
  have fin: "finite (active d)" using finite_subset [OF _ machine_images_finite [OF i], of "active d"] by (auto simp: active_def)
  have "0 < cycles_left left d p" if p: "p \<in> active d" for p
  proof -
    obtain code regs where "program d p = Some (code, regs)" using p by (auto simp: active_def program_def)
    then show ?thesis using g p left_pos by (auto simp: all_good_def cycles_left_def)
  qed
  moreover have "\<forall>p \<in> active d. cycles_left left d p = 0" using w fin by (simp add: work_left_def)
  ultimately show ?thesis by fastforce
qed

lemma run_completes:
  assumes "kernel_inv k" "single_lane (m_sched (k_machine k))" "all_good (k_machine k)"
    "work_left left (k_machine k) \<le> n" "runForTicks_loop n done k b = (k', r)"
  shows "active (k_machine k') = {} \<and> kernel_inv k'
    \<and> r = (if active (k_machine k) = {} \<and> 0 < n \<and> \<not> done then Error NotFound else Ok ())
    \<and> (\<exists>t \<le> work_left left (k_machine k). Clock_now (m_clock (k_machine k')) = Clock_now (m_clock (k_machine k)) + of_nat t)
    \<and> (\<forall>q im. m_images (k_machine k') q = Some im \<longrightarrow> may_remain (k_machine k) q im)"
  using assms
proof (induction n arbitrary: k "done")
  case 0
  then have "active (k_machine k) = {}" using no_work [OF kernel_invD(1)] by simp
  then show ?case using 0 may_remain_idle by auto
next
  case (Suc n)
  obtain k1 r1 where t: "Kernel_tick k b = (k1, r1)" by fastforce
  note p = tick_progress [OF Suc.prems(1,2) t Suc.prems(3)]
  show ?case
  proof (cases "active (k_machine k) = {}")
    case True
    then have "k' = k1" "r = (if done then Ok () else Error NotFound)" using p Suc.prems(5) t by auto
    then show ?thesis using p True may_remain_idle by auto
  next
    case False
    then obtain t where tt: "Clock_now (m_clock (k_machine k1)) = Clock_now (m_clock (k_machine k)) + of_nat t"
        "work_left left (k_machine k1) + max 1 t \<le> work_left left (k_machine k)" using p by auto
    have "runForTicks_loop n True k1 b = (k', r)" using Suc.prems(5) t p False by auto
    moreover have "work_left left (k_machine k1) \<le> n" using tt(2) Suc.prems(4) by simp
    ultimately have h: "active (k_machine k') = {} \<and> kernel_inv k' \<and> r = Ok ()"
      "\<exists>t \<le> work_left left (k_machine k1). Clock_now (m_clock (k_machine k')) = Clock_now (m_clock (k_machine k1)) + of_nat t"
      "\<forall>q im. m_images (k_machine k') q = Some im \<longrightarrow> may_remain (k_machine k1) q im"
      using Suc.IH [of k1 True] p False by auto
    from h(2) obtain t' where t': "t' \<le> work_left left (k_machine k1)"
      "Clock_now (m_clock (k_machine k')) = Clock_now (m_clock (k_machine k1)) + of_nat t'" by blast
    have "\<exists>t \<le> work_left left (k_machine k). Clock_now (m_clock (k_machine k')) = Clock_now (m_clock (k_machine k)) + of_nat t"
      using t' tt by (intro exI [of _ "t + t'"]) simp
    moreover have "\<forall>q im. m_images (k_machine k') q = Some im \<longrightarrow> may_remain (k_machine k) q im"
      using h(3) p by blast
    ultimately show ?thesis using h(1) False by simp
  qed
qed

end

section \<open>Programs without backward jumps\<close>

text \<open>
  Every instruction but \<^verbatim>\<open>Halt\<close> has a successor in the code, jumps go forward within the code, memory is written beyond the code
  only, and neither the stack nor the program counter is used as a register.
\<close>

definition forward_block :: "block list \<Rightarrow> nat \<Rightarrow> bool" where
  "forward_block code i \<longleftrightarrow> (let b = code ! i in
     b_code b \<notin> {Push, Call, Return} \<and> unat (b_reg b) < 14
     \<and> (b_code b \<noteq> Halt \<longrightarrow> Suc i < length code)
     \<and> (isJump (b_code b) \<longrightarrow> i < unat (b_operand b) \<and> unat (b_operand b) < length code)
     \<and> (b_code b = WriteMemory \<longrightarrow> length code \<le> unat (b_operand b)))"

definition forward :: "block list \<Rightarrow> register_file \<Rightarrow> bool" where
  "forward code regs \<longleftrightarrow> wf_regs regs \<and> unat (RegisterFile_pc regs) < length code \<and> length code < 2 ^ 31
     \<and> (\<forall>i < length code. forward_block code i)"

definition to_end :: "block list \<Rightarrow> register_file \<Rightarrow> nat" where
  "to_end code regs = length code - unat (RegisterFile_pc regs)"

text \<open>The registers a cycle of such an instruction can leave: the program counter moves forward within the code.\<close>

lemma pc_set_other:
  "wf_regs regs \<Longrightarrow> unat r < 14 \<Longrightarrow> RegisterFile_pc (RegisterFile_set regs r v) = RegisterFile_pc regs"
  by (auto simp: RegisterFile_pc_def RegisterFile_get_def RegisterFile_set_def REGISTER_COUNT_def)

lemma executeAluOp_Ok:
  "executeAluOp i regs r v = (regs', IntOk) \<Longrightarrow> \<exists>x. regs' = RegisterFile_set regs r x"
  by (cases i) (auto simp: executeAluOp_def Let_def split: result.splits if_splits)

lemma unat_pc_succ:
  fixes pc :: "32 word"
  assumes "Suc (unat pc) < 2 ^ 31"
  shows "unat (s_add pc 1) = Suc (unat pc)"
proof -
  obtain n where n: "pc = word_of_nat n" "n = unat pc" by simp
  have "unat (word_of_nat (Suc n) :: 32 word) = Suc n"
    using assms n(2) by (simp add: unat_of_nat take_bit_nat_eq_self del: of_nat_Suc)
  then show ?thesis using pc_succ [of n] assms n by metis
qed

lemma forward_cycle:
  assumes wf: "wf_regs regs" and b: "PhysicalMemory_read m (RegisterFile_pc regs) = Ok b"
    and k: "b_code b \<notin> {Push, Call, Return, Halt}" "unat (b_reg b) < 14"
    and s: "Cpu_step c m regs = (c', m', regs', IntOk)"
  shows "wf_regs regs'
    \<and> (RegisterFile_pc regs' = s_add (RegisterFile_pc regs) 1 \<or> isJump (b_code b) \<and> RegisterFile_pc regs' = b_operand b)
    \<and> (\<forall>a. \<not> (b_code b = WriteMemory \<and> a = b_operand b) \<longrightarrow> PhysicalMemory_read m' a = PhysicalMemory_read m a)"
proof -
  have r: "unat (b_reg b) < REGISTER_COUNT" using k(2) by (simp add: REGISTER_COUNT_def)
  show ?thesis
    using s wf b k r
    by (cases "b_code b")
      (auto simp: Cpu_step_def Let_def isJump_def pc_set_other write_dest split: result.splits prod.splits if_splits
        dest!: executeAluOp_Ok)
qed

interpretation fwd: progress forward to_end
proof
  fix code regs m c c' m' regs'
  assume g: "forward code regs"
  then show "unat (RegisterFile_pc regs) < length code \<and> length code < 2 ^ 32" "0 < to_end code regs"
    by (simp_all add: forward_def to_end_def)
  assume l: "loaded m code" and s: "Cpu_step c m regs = (c', m', regs', IntOk)"
  let ?i = "unat (RegisterFile_pc regs)"
  have i: "?i < length code" "length code < 2 ^ 31" "wf_regs regs" and f: "\<forall>i < length code. forward_block code i"
    using g by (simp_all add: forward_def)
  note b = loaded_fetch [OF l i(1)]
  have fb: "forward_block code ?i" using f i(1) by blast
  have nh: "b_code (code ! ?i) \<noteq> Halt" using s b by (auto simp: Cpu_step_def Let_def isJump_def)
  have "b_code (code ! ?i) \<notin> {Push, Call, Return, Halt}" "unat (b_reg (code ! ?i)) < 14"
    using fb nh by (auto simp: forward_block_def Let_def)
  note v = forward_cycle [OF i(3) b this s]
  have "unat (s_add (RegisterFile_pc regs) 1) = Suc ?i" using i by (intro unat_pc_succ) simp
  then have pc: "?i < unat (RegisterFile_pc regs')" "unat (RegisterFile_pc regs') < length code"
    using v fb nh by (auto simp: forward_block_def Let_def)
  have "loaded m' code"
    unfolding loaded_def
  proof (intro allI impI)
    fix j assume j: "j < length code"
    then have u: "unat (word_of_nat j :: 32 word) = j" using i(2) by (simp add: unat_of_nat take_bit_nat_eq_self)
    have "\<not> (b_code (code ! ?i) = WriteMemory \<and> word_of_nat j = b_operand (code ! ?i))"
      using fb j u by (auto simp: forward_block_def Let_def)
    then show "PhysicalMemory_read m' (word_of_nat j) = Ok (code ! j)" using v l j by (auto simp: loaded_def)
  qed
  then show "forward code regs' \<and> loaded m' code \<and> to_end code regs' < to_end code regs"
    using v pc i f by (auto simp: forward_def to_end_def)
qed

section \<open>Properties\<close>

text \<open>
  C10: Workloads complete. On a kernel whose active processes run forward programs, under every scheduling policy and with every tick budget,
  \<^verbatim>\<open>runForTicks\<close> with at least as many cycles as there are instructions left leaves no process ready or running. It
  succeeds unless there was nothing to run, takes at most as many clock ticks as instructions are left, and
  a process that is still there was blocked before or blocked on an interrupt of its own program. If there was no such
  process, none is left and all frames and slots are free.
\<close>

theorem kernel_completes:
  assumes "kernel_inv k" "single_lane (m_sched (k_machine k))"
    and "\<forall>p \<in> active (k_machine k). \<forall>code regs. program (k_machine k) p = Some (code, regs) \<longrightarrow> forward code regs"
    and "work_left to_end (k_machine k) \<le> cycles" "Kernel_runForTicks k cycles b = (k', r)"
  shows "active (k_machine k') = {}
    \<and> r = (if active (k_machine k) = {} \<and> 0 < cycles then Error NotFound else Ok ())
    \<and> (\<exists>t \<le> work_left to_end (k_machine k). Kernel_now k' = Kernel_now k + of_nat t)
    \<and> (\<forall>q im. m_images (k_machine k') q = Some im \<longrightarrow> may_remain (k_machine k) q im)
    \<and> ((\<forall>q im. m_images (k_machine k) q = Some im \<longrightarrow> q \<in> active (k_machine k) \<and> (\<forall>b \<in> set (im_code im). b_code b \<noteq> Interrupt))
        \<longrightarrow> Kernel_processCount k' = 0
        \<and> Mmu_freeFrames (m_mmu (k_machine k')) = PhysicalMemory_size (m_mem (k_machine k'))
        \<and> VirtualMemory_freeSlots (m_vm (k_machine k')) = maxSlots (m_vm (k_machine k')))"
proof -
  have g: "fwd.all_good (k_machine k)" using assms(3) by (simp add: fwd.all_good_def)
  note v = fwd.run_completes [OF assms(1,2) g assms(4) assms(5) [unfolded Kernel_runForTicks_def]]
  have c: "dep_clock (k_deps k)" "dep_clock (k_deps k')"
    using kernel_invD [OF assms(1)] v kernel_invD [of k'] by simp_all
  have "Kernel_processCount k' = 0 \<and> Mmu_freeFrames (m_mmu (k_machine k')) = PhysicalMemory_size (m_mem (k_machine k'))
      \<and> VirtualMemory_freeSlots (m_vm (k_machine k')) = maxSlots (m_vm (k_machine k'))"
    if quiet: "\<forall>q im. m_images (k_machine k) q = Some im \<longrightarrow> q \<in> active (k_machine k) \<and> (\<forall>b \<in> set (im_code im). b_code b \<noteq> Interrupt)"
  proof -
    have "m_images (k_machine k') q \<noteq> Some im" for q im using v quiet by (fastforce simp: may_remain_def)
    then have "m_images (k_machine k') = Map.empty" by fastforce
    then show ?thesis
      using no_process_free [OF kernel_invD(1), of k'] v by (simp add: Kernel_processCount_def Dispatcher_processCount_def)
  qed
  then show ?thesis using v c by (simp add: Kernel_now_def)
qed

text \<open>The kernel with one process that halts.\<close>

definition halt_kernel :: kernel where
  "halt_kernel = kernel_exec (CreateK (\<lambda>_. sorted_list_of_set) halt_config) demo_kernel"

lemma enqueue_lanes: "Scheduler_enqueue sch store p now = ((sch', store'), r) \<Longrightarrow> single_lane sch' = single_lane sch"
  by (auto simp: Scheduler_enqueue_def Scheduler_enqueueToLane_def single_lane_def Let_def split: if_splits prod.splits)

lemma createProcess_lanes: "single_lane (m_sched (fst (Dispatcher_createProcess iter d im now))) = single_lane (m_sched d)"
  by (auto simp: Dispatcher_createProcess_def Let_def split: option.splits if_splits prod.splits result.splits dest!: enqueue_lanes)

lemma create_as_lanes: "single_lane (m_sched (k_machine (fst (create_as iter k config pid)))) = single_lane (m_sched (k_machine k))"
proof -
  let ?now = "Clock_now (m_clock (k_machine k))"
  obtain m c where "Dispatcher_createProcess iter (k_machine k) (Some (config_image config pid ?now)) ?now = (m, c)" by fastforce
  then show ?thesis
    using createProcess_lanes [of iter "k_machine k" "Some (config_image config pid ?now)" ?now]
    by (cases c) (simp_all add: create_as_def)
qed

lemma kernel_create_lanes:
  "single_lane (m_sched (k_machine (fst (Kernel_createProcess iter k config)))) = single_lane (m_sched (k_machine k))"
  by (auto simp: Kernel_createProcess_def allocatePid_def Let_def create_as_lanes split: prod.splits)

lemma halt_kernel_lanes: "single_lane (m_sched (k_machine halt_kernel))"
proof -
  have "single_lane (m_sched (k_machine demo_kernel))"
    by (simp add: demo_kernel_def Kernel_new_def single_lane_def demo_machine_def machine_new_def Scheduler_new_def)
  then show ?thesis by (simp add: halt_kernel_def kernel_create_lanes)
qed

theorem kernel_completes_witness:
  "single_lane (m_sched (k_machine halt_kernel)) \<and> active (k_machine halt_kernel) \<noteq> {}
   \<and> Kernel_processCount (fst (Kernel_runForTicks halt_kernel 1 4)) = 0"
proof -
  obtain pid im where p: "m_images (k_machine halt_kernel) = [pid \<mapsto> im]" "im_code im = [Block Halt 0 0 0]"
    "im_registers im = RegisterFile_new" "pcb_state (im_pcb im) = Ready"
    using demo_kernel_created unfolding halt_kernel_def by metis
  have i: "kernel_inv halt_kernel" unfolding halt_kernel_def using kernel_exec_inv [OF demo_kernel_inv demo_create_ok] .
  have a: "active (k_machine halt_kernel) = {pid}" using p(1,4) by (auto simp: active_def)
  have pr: "program (k_machine halt_kernel) pid = Some ([Block Halt 0 0 0], RegisterFile_new)" using p by (simp add: program_def)
  have f: "forward [Block Halt 0 0 0] RegisterFile_new" "to_end [Block Halt 0 0 0] RegisterFile_new = 1"
    by (simp_all add: forward_def to_end_def forward_block_def isJump_def RegisterFile_pc_def RegisterFile_get_def
        RegisterFile_new_def REGISTER_COUNT_def wf_regs_def)
  have w: "work_left to_end (k_machine halt_kernel) \<le> 1" using f(2) by (simp add: work_left_def a cycles_left_def pr)
  have g: "\<forall>p \<in> active (k_machine halt_kernel). \<forall>code regs. program (k_machine halt_kernel) p = Some (code, regs) \<longrightarrow> forward code regs"
    using f(1) by (simp add: a pr)
  have q: "\<forall>q im'. m_images (k_machine halt_kernel) q = Some im' \<longrightarrow>
      q \<in> active (k_machine halt_kernel) \<and> (\<forall>b \<in> set (im_code im'). b_code b \<noteq> Interrupt)"
    using p(1,2) a by (auto split: if_splits)
  have "Kernel_processCount (fst (Kernel_runForTicks halt_kernel 1 4)) = 0"
    using kernel_completes [OF i halt_kernel_lanes g w prod.collapse [symmetric], of 4] q by blast
  then show ?thesis using halt_kernel_lanes a by simp
qed

end
