(* ===== verification/Fairness.thy ===== *)
theory Fairness
  imports Workload
begin

text \<open>
  Round robin does not starve. The lane of the machine under the round robin policy is refined to an abstract lane, a set of
  waiting processes with the times they began to wait (\<open>rr_turn\<close>); there a rank of a waiting process
  decreases with every turn of another process, so that it is selected within as many dispatches as the other
  processes have time slices.
\<close>

section \<open>The abstract lane\<close>

record lane_view =
  lv_time :: nat
  lv_ready :: "process_id set"
  lv_running :: "process_id option"
  lv_stamp :: "process_id \<Rightarrow> nat"

text \<open>The order of the queue: the process that waits longest, then the smaller id.\<close>

definition position :: "lane_view \<Rightarrow> process_id \<Rightarrow> nat \<times> nat" where
  "position v p = (lv_stamp v p, unat p)"

definition first :: "lane_view \<Rightarrow> process_id \<Rightarrow> bool" where
  "first v q \<longleftrightarrow> q \<in> lv_ready v \<and> (\<forall>x \<in> lv_ready v. position v q \<le> position v x)"

text \<open>A burst of the running process: time passes while it keeps running, or it leaves the lane.\<close>

definition burst :: "lane_view \<Rightarrow> process_id \<Rightarrow> lane_view \<Rightarrow> bool" where
  "burst v q v' \<longleftrightarrow> lv_ready v' = lv_ready v \<and> (\<forall>x \<in> lv_ready v. lv_stamp v' x = lv_stamp v x)
     \<and> (lv_running v' = Some q \<and> lv_stamp v' q = lv_stamp v q \<and> lv_time v < lv_time v'
        \<or> lv_running v' = None \<and> lv_time v \<le> lv_time v')"

definition switch_to :: "lane_view \<Rightarrow> process_id set \<Rightarrow> (process_id \<Rightarrow> nat) \<Rightarrow> process_id \<Rightarrow> lane_view" where
  "switch_to v ready stamp q = v\<lparr>lv_ready := ready - {q}, lv_running := Some q, lv_stamp := stamp(q := lv_time v)\<rparr>"

text \<open>A turn of process \<open>q\<close>: the running process keeps its slice, or the first of the queue starts, with or without preempting.\<close>

inductive rr_turn :: "nat \<Rightarrow> lane_view \<Rightarrow> process_id \<Rightarrow> lane_view \<Rightarrow> bool" for ts where
  keep: "\<lbrakk>lv_running v = Some q; lv_ready v = {} \<or> lv_time v - lv_stamp v q < ts; burst v q v'\<rbrakk> \<Longrightarrow> rr_turn ts v q v'"
| start: "\<lbrakk>lv_running v = None; first v q; burst (switch_to v (lv_ready v) (lv_stamp v) q) q v'\<rbrakk> \<Longrightarrow> rr_turn ts v q v'"
| preempt: "\<lbrakk>lv_running v = Some r; ts \<le> lv_time v - lv_stamp v r; first v q;
    burst (switch_to v (insert r (lv_ready v)) ((lv_stamp v)(r := lv_time v)) q) q v'\<rbrakk> \<Longrightarrow> rr_turn ts v q v'"

definition lane_ok :: "lane_view \<Rightarrow> bool" where
  "lane_ok v \<longleftrightarrow> finite (lv_ready v) \<and> (\<forall>x \<in> lv_ready v. lv_stamp v x \<le> lv_time v \<and> lv_running v \<noteq> Some x)
     \<and> (\<forall>r. lv_running v = Some r \<longrightarrow> lv_stamp v r \<le> lv_time v)"

section \<open>The rank of a waiting process\<close>

definition ahead :: "lane_view \<Rightarrow> process_id \<Rightarrow> process_id set" where
  "ahead v p = {q \<in> lv_ready v. position v q < position v p}"

text \<open>
  The turns before \<open>p\<close>: a slice for each process ahead of it, and the rest of the slice of the running process; one more slice
  if that process is about to be preempted and, on a tie of the times, goes back to the queue ahead of \<open>p\<close>.
\<close>

definition rest :: "nat \<Rightarrow> lane_view \<Rightarrow> process_id \<Rightarrow> nat" where
  "rest ts v p =
     (case lv_running v of
        None \<Rightarrow> 0
      | Some r \<Rightarrow> if lv_time v - lv_stamp v r < ts then ts - (lv_time v - lv_stamp v r)
                  else if (lv_time v, unat r) < position v p then ts else 0)"

definition rank :: "nat \<Rightarrow> lane_view \<Rightarrow> process_id \<Rightarrow> nat" where
  "rank ts v p = card (ahead v p) * ts + rest ts v p"

lemma rest_le: "rest ts v p \<le> ts"
  by (simp add: rest_def split: option.splits)

lemma finite_ahead: "lane_ok v \<Longrightarrow> finite (ahead v p)"
  by (simp add: lane_ok_def ahead_def)

lemma first_ahead:
  assumes "first v q" "p \<in> lv_ready v" "q \<noteq> p"
  shows "q \<in> ahead v p"
proof -
  have "position v q \<noteq> position v p" using assms(3) by (simp add: position_def word_unat_eq_iff)
  then show ?thesis using assms by (auto simp: first_def ahead_def less_le)
qed

text \<open>After a burst that follows the start of \<open>q\<close>, less than a slice is left to \<open>q\<close> and a tie with \<open>p\<close> is over.\<close>

lemma rest_after:
  assumes "burst v q v'" "lv_running v = Some q" "lv_stamp v q \<le> lv_time v" "lv_stamp v' p \<le> lv_time v" "0 < ts"
  shows "rest ts v' p < ts" "lv_time v - lv_stamp v q < ts \<Longrightarrow> rest ts v' p < ts - (lv_time v - lv_stamp v q)"
proof -
  have n: "\<not> (lv_time v', unat q) < position v' p" if "lv_time v < lv_time v'" using that assms(4) by (simp add: position_def)
  show "rest ts v' p < ts"
    using assms n by (auto simp: burst_def rest_def)
  show "rest ts v' p < ts - (lv_time v - lv_stamp v q)" if "lv_time v - lv_stamp v q < ts"
    using assms n that by (auto simp: burst_def rest_def)
qed

lemma burst_ahead:
  assumes "burst v q v'" "p \<in> lv_ready v"
  shows "ahead v' p = ahead v p"
  using assms by (auto simp: burst_def ahead_def position_def)

lemma burst_ok:
  assumes "burst v q v'" "lane_ok v" "lv_running v = Some q"
  shows "lane_ok v'"
  using assms by (fastforce simp: burst_def lane_ok_def)

section \<open>Every turn of another process decreases the rank\<close>

lemma switch_ok:
  assumes "finite R" "\<forall>x \<in> R. st x \<le> lv_time v"
  shows "lane_ok (switch_to v R st q)"
  using assms by (auto simp: lane_ok_def switch_to_def)

lemma rank_switch:
  assumes p: "p \<in> R" "q \<noteq> p" and st: "st p = lv_stamp v p" "lv_stamp v p \<le> lv_time v" and ts: "0 < ts"
    and b: "burst (switch_to v R st q) q v'"
  shows "p \<in> lv_ready v' \<and> rank ts v' p < card {x \<in> R - {q}. (st x, unat x) < position v p} * ts + ts"
proof -
  let ?u = "switch_to v R st q"
  have pu: "p \<in> lv_ready ?u" using p by (simp add: switch_to_def)
  have "ahead ?u p = {x \<in> R - {q}. (st x, unat x) < position v p}"
    using p st(1) by (auto simp: ahead_def switch_to_def position_def)
  moreover have "lv_stamp v' p = lv_stamp ?u p" using b pu by (simp add: burst_def)
  moreover have "lv_stamp ?u p = lv_stamp v p" "lv_running ?u = Some q" "lv_stamp ?u q = lv_time v" "lv_time ?u = lv_time v"
    using p(2) st(1) by (simp_all add: switch_to_def)
  ultimately show ?thesis
    using burst_ahead [OF b pu] rest_after(1) [OF b, of p ts] st(2) ts b pu by (simp add: rank_def burst_def)
qed

lemma turn_ok:
  assumes "rr_turn ts v q v'" "lane_ok v"
  shows "lane_ok v'"
  using assms(1)
proof cases
  case keep
  then show ?thesis using burst_ok assms(2) by blast
next
  case start
  show ?thesis
    by (rule burst_ok [OF start(3) switch_ok]) (use assms(2) in \<open>simp_all add: lane_ok_def switch_to_def\<close>)
next
  case (preempt r)
  show ?thesis
    by (rule burst_ok [OF preempt(4) switch_ok]) (use assms(2) in \<open>simp_all add: lane_ok_def switch_to_def\<close>)
qed

lemma turn_decreases:
  assumes t: "rr_turn ts v q v'" and ok: "lane_ok v" and p: "p \<in> lv_ready v" "q \<noteq> p" and ts: "0 < ts"
  shows "p \<in> lv_ready v' \<and> rank ts v' p < rank ts v p"
  using t
proof cases
  case keep
  then have k: "lv_time v - lv_stamp v q < ts" using p(1) by auto
  have s: "lv_stamp v q \<le> lv_time v" "lv_stamp v p \<le> lv_time v" using ok p(1) keep(1) by (auto simp: lane_ok_def)
  have "lv_stamp v' p = lv_stamp v p" using keep(3) p(1) by (simp add: burst_def)
  then have "rest ts v' p < ts - (lv_time v - lv_stamp v q)"
    using rest_after(2) [OF keep(3,1) s(1), of p ts] s(2) ts k by simp
  moreover have "rest ts v p = ts - (lv_time v - lv_stamp v q)" using keep(1) k by (simp add: rest_def)
  ultimately show ?thesis
    using burst_ahead [OF keep(3) p(1)] keep(3) p(1) by (simp add: rank_def burst_def)
next
  case start
  have s: "\<forall>x \<in> lv_ready v. lv_stamp v x \<le> lv_time v" "finite (lv_ready v)" using ok by (simp_all add: lane_ok_def)
  have "{x \<in> lv_ready v - {q}. (lv_stamp v x, unat x) < position v p} = ahead v p - {q}" by (auto simp: ahead_def position_def)
  moreover have "card (ahead v p - {q}) * ts + ts = card (ahead v p) * ts"
    using card.remove [OF finite_ahead [OF ok] first_ahead [OF start(2) p]] by simp
  ultimately have "p \<in> lv_ready v' \<and> rank ts v' p < card (ahead v p) * ts"
    using rank_switch [OF p(1,2) refl _ ts start(3)] s p(1) by simp
  then show ?thesis by (simp add: rank_def)
next
  case (preempt r)
  let ?st = "(lv_stamp v)(r := lv_time v)" and ?R = "insert r (lv_ready v)"
  have s: "\<forall>x \<in> lv_ready v. lv_stamp v x \<le> lv_time v" "finite (lv_ready v)" "r \<notin> lv_ready v"
    using ok preempt(1) by (auto simp: lane_ok_def)
  have pr: "p \<noteq> r" using p(1) s(3) by auto
  let ?tie = "if (lv_time v, unat r) < position v p then {r} else {}"
  have "{x \<in> ?R - {q}. (?st x, unat x) < position v p} \<subseteq> (ahead v p - {q}) \<union> ?tie"
    using s(3) by (auto simp: ahead_def position_def split: if_splits)
  then have "card {x \<in> ?R - {q}. (?st x, unat x) < position v p} \<le> card ((ahead v p - {q}) \<union> ?tie)"
    using finite_ahead [OF ok, of p] by (intro card_mono) simp_all
  also have "\<dots> \<le> card (ahead v p - {q}) + card ?tie" by (rule card_Un_le)
  finally have "card {x \<in> ?R - {q}. (?st x, unat x) < position v p} \<le> card (ahead v p - {q}) + card ?tie" .
  then have "card {x \<in> ?R - {q}. (?st x, unat x) < position v p} * ts + ts \<le> (card (ahead v p - {q}) + card ?tie) * ts + ts"
    by simp
  moreover have "card ?tie * ts = rest ts v p" using preempt(1,2) by (simp add: rest_def)
  moreover have "card (ahead v p) = Suc (card (ahead v p - {q}))"
    using card.remove [OF finite_ahead [OF ok] first_ahead [OF preempt(3) p]] by simp
  ultimately have "card {x \<in> ?R - {q}. (?st x, unat x) < position v p} * ts + ts \<le> rank ts v p"
    by (simp add: rank_def add_mult_distrib)
  moreover have "p \<in> lv_ready v' \<and> rank ts v' p < card {x \<in> ?R - {q}. (?st x, unat x) < position v p} * ts + ts"
    using p(1) pr s(1) by (intro rank_switch [OF _ p(2) _ _ ts preempt(4)]) auto
  ultimately show ?thesis by simp
qed

lemma rank_bound:
  assumes ok: "lane_ok v" and p: "p \<in> lv_ready v"
  shows "rank ts v p \<le> (card (lv_ready v \<union> set_option (lv_running v)) - 1) * ts"
proof -
  have "ahead v p \<subseteq> lv_ready v - {p}" by (auto simp: ahead_def)
  then have a: "card (ahead v p) \<le> card (lv_ready v) - 1"
    using card_mono [of "lv_ready v - {p}"] ok p by (simp add: lane_ok_def)
  have c: "0 < card (lv_ready v)" using ok p by (auto simp: lane_ok_def card_gt_0_iff)
  show ?thesis
  proof (cases "lv_running v")
    case None
    then show ?thesis using a by (simp add: rank_def rest_def)
  next
    case (Some r)
    then have "card (lv_ready v \<union> set_option (lv_running v)) = Suc (card (lv_ready v))"
      using ok by (auto simp: lane_ok_def)
    moreover have "card (ahead v p) * ts + rest ts v p \<le> (card (lv_ready v) - 1) * ts + ts"
      using a rest_le [of ts v p] by (intro add_mono mult_le_mono1)
    ultimately show ?thesis using c by (cases "card (lv_ready v)") (simp_all add: rank_def)
  qed
qed

section \<open>The lane of the machine\<close>

definition lane_of :: "machine \<Rightarrow> lane_view" where
  "lane_of d = \<lparr>lv_time = unat (Clock_now (m_clock d)), lv_ready = set (readyByLane (m_sched d) ! 0),
     lv_running = runningByLane (m_sched d) ! 0,
     lv_stamp = (\<lambda>p. unat (lastStateChange (pcb_timing (store_of (m_images d) p))))\<rparr>"

text \<open>A machine with one lane under round robin, whose processes entered their states in the past.\<close>

definition rr_machine :: "nat \<Rightarrow> machine \<Rightarrow> bool" where
  "rr_machine ts d \<longleftrightarrow> machine_inv d \<and> length (readyByLane (m_sched d)) = 1 \<and> sch_policy (m_sched d) = Some (RoundRobinPolicy ts)
     \<and> 0 < ts \<and> (\<forall>q \<in> active d. lastStateChange (pcb_timing (store_of (m_images d) q)) \<le> Clock_now (m_clock d))"

lemma rr_machineD:
  assumes "rr_machine ts d"
  shows "machine_inv d" "single_lane (m_sched d)" "0 < length (readyByLane (m_sched d))" "length (runningByLane (m_sched d)) = 1"
    "sch_policy (m_sched d) = Some (RoundRobinPolicy ts)" "0 < ts"
    "active d = lv_ready (lane_of d) \<union> set_option (lv_running (lane_of d))"
  using assms sched_invD(2) [OF machine_invD(1), of d] active_lane [of d]
  by (auto simp: rr_machine_def single_lane_def lane_of_def on_lane_def)

lemma lane_of_ok:
  assumes r: "rr_machine ts d"
  shows "lane_ok (lane_of d)"
proof -
  note d = rr_machineD [OF r] and i = machine_invD(1) [OF rr_machineD(1) [OF r]]
  have "lv_stamp (lane_of d) q \<le> lv_time (lane_of d)" if "q \<in> active d" for q
    using r that by (simp add: rr_machine_def lane_of_def word_le_nat_alt)
  moreover have "runningByLane (m_sched d) ! 0 \<noteq> Some x" if "x \<in> set (readyByLane (m_sched d) ! 0)" for x
    using inv_not_both(2) [OF i d(3) that _ d(3)] by blast
  ultimately show ?thesis using d(7) by (auto simp: lane_ok_def lane_of_def)
qed

lemma best_first:
  assumes r: "rr_machine ts d" and ne: "readyByLane (m_sched d) ! 0 \<noteq> []"
  defines "best \<equiv> policy_selectNext (RoundRobinPolicy ts) (asConst (store_of (m_images d)) (readyByLane (m_sched d) ! 0)) (Clock_now (m_clock d))"
  shows "first (lane_of d) best"
proof -
  let ?st = "store_of (m_images d)" and ?q = "readyByLane (m_sched d) ! 0"
  have id: "pcb_id (?st p) = p" for p using sched_invD(4) [OF machine_invD(1) [OF rr_machineD(1) [OF r]]] by simp
  have "asConst ?st ?q \<noteq> []" using ne by (simp add: asConst_def)
  from selectNext_best [OF this, of "RoundRobinPolicy ts" "Clock_now (m_clock d)"] obtain b where
    b: "b \<in> set ?q" "best = b"
      "\<forall>x \<in> set ?q. policy_key (RoundRobinPolicy ts) (toSnapshot (?st b)) \<le> policy_key (RoundRobinPolicy ts) (toSnapshot (?st x))"
    unfolding best_def by (auto simp: asConst_def toSnapshot_def id)
  then show ?thesis
    by (auto simp: first_def lane_of_def position_def toSnapshot_def id less_eq_prod_def simp del: of_nat_unat)
qed

lemma store_of_commit:
  assumes "\<And>p. p \<notin> dom images \<Longrightarrow> store p = store_of images p"
  shows "store_of (commit images store) = store"
proof
  show "store_of (commit images store) p = store p" for p
    using assms [of p] by (cases "images p") (auto simp: store_of_def commit_def domIff)
qed

text \<open>The stamps that state changes leave.\<close>

lemma stamp_setState:
  assumes "isValidTransition (pcb_state (store p)) s"
  shows "(\<lambda>x. unat (lastStateChange (pcb_timing (fst (store_setState store p s now) x))))
    = (\<lambda>x. unat (lastStateChange (pcb_timing (store x))))(p := unat now)"
  using setState_valid(3) [OF assms, of now] by (auto simp: store_setState_def fun_eq_iff split: prod.splits)

lemma elapsed_slice:
  "lastStateChange (pcb_timing b) \<le> now
   \<Longrightarrow> policy_shouldPreempt (RoundRobinPolicy ts) (toSnapshot b) s now
     \<longleftrightarrow> ts \<le> unat now - unat (lastStateChange (pcb_timing b))"
  by (simp add: RoundRobin_shouldPreempt_def toSnapshot_def unat_sub)

lemma select_lane:
  assumes r: "rr_machine ts d"
    and e: "Scheduler_selectNext (m_sched d) (store_of (m_images d)) (Clock_now (m_clock d)) = ((sch, store), Ok q)"
  defines "d1 \<equiv> d\<lparr>m_sched := sch, m_images := commit (m_images d) store\<rparr>"
  shows "lv_running (lane_of d) = Some q \<and> lane_of d1 = lane_of d
      \<and> (lv_ready (lane_of d) = {} \<or> lv_time (lane_of d) - lv_stamp (lane_of d) q < ts)
    \<or> lv_running (lane_of d) = None \<and> first (lane_of d) q
      \<and> lane_of d1 = switch_to (lane_of d) (lv_ready (lane_of d)) (lv_stamp (lane_of d)) q
    \<or> (\<exists>r. lv_running (lane_of d) = Some r \<and> ts \<le> lv_time (lane_of d) - lv_stamp (lane_of d) r \<and> first (lane_of d) q
      \<and> lane_of d1 = switch_to (lane_of d) (insert r (lv_ready (lane_of d))) ((lv_stamp (lane_of d))(r := lv_time (lane_of d))) q)"
proof -
  note m = rr_machineD [OF r]
  let ?st = "store_of (m_images d)" and ?now = "Clock_now (m_clock d)"
  note i = machine_invD [OF m(1)] and e0 = e [unfolded Scheduler_selectNext_def]
  note s = sched_invD [OF i(1)]
  have out: "store p = ?st p" if "p \<notin> dom (m_images d)" for p
  proof -
    have "p \<notin> on_lane (m_sched d) 0" using that active_lane [OF m(1,2)] by (auto simp: active_def)
    then show ?thesis using select_view [OF i(1) m(3,5) e0] by blast
  qed
  then have l1: "lane_of d1 = \<lparr>lv_time = unat ?now, lv_ready = set (readyByLane sch ! 0), lv_running = runningByLane sch ! 0,
      lv_stamp = (\<lambda>p. unat (lastStateChange (pcb_timing (store p))))\<rparr>"
    by (simp add: lane_of_def d1_def store_of_commit)
  have old: "lastStateChange (pcb_timing (?st x)) \<le> ?now" if "runningByLane (m_sched d) ! 0 = Some x" for x
    using r that m(7) by (simp add: rr_machine_def lane_of_def)
  show ?thesis
    using i(1) m(3,5) e0
  proof (cases rule: select_cases)
    case (keep x)
    then have "lane_of d1 = lane_of d" "x = q" unfolding l1 by (simp_all add: lane_of_def)
    moreover have "lv_ready (lane_of d) = {} \<or> lv_time (lane_of d) - lv_stamp (lane_of d) q < ts"
      using keep elapsed_slice [OF old [OF keep(1)]] \<open>x = q\<close> by (auto simp: lane_of_def not_le)
    ultimately show ?thesis using keep(1) by (simp add: lane_of_def)
  next
    case (start best)
    have "isValidTransition (pcb_state (?st best)) Running" using s(6) [OF m(3) start(2)] by simp
    note st = stamp_setState [where store = ?st and now = ?now, OF this]
    have "readyByLane (m_sched d) ! 0 \<noteq> []" using start(2) by auto
    then have "first (lane_of d) best" using best_first [OF r] start(1) by simp
    moreover have "lane_of d1 = switch_to (lane_of d) (lv_ready (lane_of d)) (lv_stamp (lane_of d)) best"
      unfolding l1 using start(6,7,11) st m(3,4) by (simp add: lane_of_def switch_to_def)
    ultimately show ?thesis using start(3,4) by (simp add: lane_of_def)
  next
    case (preempt best x)
    have "isValidTransition (pcb_state (?st x)) Ready" using s(7) [OF m(3) preempt(3)] by simp
    note s1 = stamp_setState [where store = ?st and now = ?now, OF this]
    have bx: "best \<noteq> x" using inv_not_both(2) [OF i(1) m(3) preempt(2), of 0] preempt(3) m(3) by auto
    have "isValidTransition (pcb_state (fst (store_setState ?st x Ready ?now) best)) Running"
      using s(6) [OF m(3) preempt(2)] bx by (simp add: store_setState_other)
    note s2 = stamp_setState [where store = "fst (store_setState ?st x Ready ?now)" and now = ?now, OF this]
    have "readyByLane (m_sched d) ! 0 \<noteq> []" using preempt(2) by auto
    then have "first (lane_of d) best" using best_first [OF r] preempt(1) by simp
    moreover have "lane_of d1 = switch_to (lane_of d) (insert x (lv_ready (lane_of d))) ((lv_stamp (lane_of d))(x := lv_time (lane_of d))) best"
      unfolding l1 using preempt(7,8,12) s1 s2 m(3,4) by (simp add: lane_of_def switch_to_def)
    moreover have "ts \<le> lv_time (lane_of d) - lv_stamp (lane_of d) x"
      using preempt(4) elapsed_slice [OF old [OF preempt(3)]] by (simp add: lane_of_def)
    ultimately show ?thesis using preempt(3,5) by (simp add: lane_of_def)
  qed simp
qed

text \<open>A burst of the selected process, as the abstract lane sees it.\<close>

lemma stop_queues:
  assumes i: "machine_inv d" and one: "length (runningByLane (m_sched d)) = 1" and r: "runningByLane (m_sched d) ! 0 = Some pid"
    and im: "m_images d pid \<noteq> None" and e: "dispatch_stop d pid reason = (d', res)" and b: "reason \<noteq> BudgetExhausted"
  shows "readyByLane (m_sched d') = readyByLane (m_sched d)" "runningByLane (m_sched d') ! 0 = None"
    "sch_policy (m_sched d') = sch_policy (m_sched d)"
proof -
  have fl: "findRunningLane (m_sched d) pid = Some 0" using one r by (simp add: findRunningLane_def)
  have "pid \<in> processes (m_sched d)" using machine_invD(3) [OF i] im by auto
  then show "readyByLane (m_sched d') = readyByLane (m_sched d)" "runningByLane (m_sched d') ! 0 = None"
    "sch_policy (m_sched d') = sch_policy (m_sched d)"
    using e b fl one r sched_invD(2) [OF machine_invD(1) [OF i]] sched_invD(7) [OF machine_invD(1) [OF i], of 0 pid]
    by (auto simp: dispatch_stop_def Scheduler_blockProcess_def Scheduler_terminate_def block_lane_def store_setState_def
        PCB_setState_def Let_def split: stop_reason.splits prod.splits if_splits)
qed

lemma dispatch_burst_lane:
  assumes i: "machine_inv d" and one: "length (runningByLane (m_sched d)) = 1" and r: "runningByLane (m_sched d) ! 0 = Some pid"
    and im: "m_images d pid = Some im" and x: "dispatch_run d pid im n = (d2, er)"
    and e: "dispatch_stop d2 pid (er_reason er) = (d', res)"
    and n: "0 < n" "unat (Clock_now (m_clock d)) + n < 2 ^ 64"
  shows "burst (lane_of d) pid (lane_of d')" "unat (Clock_now (m_clock d')) \<le> unat (Clock_now (m_clock d)) + n"
    "sch_policy (m_sched d') = sch_policy (m_sched d)"
proof -
  note w = dispatch_run_inv [OF i im x]
  obtain im2 where im2: "m_images d2 pid = Some im2" using w by auto
  have run2: "Some pid \<in> set (runningByLane (m_sched d2))" using w one r by (metis nth_mem zero_less_one)
  note y = dispatch_stop_view [OF _ run2 im2 e]
  have "unat (of_nat (er_ticks er) :: tick) = er_ticks er" using w n(2) by (simp add: unat_of_nat take_bit_nat_eq_self)
  then have t: "unat (Clock_now (m_clock d')) = unat (Clock_now (m_clock d)) + er_ticks er"
    using w y n(2) by (simp add: unat_plus_if' )
  show "unat (Clock_now (m_clock d')) \<le> unat (Clock_now (m_clock d)) + n" using t w by simp
  have same: "store_of (m_images d') q = store_of (m_images d) q" if "q \<noteq> pid" for q
    using w y that by (simp add: store_of_def)
  have nr: "pid \<notin> set (readyByLane (m_sched d) ! 0)"
    using inv_not_both(2) [OF machine_invD(1) [OF i], of 0 pid 0] r sched_invD(1) [OF machine_invD(1) [OF i]] by auto
  then have sr: "\<forall>x \<in> set (readyByLane (m_sched d) ! 0). store_of (m_images d') x = store_of (m_images d) x"
    using same by metis
  show "burst (lane_of d) pid (lane_of d')" "sch_policy (m_sched d') = sch_policy (m_sched d)"
  proof (atomize (full), cases "er_reason er = BudgetExhausted")
    case True
    have "d' = d2" using y w True by simp
    moreover have "er_ticks er = n" using x True execute_exhausted by (auto simp: dispatch_run_def split: prod.splits)
    moreover have "store_of (m_images d2) pid = store_of (m_images d) pid"
      using x im by (auto simp: dispatch_run_def store_of_def dest!: execute_pcb split: prod.splits)
    ultimately show "burst (lane_of d) pid (lane_of d') \<and> sch_policy (m_sched d') = sch_policy (m_sched d)"
      using t n(1) w r sr by (auto simp: burst_def lane_of_def)
  next
    case False
    note q = stop_queues [OF _ _ _ _ e False]
    show "burst (lane_of d) pid (lane_of d') \<and> sch_policy (m_sched d') = sch_policy (m_sched d)"
      using q w one r t sr by (auto simp: burst_def lane_of_def)
  qed
qed

text \<open>A dispatch is a turn of the process the scheduler selects.\<close>

definition next_process :: "machine \<Rightarrow> process_id result" where
  "next_process d = snd (Scheduler_selectNext (m_sched d) (store_of (m_images d)) (Clock_now (m_clock d)))"

lemma dispatch_turn:
  assumes r: "rr_machine ts d" and a: "active d \<noteq> {}" and e: "Dispatcher_dispatch d n = (d', res)"
    and n: "0 < n" "unat (Clock_now (m_clock d)) + n < 2 ^ 64"
  obtains q where "next_process d = Ok q" "rr_turn ts (lane_of d) q (lane_of d')" "rr_machine ts d'"
    "unat (Clock_now (m_clock d')) \<le> unat (Clock_now (m_clock d)) + n"
  using rr_machineD(1) [OF r] e
proof (cases rule: dispatch_parts)
  case empty
  then show thesis using a by (auto simp: active_def)
next
  case (none sch store x)
  then show thesis using dispatch_active [OF rr_machineD(1,2) [OF r] e a] by blast
next
  case (run sch store pid im d1 d2 er)
  note m = rr_machineD [OF r]
  note e0 = run(2) [unfolded Scheduler_selectNext_def]
  note v = select_view [OF machine_invD(1) [OF m(1)] m(3,5) e0]
  have l1: "length (runningByLane (m_sched d1)) = 1" "runningByLane (m_sched d1) ! 0 = Some pid"
    using sched_invD(2) [OF machine_invD(1) [OF run(4)]] v m(2) run(3,6) by (simp_all add: single_lane_def)
  have c1: "unat (Clock_now (m_clock d1)) + n < 2 ^ 64" using n(2) run(3) by simp
  note b = dispatch_burst_lane [OF run(4) l1 run(8,9,10) n(1) c1]
  have t: "rr_turn ts (lane_of d) pid (lane_of d')"
    using select_lane [OF r run(2)] b(1) unfolding run(3) [symmetric] by (auto intro: rr_turn.intros)
  have i': "machine_inv d'" using dispatch_view [OF m(1) e] by blast
  have sl: "single_lane (m_sched d')" using dispatch_lanes [OF m(1) e] m(2) by simp
  have "\<forall>q \<in> active d'. lastStateChange (pcb_timing (store_of (m_images d') q)) \<le> Clock_now (m_clock d')"
    using turn_ok [OF t lane_of_ok [OF r]] active_lane [OF i' sl]
    by (auto simp: lane_ok_def lane_of_def on_lane_def word_le_nat_alt elem_set)
  then have "rr_machine ts d'" using i' sl b(3) v m(5,6) run(3) by (simp add: rr_machine_def single_lane_def)
  then show thesis using that [of pid] t b(2) run(2,3) by (simp add: next_process_def)
qed

fun dispatches :: "machine \<Rightarrow> nat list \<Rightarrow> machine" where
  "dispatches d [] = d"
| "dispatches d (n # ns) = dispatches (fst (Dispatcher_dispatch d n)) ns"

lemma served_within_rank:
  assumes "rr_machine ts d" "p \<in> lv_ready (lane_of d)" "rank ts (lane_of d) p \<le> length ns" "\<forall>n \<in> set ns. 0 < n"
    "unat (Clock_now (m_clock d)) + sum_list ns + 1 < 2 ^ 64"
  shows "\<exists>j \<le> length ns. next_process (dispatches d (take j ns)) = Ok p"
  using assms
proof (induction ns arbitrary: d)
  case Nil
  have a: "active d \<noteq> {}" using Nil.prems(2) rr_machineD(7) [OF Nil.prems(1)] by auto
  obtain d' res where e: "Dispatcher_dispatch d 1 = (d', res)" by fastforce
  show ?case
  proof (rule dispatch_turn [OF Nil.prems(1) a e])
    fix q assume q: "next_process d = Ok q" "rr_turn ts (lane_of d) q (lane_of d')"
    show ?case
      using turn_decreases [OF q(2) lane_of_ok [OF Nil.prems(1)] Nil.prems(2) _ rr_machineD(6) [OF Nil.prems(1)]] q(1) Nil.prems(3)
      by (cases "q = p") auto
  qed (use Nil.prems(5) in auto)
next
  case (Cons n ns)
  have a: "active d \<noteq> {}" using Cons.prems(2) rr_machineD(7) [OF Cons.prems(1)] by auto
  obtain d' res where e: "Dispatcher_dispatch d n = (d', res)" by fastforce
  show ?case
  proof (rule dispatch_turn [OF Cons.prems(1) a e])
    fix q assume q: "next_process d = Ok q" "rr_turn ts (lane_of d) q (lane_of d')" "rr_machine ts d'"
      "unat (Clock_now (m_clock d')) \<le> unat (Clock_now (m_clock d)) + n"
    show ?case
    proof (cases "q = p")
      case True
      then show ?thesis using q(1) by (intro exI [of _ 0]) simp
    next
      case False
      note t = turn_decreases [OF q(2) lane_of_ok [OF Cons.prems(1)] Cons.prems(2) False rr_machineD(6) [OF Cons.prems(1)]]
      have "\<exists>j \<le> length ns. next_process (dispatches d' (take j ns)) = Ok p"
        by (rule Cons.IH [OF q(3)]) (use t Cons.prems q(4) in auto)
      then obtain j where "j \<le> length ns" "next_process (dispatches d' (take j ns)) = Ok p" by blast
      then show ?thesis using e by (intro exI [of _ "Suc j"]) simp
    qed
  qed (use Cons.prems(4,5) in auto)
qed

section \<open>Properties\<close>

text \<open>
  C11: Round robin does not starve a process. On a machine under round robin with time slice \<open>ts\<close> a ready process is
  selected after at most (the number of the other active processes) times \<open>ts\<close> dispatches, whatever budgets (at least one tick) these have
  and whatever the processes before it do, as long as the clock does not overflow.
\<close>

theorem round_robin_fair:
  assumes "rr_machine ts d" "p \<in> set (readyByLane (m_sched d) ! 0)"
    and "(card (active d) - 1) * ts \<le> length ns" "\<forall>n \<in> set ns. 0 < n"
    and "unat (Clock_now (m_clock d)) + sum_list ns + 1 < 2 ^ 64"
  shows "\<exists>j \<le> length ns. next_process (dispatches d (take j ns)) = Ok p"
proof (rule served_within_rank [OF assms(1) _ _ assms(4,5)])
  show p: "p \<in> lv_ready (lane_of d)" using assms(2) by (simp add: lane_of_def)
  show "rank ts (lane_of d) p \<le> length ns"
    using rank_bound [OF lane_of_ok [OF assms(1)] p, of ts] assms(3) rr_machineD(7) [OF assms(1)] by simp
qed

text \<open>Creating a process at the current time keeps a round robin machine one.\<close>

lemma rr_machine_create:
  assumes r: "rr_machine ts d" and it: "\<forall>k. iter_ok (iter k)" and im: "pcb_state (im_pcb im) = New" "length (im_code im) \<le> 2 ^ 32"
    and e: "Dispatcher_createProcess iter d (Some im) (Clock_now (m_clock d)) = (d', Ok ())"
  shows "rr_machine ts d'"
proof -
  note m = rr_machineD [OF r] and v = createProcess_view [OF rr_machineD(1) [OF r] it im e]
  note f = createProcess_frame [OF e]
  obtain im' where im': "m_images d' = (m_images d)(ProcessImage_id im \<mapsto> im')"
    "lastStateChange (pcb_timing (im_pcb im')) = Clock_now (m_clock d)" using v by auto
  have "lastStateChange (pcb_timing (store_of (m_images d') q)) \<le> Clock_now (m_clock d')" if "q \<in> active d'" for q
    using r that im' f(3) by (cases "q = ProcessImage_id im") (auto simp: rr_machine_def active_def store_of_def)
  then show ?thesis using r v f by (simp add: rr_machine_def)
qed

text \<open>Two processes that halt, on the machine with two cells and time slice 4.\<close>

lemma two_processes:
  obtains d where "rr_machine 4 d" "active d = {1, 2}" "readyByLane (m_sched d) = [[1, 2]]" "Clock_now (m_clock d) = 0"
proof -
  let ?create = "Dispatcher_createProcess (\<lambda>_. sorted_list_of_set)"
  have r0: "rr_machine 4 demo_machine" and q0: "readyByLane (m_sched demo_machine) = [[]]" and c0: "Clock_now (m_clock demo_machine) = 0"
    using demo_machine_inv by (simp_all add: rr_machine_def active_def demo_images, simp_all add: demo_machine_def machine_new_def
        Scheduler_new_def SimulationClock_new_def Clock_now_def)
  obtain d1 r1 where e1: "?create demo_machine (Some (halt_image 1)) 0 = (d1, r1)" by fastforce
  note v1 = createProcess_view [OF demo_machine_inv _ _ _ e1]
  have o1: "r1 = Ok ()" using v1 demo_free by (simp add: iter_ok_sorted INVALID_PID_def demo_images)
  obtain im1 where im1: "m_images d1 = [1 \<mapsto> im1]" "pcb_state (im_pcb im1) = Ready" using v1 o1 by (auto simp: iter_ok_sorted demo_images)
  have i1: "machine_inv d1" "m_images d1 2 = None" "readyByLane (m_sched d1) = [[1]]" "dom (m_images d1) = {1}"
    using v1 o1 q0 im1(1) by (simp_all add: iter_ok_sorted)
  note f1 = createProcess_frame [OF e1 [unfolded o1]] and s1 = create_frames [OF demo_machine_inv _ _ e1]
  have fr: "Mmu_freeFrames (m_mmu d1) = 1" and sl: "maxSlots (m_vm d1) = 4"
    using s1 o1 demo_free by (simp_all add: iter_ok_sorted demo_machine_def machine_new_def VirtualMemory_new_def)
  have fs: "0 < VirtualMemory_freeSlots (m_vm d1)"
    using sl machine_invD(4) [OF i1(1)] i1(4) by (simp add: VirtualMemory_freeSlots_def)
  obtain d2 r2 where e2: "?create d1 (Some (halt_image 2)) 0 = (d2, r2)" by fastforce
  note v2 = createProcess_view [OF i1(1) _ _ _ e2]
  have o2: "r2 = Ok ()" using v2 i1(2) fr fs by (simp add: iter_ok_sorted INVALID_PID_def)
  have c: "Clock_now (m_clock d1) = 0" "Clock_now (m_clock d2) = 0" using f1(3) createProcess_frame(3) [OF e2 [unfolded o2]] c0 by simp_all
  have "rr_machine 4 d1" by (rule rr_machine_create [OF r0 _ _ _ e1 [unfolded o1, folded c0]]) (simp_all add: iter_ok_sorted)
  then have "rr_machine 4 d2" by (rule rr_machine_create [OF _ _ _ _ e2 [unfolded o2, folded c(1)]]) (simp_all add: iter_ok_sorted)
  moreover have "readyByLane (m_sched d2) = [[1, 2]]" using v2 o2 i1(3) by (simp add: iter_ok_sorted)
  moreover have "active d2 = {1, 2}" using v2 o2 im1 by (auto simp: iter_ok_sorted active_def split: if_splits)
  ultimately show thesis using that c(2) by blast
qed

theorem round_robin_fair_witness:
  "\<exists>d. rr_machine 4 d \<and> active d = {1, 2} \<and> (\<exists>j \<le> length [1, 1, 1, 1 :: nat]. next_process (dispatches d (take j [1, 1, 1, 1])) = Ok 2)"
proof (rule two_processes)
  fix d assume d: "rr_machine 4 d" "active d = {1, 2}" "readyByLane (m_sched d) = [[1, 2]]" "Clock_now (m_clock d) = 0"
  show ?thesis
    using round_robin_fair [OF d(1), of 2 "[1, 1, 1, 1]"] d by (intro exI [of _ d] conjI) (blast, blast, simp)
qed

end
