(* ===== verification/Spec2Isabelle.thy ===== *)
theory Spec2Isabelle
  imports Deadlock Ipc Pool_Protocol Fs_Correct App Fairness
begin

text \<open>
  Contur 2, a simulator of an operating system kernel in C++20 (sources under \<^verbatim>\<open>src/src/contur\<close>, headers under
  \<^verbatim>\<open>src/src/include/contur\<close>, application under \<^verbatim>\<open>src/src/app\<close>), as a library of shallow definitions in HOL with the theorems that
  make it correct.

  \<^bold>\<open>The program.\<close> A process is an image (code, registers, control block). The dispatcher creates it, giving it a slot of
  virtual memory and a place in the scheduler; on each tick it asks the scheduler for a process, lets the interpreter engine run a burst
  of it on the CPU, advances the clock and reacts to the way the burst ended. The kernel is the facade over these parts, with the
  table of system calls and named synchronisation primitives. Beside it stand the multiprocessor dispatchers, a deadlock
  detector, inter-process communication, a filesystem, devices, tracing, and a text user interface that replays snapshots
  of the kernel.

  \<^bold>\<open>Theories, in the order of the program's layers.\<close>

  \<^item> \<^verbatim>\<open>Prelude\<close>, \<^verbatim>\<open>Core\<close>: \<^verbatim>\<open>core/\<close>. Integer types at their width, error codes and \<^verbatim>\<open>Result\<close>, signed 32-bit arithmetic,
    the algorithms of the standard library, the clock and the event dispatcher.
  \<^item> \<^verbatim>\<open>Arch\<close>, \<^verbatim>\<open>Cpu\<close>, \<^verbatim>\<open>Physical_Memory\<close>: \<^verbatim>\<open>arch/\<close>, \<^verbatim>\<open>cpu/\<close>, \<^verbatim>\<open>memory/physical_memory.cpp\<close>. Instructions, registers,
    ALU, the fetch-decode-execute step, memory cells (locale \<^verbatim>\<open>imemory\<close>).
  \<^item> \<^verbatim>\<open>Process\<close>, \<^verbatim>\<open>Execution_Engine\<close>: \<^verbatim>\<open>process/\<close>, \<^verbatim>\<open>execution/\<close>. Control blocks with their state machine and time
    accounting; bursts. A burst is the bounded iteration of the CPU step, and preemption is transparent to one
    process; the flags of the CPU are not part of an image, and what this means for a process that is resumed is a theorem.
  \<^item> \<^verbatim>\<open>Page_Table\<close>, \<^verbatim>\<open>Page_Replacement\<close>, \<^verbatim>\<open>Mmu\<close>, \<^verbatim>\<open>Virtual_Memory\<close>: \<^verbatim>\<open>memory/\<close>. The four replacement policies behind one
    locale (\<^verbatim>\<open>page_replacement\<close>), each with its specification; the memory management unit, whose invariant says that every frame is free
    or backs one page and every page is in memory or in swap, so that swapping changes the content of no address; slots.
  \<^item> \<^verbatim>\<open>Sched_Policy\<close>, \<^verbatim>\<open>Scheduler\<close>, \<^verbatim>\<open>Dispatcher\<close>: \<^verbatim>\<open>scheduling/\<close>, \<^verbatim>\<open>dispatch/dispatcher.cpp\<close>. The seven policies with their rounding
    (locales \<^verbatim>\<open>strict_weak_order\<close>, \<^verbatim>\<open>scheduling\<close>); ready, running and blocked processes over lanes: each known process is in exactly
    one place; creation, bursts and termination keep scheduler, memory and process table in agreement and leak nothing.
  \<^item> \<^verbatim>\<open>Syscall\<close>, \<^verbatim>\<open>Sync\<close>, \<^verbatim>\<open>Kernel\<close>: \<^verbatim>\<open>syscall/\<close>, \<^verbatim>\<open>sync/\<close>, \<^verbatim>\<open>kernel/\<close>. Mutex and semaphore with priority
    inheritance behind one locale (\<^verbatim>\<open>sync_interface\<close>); all kernel calls, the builder, and snapshots that are consistent after any
    sequence of calls.
  \<^item> \<^verbatim>\<open>Workload\<close>, \<^verbatim>\<open>Fairness\<close>: what these layers achieve together. Processes whose jumps all lead forward terminate on a kernel
    of any policy and tick budget (locale \<^verbatim>\<open>progress\<close>, interpreted on the bursts of the engine); round robin starves nobody: the
    ticks refine the turns of an abstract queue (\<open>rr_turn\<close>), on which a rank falls until the waiting process runs.
  \<^item> \<^verbatim>\<open>Cycle_Search\<close>, \<^verbatim>\<open>Deadlock\<close>: \<^verbatim>\<open>sync/deadlock_detector.cpp\<close>. Depth-first search against reachability, the banker's algorithm
    against the existence of a safe order.
  \<^item> \<^verbatim>\<open>Ipc\<close>: \<^verbatim>\<open>ipc/\<close>. Pipes, message queues, shared memory behind one locale (\<^verbatim>\<open>channel_interface\<close>), and the manager.
  \<^item> \<^verbatim>\<open>Tracing\<close>, \<^verbatim>\<open>Dispatch_Runtime\<close>, \<^verbatim>\<open>Pool_Protocol\<close>: \<^verbatim>\<open>tracing/\<close>, \<^verbatim>\<open>dispatch/\<close>. Serial runtime, multiprocessor dispatcher and the worker pool as
    interleaved steps of its workers; every schedule gives the result of the serial runtime (locale \<^verbatim>\<open>independent_lanes\<close>) and it
    completes once every worker has had enough turns. The protocol of the threads (posting, waiting, stopping) does each job once and
    never deadlocks.
  \<^item> \<^verbatim>\<open>Block_Store\<close>, \<^verbatim>\<open>Simple_Fs\<close>, \<^verbatim>\<open>Fs_Correct\<close>: \<^verbatim>\<open>fs/\<close>. Blocks (locale \<^verbatim>\<open>block_pool\<close>), descriptors, the operations, and their
    correctness: a tree of nodes with disjoint blocks, byte-level refinement of writes, removal, type and capacity.
  \<^item> \<^verbatim>\<open>Devices\<close>: \<^verbatim>\<open>io/\<close>. Console, loopback network and the manager (locale \<^verbatim>\<open>device_call\<close>).
  \<^item> \<^verbatim>\<open>Tui\<close>, \<^verbatim>\<open>Tui_App\<close>, \<^verbatim>\<open>App\<close>: \<^verbatim>\<open>tui/\<close>, \<^verbatim>\<open>app/main.cpp\<close>. History buffer, read model, controller with autoplay (locale
    \<^verbatim>\<open>timeline\<close>, interpreted on the kernel); the keys, timer and panels of the application, the renderer; the demo kernel and its processes.

  \<^bold>\<open>Conventions.\<close> A class is a record, a method a function from the object to the object it leaves and its result; a
  \<^verbatim>\<open>Result\<close> is a value of the type \<open>result\<close>, so that every error return is a branch. Classes that refer to others receive
  them as arguments. Names are those of the source, \<^verbatim>\<open>Class_method\<close>. Machine integers are words where they can wrap; \<^verbatim>\<open>std::size_t\<close> counts
  and indices of containers in memory are natural numbers, as are the 64-bit counters of trace events. Undefined behaviour of C++ is
  \<open>undefined\<close> or \<open>None\<close>, and the theorems show where it cannot happen. The iteration order of a hash container is an argument, for
  which the theorems assume only that it enumerates the container (\<open>iter_ok\<close>). Code outside the repository (system call handlers of a
  client, the painting of FTXUI, the tick callback of the controller) is an argument as well.

  \<^bold>\<open>Loops\<close> are recursive functions that are proved to terminate; there is no fuel. The worker pool runs by a schedule, the list of
  the workers that step; completion is proved however the workers were scheduled before, once each has had enough turns.

  \<^bold>\<open>Not modelled.\<close> Objects that were moved from; the tracing macros, which are compiled out by default; the threads below the level of
  atomic steps (a section under a mutex is one step, a wait is possible when its predicate holds); the painting of view trees by FTXUI; the
  view interfaces without implementation; destructors. Calls that hold a mutex are one step.
\<close>

end
